(* ===== verification/Prelude.thy ===== *)
theory Prelude
  imports Complex_Main "HOL-Library.Multiset" "HOL-Library.Product_Lexorder"
begin

text \<open>
  Shared material of the development: the two-pointer walks over key-sorted
  sequences that the geometry helpers, the multi-version quadtree and the
  PaC-tree all contain, as functions over an arbitrary key, with the
  multiset and order facts every client uses; and the collections of rewrite
  rules that the component theories fill.
\<close>

named_theorems fl_simps \<open>evaluation of binary64 arithmetic\<close>

named_theorems seq_simps \<open>contents of the sequences the routines build\<close>

section \<open>Sequences sorted by a key\<close>

definition sorted_by :: "('a \<Rightarrow> 'k::linorder) \<Rightarrow> 'a list \<Rightarrow> bool" where
  "sorted_by key xs \<longleftrightarrow> sorted (map key xs)"

definition strict_by :: "('a \<Rightarrow> 'k::linorder) \<Rightarrow> 'a list \<Rightarrow> bool" where
  "strict_by key xs \<longleftrightarrow> sorted_by key xs \<and> distinct (map key xs)"

lemma sorted_by_Nil [simp]: "sorted_by key []"
  by (simp add: sorted_by_def)

lemma sorted_by_Cons: "sorted_by key (x # xs) \<longleftrightarrow> (\<forall>y\<in>set xs. key x \<le> key y) \<and> sorted_by key xs"
  by (auto simp: sorted_by_def)

lemma sorted_by_append:
  "sorted_by key (xs @ ys) \<longleftrightarrow>
     sorted_by key xs \<and> sorted_by key ys \<and> (\<forall>x\<in>set xs. \<forall>y\<in>set ys. key x \<le> key y)"
  by (auto simp: sorted_by_def sorted_append)

lemma sorted_by_take: "sorted_by key xs \<Longrightarrow> sorted_by key (take n xs)"
  unfolding sorted_by_def by (simp add: take_map [symmetric] sorted_wrt_take)

lemma sorted_by_drop: "sorted_by key xs \<Longrightarrow> sorted_by key (drop n xs)"
  unfolding sorted_by_def by (simp add: drop_map [symmetric] sorted_wrt_drop)

lemma sorted_by_filter: "sorted_by key xs \<Longrightarrow> sorted_by key (filter P xs)"
  by (induction xs) (auto simp: sorted_by_Cons)

lemma sorted_by_sort_key: "sorted_by key (sort_key key xs)"
  by (simp add: sorted_by_def)

lemma strict_by_Nil [simp]: "strict_by key []"
  by (simp add: strict_by_def)

lemma strict_by_Cons: "strict_by key (x # xs) \<longleftrightarrow> (\<forall>y\<in>set xs. key x < key y) \<and> strict_by key xs"
  by (fastforce simp: strict_by_def sorted_by_Cons less_le image_iff)

lemma strict_by_append:
  "strict_by key (xs @ ys) \<longleftrightarrow>
     strict_by key xs \<and> strict_by key ys \<and> (\<forall>x\<in>set xs. \<forall>y\<in>set ys. key x < key y)"
  by (induction xs) (auto simp: strict_by_Cons)

lemma strict_by_sorted_by: "strict_by key xs \<Longrightarrow> sorted_by key xs"
  by (simp add: strict_by_def)

lemma strict_by_filter: "strict_by key xs \<Longrightarrow> strict_by key (filter P xs)"
  by (induction xs) (auto simp: strict_by_Cons)

text \<open>The multiset of keys of a sequence, the abstraction most statements use.\<close>

definition keys_of :: "('a \<Rightarrow> 'k) \<Rightarrow> 'a list \<Rightarrow> 'k multiset" where
  "keys_of key xs = image_mset key (mset xs)"

lemma keys_of_simps [simp]:
  "keys_of key [] = {#}"
  "keys_of key (x # xs) = add_mset (key x) (keys_of key xs)"
  "keys_of key (xs @ ys) = keys_of key xs + keys_of key ys"
  by (simp_all add: keys_of_def)

lemma set_keys_of [simp]: "set_mset (keys_of key xs) = key ` set xs"
  by (simp add: keys_of_def)

lemma keys_of_mset_cong: "mset xs = mset ys \<Longrightarrow> keys_of key xs = keys_of key ys"
  by (simp add: keys_of_def)

section \<open>The stable two-way merge\<close>

text \<open>
  \<open>merge_by\<close> is the loop of \<open>seq_merge\<close> in parlay: the element of the second
  sequence is taken only when it is strictly smaller.
\<close>

fun merge_by :: "('a \<Rightarrow> 'k::linorder) \<Rightarrow> 'a list \<Rightarrow> 'a list \<Rightarrow> 'a list" where
  "merge_by key [] ys = ys"
| "merge_by key xs [] = xs"
| "merge_by key (x # xs) (y # ys) =
     (if key y < key x then y # merge_by key (x # xs) ys else x # merge_by key xs (y # ys))"

lemma merge_by_Nil2 [simp]: "merge_by key xs [] = xs"
  by (cases xs) auto

lemma mset_merge_by [simp, seq_simps]: "mset (merge_by key xs ys) = mset xs + mset ys"
  by (induction key xs ys rule: merge_by.induct) auto

lemma set_merge_by [simp, seq_simps]: "set (merge_by key xs ys) = set xs \<union> set ys"
  by (metis mset_merge_by set_mset_mset set_mset_union)

lemma length_merge_by [simp]: "length (merge_by key xs ys) = length xs + length ys"
  by (metis mset_merge_by size_mset size_union)

lemma sorted_merge_by: "sorted_by key xs \<Longrightarrow> sorted_by key ys \<Longrightarrow> sorted_by key (merge_by key xs ys)"
  by (induction key xs ys rule: merge_by.induct) (force simp: sorted_by_Cons)+

section \<open>The two-pointer difference\<close>

text \<open>
  \<open>diff_by kx ky xs ys\<close> walks both sequences; an entry of \<open>xs\<close> whose key
  meets an equal key of \<open>ys\<close> is dropped together with it.
\<close>

fun diff_by :: "('a \<Rightarrow> 'k::linorder) \<Rightarrow> ('b \<Rightarrow> 'k) \<Rightarrow> 'a list \<Rightarrow> 'b list \<Rightarrow> 'a list" where
  "diff_by kx ky [] ys = []"
| "diff_by kx ky xs [] = xs"
| "diff_by kx ky (x # xs) (y # ys) =
     (if kx x = ky y then diff_by kx ky xs ys
      else if kx x < ky y then x # diff_by kx ky xs (y # ys)
      else diff_by kx ky (x # xs) ys)"

lemma diff_by_Nil2 [simp]: "diff_by kx ky xs [] = xs"
  by (cases xs) auto

lemma set_diff_by: "set (diff_by kx ky xs ys) \<subseteq> set xs"
  by (induction kx ky xs ys rule: diff_by.induct) auto

lemma in_diff_byD: "z \<in> set (diff_by kx ky xs ys) \<Longrightarrow> z \<in> set xs"
  using set_diff_by by fastforce

lemma length_diff_by: "length (diff_by kx ky xs ys) \<le> length xs"
  by (induction kx ky xs ys rule: diff_by.induct) auto

lemma sorted_diff_by: "sorted_by kx xs \<Longrightarrow> sorted_by kx (diff_by kx ky xs ys)"
  by (induction kx ky xs ys rule: diff_by.induct)
     (auto simp: sorted_by_Cons dest: in_diff_byD)

lemma strict_diff_by: "strict_by kx xs \<Longrightarrow> strict_by kx (diff_by kx ky xs ys)"
  by (induction kx ky xs ys rule: diff_by.induct)
     (auto simp: strict_by_Cons dest: in_diff_byD)

lemma minus_notin_mset: "\<forall>y\<in>#B. y \<notin># A \<Longrightarrow> A - B = (A :: 'k multiset)"
  by (induction B arbitrary: A) (auto simp: diff_single_trivial)

lemma add_mset_minus_notin: "x \<notin># B \<Longrightarrow> add_mset x A - B = add_mset x (A - B)"
  by (auto simp: multiset_eq_iff not_in_iff)

lemma keys_diff_by:
  "sorted_by kx xs \<Longrightarrow> sorted_by ky ys \<Longrightarrow>
   keys_of kx (diff_by kx ky xs ys) = keys_of kx xs - keys_of ky ys"
proof (induction kx ky xs ys rule: diff_by.induct)
  case (3 kx ky x xs y ys)
  consider "kx x = ky y" | "kx x < ky y" | "ky y < kx x" by fastforce
  then show ?case
  proof cases
    case 1 then show ?thesis using 3 by (simp add: sorted_by_Cons)
  next
    case 2
    then have "kx x \<notin># keys_of ky (y # ys)" using "3.prems" by (auto simp: sorted_by_Cons)
    then show ?thesis using 2 3 by (simp add: sorted_by_Cons add_mset_minus_notin)
  next
    case 3
    then have "ky y \<notin># keys_of kx (x # xs)" using "3.prems" by (auto simp: sorted_by_Cons)
    then show ?thesis using 3 "3.prems" "3.IH"
      by (simp add: sorted_by_Cons minus_add_mset_if_not_in_lhs)
  qed
qed simp_all

text \<open>On strictly sorted sequences the walk is a filter.\<close>

lemma diff_by_filter:
  "strict_by kx xs \<Longrightarrow> sorted_by ky ys \<Longrightarrow>
   diff_by kx ky xs ys = filter (\<lambda>x. kx x \<notin> ky ` set ys) xs"
proof (induction kx ky xs ys rule: diff_by.induct)
  case (3 kx ky x xs y ys)
  consider "kx x = ky y" | "kx x < ky y" | "ky y < kx x" by fastforce
  then show ?case
  proof cases
    case 1
    then have "\<forall>z\<in>set xs. kx z \<noteq> ky y" using "3.prems" by (auto simp: strict_by_Cons)
    then show ?thesis using 1 3 by (auto simp: strict_by_Cons sorted_by_Cons intro!: filter_cong)
  next
    case 2
    then have "kx x \<notin> ky ` set (y # ys)" using "3.prems" by (auto simp: sorted_by_Cons)
    then show ?thesis using 2 3 by (simp add: strict_by_Cons)
  next
    case 3
    then have "\<forall>z\<in>set (x # xs). kx z \<noteq> ky y" using "3.prems" by (auto simp: strict_by_Cons)
    then have "filter (\<lambda>z. kx z \<notin> ky ` set (y # ys)) (x # xs) = filter (\<lambda>z. kx z \<notin> ky ` set ys) (x # xs)"
      by (intro filter_cong) auto
    moreover from 3 have "\<not> kx x < ky y" "kx x \<noteq> ky y" by auto
    ultimately show ?thesis using "3.prems" "3.IH"(3) by (simp add: sorted_by_Cons del: filter.simps)
  qed
qed simp_all

section \<open>The two-pointer intersection\<close>

fun common_by :: "('a \<Rightarrow> 'k::linorder) \<Rightarrow> ('b \<Rightarrow> 'k) \<Rightarrow> 'a list \<Rightarrow> 'b list \<Rightarrow> 'a list" where
  "common_by kx ky [] ys = []"
| "common_by kx ky xs [] = []"
| "common_by kx ky (x # xs) (y # ys) =
     (if kx x = ky y then x # common_by kx ky xs ys
      else if kx x < ky y then common_by kx ky xs (y # ys)
      else common_by kx ky (x # xs) ys)"

lemma common_by_Nil2 [simp]: "common_by kx ky xs [] = []"
  by (cases xs) auto

lemma mset_diff_common: "mset (diff_by kx ky xs ys) + mset (common_by kx ky xs ys) = mset xs"
  by (induction kx ky xs ys rule: diff_by.induct) auto

lemma set_common_by: "set (common_by kx ky xs ys) \<subseteq> set xs"
  by (metis mset_diff_common set_mset_mset set_mset_union sup.cobounded2)

lemma common_by_filter:
  "strict_by kx xs \<Longrightarrow> sorted_by ky ys \<Longrightarrow>
   common_by kx ky xs ys = filter (\<lambda>x. kx x \<in> ky ` set ys) xs"
proof (induction kx ky xs ys rule: common_by.induct)
  case (3 kx ky x xs y ys)
  consider "kx x = ky y" | "kx x < ky y" | "ky y < kx x" by fastforce
  then show ?case
  proof cases
    case 1
    then have "\<forall>z\<in>set xs. kx z \<noteq> ky y" using "3.prems" by (auto simp: strict_by_Cons)
    then show ?thesis using 1 3 by (auto simp: strict_by_Cons sorted_by_Cons intro!: filter_cong)
  next
    case 2
    then have "kx x \<notin> ky ` set (y # ys)" using "3.prems" by (auto simp: sorted_by_Cons)
    then show ?thesis using 2 3 by (simp add: strict_by_Cons)
  next
    case 3
    then have "\<forall>z\<in>set (x # xs). kx z \<noteq> ky y" using "3.prems" by (auto simp: strict_by_Cons)
    then have "filter (\<lambda>z. kx z \<in> ky ` set (y # ys)) (x # xs) = filter (\<lambda>z. kx z \<in> ky ` set ys) (x # xs)"
      by (intro filter_cong) auto
    moreover from 3 have "\<not> kx x < ky y" "kx x \<noteq> ky y" by auto
    ultimately show ?thesis using "3.prems" "3.IH"(3) by (simp add: sorted_by_Cons del: filter.simps)
  qed
qed simp_all

text \<open>Sorting a sequence whose keys are distinct makes it strictly sorted.\<close>

lemma strict_by_sort_key: "distinct (map key xs) \<Longrightarrow> strict_by key (sort_key key xs)"
  by (metis mset_map mset_sort sorted_by_sort_key strict_by_def mset_eq_imp_distinct_iff)

end
