(* ===== verification/Floats.thy ===== *)
theory Floats
  imports Prelude "HOL-Library.Log_Nat"
begin

text \<open>
  The C++ type \<open>double\<close>, which \<open>point.hpp\<close> names \<open>FT\<close>. A finite
  double is a rational number; an arithmetic operation computes the exact rational
  result and rounds it to the nearest representable number, ties to even, as IEEE 754
  binary64 prescribes: 53 significant bits, exponent at least \<open>-1022\<close> (below it
  the spacing stays constant, the subnormal numbers). Overflow to infinity and NaN
  are not modelled: the exponent has no upper bound here.
\<close>

type_synonym FT = rat

section \<open>Powers of two and the binary exponent\<close>

definition pow2 :: "int \<Rightarrow> rat" where
  "pow2 k = power_int 2 k"

lemma pow2_pos [simp]: "0 < pow2 k"
  by (simp add: pow2_def)

lemma pow2_nonneg [simp]: "0 \<le> pow2 k"
  by (simp add: less_imp_le)

lemma pow2_neq_0 [simp]: "pow2 k \<noteq> 0"
  by (simp add: pow2_def)

lemma pow2_0 [simp]: "pow2 0 = 1"
  by (simp add: pow2_def)

lemma pow2_add: "pow2 (a + b) = pow2 a * pow2 b"
  by (simp add: pow2_def power_int_add)

lemma pow2_diff: "pow2 (a - b) = pow2 a / pow2 b"
  by (simp add: pow2_def power_int_diff)

lemma pow2_strict_mono: "a < b \<Longrightarrow> pow2 a < pow2 b"
  by (simp add: pow2_def power_int_strict_increasing)

lemma pow2_less_iff [simp]: "pow2 a < pow2 b \<longleftrightarrow> a < b"
  by (metis pow2_strict_mono less_asym linorder_less_linear)

lemma pow2_le_iff [simp]: "pow2 a \<le> pow2 b \<longleftrightarrow> a \<le> b"
  by (simp flip: not_less)

lemma pow2_nat: "0 \<le> k \<Longrightarrow> pow2 k = of_int (2 ^ nat k)"
  by (simp add: pow2_def power_int_def)

lemma pow2_of_nat: "pow2 (int k) = of_int (2 ^ k)"
  by (simp add: pow2_nat)

text \<open>\<open>expo x\<close>, for \<open>0 < x\<close>, is the exponent \<open>e\<close> with \<open>2^e \<le> x < 2^(e+1)\<close>.\<close>

definition expo :: "rat \<Rightarrow> int" where
  "expo x = (case quotient_of x of (n, d) \<Rightarrow>
     let e = bitlen n - bitlen d in if pow2 e \<le> x then e else e - 1)"

lemma bitlen_pow2_bounds:
  assumes "0 < n"
  shows "pow2 (bitlen n - 1) \<le> of_int n" "of_int n < pow2 (bitlen n)"
proof -
  have b: "2 ^ nat (bitlen n - 1) \<le> n \<and> n < 2 ^ nat (bitlen n)"
    using bitlen_bounds [OF assms] .
  have "1 \<le> bitlen n" using assms by (simp add: bitlen_def floorlog_def)
  then have "pow2 (bitlen n - 1) = of_int (2 ^ nat (bitlen n - 1))"
    "pow2 (bitlen n) = of_int (2 ^ nat (bitlen n))" by (simp_all add: pow2_nat)
  with b show "pow2 (bitlen n - 1) \<le> of_int n" "of_int n < pow2 (bitlen n)"
    by (simp_all only: of_int_le_iff of_int_less_iff)
qed

lemma expo_bounds:
  assumes "0 < x"
  shows "pow2 (expo x) \<le> x" "x < pow2 (expo x + 1)"
proof -
  obtain n d where q: "quotient_of x = (n, d)" by (cases "quotient_of x")
  have d: "0 < d" using quotient_of_denom_pos [OF q] .
  have x: "x = of_int n / of_int d" using quotient_of_div [OF q] .
  have n: "0 < n" using assms d x by (simp add: zero_less_divide_iff)
  define e where "e = bitlen n - bitlen d"
  have up: "x < pow2 (e + 1)"
  proof -
    have "x < pow2 (bitlen n) / pow2 (bitlen d - 1)"
      unfolding x using bitlen_pow2_bounds [OF n] bitlen_pow2_bounds [OF d] d
      by (intro frac_less) (use n in auto)
    then show ?thesis by (simp add: e_def pow2_diff [symmetric] algebra_simps)
  qed
  have lo: "pow2 (e - 1) \<le> x"
  proof -
    have "pow2 (bitlen n - 1) / pow2 (bitlen d) \<le> x"
      unfolding x using bitlen_pow2_bounds [OF n] bitlen_pow2_bounds [OF d] d
      by (intro frac_le) (use n in auto)
    then show ?thesis by (simp add: e_def pow2_diff [symmetric] algebra_simps)
  qed
  have ex: "expo x = (if pow2 e \<le> x then e else e - 1)"
    by (simp add: expo_def q e_def Let_def)
  show "pow2 (expo x) \<le> x" "x < pow2 (expo x + 1)"
    using up lo by (auto simp: ex)
qed

lemma expo_unique:
  assumes "pow2 e \<le> x" "x < pow2 (e + 1)" shows "expo x = e"
proof -
  have p: "0 < x" using assms(1) pow2_pos [of e] by linarith
  have "pow2 (expo x) < pow2 (e + 1)" "pow2 e < pow2 (expo x + 1)"
    using expo_bounds [OF p] assms by linarith+
  then show ?thesis by simp
qed

lemma expo_mono: assumes "0 < x" "x \<le> y" shows "expo x \<le> expo y"
proof -
  have "pow2 (expo x) < pow2 (expo y + 1)"
    using expo_bounds [of x] expo_bounds [of y] assms by linarith
  then show ?thesis by simp
qed

section \<open>Rounding to an integer, ties to even\<close>

definition rhe :: "rat \<Rightarrow> int" where
  "rhe x = (let f = \<lfloor>x\<rfloor>; d = x - of_int f in
     if d < 1 / 2 then f else if 1 / 2 < d then f + 1 else if even f then f else f + 1)"

lemma rhe_of_int [simp]: "rhe (of_int n) = n"
  by (simp add: rhe_def)

lemma rhe_floor: "\<lfloor>x\<rfloor> \<le> rhe x" "rhe x \<le> \<lfloor>x\<rfloor> + 1"
  by (auto simp: rhe_def Let_def)

lemma rhe_mono: assumes "x \<le> y" shows "rhe x \<le> rhe y"
proof (cases "\<lfloor>x\<rfloor> = \<lfloor>y\<rfloor>")
  case True
  then show ?thesis using assms by (auto simp: rhe_def Let_def)
next
  case False
  then have "\<lfloor>x\<rfloor> + 1 \<le> \<lfloor>y\<rfloor>" using floor_mono [OF assms] by linarith
  then show ?thesis using rhe_floor(2) [of x] rhe_floor(1) [of y] by linarith
qed

lemma rhe_minus: "rhe (- x) = - rhe x"
proof (cases "x \<in> \<int>")
  case True
  then obtain n where "x = of_int n" by (auto elim: Ints_cases)
  then have "- x = of_int (- n)" by simp
  then show ?thesis using rhe_of_int [of n] rhe_of_int [of "- n"] \<open>x = of_int n\<close> by simp
next
  case False
  have "\<lfloor>- x\<rfloor> = - \<lceil>x\<rceil>" by (simp add: floor_minus)
  moreover have "\<lceil>x\<rceil> = \<lfloor>x\<rfloor> + 1" using False by (simp add: ceiling_altdef Ints_def image_iff)
  ultimately have "\<lfloor>- x\<rfloor> = - \<lfloor>x\<rfloor> - 1" by simp
  then show ?thesis by (auto simp: rhe_def Let_def)
qed

section \<open>Rounding to binary64\<close>

definition ulp_exp :: "rat \<Rightarrow> int" where
  "ulp_exp x = max (expo \<bar>x\<bar>) (- 1022) - 52"

definition rnd64 :: "rat \<Rightarrow> FT" where
  "rnd64 x = (if x = 0 then 0
     else of_int (rhe (x / pow2 (ulp_exp x))) * pow2 (ulp_exp x))"

text \<open>The values of the type \<open>double\<close>: what rounding leaves alone.\<close>

definition is_double :: "rat \<Rightarrow> bool" where
  "is_double x \<longleftrightarrow> rnd64 x = x"

lemma rnd64_0 [simp]: "rnd64 0 = 0"
  by (simp add: rnd64_def)

lemma rnd64_minus: "rnd64 (- x) = - rnd64 x"
  by (simp add: rnd64_def ulp_exp_def rhe_minus)

lemma rnd64_nonneg: assumes "0 \<le> x" shows "0 \<le> rnd64 x"
proof -
  have "rhe 0 \<le> rhe (x / pow2 (ulp_exp x))"
    by (rule rhe_mono) (use assms in simp)
  then show ?thesis using rhe_of_int [of 0] by (simp add: rnd64_def)
qed

lemma rnd64_mono_pos: assumes "0 < x" "x \<le> y" shows "rnd64 x \<le> rnd64 y"
proof -
  define a where "a = ulp_exp x" define b where "b = ulp_exp y"
  have ab: "a \<le> b" using expo_mono [OF assms] assms by (simp add: a_def b_def ulp_exp_def)
  have rx: "rnd64 x = of_int (rhe (x / pow2 a)) * pow2 a"
    and ry: "rnd64 y = of_int (rhe (y / pow2 b)) * pow2 b"
    using assms by (simp_all add: rnd64_def a_def b_def)
  show ?thesis
  proof (cases "a = b")
    case True
    have "rhe (x / pow2 a) \<le> rhe (y / pow2 a)"
      by (rule rhe_mono) (use assms in \<open>simp add: divide_right_mono\<close>)
    then show ?thesis unfolding rx ry using True by simp
  next
    case False
    with ab have "a < b" by simp
    then have eb: "b = expo y - 52" using assms by (auto simp: a_def b_def ulp_exp_def)
    have "x < pow2 (a + 53)"
      using expo_bounds(2) [OF assms(1)] order_less_le_trans [of x "pow2 (expo x + 1)" "pow2 (a + 53)"] assms
      by (simp add: a_def ulp_exp_def)
    then have "x / pow2 a \<le> of_int (2 ^ 53)"
      by (simp add: pow2_add divide_le_eq pow2_nat mult.commute)
    then have "rhe (x / pow2 a) \<le> 2 ^ 53" using rhe_mono rhe_of_int by metis
    then have "of_int (rhe (x / pow2 a)) \<le> pow2 53"
      using of_int_le_iff [of "rhe (x / pow2 a)" "2 ^ 53", where 'a = rat] by (simp add: pow2_nat)
    then have "rnd64 x \<le> pow2 (a + 53)" by (simp add: rx pow2_add)
    also have "\<dots> \<le> pow2 (b + 52)" using \<open>a < b\<close> by simp
    also have "\<dots> \<le> rnd64 y"
    proof -
      have "pow2 (b + 52) \<le> y" using expo_bounds(1) [of y] assms eb by simp
      then have "of_int (2 ^ 52) \<le> y / pow2 b"
        by (simp add: pow2_add le_divide_eq pow2_nat mult.commute)
      then have "2 ^ 52 \<le> rhe (y / pow2 b)" using rhe_mono rhe_of_int by metis
      then have "pow2 52 \<le> of_int (rhe (y / pow2 b))"
        using of_int_le_iff [of "2 ^ 52" "rhe (y / pow2 b)", where 'a = rat] by (simp add: pow2_nat)
      then show ?thesis by (simp add: ry pow2_add)
    qed
    finally show ?thesis .
  qed
qed

lemma rnd64_mono: assumes "x \<le> y" shows "rnd64 x \<le> rnd64 y"
proof (cases "0 < x")
  case True
  then show ?thesis using rnd64_mono_pos assms by blast
next
  case False
  show ?thesis
  proof (cases "0 \<le> y")
    case True
    have "rnd64 x \<le> 0" using rnd64_nonneg [of "- x"] False by (simp add: rnd64_minus)
    then show ?thesis using rnd64_nonneg [OF True] by linarith
  next
    case False
    then have "rnd64 (- y) \<le> rnd64 (- x)" using rnd64_mono_pos assms by simp
    then show ?thesis by (simp add: rnd64_minus)
  qed
qed

text \<open>Multiples of the spacing are exact; so integers up to \<open>2^53\<close> are.\<close>

lemma is_doubleI: "x = of_int k * pow2 (ulp_exp x) \<Longrightarrow> is_double x"
  unfolding is_double_def rnd64_def
  by (metis nonzero_mult_div_cancel_right pow2_neq_0 rhe_of_int)

lemma is_double_0 [simp]: "is_double 0"
  by (simp add: is_double_def)

lemma is_double_minus [simp]: "is_double (- x) \<longleftrightarrow> is_double x"
  by (simp add: is_double_def rnd64_minus)

lemma is_double_pow2_mult:
  assumes "\<bar>n\<bar> \<le> 2 ^ 53" "- 1074 \<le> k" shows "is_double (of_int n * pow2 k)"
proof -
  have main: "is_double (of_int n * pow2 k)" if n: "0 < n" "n \<le> 2 ^ 53" for n
  proof -
    define x where "x = of_int n * pow2 k"
    have x: "0 < x" using n by (simp add: x_def)
    have "of_int n \<le> pow2 53" using n of_int_le_iff [of n "2^53", where 'a = rat] by (simp add: pow2_nat)
    then have le: "x \<le> pow2 (k + 53)" by (simp add: x_def pow2_add)
    show "is_double x"
    proof (cases "x = pow2 (k + 53)")
      case True
      have "expo x = k + 53" using True by (intro expo_unique) auto
      then have u: "ulp_exp x = max (k + 53) (- 1022) - 52" using x by (simp add: ulp_exp_def)
      define j where "j = k + 53 - ulp_exp x"
      have "0 \<le> j" using assms u by (simp add: j_def)
      then have "x = of_int (2 ^ nat j) * pow2 (ulp_exp x)"
        unfolding pow2_nat [OF \<open>0 \<le> j\<close>, symmetric] pow2_add [symmetric] by (simp add: True j_def)
      then show ?thesis by (rule is_doubleI)
    next
      case False
      then have "pow2 (expo x) < pow2 (k + 53)" using expo_bounds [OF x] le by linarith
      then have "ulp_exp x \<le> k" using x assms by (simp add: ulp_exp_def)
      then have "0 \<le> k - ulp_exp x" by simp
      then have "x = of_int (n * 2 ^ nat (k - ulp_exp x)) * pow2 (ulp_exp x)"
        using pow2_nat [OF \<open>0 \<le> k - ulp_exp x\<close>] pow2_add [of "k - ulp_exp x" "ulp_exp x"]
        by (simp add: x_def mult.assoc)
      then show ?thesis by (rule is_doubleI)
    qed
  qed
  consider "n = 0" | "0 < n" | "0 < - n" by linarith
  then show ?thesis
  proof cases
    case 3
    then have "is_double (of_int (- n) * pow2 k)" using main [of "- n"] assms by simp
    then show ?thesis using is_double_minus by simp
  qed (use main assms in auto)
qed

lemma is_double_of_int: "\<bar>n\<bar> \<le> 2 ^ 53 \<Longrightarrow> is_double (of_int n)"
  using is_double_pow2_mult [of n 0] by simp

lemma rnd64_of_int [fl_simps]: "\<bar>n\<bar> \<le> 2 ^ 53 \<Longrightarrow> rnd64 (of_int n) = of_int n"
  using is_double_of_int by (simp add: is_double_def)

lemma rnd64_numeral [fl_simps]:
  "(numeral m :: int) \<le> 2 ^ 53 \<Longrightarrow> rnd64 (numeral m) = numeral m"
  "(numeral m :: int) \<le> 2 ^ 53 \<Longrightarrow> rnd64 (- numeral m) = - numeral m"
  "rnd64 1 = 1" "rnd64 (- 1) = - 1"
  using rnd64_of_int [of "numeral m"] rnd64_of_int [of "- numeral m"]
    rnd64_of_int [of 1] rnd64_of_int [of "- 1"] by simp_all

lemma is_double_rnd64: "is_double (rnd64 x)"
proof -
  have pos: "is_double (rnd64 x)" if x: "0 < x" for x
  proof -
    define u where "u = ulp_exp x"
    have r: "rnd64 x = of_int (rhe (x / pow2 u)) * pow2 u" using x by (simp add: rnd64_def u_def)
    have "x < pow2 (u + 53)"
      using expo_bounds(2) [OF x] order_less_le_trans [of x "pow2 (expo x + 1)" "pow2 (u + 53)"] x
      by (simp add: u_def ulp_exp_def)
    then have "x / pow2 u \<le> of_int (2 ^ 53)"
      by (simp add: pow2_add divide_le_eq pow2_nat mult.commute)
    then have "rhe (x / pow2 u) \<le> 2 ^ 53" using rhe_mono rhe_of_int by metis
    moreover have "rhe 0 \<le> rhe (x / pow2 u)" by (rule rhe_mono) (use x in simp)
    then have "0 \<le> rhe (x / pow2 u)" using rhe_of_int [of 0] by simp
    moreover have "- 1074 \<le> u" by (simp add: u_def ulp_exp_def)
    ultimately show ?thesis unfolding r by (intro is_double_pow2_mult) auto
  qed
  consider "x = 0" | "0 < x" | "0 < - x" by linarith
  then show ?thesis
    by cases (use pos [of x] pos [of "- x"] in \<open>simp_all add: rnd64_minus\<close>)
qed

lemma is_double_grid:
  assumes "is_double x" "pow2 e \<le> x" "- 1022 \<le> e"
  obtains k where "x = of_int k * pow2 (e - 52)"
proof -
  have x: "0 < x" using assms(2) pow2_pos [of e] by linarith
  have "pow2 e < pow2 (expo x + 1)" using expo_bounds(2) [OF x] assms(2) by linarith
  then have le: "0 \<le> ulp_exp x - (e - 52)" using x by (simp add: ulp_exp_def)
  define m where "m = rhe (x / pow2 (ulp_exp x))"
  have "x = of_int m * pow2 (ulp_exp x)"
    using assms(1) x by (simp add: is_double_def rnd64_def m_def)
  also have "pow2 (ulp_exp x) = pow2 (ulp_exp x - (e - 52)) * pow2 (e - 52)"
    by (simp add: pow2_add [symmetric])
  finally have "x = of_int (m * 2 ^ nat (ulp_exp x - (e - 52))) * pow2 (e - 52)"
    using pow2_nat [OF le] by (simp add: mult.assoc)
  then show ?thesis using that by blast
qed

text \<open>Below an integer \<open>v\<close> the next multiple of the grid is one grid step away.\<close>

lemma grid_gap:
  assumes "x = of_int k * pow2 (- int n)" "x < of_int v"
  shows "x \<le> of_int v - pow2 (- int n)"
proof -
  have p: "pow2 (- int n) * of_int (2 ^ n) = 1"
    unfolding pow2_of_nat [symmetric] pow2_add [symmetric] by simp
  have "of_int v = of_int (v * 2 ^ n) * pow2 (- int n)"
    using p by (simp add: mult.assoc mult.commute)
  then have "of_int k * pow2 (- int n) < of_int (v * 2 ^ n) * pow2 (- int n)"
    using assms by metis
  then have "of_int k < (of_int (v * 2 ^ n) :: rat)" by (rule mult_right_less_imp_less) simp
  then have "k < v * 2 ^ n" by (simp only: of_int_less_iff)
  then have "k \<le> v * 2 ^ n - 1" by simp
  then have "(of_int k :: rat) \<le> of_int (v * 2 ^ n - 1)" by (simp only: of_int_le_iff)
  then have "of_int k * pow2 (- int n) \<le> of_int (v * 2 ^ n - 1) * pow2 (- int n)"
    by (rule mult_right_mono) simp
  also have "\<dots> = of_int (v * 2 ^ n) * pow2 (- int n) - pow2 (- int n)"
    by (simp only: of_int_diff of_int_1 left_diff_distrib mult_1_left)
  also have "\<dots> = of_int v - pow2 (- int n)"
    by (simp only: \<open>of_int v = of_int (v * 2 ^ n) * pow2 (- int n)\<close> [symmetric])
  finally show ?thesis by (simp only: assms(1))
qed

section \<open>What the geometry relies on: a contract for rounding\<close>

locale rounding =
  fixes rnd :: "rat \<Rightarrow> rat"
  assumes mono: "x \<le> y \<Longrightarrow> rnd x \<le> rnd y"
    and zero: "rnd 0 = 0"
    and idem: "rnd (rnd x) = rnd x"
    and minus: "rnd (- x) = - rnd x"
begin

lemma nonneg: "0 \<le> x \<Longrightarrow> 0 \<le> rnd x"
  using mono [of 0 x] zero by simp

lemma nonpos: "x \<le> 0 \<Longrightarrow> rnd x \<le> 0"
  using mono [of x 0] zero by simp

lemma le_exact: "rnd y = y \<Longrightarrow> x \<le> y \<Longrightarrow> rnd x \<le> y"
  using mono [of x y] by simp

lemma ge_exact: "rnd y = y \<Longrightarrow> y \<le> x \<Longrightarrow> y \<le> rnd x"
  using mono [of y x] by simp

lemma prod_mono: "0 \<le> a \<Longrightarrow> a \<le> b \<Longrightarrow> 0 \<le> c \<Longrightarrow> c \<le> d \<Longrightarrow> rnd (a * c) \<le> rnd (b * d)"
  by (intro mono mult_mono) auto

lemma square_mono: assumes "0 \<le> a" "a \<le> \<bar>b\<bar>" shows "rnd (a * a) \<le> rnd (b * b)"
  using prod_mono [of a "\<bar>b\<bar>" a "\<bar>b\<bar>"] assms by (simp add: abs_mult_self_eq)

lemma sum_mono: "a \<le> b \<Longrightarrow> c \<le> d \<Longrightarrow> rnd (a + c) \<le> rnd (b + d)"
  by (intro mono add_mono)

text \<open>
  The clamped gap between \<open>q\<close> and an interval is at most the computed
  difference to any value inside the interval.
\<close>

lemma gap_le:
  assumes "lo \<le> c" "c \<le> hi"
  shows "max (max (rnd (lo - q)) 0) (max (rnd (q - hi)) 0) \<le> \<bar>rnd (c - q)\<bar>"
proof (cases "q \<le> c")
  case True
  have "rnd (lo - q) \<le> rnd (c - q)" "rnd (q - hi) \<le> 0" "0 \<le> rnd (c - q)"
    using assms True by (auto intro: mono nonpos nonneg)
  then show ?thesis by simp
next
  case False
  have "rnd (q - hi) \<le> rnd (q - c)" "rnd (lo - q) \<le> 0" "0 \<le> rnd (q - c)"
    using assms False by (auto intro: mono nonpos nonneg)
  moreover have "rnd (c - q) = - rnd (q - c)" using minus [of "q - c"] by simp
  ultimately show ?thesis by simp
qed

end

interpretation b64: rounding rnd64
proof
  show "rnd64 x \<le> rnd64 y" if "x \<le> y" for x y using that by (rule rnd64_mono)
  show "rnd64 0 = 0" by simp
  show "rnd64 (rnd64 x) = rnd64 x" for x using is_double_rnd64 by (simp add: is_double_def)
  show "rnd64 (- x) = - rnd64 x" for x by (rule rnd64_minus)
qed

section \<open>The operations on doubles\<close>

definition fadd :: "FT \<Rightarrow> FT \<Rightarrow> FT" where
  "fadd a b = rnd64 (a + b)"

definition fsub :: "FT \<Rightarrow> FT \<Rightarrow> FT" where
  "fsub a b = rnd64 (a - b)"

definition fmul :: "FT \<Rightarrow> FT \<Rightarrow> FT" where
  "fmul a b = rnd64 (a * b)"

text \<open>Conversion of a floating value to an integer type truncates toward zero.\<close>

definition ftrunc :: "FT \<Rightarrow> int" where
  "ftrunc x = (if 0 \<le> x then \<lfloor>x\<rfloor> else \<lceil>x\<rceil>)"

lemma fsub_minus: "fsub a b = - fsub b a"
  using rnd64_minus [of "b - a"] by (simp add: fsub_def)

lemma fadd_of_int [fl_simps]:
  "\<bar>a + b\<bar> \<le> 2 ^ 53 \<Longrightarrow> fadd (of_int a) (of_int b) = of_int (a + b)"
  using rnd64_of_int [of "a + b"] by (simp add: fadd_def)

lemma fsub_of_int [fl_simps]:
  "\<bar>a - b\<bar> \<le> 2 ^ 53 \<Longrightarrow> fsub (of_int a) (of_int b) = of_int (a - b)"
  using rnd64_of_int [of "a - b"] by (simp add: fsub_def)

end
