(* ===== verification/Points.thy ===== *)
theory Points
  imports Floats "HOL-Library.Word"
begin

unbundle bit_operations_syntax

text \<open>
  \<open>include/silva/geo/point.hpp\<close>: the numeric constants, the tolerance
  comparison \<open>dcmp\<close>, points with their Morton code, bounding boxes and the
  record \<open>diff_type\<close> that collects the two sides of a version difference.
  Ids and codes are 64-bit words (\<open>size_t\<close>, \<open>unsigned long long\<close>).
\<close>

section \<open>Constants and the tolerance comparison\<close>

definition FT_INF_MIN :: FT where
  "FT_INF_MIN = pow2 (- 1022)"

definition FT_INF_MAX :: FT where
  "FT_INF_MAX = (2 - pow2 (- 52)) * pow2 1023"

definition FT_EPS :: FT where
  "FT_EPS = pow2 (- 52)"

definition dcmp :: "FT \<Rightarrow> int" where
  "dcmp x = (if \<bar>x\<bar> < FT_EPS then 0 else if x < 0 then - 1 else 1)"

lemma FT_EPS_pos [simp]: "0 < FT_EPS"
  by (simp add: FT_EPS_def)

lemma FT_INF_MIN_pos [simp]: "0 < FT_INF_MIN"
  by (simp add: FT_INF_MIN_def)

lemma FT_EPS_less_1: "FT_EPS < 1"
  using pow2_strict_mono [of "- 52" 0] by (simp add: FT_EPS_def)

lemma dcmp_0 [simp]: "dcmp 0 = 0"
  by (simp add: dcmp_def)

lemma dcmp_eq_0_iff: "dcmp x = 0 \<longleftrightarrow> \<bar>x\<bar> < FT_EPS"
  by (simp add: dcmp_def)

lemma dcmp_le_0_iff: "dcmp x \<le> 0 \<longleftrightarrow> x < FT_EPS"
  using FT_EPS_pos by (auto simp: dcmp_def simp del: FT_EPS_pos)

lemma dcmp_less_0_iff: "dcmp x < 0 \<longleftrightarrow> x \<le> - FT_EPS"
  using FT_EPS_pos by (auto simp: dcmp_def simp del: FT_EPS_pos)

section \<open>Points\<close>

text \<open>
  The two-argument constructor leaves \<open>id\<close> and \<open>morton_id\<close> unset; it is used
  for box corners only, where neither is read. The model stores zero there.
\<close>

record point =
  pt_id :: "64 word"
  pt_x :: FT
  pt_y :: FT
  morton_id :: "64 word"

definition Point2 :: "FT \<Rightarrow> FT \<Rightarrow> point" where
  "Point2 x y = \<lparr>pt_id = 0, pt_x = x, pt_y = y, morton_id = 0\<rparr>"

definition Point3 :: "64 word \<Rightarrow> FT \<Rightarrow> FT \<Rightarrow> point" where
  "Point3 i x y = \<lparr>pt_id = i, pt_x = x, pt_y = y, morton_id = 0\<rparr>"

lemma Point2_sel [simp]: "pt_x (Point2 x y) = x" "pt_y (Point2 x y) = y"
  by (simp_all add: Point2_def)

lemma Point3_sel [simp]: "pt_id (Point3 i x y) = i" "pt_x (Point3 i x y) = x" "pt_y (Point3 i x y) = y"
  by (simp_all add: Point3_def)

type_synonym Bounding_Box = "point \<times> point"

text \<open>\<open>Point::operator==\<close>: equal ids and coordinates that differ by less than \<open>FT_EPS\<close>.\<close>

definition point_eq :: "point \<Rightarrow> point \<Rightarrow> bool" where
  "point_eq a p \<longleftrightarrow> pt_id a - pt_id p = 0 \<and>
     dcmp (fsub (pt_x a) (pt_x p)) = 0 \<and> dcmp (fsub (pt_y a) (pt_y p)) = 0"

lemma point_eq_refl [simp]: "point_eq p p"
  by (simp add: point_eq_def fsub_def)

lemma point_eq_sym: "point_eq p q \<longleftrightarrow> point_eq q p"
  using fsub_minus [of "pt_x p" "pt_x q"] fsub_minus [of "pt_y p" "pt_y q"]
  by (auto simp: point_eq_def dcmp_eq_0_iff)

lemma point_eq_id: "point_eq p q \<Longrightarrow> pt_id p = pt_id q"
  by (simp add: point_eq_def)

section \<open>Casts and the Morton code\<close>

text \<open>
  \<open>static_cast<unsigned int>\<close> of a double: C++ defines it for values whose
  truncation fits, which is what every property below assumes; outside, the
  model keeps the low 32 bits of the truncation.
\<close>

definition cast_u32 :: "FT \<Rightarrow> 32 word" where
  "cast_u32 x = word_of_int (ftrunc x)"

definition cast_u64 :: "FT \<Rightarrow> 64 word" where
  "cast_u64 x = word_of_int (ftrunc x)"

definition less_msb :: "32 word \<Rightarrow> 32 word \<Rightarrow> bool" where
  "less_msb x y \<longleftrightarrow> x < y \<and> x < x XOR y"

text \<open>One round of the loop in \<open>interleave_bits\<close>, and the loop.\<close>

definition interleave_step :: "64 word \<Rightarrow> 64 word \<Rightarrow> nat \<Rightarrow> 64 word \<Rightarrow> 64 word" where
  "interleave_step ix iy i ret =
     ret OR (push_bit (i + 1) (ix AND push_bit i 1) OR push_bit i (iy AND push_bit i 1))"

definition interleave_words :: "32 word \<Rightarrow> 32 word \<Rightarrow> 64 word" where
  "interleave_words ix iy = fold (interleave_step (ucast ix) (ucast iy)) [0..<32] 0"

definition interleave_bits :: "point \<Rightarrow> 64 word" where
  "interleave_bits p = interleave_words (cast_u32 (pt_x p)) (cast_u32 (pt_y p))"

lemma bit_single_shift:
  "bit (push_bit k (w AND push_bit m 1)) n \<longleftrightarrow> n < 64 \<and> n = k + m \<and> bit w m"
  for w :: "64 word"
  by (auto simp: bit_push_bit_iff bit_and_iff bit_exp_iff not_le)

lemma bit_interleave_fold:
  "bit (fold (interleave_step (ucast ix) (ucast iy)) [0..<m] 0) n \<longleftrightarrow>
     n < 64 \<and> n div 2 < m \<and> (if odd n then bit ix (n div 2) else bit iy (n div 2))"
  for ix iy :: "32 word"
proof (induction m)
  case 0
  then show ?case by simp
next
  case (Suc m)
  note shift = bit_single_shift [of _ "ucast ix" m n] bit_single_shift [of _ "ucast iy" m n]
  have "bit (push_bit (m + 1) (ucast ix AND push_bit m (1 :: 64 word))) n \<longleftrightarrow>
      n < 64 \<and> n = 2 * m + 1 \<and> bit ix m"
    unfolding shift by (auto simp: bit_ucast_iff)
  moreover have "bit (push_bit m (ucast iy AND push_bit m (1 :: 64 word))) n \<longleftrightarrow>
      n < 64 \<and> n = 2 * m \<and> bit iy m"
    unfolding shift by (auto simp: bit_ucast_iff)
  ultimately have "bit (fold (interleave_step (ucast ix) (ucast iy)) [0..<Suc m] 0) n \<longleftrightarrow>
      (n < 64 \<and> n div 2 < m \<and> (if odd n then bit ix (n div 2) else bit iy (n div 2))) \<or>
      (n < 64 \<and> n = 2 * m + 1 \<and> bit ix m) \<or> (n < 64 \<and> n = 2 * m \<and> bit iy m)"
    by (simp add: interleave_step_def bit_or_iff Suc.IH del: push_bit_Suc Suc_eq_plus1)
  also have "\<dots> \<longleftrightarrow> n < 64 \<and> n div 2 < Suc m \<and> (if odd n then bit ix (n div 2) else bit iy (n div 2))"
  proof -
    have "n div 2 < Suc m \<longleftrightarrow> n div 2 < m \<or> n = 2 * m \<or> n = 2 * m + 1" by presburger
    then show ?thesis by (cases "n = 2 * m"; cases "n = 2 * m + 1") auto
  qed
  finally show ?case .
qed

lemma bit_interleave_words:
  "bit (interleave_words ix iy) n \<longleftrightarrow>
     n < 64 \<and> (if odd n then bit ix (n div 2) else bit iy (n div 2))"
  unfolding interleave_words_def bit_interleave_fold by auto

end
