(* ===== verification/ZOrder.thy ===== *)
theory ZOrder
  imports Points
begin

text \<open>
  The Z-order side of \<open>operations.hpp\<close>: comparison of points along the
  Morton curve without computing codes (\<open>morton_less\<close>, \<open>morton_merge\<close>) and
  \<open>split_by_bit\<close>, the search for the boundary between the two halves of a
  Morton-sorted sequence that every level of the quadtree uses.
\<close>

section \<open>Words are compared at their highest differing bit\<close>

definition top_diff :: "'a::len word \<Rightarrow> 'a word \<Rightarrow> nat \<Rightarrow> bool" where
  "top_diff x y k \<longleftrightarrow> bit x k \<noteq> bit y k \<and> (\<forall>j>k. bit x j = bit y j)"

lemma top_diff_sym: "top_diff x y k \<longleftrightarrow> top_diff y x k"
  by (auto simp: top_diff_def)

lemma top_diff_less:
  fixes x y :: "'a::len word"
  assumes "top_diff x y k" "bit y k"
  shows "x < y"
proof -
  have k: "k < LENGTH('a)" using assms(2) by (rule bit_imp_le_length)
  have nx: "\<not> bit x k" using assms by (auto simp: top_diff_def)
  have eq: "drop_bit (Suc k) (uint x) = drop_bit (Suc k) (uint y)"
    by (rule bit_eqI) (use assms(1) in \<open>auto simp: bit_drop_bit_eq bit_uint_iff top_diff_def\<close>)
  have tx: "take_bit (Suc k) (uint x) < 2 ^ k"
  proof -
    have "take_bit (Suc k) (uint x) = take_bit k (uint x)"
      by (rule bit_eqI) (use nx in \<open>auto simp: bit_take_bit_iff bit_uint_iff less_Suc_eq\<close>)
    then show ?thesis by simp
  qed
  have ty: "2 ^ k \<le> take_bit (Suc k) (uint y)"
  proof -
    have "take_bit (Suc k) (uint y) = take_bit k (uint y) + 2 ^ k"
      using assms(2) k by (simp add: take_bit_Suc_from_most bit_uint_iff)
    then show ?thesis by simp
  qed
  define d where "d = push_bit (Suc k) (drop_bit (Suc k) (uint y))"
  have "uint x = d + take_bit (Suc k) (uint x)" "uint y = d + take_bit (Suc k) (uint y)"
    unfolding d_def eq [symmetric] by (simp_all only: bits_ident) (simp only: eq bits_ident)
  with tx ty have "uint x < uint y" by linarith
  then show ?thesis by (simp add: word_less_def)
qed

lemma top_diff_less_iff: "top_diff x y k \<Longrightarrow> x < y \<longleftrightarrow> bit y k"
  using top_diff_less [of x y k] top_diff_less [of y x k]
  by (auto simp: top_diff_sym [of y x]) (auto simp: top_diff_def)

lemma top_bit_exists:
  fixes w :: "'a::len word"
  assumes "w \<noteq> 0"
  obtains k where "bit w k" "\<forall>j>k. \<not> bit w j"
proof -
  obtain i where i: "bit w i" using assms by (metis bit_0_eq bit_eq_iff bot_apply bot_bool_def)
  have fin: "finite {i. bit w i}"
    by (rule finite_subset [of _ "{..<LENGTH('a)}"]) (auto dest: bit_imp_le_length)
  have "bit w (Max {i. bit w i})" using Max_in [OF fin] i by auto
  moreover have "\<forall>j>Max {i. bit w i}. \<not> bit w j" using Max_ge [OF fin] by fastforce
  ultimately show ?thesis using that by blast
qed

lemma top_diff_exists:
  fixes x y :: "'a::len word"
  assumes "x \<noteq> y" obtains k where "top_diff x y k"
proof -
  have "x XOR y \<noteq> 0" using assms by (metis xor.assoc xor.left_neutral xor_self_eq)
  then obtain k where "bit (x XOR y) k" "\<forall>j>k. \<not> bit (x XOR y) j" by (rule top_bit_exists)
  then have "top_diff x y k" by (auto simp: top_diff_def bit_xor_iff)
  then show ?thesis by (rule that)
qed

text \<open>\<open>less_msb\<close> compares the positions of the highest set bits.\<close>

lemma less_msb_iff: "less_msb x y \<longleftrightarrow> (\<exists>k. bit y k \<and> (\<forall>j\<ge>k. \<not> bit x j))"
proof
  assume "\<exists>k. bit y k \<and> (\<forall>j\<ge>k. \<not> bit x j)"
  then obtain k where k: "bit y k" "\<forall>j\<ge>k. \<not> bit x j" by blast
  then have "y \<noteq> 0" by auto
  then obtain t where t: "bit y t" "\<forall>j>t. \<not> bit y j" by (rule top_bit_exists)
  have "k \<le> t" using k t by (meson not_le)
  then have "top_diff x y t" "top_diff x (x XOR y) t" "bit (x XOR y) t"
    using k t by (auto simp: top_diff_def bit_xor_iff)
  with t show "less_msb x y" by (auto simp: less_msb_def dest: top_diff_less)
next
  assume "less_msb x y"
  then have l: "x < y" "x < x XOR y" by (auto simp: less_msb_def)
  then obtain k where k: "top_diff x y k" by (metis top_diff_exists less_irrefl)
  then have bk: "bit y k" using l top_diff_less_iff by blast
  have "\<not> bit x j" if "j \<ge> k" for j
  proof
    assume j: "bit x j"
    then have "x \<noteq> 0" by auto
    then obtain t where t: "bit x t" "\<forall>i>t. \<not> bit x i" by (rule top_bit_exists)
    have "j \<le> t" using j t(2) by (meson not_le)
    moreover have "t \<noteq> k" using t(1) k bk by (auto simp: top_diff_def)
    ultimately have "k < t" using \<open>k \<le> j\<close> by simp
    then have "top_diff (x XOR y) x t" using t k by (auto simp: top_diff_def bit_xor_iff)
    then have "x XOR y < x" using t by (auto dest: top_diff_less)
    then show False using l by simp
  qed
  with bk show "\<exists>k. bit y k \<and> (\<forall>j\<ge>k. \<not> bit x j)" by blast
qed

section \<open>Morton order of points\<close>

text \<open>
  \<open>in_grid x\<close>: an integral coordinate in the range of \<open>unsigned int\<close>;
  \<open>in_range x\<close>: any coordinate the cast to \<open>unsigned int\<close> is defined for.
\<close>

definition in_range :: "FT \<Rightarrow> bool" where
  "in_range x \<longleftrightarrow> 0 \<le> x \<and> x < 2 ^ 32"

definition in_grid :: "FT \<Rightarrow> bool" where
  "in_grid x \<longleftrightarrow> in_range x \<and> x = of_int \<lfloor>x\<rfloor>"

lemma uint_cast_u32: assumes "in_range x" shows "uint (cast_u32 x) = \<lfloor>x\<rfloor>"
proof -
  have "0 \<le> \<lfloor>x\<rfloor>" "\<lfloor>x\<rfloor> < 2 ^ 32" using assms by (auto simp: in_range_def floor_less_iff)
  then show ?thesis using assms
    by (simp add: cast_u32_def ftrunc_def in_range_def uint_word_of_int)
qed

lemma cast_u32_less_iff: "in_grid x \<Longrightarrow> in_grid y \<Longrightarrow> cast_u32 x < cast_u32 y \<longleftrightarrow> x < y"
  by (metis in_grid_def of_int_less_iff uint_cast_u32 word_less_def)

lemma cast_u32_eq_iff: "in_grid x \<Longrightarrow> in_grid y \<Longrightarrow> cast_u32 x = cast_u32 y \<longleftrightarrow> x = y"
  by (metis in_grid_def uint_cast_u32)

definition morton_less :: "point \<Rightarrow> point \<Rightarrow> bool" where
  "morton_less lhs rhs =
     (let msd = (if less_msb (cast_u32 (pt_x lhs) XOR cast_u32 (pt_x rhs))
                             (cast_u32 (pt_y lhs) XOR cast_u32 (pt_y rhs)) then 1 else (0::int))
      in if msd = 0 then pt_x lhs < pt_x rhs else pt_y lhs < pt_y rhs)"

lemma interleave_words_less:
  "interleave_words ax ay < interleave_words bx by' \<longleftrightarrow>
     (if less_msb (ax XOR bx) (ay XOR by') then ay < by' else ax < bx)"
proof (cases "less_msb (ax XOR bx) (ay XOR by')")
  case True
  then obtain k where k: "bit (ay XOR by') k" "\<forall>j\<ge>k. \<not> bit (ax XOR bx) j" using less_msb_iff by blast
  then have "ay XOR by' \<noteq> 0" by auto
  then obtain t where t: "bit (ay XOR by') t" "\<forall>j>t. \<not> bit (ay XOR by') j" by (rule top_bit_exists)
  have kt: "k \<le> t" using k t by (meson not_le)
  have t32: "t < 32" using t(1) bit_imp_le_length by force
  have dy: "top_diff ay by' t" using t by (auto simp: top_diff_def bit_xor_iff)
  have "bit (interleave_words ax ay) j = bit (interleave_words bx by') j" if "2 * t < j" for j
  proof (cases "odd j")
    case True
    then have "t \<le> j div 2" using that by presburger
    then have "\<not> bit (ax XOR bx) (j div 2)" using k(2) kt by auto
    then show ?thesis using True by (simp add: bit_interleave_words bit_xor_iff)
  next
    case False
    then have "t < j div 2" using that by presburger
    then show ?thesis using False dy by (simp add: bit_interleave_words top_diff_def)
  qed
  then have "top_diff (interleave_words ax ay) (interleave_words bx by') (2 * t)"
    using dy t32 by (simp add: top_diff_def bit_interleave_words)
  then have "interleave_words ax ay < interleave_words bx by' \<longleftrightarrow> bit by' t"
    using t32 by (simp add: top_diff_less_iff bit_interleave_words)
  then show ?thesis using True top_diff_less_iff [OF dy] by simp
next
  case False
  show ?thesis
  proof (cases "ax = bx")
    case True
    then have "ay XOR by' = 0"
      using False less_msb_iff [of "ax XOR bx" "ay XOR by'"] top_bit_exists by fastforce
    then have "ay = by'" by (metis xor.assoc xor.left_neutral xor_self_eq)
    with True show ?thesis by simp
  next
    case neq: False
    then obtain t where dx: "top_diff ax bx t" by (rule top_diff_exists)
    then have xt: "bit (ax XOR bx) t" "\<forall>j>t. \<not> bit (ax XOR bx) j" by (auto simp: top_diff_def bit_xor_iff)
    have t32: "t < 32" using xt(1) bit_imp_le_length by force
    have yt: "\<not> bit (ay XOR by') j" if "t < j" for j
      using False xt that less_msb_iff by (meson order_less_le_trans)
    have "bit (interleave_words ax ay) j = bit (interleave_words bx by') j" if "2 * t + 1 < j" for j
    proof -
      have "t < j div 2" using that by presburger
      then show ?thesis using yt xt by (auto simp: bit_interleave_words bit_xor_iff)
    qed
    moreover have b1: "bit (interleave_words u v) (2 * t + 1) \<longleftrightarrow> bit u t" for u v
      using t32 by (simp add: bit_interleave_words)
    ultimately have d: "top_diff (interleave_words ax ay) (interleave_words bx by') (2 * t + 1)"
      using dx unfolding top_diff_def by (simp only: b1) simp
    show ?thesis using False top_diff_less_iff [OF d] top_diff_less_iff [OF dx] by (simp only: b1 if_False)
  qed
qed

lemma morton_less_code:
  assumes "in_grid (pt_x p)" "in_grid (pt_y p)" "in_grid (pt_x q)" "in_grid (pt_y q)"
  shows "morton_less p q \<longleftrightarrow> interleave_bits p < interleave_bits q"
  using assms by (simp add: morton_less_def interleave_bits_def interleave_words_less cast_u32_less_iff)

text \<open>
  C13. Comparing two points by \<open>morton_less\<close>, which only looks at the
  coordinates and the position of their highest differing bit, is comparing their
  interleaved Morton codes, for integral coordinates of the range of
  \<open>unsigned int\<close>.
\<close>

theorem morton_less_is_code_order:
  assumes "in_grid (pt_x p)" "in_grid (pt_y p)" "in_grid (pt_x q)" "in_grid (pt_y q)"
  shows "morton_less p q \<longleftrightarrow> interleave_bits p < interleave_bits q"
  by (rule morton_less_code [OF assms])

text \<open>The hypotheses hold for actual points: (1, 2) precedes (3, 0) on the curve.\<close>

lemma in_grid_of_int: "0 \<le> n \<Longrightarrow> n < 2 ^ 32 \<Longrightarrow> in_grid (of_int n)"
  by (simp add: in_grid_def in_range_def)

lemma in_grid_numeral [simp]: "in_grid 0" "in_grid 1"
  "numeral n < (2 ^ 32 :: int) \<Longrightarrow> in_grid (numeral n)"
  using in_grid_of_int [of 0] in_grid_of_int [of 1] in_grid_of_int [of "numeral n"] by simp_all

lemma in_grid_in_range: "in_grid x \<Longrightarrow> in_range x"
  by (simp add: in_grid_def)

theorem morton_less_is_code_order_witness:
  "morton_less (Point3 1 1 2) (Point3 2 3 0) \<and>
   interleave_bits (Point3 1 1 2) < interleave_bits (Point3 2 3 0)"
proof -
  have "interleave_bits (Point3 1 1 2) = 6" "interleave_bits (Point3 2 3 0) = 10"
    by (simp_all add: interleave_bits_def interleave_words_def interleave_step_def cast_u32_def
        ftrunc_def upt_conv_Cons)
  then show ?thesis
    using morton_less_is_code_order [of "Point3 1 1 2" "Point3 2 3 0"] by simp
qed

section \<open>Merging two sequences in Morton order\<close>

fun morton_merge :: "point list \<Rightarrow> point list \<Rightarrow> point list" where
  "morton_merge [] rhs = rhs"
| "morton_merge lhs [] = lhs"
| "morton_merge (a # lhs) (b # rhs) =
     (if morton_less a b then a # morton_merge lhs (b # rhs) else b # morton_merge (a # lhs) rhs)"

lemma mset_morton_merge [simp]: "mset (morton_merge lhs rhs) = mset lhs + mset rhs"
  by (induction lhs rhs rule: morton_merge.induct) auto

lemma set_morton_merge [simp]: "set (morton_merge lhs rhs) = set lhs \<union> set rhs"
  by (metis mset_morton_merge set_mset_mset set_mset_union)

definition grid_point :: "point \<Rightarrow> bool" where
  "grid_point p \<longleftrightarrow> in_grid (pt_x p) \<and> in_grid (pt_y p)"

lemma sorted_morton_merge:
  assumes "\<forall>p\<in>set lhs \<union> set rhs. grid_point p"
    "sorted_by interleave_bits lhs" "sorted_by interleave_bits rhs"
  shows "sorted_by interleave_bits (morton_merge lhs rhs)"
  using assms
proof (induction lhs rhs rule: morton_merge.induct)
  case (3 a lhs b rhs)
  then have "morton_less a b \<longleftrightarrow> interleave_bits a < interleave_bits b"
    by (intro morton_less_code) (auto simp: grid_point_def)
  with 3 show ?case by (fastforce simp: sorted_by_Cons)
qed simp_all

section \<open>Splitting at a bit\<close>

text \<open>
  \<open>bit_clear b\<close> is the lambda \<open>less\<close> of \<open>split_by_bit\<close>: whether the
  coordinate bit that level \<open>b\<close> (\<open>1 \<le> b \<le> 64\<close>) branches on is zero.
  Even levels look at \<open>x\<close>, odd levels at \<open>y\<close>. The search is the loop of
  the source: halve the interval while it holds more than 16 elements, then scan.
\<close>

definition bit_clear :: "nat \<Rightarrow> point \<Rightarrow> bool" where
  "bit_clear b pt =
     (let splitter = push_bit ((b - 1) div 2) 1 in
      if b mod 2 = 1 then cast_u32 (pt_y pt) AND splitter = 0
      else cast_u32 (pt_x pt) AND splitter = 0)"

function split_search :: "('a \<Rightarrow> bool) \<Rightarrow> 'a list \<Rightarrow> nat \<Rightarrow> nat \<Rightarrow> nat \<times> nat" where
  "split_search clr P start end =
     (if end - start > 16 then
        let mid = (start + end) div 2 in
        if \<not> clr (P ! mid) then split_search clr P start mid
        else split_search clr P (mid + 1) end
      else (start, end))"
  by pat_completeness auto
termination
  by (relation "measure (\<lambda>(clr, P, start, end). end - start)") auto

function split_scan :: "('a \<Rightarrow> bool) \<Rightarrow> 'a list \<Rightarrow> nat \<Rightarrow> nat \<Rightarrow> nat" where
  "split_scan clr P i end =
     (if i < end then if \<not> clr (P ! i) then i else split_scan clr P (i + 1) end else end)"
  by pat_completeness auto
termination
  by (relation "measure (\<lambda>(clr, P, i, end). end - i)") auto

declare split_search.simps [simp del] split_scan.simps [simp del]

definition split_by_bit :: "point list \<Rightarrow> nat \<Rightarrow> nat \<Rightarrow> nat \<Rightarrow> nat" where
  "split_by_bit P l r b =
     (case split_search (bit_clear b) P l r of (start, end) \<Rightarrow> split_scan (bit_clear b) P start end)"

text \<open>A sequence is split at \<open>m\<close> when the predicate holds exactly before \<open>m\<close>.\<close>

definition split_at :: "('a \<Rightarrow> bool) \<Rightarrow> 'a list \<Rightarrow> nat \<Rightarrow> nat \<Rightarrow> nat \<Rightarrow> bool" where
  "split_at clr P l r m \<longleftrightarrow>
     l \<le> m \<and> m \<le> r \<and> (\<forall>i. l \<le> i \<and> i < m \<longrightarrow> clr (P ! i)) \<and> (\<forall>i. m \<le> i \<and> i < r \<longrightarrow> \<not> clr (P ! i))"

lemma split_search_split_at:
  "split_at clr P l r m \<Longrightarrow> split_search clr P l r = (s, e) \<Longrightarrow>
   split_at clr P s e m \<and> l \<le> s \<and> e \<le> r"
proof (induction clr P l r arbitrary: s e rule: split_search.induct)
  case (1 clr P start "end")
  show ?case
  proof (cases "end - start > 16")
    case True
    define mid where "mid = (start + end) div 2"
    have b: "start \<le> mid" "mid < end" using True by (auto simp: mid_def)
    show ?thesis
    proof (cases "clr (P ! mid)")
      case clr: True
      then have "mid < m" using b "1.prems"(1) by (auto simp: split_at_def not_less [symmetric])
      then have "split_at clr P (mid + 1) end m" using "1.prems"(1) b by (auto simp: split_at_def)
      moreover have "split_search clr P (mid + 1) end = (s, e)"
        using "1.prems"(2) True clr by (subst (asm) split_search.simps) (simp add: mid_def Let_def)
      ultimately show ?thesis using "1.IH"(2) [OF True mid_def] clr b by fastforce
    next
      case nless: False
      then have "m \<le> mid" using b "1.prems"(1) by (auto simp: split_at_def not_less [symmetric])
      then have "split_at clr P start mid m" using "1.prems"(1) b by (auto simp: split_at_def)
      moreover have "split_search clr P start mid = (s, e)"
        using "1.prems"(2) True nless by (subst (asm) split_search.simps) (simp add: mid_def Let_def)
      ultimately show ?thesis using "1.IH"(1) [OF True mid_def] nless b by fastforce
    qed
  next
    case False
    then show ?thesis using "1.prems" by (subst (asm) split_search.simps) simp
  qed
qed

lemma split_scan_split_at: "split_at clr P s e m \<Longrightarrow> split_scan clr P s e = m"
proof (induction clr P s e rule: split_scan.induct)
  case (1 clr P i "end")
  show ?case
  proof (cases "i < end \<and> clr (P ! i)")
    case True
    then have "i \<noteq> m" using "1.prems" by (auto simp: split_at_def)
    then have "split_at clr P (i + 1) end m" using "1.prems" by (auto simp: split_at_def)
    then have "split_scan clr P (i + 1) end = m" using "1.IH" True by simp
    then show ?thesis using True by (subst split_scan.simps) simp
  next
    case False
    then have "if i < end then m = i else m = end" using "1.prems"
      by (auto simp: split_at_def le_less)
    with False show ?thesis by (subst split_scan.simps) auto
  qed
qed

lemma split_by_bit_split_at: "split_at (bit_clear b) P l r m \<Longrightarrow> split_by_bit P l r b = m"
  unfolding split_by_bit_def
  by (cases "split_search (bit_clear b) P l r")
     (auto dest: split_search_split_at intro: split_scan_split_at)

end
