(* ===== verification/PointSeqs.thy ===== *)
theory PointSeqs
  imports ZOrder "HOL-Library.Monad_Syntax"
begin

text \<open>
  The sequence routines of \<open>operations.hpp\<close>: sorting points by Morton code and
  id, the two-pointer walks that delete a batch from a leaf (\<open>get_delete_p\<close>) and
  compare two leaves (\<open>merge_pts\<close>), and the routines that turn differences into
  insertions, deletions, updates and conflicts by point id.
\<close>

section \<open>Keys and cells\<close>

type_synonym zkey = "64 word \<times> 64 word"

definition pt_key :: "point \<Rightarrow> zkey" where
  "pt_key p = (morton_id p, pt_id p)"

text \<open>A point whose stored code is the one its coordinates have.\<close>

definition zcoded :: "point \<Rightarrow> bool" where
  "zcoded p \<longleftrightarrow> morton_id p = interleave_bits p"

text \<open>Points of one cell of level \<open>b\<close> have the same code bits from \<open>b\<close> up.\<close>

definition cell :: "nat \<Rightarrow> point \<Rightarrow> 64 word" where
  "cell b p = drop_bit b (morton_id p)"

definition same_cell :: "nat \<Rightarrow> point set \<Rightarrow> bool" where
  "same_cell b S \<longleftrightarrow> (\<forall>p\<in>S. \<forall>q\<in>S. cell b p = cell b q)"

lemma same_cell_subset: "same_cell b S \<Longrightarrow> T \<subseteq> S \<Longrightarrow> same_cell b T"
  unfolding same_cell_def by blast

lemma same_cell_empty [simp]: "same_cell b {}"
  by (simp add: same_cell_def)

lemma cell_64 [simp]: "cell 64 p = 0"
  by (rule bit_word_eqI) (simp add: cell_def bit_drop_bit_eq)

lemma same_cell_64 [simp]: "same_cell 64 S"
  by (simp add: same_cell_def)

lemma cell_bit:
  assumes "cell b p = cell b q" "b \<le> j"
  shows "bit (morton_id p) j = bit (morton_id q) j"
proof -
  have "bit (cell b p) (j - b) = bit (cell b q) (j - b)" using assms(1) by simp
  then show ?thesis using assms(2) by (simp add: cell_def bit_drop_bit_eq)
qed

lemma bit_clear_code:
  assumes "zcoded p" "1 \<le> b" "b \<le> 64"
  shows "bit_clear b p \<longleftrightarrow> \<not> bit (morton_id p) (b - 1)"
proof -
  have and0: "w AND 2 ^ n = 0 \<longleftrightarrow> \<not> bit w n" for w :: "32 word" and n
    using bit_iff_and_push_bit_not_eq_0 [of w n] by simp
  have "b - 1 < 64" "odd b \<longleftrightarrow> even (b - 1)" using assms by auto
  then show ?thesis
    using assms unfolding bit_clear_def Let_def zcoded_def interleave_bits_def
    by (simp add: and0 bit_interleave_words odd_iff_mod_2_eq_one)
qed

lemma cell_split:
  assumes "cell b p = cell b q" "1 \<le> b" "bit (morton_id p) (b - 1) = bit (morton_id q) (b - 1)"
  shows "cell (b - 1) p = cell (b - 1) q"
proof (rule bit_word_eqI)
  fix n
  show "bit (cell (b - 1) p) n = bit (cell (b - 1) q) n"
    using assms(2,3) cell_bit [OF assms(1), of "b - 1 + n"]
    by (cases n) (auto simp: cell_def bit_drop_bit_eq)
qed

lemma same_cell_split:
  assumes "same_cell b S" "1 \<le> b" "\<forall>p\<in>S. bit (morton_id p) (b - 1) = v"
  shows "same_cell (b - 1) S"
  using assms unfolding same_cell_def by (meson cell_split)

lemma code_less_of_bit:
  assumes "cell b p = cell b q" "1 \<le> b" "\<not> bit (morton_id p) (b - 1)" "bit (morton_id q) (b - 1)"
  shows "pt_key p < pt_key q"
proof -
  have "top_diff (morton_id p) (morton_id q) (b - 1)"
    using assms cell_bit [OF assms(1)] by (auto simp: top_diff_def)
  then have "morton_id p < morton_id q" using assms(4) by (rule top_diff_less)
  then show ?thesis by (simp add: pt_key_def)
qed

lemma partitioned:
  assumes "sorted_wrt (\<lambda>a b. f b \<longrightarrow> f a) P"
  shows "filter f P @ filter (\<lambda>x. \<not> f x) P = P"
  using assms
proof (induction P)
  case (Cons x P)
  then show ?case
    by (cases "f x") (auto simp: filter_empty_conv filter_id_conv)
qed simp

lemma partitioned_split_at:
  assumes "filter f P @ filter (\<lambda>x. \<not> f x) P = P"
  shows "split_at f P 0 (length P) (length (filter f P))"
proof -
  define A where "A = filter f P" define B where "B = filter (\<lambda>x. \<not> f x) P"
  have AB: "P = A @ B" using assms by (simp add: A_def B_def)
  have "\<forall>x\<in>set A. f x" "\<forall>x\<in>set B. \<not> f x" by (auto simp: A_def B_def)
  then have "\<forall>i<length A. f (A ! i)" "\<forall>i<length B. \<not> f (B ! i)" by simp_all
  then have "split_at f (A @ B) 0 (length (A @ B)) (length A)"
    by (auto simp: split_at_def nth_append)
  then show ?thesis unfolding AB [symmetric] by (simp add: A_def)
qed

text \<open>
  On a Morton-sorted batch that lies in one cell of level \<open>b\<close>, \<open>split_by_bit\<close>
  separates the points of the two halves of the cell.
\<close>

lemma split_by_bit_sorted:
  assumes "sorted_by pt_key P" "same_cell b (set P)" "\<forall>p\<in>set P. zcoded p" "1 \<le> b" "b \<le> 64"
  shows "take (split_by_bit P 0 (length P) b) P = filter (bit_clear b) P"
    and "drop (split_by_bit P 0 (length P) b) P = filter (\<lambda>p. \<not> bit_clear b p) P"
    and "split_by_bit P 0 (length P) b = length (filter (bit_clear b) P)"
proof -
  have clr: "bit_clear b p \<longleftrightarrow> \<not> bit (morton_id p) (b - 1)" if "p \<in> set P" for p
    using bit_clear_code assms that by blast
  have "sorted_wrt (\<lambda>p q. pt_key p \<le> pt_key q) P"
    using assms(1) by (simp add: sorted_by_def sorted_wrt_map)
  then have "sorted_wrt (\<lambda>p q. bit_clear b q \<longrightarrow> bit_clear b p) P"
  proof (rule sorted_wrt_mono_rel [rotated])
    fix p q assume pq: "p \<in> set P" "q \<in> set P" "pt_key p \<le> pt_key q"
    have "cell b p = cell b q" using assms(2) pq unfolding same_cell_def by blast
    then have "pt_key q < pt_key p" if "bit_clear b q" "\<not> bit_clear b p"
      using code_less_of_bit [of b q p] assms(4) that clr [OF pq(1)] clr [OF pq(2)] by simp
    then show "bit_clear b q \<longrightarrow> bit_clear b p" using pq(3) leD by blast
  qed
  then have part: "filter (bit_clear b) P @ filter (\<lambda>p. \<not> bit_clear b p) P = P"
    by (rule partitioned)
  show m: "split_by_bit P 0 (length P) b = length (filter (bit_clear b) P)"
    using partitioned_split_at [OF part] by (rule split_by_bit_split_at)
  have "take (length (filter (bit_clear b) P)) (filter (bit_clear b) P @ filter (\<lambda>p. \<not> bit_clear b p) P)
      = filter (bit_clear b) P"
    "drop (length (filter (bit_clear b) P)) (filter (bit_clear b) P @ filter (\<lambda>p. \<not> bit_clear b p) P)
      = filter (\<lambda>p. \<not> bit_clear b p) P" by simp_all
  then show "take (split_by_bit P 0 (length P) b) P = filter (bit_clear b) P"
    "drop (split_by_bit P 0 (length P) b) P = filter (\<lambda>p. \<not> bit_clear b p) P"
    unfolding m part by simp_all
qed

section \<open>Sorting by Morton code and id\<close>

text \<open>
  \<open>get_sorted_points\<close> first writes the code into every point of its argument,
  then returns a sorted copy. The comparison is code first, then id, so the result is
  the sequence sorted by \<open>pt_key\<close> (\<open>std::sort\<close> below 256 points,
  \<open>parlay::sort\<close> otherwise; equal keys keep their order here). \<open>ov\<close> stands
  for \<open>overlap_bits\<close>, the Hilbert code.
\<close>

definition set_code :: "(point \<Rightarrow> 64 word) \<Rightarrow> bool \<Rightarrow> point \<Rightarrow> point" where
  "set_code ov use_hilbert p =
     p\<lparr>morton_id := (if use_hilbert then ov p else interleave_bits p)\<rparr>"

definition get_sorted_points :: "(point \<Rightarrow> 64 word) \<Rightarrow> point list \<Rightarrow> bool \<Rightarrow> point list \<times> point list" where
  "get_sorted_points ov P use_hilbert =
     (let P' = map (set_code ov use_hilbert) P in (P', sort_key pt_key P'))"

lemma interleave_bits_update [simp]: "interleave_bits (p\<lparr>morton_id := m\<rparr>) = interleave_bits p"
  by (simp add: interleave_bits_def)

lemma zcoded_set_code [simp]: "zcoded (set_code ov False p)"
  by (simp add: zcoded_def set_code_def)

lemma set_code_sel [simp]:
  "pt_id (set_code ov h p) = pt_id p" "pt_x (set_code ov h p) = pt_x p" "pt_y (set_code ov h p) = pt_y p"
  by (simp_all add: set_code_def)

lemma get_sorted_points_facts:
  assumes "get_sorted_points ov P h = (P', S)"
  shows "P' = map (set_code ov h) P" "mset S = mset P'" "sorted_by pt_key S"
  using assms by (auto simp: get_sorted_points_def Let_def sorted_by_sort_key)

lemma get_sorted_points_zcoded:
  assumes "get_sorted_points ov P False = (P', S)" "p \<in> set S" shows "zcoded p"
proof -
  have "p \<in> set P'" using assms get_sorted_points_facts(2) by (metis set_mset_mset)
  then show ?thesis using get_sorted_points_facts(1) [OF assms(1)] by auto
qed

section \<open>The comparison of two points\<close>

text \<open>\<open>pt_cmp\<close>: 0 for the same key, 1 when the first is smaller, 2 when the second is.\<close>

definition pt_cmp :: "point \<Rightarrow> point \<Rightarrow> nat" where
  "pt_cmp pt1 pt2 =
     (if morton_id pt1 = morton_id pt2
      then if pt_id pt1 = pt_id pt2 then 0 else if pt_id pt1 < pt_id pt2 then 1 else 2
      else if morton_id pt1 < morton_id pt2 then 1 else 2)"

lemma pt_cmp_key:
  "pt_cmp p q = (if pt_key p = pt_key q then 0 else if pt_key p < pt_key q then 1 else 2)"
  by (auto simp: pt_cmp_def pt_key_def)

section \<open>Deleting a batch from a sorted sequence\<close>

fun get_delete_walk :: "(point \<Rightarrow> bool) \<Rightarrow> point list \<Rightarrow> point list \<Rightarrow> point list" where
  "get_delete_walk f [] P = []"
| "get_delete_walk f (a # lhs) [] =
     (if \<not> f a then get_delete_walk f lhs [] else a # get_delete_walk f lhs [])"
| "get_delete_walk f (a # lhs) (p # P) =
     (let flag = pt_cmp a p in
      if flag = 0 then get_delete_walk f lhs P
      else if flag = 1 then
        (if \<not> f a then get_delete_walk f lhs (p # P) else a # get_delete_walk f lhs (p # P))
      else get_delete_walk f (a # lhs) P)"

definition get_delete_p :: "point list \<Rightarrow> point list \<Rightarrow> nat \<Rightarrow> nat \<Rightarrow> (point \<Rightarrow> bool) \<Rightarrow> point list" where
  "get_delete_p lhs P l r f = get_delete_walk f lhs (take (r - l) (drop l P))"

definition get_delete_p_all :: "point list \<Rightarrow> point list \<Rightarrow> nat \<Rightarrow> nat \<Rightarrow> point list" where
  "get_delete_p_all lhs P l r = get_delete_p lhs P l r (\<lambda>_. True)"

lemma get_delete_walk_eq: "get_delete_walk f lhs P = filter f (diff_by pt_key pt_key lhs P)"
  by (induction f lhs P rule: get_delete_walk.induct) (auto simp: pt_cmp_key Let_def)

lemma get_delete_p_all_eq [seq_simps]:
  "get_delete_p_all lhs P 0 (length P) = diff_by pt_key pt_key lhs P"
  by (simp add: get_delete_p_all_def get_delete_p_def get_delete_walk_eq filter_True)

text \<open>
  C23. Deleting a sorted batch from a sorted leaf removes, for every key of the
  batch, as many points with that key as the batch has (and the leaf holds), keeps
  the rest in order and adds nothing.
\<close>

theorem get_delete_p_removes:
  assumes "sorted_by pt_key lhs" "sorted_by pt_key P"
  shows "keys_of pt_key (get_delete_p_all lhs P 0 (length P)) = keys_of pt_key lhs - keys_of pt_key P
    \<and> sorted_by pt_key (get_delete_p_all lhs P 0 (length P))
    \<and> set (get_delete_p_all lhs P 0 (length P)) \<subseteq> set lhs"
  using assms by (simp add: seq_simps keys_diff_by sorted_diff_by set_diff_by)

theorem get_delete_p_removes_witness:
  "keys_of pt_key (get_delete_p_all [Point3 1 2 3, Point3 2 2 3, Point3 2 2 3] [Point3 2 2 3] 0 1)
     = {#(0, 1), (0, 2)#}"
proof -
  have s: "sorted_by pt_key [Point3 1 2 3, Point3 2 2 3, Point3 2 2 3]" "sorted_by pt_key [Point3 2 2 3]"
    by (simp_all add: sorted_by_Cons pt_key_def Point3_def)
  show ?thesis
    using get_delete_p_removes [OF s] by (simp add: pt_key_def Point3_def add_mset_commute)
qed

section \<open>Writing into buffers of a fixed size\<close>

text \<open>
  A buffer is allocated once and written at a fill count that grows (\<open>out[cnt++] = p\<close>). It is
  represented by its allocated size and its filled prefix; a write past the end is
  out of bounds, \<open>None\<close>.
\<close>

definition put_point :: "nat \<Rightarrow> point \<Rightarrow> point list \<Rightarrow> point list option" where
  "put_point cap p out = (if length out < cap then Some (out @ [p]) else None)"

text \<open>Writing a sequence point by point: it succeeds when the sequence fits.\<close>

definition put_points :: "nat \<Rightarrow> point list \<Rightarrow> point list \<Rightarrow> point list option" where
  "put_points cap ps out = (if ps = [] \<or> length out + length ps \<le> cap then Some (out @ ps) else None)"

lemma put_points_Nil [simp]: "put_points cap [] out = Some out"
  by (simp add: put_points_def)

lemma put_point_points: "put_point cap p out = put_points cap [p] out"
  by (simp add: put_point_def put_points_def)

lemma put_points_append: "Option.bind (put_points cap ps out) (put_points cap qs) = put_points cap (ps @ qs) out"
  by (auto simp: put_points_def)

lemma put_points_fits:
  "length out \<le> cap \<Longrightarrow> put_points cap ps out = (if length out + length ps \<le> cap then Some (out @ ps) else None)"
  by (auto simp: put_points_def)

section \<open>Collecting the difference of two sequences\<close>

text \<open>
  \<open>diff_type\<close> holds two buffers with fill counts: \<open>add_cnt\<close> and \<open>remove_cnt\<close>
  are the lengths of the filled prefixes.
\<close>

record diff_type =
  add_cap :: nat
  remove_cap :: nat
  d_add :: "point list"
  d_remove :: "point list"

definition new_diff :: "nat \<Rightarrow> nat \<Rightarrow> diff_type" where
  "new_diff add_sz remove_sz = \<lparr>add_cap = add_sz, remove_cap = remove_sz, d_add = [], d_remove = []\<rparr>"

definition reset_diff :: "diff_type \<Rightarrow> diff_type" where
  "reset_diff d = d\<lparr>d_add := [], d_remove := []\<rparr>"

definition add_point :: "diff_type \<Rightarrow> point \<Rightarrow> bool \<Rightarrow> diff_type option" where
  "add_point d p reverse =
     (if \<not> reverse then map_option (\<lambda>out. d\<lparr>d_add := out\<rparr>) (put_point (add_cap d) p (d_add d))
      else map_option (\<lambda>out. d\<lparr>d_remove := out\<rparr>) (put_point (remove_cap d) p (d_remove d)))"

definition remove_point :: "diff_type \<Rightarrow> point \<Rightarrow> bool \<Rightarrow> diff_type option" where
  "remove_point d p reverse =
     (if \<not> reverse then map_option (\<lambda>out. d\<lparr>d_remove := out\<rparr>) (put_point (remove_cap d) p (d_remove d))
      else map_option (\<lambda>out. d\<lparr>d_add := out\<rparr>) (put_point (add_cap d) p (d_add d)))"

definition compact :: "diff_type \<Rightarrow> diff_type" where
  "compact d = d\<lparr>add_cap := length (d_add d), remove_cap := length (d_remove d)\<rparr>"

definition in_capacity :: "diff_type \<Rightarrow> bool" where
  "in_capacity d \<longleftrightarrow> length (d_add d) \<le> add_cap d \<and> length (d_remove d) \<le> remove_cap d"

fun merge_pts :: "(point \<Rightarrow> bool) \<Rightarrow> point list \<Rightarrow> point list \<Rightarrow> diff_type \<Rightarrow> bool \<Rightarrow> diff_type option" where
  "merge_pts f [] [] d reverse = Some d"
| "merge_pts f (a # as) [] d reverse =
     do { d \<leftarrow> (if f a then remove_point d a reverse else Some d); merge_pts f as [] d reverse }"
| "merge_pts f [] (b # bs) d reverse =
     do { d \<leftarrow> (if f b then add_point d b reverse else Some d); merge_pts f [] bs d reverse }"
| "merge_pts f (a # as) (b # bs) d reverse =
     (let flag = pt_cmp a b in
      if flag = 0 then merge_pts f as bs d reverse
      else if flag = 1 then
        do { d \<leftarrow> (if f a then remove_point d a reverse else Some d); merge_pts f as (b # bs) d reverse }
      else
        do { d \<leftarrow> (if f b then add_point d b reverse else Some d); merge_pts f (a # as) bs d reverse })"

definition merge_pts_pair :: "point list \<Rightarrow> point list \<Rightarrow> (point list \<times> point list) option" where
  "merge_pts_pair a b =
     do {
       ret_diff \<leftarrow> merge_pts (\<lambda>_. True) a b (new_diff (length b) (length a)) False;
       let ret_diff = compact ret_diff;
       Some (d_add ret_diff, d_remove ret_diff) }"

text \<open>The two sides a walk appends, where \<open>reverse\<close> sends them, and whether they fit.\<close>

definition append_diff :: "diff_type \<Rightarrow> bool \<Rightarrow> point list \<Rightarrow> point list \<Rightarrow> diff_type option" where
  "append_diff d reverse ad rm =
     (case (if \<not> reverse then (ad, rm) else (rm, ad)) of
        (A, R) \<Rightarrow> do {
          out_a \<leftarrow> put_points (add_cap d) A (d_add d);
          out_r \<leftarrow> put_points (remove_cap d) R (d_remove d);
          Some (d\<lparr>d_add := out_a, d_remove := out_r\<rparr>) })"

lemma append_diff_Nil [simp]: "append_diff d rv [] [] = Some d"
  by (simp add: append_diff_def)

lemma append_diff_append:
  "Option.bind (append_diff d rv a1 r1) (\<lambda>d. append_diff d rv a2 r2) = append_diff d rv (a1 @ a2) (r1 @ r2)"
  by (cases rv) (auto simp: append_diff_def put_points_append [symmetric] put_points_def)

lemma add_point_append: "add_point d p rv = append_diff d rv [p] []"
  by (auto simp: add_point_def append_diff_def put_point_points put_points_def)

lemma remove_point_append: "remove_point d p rv = append_diff d rv [] [p]"
  by (auto simp: remove_point_def append_diff_def put_point_points put_points_def)

lemma append_diff_swap: "append_diff d True ad rm = append_diff d False rm ad"
  by (simp add: append_diff_def)

text \<open>With fill counts below the sizes both sides have to fit.\<close>

lemma append_diff_fits:
  assumes "in_capacity d"
  shows "append_diff d False ad rm =
    (if length (d_add d) + length ad \<le> add_cap d \<and> length (d_remove d) + length rm \<le> remove_cap d
     then Some (d\<lparr>d_add := d_add d @ ad, d_remove := d_remove d @ rm\<rparr>) else None)"
  using assms by (auto simp: append_diff_def in_capacity_def put_points_def)

lemma merge_pts_eq [seq_simps]:
  "merge_pts f a b d rv =
     append_diff d rv (filter f (diff_by pt_key pt_key b a)) (filter f (diff_by pt_key pt_key a b))"
proof (induction "length a + length b" arbitrary: a b d rule: less_induct)
  case less
  note walk = less add_point_append remove_point_append append_diff_append
  show ?case
  proof (cases a)
    case Nil
    then show ?thesis by (cases b) (simp_all add: walk)
  next
    case a: (Cons x xs)
    show ?thesis
    proof (cases b)
      case Nil
      then show ?thesis by (simp add: a walk)
    next
      case (Cons y ys)
      consider "pt_key x = pt_key y" | "pt_key x < pt_key y" | "pt_key y < pt_key x" by fastforce
      then show ?thesis
      proof cases
        case 1
        then show ?thesis by (simp add: a Cons pt_cmp_key walk)
      next
        case 2
        then have "\<not> pt_key y < pt_key x" "pt_key x \<noteq> pt_key y" by auto
        then show ?thesis using 2 by (simp add: a Cons pt_cmp_key walk)
      next
        case 3
        then have "\<not> pt_key x < pt_key y" "pt_key x \<noteq> pt_key y" by auto
        then show ?thesis using 3 by (simp add: a Cons pt_cmp_key walk)
      qed
    qed
  qed
qed

text \<open>The buffers that \<open>merge_pts\<close> makes itself are large enough.\<close>

lemma merge_pts_new:
  "merge_pts (\<lambda>_. True) a b (new_diff (length b) (length a)) False =
     Some ((new_diff (length b) (length a))\<lparr>d_add := diff_by pt_key pt_key b a, d_remove := diff_by pt_key pt_key a b\<rparr>)"
  using length_diff_by [of pt_key pt_key a b] length_diff_by [of pt_key pt_key b a]
  by (simp add: merge_pts_eq append_diff_fits in_capacity_def new_diff_def filter_True)

lemma merge_pts_pair_eq [seq_simps]:
  "merge_pts_pair a b = Some (diff_by pt_key pt_key b a, diff_by pt_key pt_key a b)"
  by (simp add: merge_pts_pair_def merge_pts_new compact_def)

text \<open>
  C24. \<open>merge_pts\<close> computes an exact difference of two sorted sequences: the buffers the
  source allocates for it (the size of \<open>b\<close> and of \<open>a\<close>) are large enough, so it never writes out of
  bounds; the added keys are those of \<open>b\<close> without those of \<open>a\<close>, the removed keys the
  converse, with multiplicity; and removing and then adding them turns the keys of
  \<open>a\<close> into those of \<open>b\<close>.
\<close>

theorem merge_pts_exact:
  assumes "sorted_by pt_key a" "sorted_by pt_key b"
  shows "\<exists>d. merge_pts (\<lambda>_. True) a b (new_diff (length b) (length a)) False = Some d
    \<and> keys_of pt_key (d_add d) = keys_of pt_key b - keys_of pt_key a
    \<and> keys_of pt_key (d_remove d) = keys_of pt_key a - keys_of pt_key b
    \<and> keys_of pt_key a - keys_of pt_key (d_remove d) + keys_of pt_key (d_add d) = keys_of pt_key b
    \<and> in_capacity d"
proof -
  have sum: "A - (A - B) + (B - A) = (B :: zkey multiset)" for A B
    by (rule multiset_eqI) auto
  show ?thesis
    unfolding merge_pts_new
    by (intro exI conjI, rule refl)
      (use assms sum in \<open>simp_all add: keys_diff_by in_capacity_def length_diff_by new_diff_def\<close>)
qed

theorem merge_pts_exact_witness:
  "\<exists>d. merge_pts (\<lambda>_. True) [Point3 1 2 3, Point3 2 2 3] [Point3 2 2 3, Point3 3 2 3] (new_diff 2 2) False = Some d
   \<and> keys_of pt_key (d_add d) = {#(0, 3)#} \<and> keys_of pt_key (d_remove d) = {#(0, 1)#}"
proof -
  have s: "sorted_by pt_key [Point3 1 2 3, Point3 2 2 3]" "sorted_by pt_key [Point3 2 2 3, Point3 3 2 3]"
    by (simp_all add: sorted_by_Cons pt_key_def Point3_def)
  have l: "length [x, y] = 2" for x y :: point by simp
  from merge_pts_exact [OF s] obtain d where
    "merge_pts (\<lambda>_. True) [Point3 1 2 3, Point3 2 2 3] [Point3 2 2 3, Point3 3 2 3] (new_diff 2 2) False = Some d"
    "keys_of pt_key (d_add d) = keys_of pt_key [Point3 2 2 3, Point3 3 2 3] - keys_of pt_key [Point3 1 2 3, Point3 2 2 3]"
    "keys_of pt_key (d_remove d) = keys_of pt_key [Point3 1 2 3, Point3 2 2 3] - keys_of pt_key [Point3 2 2 3, Point3 3 2 3]"
    unfolding l by blast
  then show ?thesis by (intro exI conjI) (assumption, simp_all add: pt_key_def Point3_def)
qed

end
