(* ===== verification/PointIds.thy ===== *)
theory PointIds
  imports PointSeqs
begin

text \<open>
  The routines of \<open>operations.hpp\<close> that work on points by id: classifying a
  difference into insertions, deletions and updates, comparing two versions by id,
  merging two edit lists with conflict detection, and applying an edit to a
  point set. \<open>parlay::sort\<close> by id is \<open>sort_key pt_id\<close>.
\<close>

section \<open>Sequences with distinct ids\<close>

definition distinct_ids :: "point list \<Rightarrow> bool" where
  "distinct_ids P \<longleftrightarrow> distinct (map pt_id P)"

abbreviation by_id :: "point list \<Rightarrow> point list" where
  "by_id P \<equiv> sort_key pt_id P"

lemma strict_by_id: "distinct_ids P \<Longrightarrow> strict_by pt_id (by_id P)"
  by (simp add: distinct_ids_def strict_by_sort_key)

lemma mset_distinct_ids: "mset P = mset Q \<Longrightarrow> distinct_ids P = distinct_ids Q"
  by (metis distinct_ids_def mset_eq_imp_distinct_iff mset_map)

lemma distinct_idsD: "distinct_ids P \<Longrightarrow> p \<in> set P \<Longrightarrow> q \<in> set P \<Longrightarrow> pt_id p = pt_id q \<Longrightarrow> p = q"
  by (meson distinct_ids_def distinct_map inj_onD)

section \<open>Classifying a difference\<close>

fun filter_diff_walk :: "point list \<Rightarrow> point list \<Rightarrow> point list \<times> point list \<times> point list" where
  "filter_diff_walk [] [] = ([], [], [])"
| "filter_diff_walk (a # as) [] = (case filter_diff_walk as [] of (i, d, u) \<Rightarrow> (a # i, d, u))"
| "filter_diff_walk [] (r # rs) = (case filter_diff_walk [] rs of (i, d, u) \<Rightarrow> (i, r # d, u))"
| "filter_diff_walk (a # as) (r # rs) =
     (if pt_id a < pt_id r then (case filter_diff_walk as (r # rs) of (i, d, u) \<Rightarrow> (a # i, d, u))
      else if pt_id a = pt_id r then (case filter_diff_walk as rs of (i, d, u) \<Rightarrow> (i, d, a # u))
      else (case filter_diff_walk (a # as) rs of (i, d, u) \<Rightarrow> (i, r # d, u)))"

definition filter_diff_results :: "point list \<Rightarrow> point list \<Rightarrow> point list \<times> point list \<times> point list" where
  "filter_diff_results add remove = filter_diff_walk (by_id add) (by_id remove)"

lemma filter_diff_walk_eq [seq_simps]:
  "filter_diff_walk as rs =
     (diff_by pt_id pt_id as rs, diff_by pt_id pt_id rs as, common_by pt_id pt_id as rs)"
  by (induction as rs rule: filter_diff_walk.induct) auto

lemma filter_diff_results_sets:
  assumes "distinct_ids add" "distinct_ids remove"
    and "filter_diff_results add remove = (ins, del, upd)"
  shows "set ins = {p \<in> set add. pt_id p \<notin> pt_id ` set remove}"
    "set del = {p \<in> set remove. pt_id p \<notin> pt_id ` set add}"
    "set upd = {p \<in> set add. pt_id p \<in> pt_id ` set remove}"
    "strict_by pt_id ins" "strict_by pt_id del" "strict_by pt_id upd"
proof -
  note s = strict_by_id [OF assms(1)] strict_by_id [OF assms(2)]
  note w = s [THEN strict_by_sorted_by]
  have e: "ins = filter (\<lambda>x. pt_id x \<notin> pt_id ` set remove) (by_id add)"
    "del = filter (\<lambda>x. pt_id x \<notin> pt_id ` set add) (by_id remove)"
    "upd = filter (\<lambda>x. pt_id x \<in> pt_id ` set remove) (by_id add)"
    using assms(3) s w
    by (simp_all add: filter_diff_results_def seq_simps diff_by_filter common_by_filter)
  show "set ins = {p \<in> set add. pt_id p \<notin> pt_id ` set remove}"
    "set del = {p \<in> set remove. pt_id p \<notin> pt_id ` set add}"
    "set upd = {p \<in> set add. pt_id p \<in> pt_id ` set remove}"
    "strict_by pt_id ins" "strict_by pt_id del" "strict_by pt_id upd"
    unfolding e using s by (auto simp: strict_by_filter)
qed

text \<open>
  C26. Classifying the difference of two versions, each with distinct ids: the
  insertions are the added points whose id was not removed, the deletions the removed
  points whose id was not added, and the updates the added points whose id was
  removed; every added point lands in exactly one class, and the three lists are
  strictly sorted by id.
\<close>

theorem filter_diff_results_classify:
  assumes "distinct_ids add" "distinct_ids remove"
    and "filter_diff_results add remove = (ins, del, upd)"
  shows "set ins = {p \<in> set add. pt_id p \<notin> pt_id ` set remove}
    \<and> set del = {p \<in> set remove. pt_id p \<notin> pt_id ` set add}
    \<and> set upd = {p \<in> set add. pt_id p \<in> pt_id ` set remove}
    \<and> mset ins + mset upd = mset add \<and> strict_by pt_id ins \<and> strict_by pt_id del \<and> strict_by pt_id upd"
  using filter_diff_results_sets [OF assms] mset_diff_common [of pt_id pt_id "by_id add" "by_id remove"] assms(3)
  by (simp add: filter_diff_results_def seq_simps)

theorem filter_diff_results_classify_witness:
  "filter_diff_results [Point3 1 2 3, Point3 4 4 4] [Point3 2 1 1, Point3 1 5 5]
     = ([Point3 4 4 4], [Point3 2 1 1], [Point3 1 2 3])
   \<and> pt_id (Point3 4 4 4) \<notin> pt_id ` set [Point3 2 1 1, Point3 1 5 5]"
proof -
  have d: "distinct_ids [Point3 1 2 3, Point3 4 4 4]" "distinct_ids [Point3 2 1 1, Point3 1 5 5]"
    by (simp_all add: distinct_ids_def)
  have r: "filter_diff_results [Point3 1 2 3, Point3 4 4 4] [Point3 2 1 1, Point3 1 5 5]
     = ([Point3 4 4 4], [Point3 2 1 1], [Point3 1 2 3])"
    by (simp add: filter_diff_results_def Point3_def word_le_nat_alt)
  show ?thesis using filter_diff_results_classify [OF d r] r by simp
qed

section \<open>Comparing two versions by id\<close>

fun diff_id_walk :: "point list \<Rightarrow> point list \<Rightarrow> point list \<times> point list" where
  "diff_id_walk [] [] = ([], [])"
| "diff_id_walk (a # as) [] = (case diff_id_walk as [] of (ad, rm) \<Rightarrow> (ad, a # rm))"
| "diff_id_walk [] (b # bs) = (case diff_id_walk [] bs of (ad, rm) \<Rightarrow> (b # ad, rm))"
| "diff_id_walk (a # as) (b # bs) =
     (if pt_id a = pt_id b then
        (if point_eq a b then diff_id_walk as bs
         else (case diff_id_walk as bs of (ad, rm) \<Rightarrow> (b # ad, a # rm)))
      else if pt_id a < pt_id b then (case diff_id_walk as (b # bs) of (ad, rm) \<Rightarrow> (ad, a # rm))
      else (case diff_id_walk (a # as) bs of (ad, rm) \<Rightarrow> (b # ad, rm)))"

definition diff_by_id :: "point list \<Rightarrow> point list \<Rightarrow> point list \<times> point list" where
  "diff_by_id a b = diff_id_walk (by_id a) (by_id b)"

text \<open>\<open>unmatched P Q\<close>: the points of \<open>P\<close> that no point of \<open>Q\<close> equals.\<close>

definition unmatched :: "point list \<Rightarrow> point list \<Rightarrow> point list" where
  "unmatched P Q = filter (\<lambda>p. \<forall>q\<in>set Q. \<not> point_eq p q) P"

lemma unmatched_drop:
  assumes "\<forall>p\<in>set P. pt_id p \<noteq> pt_id q"
  shows "unmatched P (q # Q) = unmatched P Q"
  unfolding unmatched_def using assms by (intro filter_cong) (auto dest: point_eq_id)

lemma unmatched_Cons_other:
  assumes "\<forall>q\<in>set Q. pt_id p \<noteq> pt_id q"
  shows "unmatched (p # P) Q = p # unmatched P Q"
  unfolding unmatched_def using assms by (auto dest: point_eq_id)

lemma unmatched_Nil2 [simp]: "unmatched P [] = P"
  by (simp add: unmatched_def filter_True)

lemma unmatched_Nil [simp]: "unmatched [] Q = []"
  by (simp add: unmatched_def)

lemma diff_id_walk_eq:
  "strict_by pt_id as \<Longrightarrow> strict_by pt_id bs \<Longrightarrow>
   diff_id_walk as bs = (unmatched bs as, unmatched as bs)"
proof (induction as bs rule: diff_id_walk.induct)
  case (4 a as b bs)
  then have lt: "\<forall>p\<in>set as. pt_id a < pt_id p" "\<forall>q\<in>set bs. pt_id b < pt_id q"
    by (auto simp: strict_by_Cons)
  consider (eq) "pt_id a = pt_id b" | (ls) "pt_id a < pt_id b" | (gt) "pt_id b < pt_id a" by fastforce
  then show ?case
  proof cases
    case eq
    then have "\<forall>p\<in>set as. pt_id p \<noteq> pt_id b" "\<forall>q\<in>set bs. pt_id q \<noteq> pt_id a"
      "\<forall>p\<in>set as. pt_id b \<noteq> pt_id p" "\<forall>q\<in>set bs. pt_id a \<noteq> pt_id q" using lt by auto
    note drop = this(1,2) [THEN unmatched_drop] this(3,4) [THEN unmatched_Cons_other]
    show ?thesis
    proof (cases "point_eq a b")
      case True
      then have "unmatched (b # bs) (a # as) = unmatched bs (a # as)"
        "unmatched (a # as) (b # bs) = unmatched as (b # bs)"
        by (simp_all add: unmatched_def point_eq_sym)
      then show ?thesis using True eq 4 drop by (simp add: strict_by_Cons)
    next
      case False
      then have "unmatched (b # bs) (a # as) = b # unmatched bs (a # as)"
        "unmatched (a # as) (b # bs) = a # unmatched as (b # bs)"
        using lt eq by (fastforce simp: unmatched_def point_eq_sym [of b] dest: point_eq_id)+
      then show ?thesis using False eq 4 drop by (simp add: strict_by_Cons)
    qed
  next
    case ls
    then have "\<forall>q\<in>set (b # bs). pt_id q \<noteq> pt_id a" "\<forall>q\<in>set (b # bs). pt_id a \<noteq> pt_id q"
      using lt by auto
    note drop = this(1) [THEN unmatched_drop] this(2) [THEN unmatched_Cons_other]
    moreover from ls have "pt_id a \<noteq> pt_id b" by simp
    ultimately show ?thesis using ls 4 by (simp add: strict_by_Cons)
  next
    case gt
    then have "\<forall>q\<in>set (a # as). pt_id q \<noteq> pt_id b" "\<forall>q\<in>set (a # as). pt_id b \<noteq> pt_id q"
      using lt by auto
    note drop = this(1) [THEN unmatched_drop] this(2) [THEN unmatched_Cons_other]
    moreover from gt have "pt_id a \<noteq> pt_id b" "\<not> pt_id a < pt_id b" by simp_all
    ultimately show ?thesis using gt 4 by (simp add: strict_by_Cons)
  qed
qed (auto simp: strict_by_Cons)

lemma diff_by_id_exact_sets:
  assumes "distinct_ids a" "distinct_ids b" "diff_by_id a b = (added, removed)"
  shows "set added = {q \<in> set b. \<forall>p\<in>set a. \<not> point_eq q p}"
    "set removed = {p \<in> set a. \<forall>q\<in>set b. \<not> point_eq p q}"
    "distinct_ids added" "distinct_ids removed" "length added \<le> length b" "length removed \<le> length a"
proof -
  note s = strict_by_id [OF assms(1)] strict_by_id [OF assms(2)]
  have e: "added = unmatched (by_id b) (by_id a)" "removed = unmatched (by_id a) (by_id b)"
    using assms(3) s by (simp_all add: diff_by_id_def diff_id_walk_eq)
  show "length added \<le> length b" "length removed \<le> length a"
    using length_filter_le [of _ "by_id b"] length_filter_le [of _ "by_id a"]
    unfolding e unmatched_def length_sort by blast+
  show "distinct_ids added" "distinct_ids removed"
    using s strict_by_filter unfolding e unmatched_def distinct_ids_def strict_by_def by blast+
  show "set added = {q \<in> set b. \<forall>p\<in>set a. \<not> point_eq q p}"
    "set removed = {p \<in> set a. \<forall>q\<in>set b. \<not> point_eq p q}"
    by (simp_all add: e unmatched_def)
qed

text \<open>
  The difference by id of two versions with distinct ids: exactly the points
  of each version that have no equal point (same id, coordinates within the
  tolerance) in the other, within the buffers the routine allocates.
\<close>

theorem diff_by_id_exact:
  assumes "distinct_ids a" "distinct_ids b" "diff_by_id a b = (added, removed)"
  shows "set added = {q \<in> set b. \<forall>p\<in>set a. \<not> point_eq q p}
    \<and> set removed = {p \<in> set a. \<forall>q\<in>set b. \<not> point_eq p q}
    \<and> distinct_ids added \<and> distinct_ids removed
    \<and> length added \<le> length b \<and> length removed \<le> length a"
  using diff_by_id_exact_sets [OF assms] by simp

theorem diff_by_id_exact_witness:
  "diff_by_id [Point3 1 2 3, Point3 2 4 4] [Point3 2 4 5, Point3 1 2 3] = ([Point3 2 4 5], [Point3 2 4 4])
   \<and> distinct_ids [Point3 2 4 5]"
proof -
  have d: "distinct_ids [Point3 1 2 3, Point3 2 4 4]" "distinct_ids [Point3 2 4 5, Point3 1 2 3]"
    by (simp_all add: distinct_ids_def)
  have ne: "\<not> point_eq (Point3 2 4 4) (Point3 2 4 5)"
    using FT_EPS_less_1 rnd64_of_int [of 1] by (simp add: point_eq_def fsub_def dcmp_eq_0_iff fl_simps)
  have r: "diff_by_id [Point3 1 2 3, Point3 2 4 4] [Point3 2 4 5, Point3 1 2 3] = ([Point3 2 4 5], [Point3 2 4 4])"
    using ne by (simp add: diff_by_id_def word_le_nat_alt)
  show ?thesis using diff_by_id_exact [OF d r] r by simp
qed

section \<open>Merging two edit lists\<close>

fun conflict_walk :: "point list \<Rightarrow> point list \<Rightarrow> point list \<times> point list" where
  "conflict_walk [] [] = ([], [])"
| "conflict_walk (a # as) [] = (case conflict_walk as [] of (nc, cf) \<Rightarrow> (a # nc, cf))"
| "conflict_walk [] (b # bs) = (case conflict_walk [] bs of (nc, cf) \<Rightarrow> (b # nc, cf))"
| "conflict_walk (a # as) (b # bs) =
     (if pt_id a = pt_id b then
        (case conflict_walk as bs of (nc, cf) \<Rightarrow>
           if \<not> point_eq a b then (nc, a # b # cf) else (a # nc, cf))
      else if pt_id a < pt_id b then (case conflict_walk as (b # bs) of (nc, cf) \<Rightarrow> (a # nc, cf))
      else (case conflict_walk (a # as) bs of (nc, cf) \<Rightarrow> (b # nc, cf)))"

definition merge_by_id_with_conflict :: "point list \<Rightarrow> point list \<Rightarrow> point list \<times> point list" where
  "merge_by_id_with_conflict a b = conflict_walk (by_id a) (by_id b)"

text \<open>Two edits conflict when they name the same id and different coordinates.\<close>

definition conflicts :: "point \<Rightarrow> point \<Rightarrow> bool" where
  "conflicts p q \<longleftrightarrow> pt_id p = pt_id q \<and> \<not> point_eq p q"

lemma conflicts_sym: "conflicts p q \<longleftrightarrow> conflicts q p"
  by (auto simp: conflicts_def point_eq_sym)

definition conflicting :: "point list \<Rightarrow> point list \<Rightarrow> point set" where
  "conflicting P Q = {p \<in> set P. \<exists>q\<in>set Q. conflicts p q}"

lemma conflicting_Cons1:
  "conflicting (a # as) Q = (if \<exists>q\<in>set Q. conflicts a q then {a} else {}) \<union> conflicting as Q"
  by (auto simp: conflicting_def)

lemma conflicting_Cons2_other: "\<forall>p\<in>set P. \<not> conflicts p b \<Longrightarrow> conflicting P (b # Q) = conflicting P Q"
  by (auto simp: conflicting_def)

lemma conflict_walk_sets:
  "strict_by pt_id as \<Longrightarrow> strict_by pt_id bs \<Longrightarrow> conflict_walk as bs = (nc, cf) \<Longrightarrow>
   set cf = conflicting as bs \<union> conflicting bs as
   \<and> set nc = (set as - conflicting as bs) \<union> {q \<in> set bs. pt_id q \<notin> pt_id ` set as}"
proof (induction as bs arbitrary: nc cf rule: conflict_walk.induct)
  case 1 then show ?case by (simp add: conflicting_def)
next
  case (2 a as) then show ?case by (auto simp: conflicting_def strict_by_Cons split: prod.splits)
next
  case (3 b bs) then show ?case by (auto simp: conflicting_def strict_by_Cons split: prod.splits)
next
  case (4 a as b bs)
  from "4.prems"(1,2) have lt: "\<forall>p\<in>set as. pt_id a < pt_id p" "\<forall>q\<in>set bs. pt_id b < pt_id q"
    and st: "strict_by pt_id as" "strict_by pt_id bs" by (auto simp: strict_by_Cons)
  consider (eq) "pt_id a = pt_id b" | (ls) "pt_id a < pt_id b" | (gt) "pt_id b < pt_id a" by fastforce
  then show ?case
  proof cases
    case eq
    obtain nc' cf' where w: "conflict_walk as bs = (nc', cf')" by fastforce
    note IH = "4.IH"(1) [OF eq st w]
    have na: "\<forall>q\<in>set bs. \<not> conflicts a q \<and> \<not> conflicts q a" "\<forall>p\<in>set as. \<not> conflicts p b \<and> \<not> conflicts b p"
      using lt eq by (auto simp: conflicts_def)
    have nb: "\<forall>p\<in>set as. pt_id p \<noteq> pt_id b" "\<forall>q\<in>set bs. pt_id q \<noteq> pt_id a" using lt eq by auto
    have "(\<exists>q\<in>set (b # bs). conflicts a q) = conflicts a b" "(\<exists>p\<in>set (a # as). conflicts b p) = conflicts a b"
      using na conflicts_sym [of b a] by simp_all
    moreover have "conflicting as (b # bs) = conflicting as bs" "conflicting bs (a # as) = conflicting bs as"
      using na by (blast intro!: conflicting_Cons2_other)+
    ultimately have sets: "conflicting (a # as) (b # bs) = (if conflicts a b then {a} else {}) \<union> conflicting as bs"
      "conflicting (b # bs) (a # as) = (if conflicts a b then {b} else {}) \<union> conflicting bs as"
      by (simp_all only: conflicting_Cons1)
    have anb: "a \<notin> conflicting as bs" "a \<notin> set as" "a \<notin> set bs"
      using lt eq by (auto simp: conflicting_def)
    have ids: "{q \<in> set (b # bs). pt_id q \<notin> pt_id ` set (a # as)} = {q \<in> set bs. pt_id q \<notin> pt_id ` set as}"
      using nb eq by auto
    show ?thesis
    proof (cases "point_eq a b")
      case True
      then have "nc = a # nc'" "cf = cf'" "\<not> conflicts a b"
        using "4.prems"(3) eq w by (auto simp: conflicts_def)
      then show ?thesis unfolding sets ids using IH anb by auto
    next
      case False
      then have "nc = nc'" "cf = a # b # cf'" "conflicts a b"
        using "4.prems"(3) eq w by (auto simp: conflicts_def)
      then show ?thesis unfolding sets ids using IH anb by auto
    qed
  next
    case ls
    then have ne: "pt_id a \<noteq> pt_id b" by simp
    obtain nc' cf' where w: "conflict_walk as (b # bs) = (nc', cf')" by fastforce
    note IH = "4.IH"(2) [OF ne ls st(1) "4.prems"(2) w]
    have na: "\<forall>q\<in>set (b # bs). \<not> conflicts a q \<and> \<not> conflicts q a \<and> pt_id q \<noteq> pt_id a"
      using lt ls by (auto simp: conflicts_def)
    have sets: "conflicting (a # as) (b # bs) = conflicting as (b # bs)"
      "conflicting (b # bs) (a # as) = conflicting (b # bs) as"
      using na by (auto simp: conflicting_def)
    have "nc = a # nc'" "cf = cf'" using "4.prems"(3) ls ne w by auto
    moreover have "a \<notin> conflicting as (b # bs)" using lt by (auto simp: conflicting_def)
    moreover have "{q \<in> set (b # bs). pt_id q \<notin> pt_id ` set (a # as)} = {q \<in> set (b # bs). pt_id q \<notin> pt_id ` set as}"
      using na by auto
    ultimately show ?thesis unfolding sets using IH by auto
  next
    case gt
    then have ne: "pt_id a \<noteq> pt_id b" "\<not> pt_id a < pt_id b" by simp_all
    obtain nc' cf' where w: "conflict_walk (a # as) bs = (nc', cf')" by fastforce
    note IH = "4.IH"(3) [OF ne "4.prems"(1) st(2) w]
    have na: "\<forall>p\<in>set (a # as). \<not> conflicts b p \<and> \<not> conflicts p b \<and> pt_id p \<noteq> pt_id b"
      using lt gt by (auto simp: conflicts_def)
    have sets: "conflicting (a # as) (b # bs) = conflicting (a # as) bs"
      "conflicting (b # bs) (a # as) = conflicting bs (a # as)"
      using na by (auto simp: conflicting_def)
    have "nc = b # nc'" "cf = cf'" using "4.prems"(3) ne w by auto
    moreover have "{q \<in> set (b # bs). pt_id q \<notin> pt_id ` set (a # as)} = insert b {q \<in> set bs. pt_id q \<notin> pt_id ` set (a # as)}"
      using na by auto
    ultimately show ?thesis unfolding sets using IH by auto
  qed
qed

text \<open>
  C27. Merging two edit lists with distinct ids: the conflict list holds exactly
  the points of either list whose id the other list gives other coordinates; the
  conflict-free list holds every other id of the two lists, once.
\<close>

theorem merge_by_id_with_conflict_exact:
  assumes "distinct_ids a" "distinct_ids b" "merge_by_id_with_conflict a b = (nc, cf)"
  shows "set cf = conflicting a b \<union> conflicting b a
    \<and> set nc = (set a - conflicting a b) \<union> {q \<in> set b. pt_id q \<notin> pt_id ` set a}
    \<and> pt_id ` set nc \<union> pt_id ` set cf = pt_id ` (set a \<union> set b)
    \<and> pt_id ` set nc \<inter> pt_id ` set cf = {}"
proof -
  have w: "set cf = conflicting a b \<union> conflicting b a"
    "set nc = (set a - conflicting a b) \<union> {q \<in> set b. pt_id q \<notin> pt_id ` set a}"
    using conflict_walk_sets [OF strict_by_id strict_by_id] assms
    by (fastforce simp: merge_by_id_with_conflict_def conflicting_def)+
  have "pt_id p \<noteq> pt_id q" if "p \<in> set nc" "q \<in> set cf" for p q
  proof
    assume e: "pt_id p = pt_id q"
    from that(2) consider q' where "q \<in> set a" "q' \<in> set b" "conflicts q q'"
      | q' where "q \<in> set b" "q' \<in> set a" "conflicts q q'" unfolding w conflicting_def by blast
    then obtain x y where xy: "x \<in> set a" "y \<in> set b" "conflicts x y" "pt_id x = pt_id q"
      by (cases) (auto simp: conflicts_def point_eq_sym)
    then have "pt_id p \<in> pt_id ` set a" using e by (metis image_eqI)
    then have "p \<in> set a - conflicting a b" using that(1) unfolding w by blast
    then show False using xy e distinct_idsD [OF assms(1), of p x] by (auto simp: conflicting_def)
  qed
  moreover have "pt_id q \<in> pt_id ` set nc \<union> pt_id ` set cf" if "q \<in> set a \<union> set b" for q
  proof (cases "pt_id q \<in> pt_id ` set a")
    case True
    then obtain p where "p \<in> set a" "pt_id p = pt_id q" by auto
    then show ?thesis unfolding w by (cases "p \<in> conflicting a b") (auto intro: rev_image_eqI)
  next
    case False
    then show ?thesis using that unfolding w by auto
  qed
  moreover have "set nc \<union> set cf \<subseteq> set a \<union> set b" unfolding w conflicting_def by blast
  ultimately have "pt_id ` set nc \<union> pt_id ` set cf = pt_id ` (set a \<union> set b)"
    "pt_id ` set nc \<inter> pt_id ` set cf = {}" by blast+
  then show ?thesis using w by blast
qed

theorem merge_by_id_with_conflict_exact_witness:
  "merge_by_id_with_conflict [Point3 1 2 3, Point3 2 4 4] [Point3 2 4 5, Point3 3 1 1]
     = ([Point3 1 2 3, Point3 3 1 1], [Point3 2 4 4, Point3 2 4 5])
   \<and> Point3 2 4 5 \<in> conflicting [Point3 1 2 3, Point3 2 4 4] [Point3 2 4 5, Point3 3 1 1]
        \<union> conflicting [Point3 2 4 5, Point3 3 1 1] [Point3 1 2 3, Point3 2 4 4]"
proof -
  have d: "distinct_ids [Point3 1 2 3, Point3 2 4 4]" "distinct_ids [Point3 2 4 5, Point3 3 1 1]"
    by (simp_all add: distinct_ids_def)
  have ne: "\<not> point_eq (Point3 2 4 4) (Point3 2 4 5)"
    using FT_EPS_less_1 rnd64_of_int [of 1] by (simp add: point_eq_def fsub_def dcmp_eq_0_iff fl_simps)
  have r: "merge_by_id_with_conflict [Point3 1 2 3, Point3 2 4 4] [Point3 2 4 5, Point3 3 1 1]
     = ([Point3 1 2 3, Point3 3 1 1], [Point3 2 4 4, Point3 2 4 5])"
    using ne by (simp add: merge_by_id_with_conflict_def word_le_nat_alt word_less_nat_alt)
  show ?thesis
    unfolding conjunct1 [OF merge_by_id_with_conflict_exact [OF d r], symmetric] using r by simp
qed

section \<open>Applying an edit to a point set\<close>

text \<open>
  \<open>collect_newver_point\<close>: the table \<open>removed\<close> holds the ids of the deletions.
  \<open>split_insert_delete\<close> takes the first tenths of a set, with new ids, as
  insertions, and the rest as deletions.
\<close>

definition collect_newver_point :: "point list \<Rightarrow> point list \<Rightarrow> point list \<Rightarrow> point list" where
  "collect_newver_point P P_insert P_delete =
     (let removed = foldl (\<lambda>m pt. m(pt_id pt := True)) (\<lambda>_. False) P_delete
      in filter (\<lambda>pt. \<not> removed (pt_id pt)) P @ P_insert)"

definition split_insert_delete :: "point list \<Rightarrow> nat \<Rightarrow> 64 word \<Rightarrow> point list \<times> point list" where
  "split_insert_delete P insert_ratio id_bias =
     (let insert_num = length P div 10 * insert_ratio;
          delete_num = length P - insert_num;
          P_insert = map (\<lambda>p. p\<lparr>pt_id := pt_id p + id_bias\<rparr>) (take insert_num P);
          P_delete = take delete_num (drop (length P - delete_num) P)
      in (P_insert, P_delete))"

definition get_point_id :: "point list \<Rightarrow> 32 word list" where
  "get_point_id P = foldl (\<lambda>ret pt. List.insert (ucast (pt_id pt)) ret) [] P"

definition record_check :: "point list \<Rightarrow> nat \<times> nat" where
  "record_check P =
     (let ids = map (\<lambda>pt. ucast (pt_id pt) :: 32 word) P;
          many = filter (\<lambda>i. count_list ids i > 1) (remdups ids)
      in (length many, sum_list (map (count_list ids) many)))"

definition count_duplicate_zvalues :: "point list \<Rightarrow> nat \<times> nat" where
  "count_duplicate_zvalues P =
     (let zs = map morton_id P;
          many = filter (\<lambda>z. count_list zs z > 1) (remdups zs)
      in (length many, sum_list (map (count_list zs) many)))"

lemma removed_ids: "foldl (\<lambda>m pt. m(pt_id pt := True)) r Q i \<longleftrightarrow> r i \<or> i \<in> pt_id ` set Q"
  by (induction Q arbitrary: r) auto

lemma collect_newver_point_eq:
  "collect_newver_point P I D = filter (\<lambda>p. pt_id p \<notin> pt_id ` set D) P @ I"
  by (simp add: collect_newver_point_def removed_ids)

text \<open>
  C25. Applying the classified difference of two versions to the first one gives
  the second, when the difference is exact: removing the ids of deletions and
  updates and adding insertions and updates turns version \<open>a\<close> into \<open>b\<close>, up
  to the tolerance of the point comparison.
\<close>

theorem diff_then_apply:
  assumes "distinct_ids a" "distinct_ids b"
    and "diff_by_id a b = (added, removed)" "filter_diff_results added removed = (ins, del, upd)"
  shows "(\<forall>q\<in>set b. \<exists>p\<in>set (collect_newver_point a (ins @ upd) (del @ upd)). point_eq p q)
    \<and> (\<forall>p\<in>set (collect_newver_point a (ins @ upd) (del @ upd)). \<exists>q\<in>set b. point_eq p q)"
proof -
  note d = diff_by_id_exact_sets [OF assms(1-3)]
  note c = filter_diff_results_sets [OF d(3,4) assms(4)]
  have iu: "set ins \<union> set upd = set added" using c(1,3) by auto
  have du: "pt_id ` (set del \<union> set upd) = pt_id ` set removed"
  proof
    show "pt_id ` (set del \<union> set upd) \<subseteq> pt_id ` set removed" unfolding c(2,3) by blast
    have "pt_id r \<in> pt_id ` (set del \<union> set upd)" if r: "r \<in> set removed" for r
    proof (cases "pt_id r \<in> pt_id ` set added")
      case True
      then obtain p where "p \<in> set added" "pt_id p = pt_id r" by auto
      then have "p \<in> set upd" using r unfolding c(3) by auto
      then show ?thesis using \<open>pt_id p = pt_id r\<close> by (metis UnI2 image_eqI)
    next
      case False
      then show ?thesis using r unfolding c(2) by blast
    qed
    then show "pt_id ` set removed \<subseteq> pt_id ` (set del \<union> set upd)" by blast
  qed
  let ?n = "collect_newver_point a (ins @ upd) (del @ upd)"
  have n: "set ?n = {p \<in> set a. pt_id p \<notin> pt_id ` set removed} \<union> set added"
    using iu du by (auto simp: collect_newver_point_eq)
  have keep: "p \<in> set a \<Longrightarrow> pt_id p \<notin> pt_id ` set removed \<longleftrightarrow> (\<exists>q\<in>set b. point_eq p q)" for p
    unfolding d(2) using distinct_idsD [OF assms(1)] by (auto simp: image_iff)
  have "\<exists>p\<in>set ?n. point_eq p q" if "q \<in> set b" for q
  proof (cases "\<exists>p\<in>set a. point_eq q p")
    case True
    then obtain p where "p \<in> set a" "point_eq p q" using point_eq_sym by blast
    then show ?thesis using keep that unfolding n by blast
  next
    case False
    then have "q \<in> set added" using that unfolding d(1) by blast
    then show ?thesis unfolding n by force
  qed
  moreover have "\<exists>q\<in>set b. point_eq p q" if "p \<in> set ?n" for p
  proof -
    from that consider "p \<in> set a" "pt_id p \<notin> pt_id ` set removed" | "p \<in> set added" unfolding n by blast
    then show ?thesis
    proof cases
      case 1 then show ?thesis using keep by blast
    next
      case 2 then show ?thesis unfolding d(1) by (auto intro: bexI [of _ p])
    qed
  qed
  ultimately show ?thesis by blast
qed

theorem diff_then_apply_witness:
  "collect_newver_point [Point3 1 2 3] ([Point3 2 4 4] @ []) ([Point3 1 2 3] @ []) = [Point3 2 4 4]
   \<and> (\<exists>p\<in>set (collect_newver_point [Point3 1 2 3] ([Point3 2 4 4] @ []) ([Point3 1 2 3] @ [])).
        point_eq p (Point3 2 4 4))"
proof -
  have d: "distinct_ids [Point3 1 2 3]" "distinct_ids [Point3 2 4 4]" by (simp_all add: distinct_ids_def)
  have r: "diff_by_id [Point3 1 2 3] [Point3 2 4 4] = ([Point3 2 4 4], [Point3 1 2 3])"
    "filter_diff_results [Point3 2 4 4] [Point3 1 2 3] = ([Point3 2 4 4], [Point3 1 2 3], [])"
    by (simp_all add: diff_by_id_def filter_diff_results_def word_less_nat_alt)
  have "collect_newver_point [Point3 1 2 3] ([Point3 2 4 4] @ []) ([Point3 1 2 3] @ []) = [Point3 2 4 4]"
    by (simp add: collect_newver_point_eq)
  then show ?thesis using diff_then_apply [OF d r] by auto
qed

end
