(* ===== verification/Hilbert.thy ===== *)
theory Hilbert
  imports Points
begin

text \<open>
  \<open>src/src/hilbert.c\<close>: conversion between an index along the Hilbert curve and
  coordinates (\<open>hilbert_i2c\<close>, \<open>hilbert_c2i\<close>, \<open>bitTranspose\<close> and the macros they
  use), and \<open>overlap_bits\<close> of \<open>point.hpp\<close>, which orders points along that
  curve instead of the Morton curve. \<open>bitmask_t\<close> and \<open>halfmask_t\<close> are both
  64-bit words; the \<open>unsigned\<close> loop counters and shift amounts stay below 128
  and are natural numbers. The program only uses two dimensions with 32 bits
  each; the results are for that instance.
\<close>

type_synonym bitmask = "64 word"

section \<open>The macros\<close>

definition ones :: "nat \<Rightarrow> bitmask" where
  "ones k = push_bit (k - 1) 2 - 1"

definition rotateRight :: "bitmask \<Rightarrow> nat \<Rightarrow> nat \<Rightarrow> bitmask" where
  "rotateRight arg nRots nDims = (drop_bit nRots arg OR push_bit (nDims - nRots) arg) AND ones nDims"

definition rotateLeft :: "bitmask \<Rightarrow> nat \<Rightarrow> nat \<Rightarrow> bitmask" where
  "rotateLeft arg nRots nDims = (push_bit nRots arg OR drop_bit (nDims - nRots) arg) AND ones nDims"

text \<open>The loop \<open>while (bits) bits >>= 1, ++rotation\<close>.\<close>

lemma unat_drop_bit_1_less: "w \<noteq> 0 \<Longrightarrow> unat (drop_bit (Suc 0) w) < unat w" for w :: bitmask
  by (simp add: drop_bit_eq_div unat_div unat_gt_0)

function (sequential) shift_out :: "bitmask \<Rightarrow> nat \<Rightarrow> nat" where
  "shift_out bits rotation =
     (if bits = 0 then rotation else shift_out (drop_bit 1 bits) (rotation + 1))"
  by pat_completeness auto
termination by (relation "measure (unat \<circ> fst)") (simp_all add: unat_drop_bit_1_less)

declare shift_out.simps [simp del]

definition adjust_rotation :: "nat \<Rightarrow> nat \<Rightarrow> bitmask \<Rightarrow> bitmask \<Rightarrow> nat" where
  "adjust_rotation rotation nDims nd1Ones bits =
     (let bits = bits AND (- bits AND nd1Ones);
          rotation = shift_out bits rotation + 1
      in if nDims \<le> rotation then rotation - nDims else rotation)"

section \<open>Transposing the bits of the coordinates\<close>

text \<open>
  \<open>bitTranspose\<close> as compiled (\<open>DLOGB_BIT_TRANSPOSE\<close>): every round halves the
  width of the fields. The state of the inner loop over the dimensions is the
  remaining input, the output for odd widths, the next fields and \<open>oddShift\<close>.
\<close>

definition transpose_odd_step ::
  "nat \<Rightarrow> nat \<Rightarrow> nat \<Rightarrow> bitmask \<Rightarrow> bitmask \<Rightarrow> bitmask \<Rightarrow> nat \<Rightarrow>
   bitmask \<times> bitmask \<times> bitmask \<times> nat \<Rightarrow> bitmask \<times> bitmask \<times> bitmask \<times> nat" where
  "transpose_odd_step inB utB shiftAmt inMask inFieldStarts utMask d =
     (\<lambda>(inCoords, coords, utCoords, oddShift).
        let inp = inCoords AND inMask;
            coords = coords OR push_bit oddShift (inp AND inFieldStarts);
            inp = inp AND NOT inFieldStarts;
            inp = (inp OR push_bit shiftAmt inp) AND utMask
        in (drop_bit inB inCoords, coords, utCoords OR push_bit (d * utB) inp, oddShift + 1))"

definition transpose_even_step ::
  "nat \<Rightarrow> nat \<Rightarrow> nat \<Rightarrow> bitmask \<Rightarrow> bitmask \<Rightarrow> nat \<Rightarrow> bitmask \<times> bitmask \<Rightarrow> bitmask \<times> bitmask" where
  "transpose_even_step inB utB shiftAmt inMask utMask d =
     (\<lambda>(inCoords, utCoords).
        let inp = inCoords AND inMask;
            inp = (inp OR push_bit shiftAmt inp) AND utMask
        in (drop_bit inB inCoords, utCoords OR push_bit (d * utB) inp))"

function (sequential) bitTranspose_loop ::
  "nat \<Rightarrow> nat \<Rightarrow> bitmask \<Rightarrow> bitmask \<Rightarrow> bitmask \<Rightarrow> bitmask \<Rightarrow> bitmask" where
  "bitTranspose_loop nDims inB inFieldEnds inMask inCoords coords =
     (let utB = inB div 2 in
      if utB = 0 then coords OR inCoords
      else
        let shiftAmt = (nDims - 1) * utB;
            utFieldEnds = inFieldEnds OR push_bit (shiftAmt + utB) inFieldEnds;
            utMask = push_bit utB utFieldEnds - utFieldEnds
        in if odd inB then
             let inFieldStarts = push_bit (inB - 1) inFieldEnds;
                 (_, coords, utCoords, _) =
                   fold (transpose_odd_step inB utB shiftAmt inMask inFieldStarts utMask)
                     [0..<nDims] (inCoords, coords, 0, 2 * shiftAmt)
             in bitTranspose_loop nDims utB utFieldEnds utMask utCoords coords
           else
             let (_, utCoords) =
                   fold (transpose_even_step inB utB shiftAmt inMask utMask)
                     [0..<nDims] (inCoords, 0)
             in bitTranspose_loop nDims utB utFieldEnds utMask utCoords coords)"
  by pat_completeness auto
termination by (relation "measure (\<lambda>(_, inB, _). inB)") auto

declare bitTranspose_loop.simps [simp del]

definition bitTranspose :: "nat \<Rightarrow> nat \<Rightarrow> bitmask \<Rightarrow> bitmask" where
  "bitTranspose nDims nBits inCoords = bitTranspose_loop nDims nBits 1 (ones nBits) inCoords 0"

section \<open>Index to coordinates and back\<close>

text \<open>The loops \<open>for (b = start; b < limit; b *= 2) w ^= w >> b\<close>.\<close>

function (sequential) xor_shifts :: "nat \<Rightarrow> nat \<Rightarrow> bitmask \<Rightarrow> bitmask" where
  "xor_shifts b limit w =
     (if b = 0 \<or> limit \<le> b then w else xor_shifts (2 * b) limit (w XOR drop_bit b w))"
  by pat_completeness auto
termination by (relation "measure (\<lambda>(b, limit, _). limit - b)") auto

declare xor_shifts.simps [simp del]

text \<open>
  The do-while loops over \<open>b\<close>: \<open>b\<close> starts at \<open>nDims * nBits\<close> and decreases by
  \<open>nDims\<close>, so the recursion is on the number of digits left.
\<close>

primrec i2c_digits :: "nat \<Rightarrow> nat \<Rightarrow> bitmask \<Rightarrow> nat \<Rightarrow> bitmask \<Rightarrow> bitmask \<Rightarrow> bitmask" where
  "i2c_digits nDims 0 index rotation flipBit coords = coords"
| "i2c_digits nDims (Suc k) index rotation flipBit coords =
     (let bits = drop_bit (k * nDims) index AND ones nDims;
          coords = push_bit nDims coords OR (rotateLeft bits rotation nDims XOR flipBit)
      in i2c_digits nDims k index
           (adjust_rotation rotation nDims (drop_bit 1 (ones nDims)) bits)
           (push_bit rotation 1) coords)"

primrec c2i_digits :: "nat \<Rightarrow> nat \<Rightarrow> bitmask \<Rightarrow> nat \<Rightarrow> bitmask \<Rightarrow> bitmask \<Rightarrow> bitmask" where
  "c2i_digits nDims 0 coords rotation flipBit index = index"
| "c2i_digits nDims (Suc k) coords rotation flipBit index =
     (let bits = drop_bit (k * nDims) coords AND ones nDims;
          bits = rotateRight (flipBit XOR bits) rotation nDims;
          index = push_bit nDims index OR bits
      in c2i_digits nDims k coords
           (adjust_rotation rotation nDims (drop_bit 1 (ones nDims)) bits)
           (push_bit rotation 1) index)"

definition nthbits :: "nat \<Rightarrow> nat \<Rightarrow> bitmask" where
  "nthbits nDims nDimsBits = ones nDimsBits div ones nDims"

primrec split_coords :: "nat \<Rightarrow> nat \<Rightarrow> bitmask \<Rightarrow> bitmask list" where
  "split_coords nBits 0 coords = []"
| "split_coords nBits (Suc d) coords =
     (coords AND ones nBits) # split_coords nBits d (drop_bit nBits coords)"

definition hilbert_i2c :: "nat \<Rightarrow> nat \<Rightarrow> bitmask \<Rightarrow> bitmask list" where
  "hilbert_i2c nDims nBits index =
     (if 1 < nDims then
        let coords =
          (if 1 < nBits then
             let index = index XOR drop_bit 1 (index XOR nthbits nDims (nDims * nBits));
                 coords = i2c_digits nDims nBits index 0 0 0;
                 coords = xor_shifts nDims (nDims * nBits) coords
             in bitTranspose nBits nDims coords
           else index XOR drop_bit 1 index)
        in split_coords nBits nDims coords
      else [index])"

definition hilbert_c2i :: "nat \<Rightarrow> nat \<Rightarrow> bitmask list \<Rightarrow> bitmask" where
  "hilbert_c2i nDims nBits coord =
     (if 1 < nDims then
        let coords = fold (\<lambda>d coords. push_bit nBits coords OR coord ! d) (rev [0..<nDims]) 0;
            index =
          (if 1 < nBits then
             let coords = bitTranspose nDims nBits coords;
                 coords = coords XOR drop_bit nDims coords;
                 index = c2i_digits nDims nBits coords 0 0 0
             in index XOR drop_bit 1 (nthbits nDims (nDims * nBits))
           else coords)
        in xor_shifts 1 (nDims * nBits) index
      else coord ! 0)"

definition overlap_bits :: "point \<Rightarrow> 64 word" where
  "overlap_bits p = hilbert_c2i 2 32 [cast_u64 (pt_x p), cast_u64 (pt_y p)]"


section \<open>What transposing does to single bits\<close>

definition transpose_field :: "nat \<Rightarrow> bitmask \<Rightarrow> bitmask \<Rightarrow> bitmask \<Rightarrow> bitmask" where
  "transpose_field shiftAmt inMask utMask c =
     ((c AND inMask) OR push_bit shiftAmt (c AND inMask)) AND utMask"

lemma bit_transpose_field:
  "bit (transpose_field shiftAmt inMask utMask c) n \<longleftrightarrow>
     bit utMask n \<and> (bit c n \<and> bit inMask n \<or>
       shiftAmt \<le> n \<and> bit c (n - shiftAmt) \<and> bit inMask (n - shiftAmt))"
  by (auto simp: transpose_field_def bit_simps dest: bit_imp_le_length)

lemma transpose_even_step_field:
  "transpose_even_step inB utB shiftAmt inMask utMask d (c, u) =
     (drop_bit inB c, u OR push_bit (d * utB) (transpose_field shiftAmt inMask utMask c))"
  by (simp add: transpose_even_step_def transpose_field_def Let_def)

lemma transpose_even_fold:
  "\<exists>u'. fold (transpose_even_step inB utB shiftAmt inMask utMask) [0..<k] (c, u) = (drop_bit (k * inB) c, u') \<and>
   (\<forall>n. bit u' n \<longleftrightarrow> bit u n \<or>
      (\<exists>d<k. bit (push_bit (d * utB) (transpose_field shiftAmt inMask utMask (drop_bit (d * inB) c))) n))"
proof (induction k)
  case (Suc k)
  then obtain u1 where
    "fold (transpose_even_step inB utB shiftAmt inMask utMask) [0..<k] (c, u) = (drop_bit (k * inB) c, u1)"
    "\<forall>n. bit u1 n \<longleftrightarrow> bit u n \<or>
      (\<exists>d<k. bit (push_bit (d * utB) (transpose_field shiftAmt inMask utMask (drop_bit (d * inB) c))) n)"
    by blast
  then show ?case
    by (simp add: transpose_even_step_field bit_or_iff less_Suc_eq del: push_bit_or push_bit_and) blast
qed simp


lemma bit_transpose_32_2:
  "bit (bitTranspose 32 2 c) n \<longleftrightarrow> n < 64 \<and> bit c (if n < 32 then 2 * n else 2 * (n - 32) + 1)"
proof -
  let ?M = "4294967297 :: bitmask"
  obtain u where f: "fold (transpose_even_step 2 1 31 3 ?M) [0..<32] (c, 0) = (drop_bit 64 c, u)" and
     u: "\<And>n. bit u n \<longleftrightarrow> (\<exists>d<32. bit (push_bit d (transpose_field 31 3 ?M (drop_bit (d * 2) c))) n)"
    using transpose_even_fold [of 2 1 31 3 ?M 32 c 0] by auto
  have "?M = 1 OR push_bit 32 1" by simp
  then have M: "bit ?M m \<longleftrightarrow> m = 0 \<or> m = 32" for m
    by (simp only: bit_or_iff bit_push_bit_iff bit_1_iff) auto
  have "(3 :: bitmask) = 1 OR push_bit 1 1" by simp
  then have B3: "bit (3 :: bitmask) m \<longleftrightarrow> m = 0 \<or> m = 1" for m
    by (simp only: bit_or_iff bit_push_bit_iff bit_1_iff) auto
  have field: "bit (push_bit d (transpose_field 31 3 ?M (drop_bit (d * 2) c))) n \<longleftrightarrow>
      n < 64 \<and> (n = d \<and> bit c (2 * d) \<or> n = d + 32 \<and> bit c (2 * d + 1))" for d
    by (simp only: bit_push_bit_iff bit_transpose_field M B3 bit_drop_bit_eq o_def) (auto simp: ac_simps)
  have "bitTranspose 32 2 c = u"
    using f by (simp add: bitTranspose_def bitTranspose_loop.simps [of 32 2] bitTranspose_loop.simps [of 32 "Suc 0"] ones_def)
  moreover have "bit u n \<longleftrightarrow> n < 64 \<and> bit c (if n < 32 then 2 * n else 2 * (n - 32) + 1)"
    unfolding u field by (auto intro: exI [of _ n] exI [of _ "n - 32"])
  ultimately show ?thesis by simp
qed


definition halve :: "nat \<Rightarrow> bitmask \<Rightarrow> bitmask \<Rightarrow> bitmask \<Rightarrow> bitmask" where
  "halve w m M c = transpose_field w m M c OR push_bit w (transpose_field w m M (drop_bit (w + w) c))"

lemma loop_halves:
  assumes "0 < w"
  shows "bitTranspose_loop 2 (w + w) E m c 0 =
     (let E' = E OR push_bit (w + w) E; M = push_bit w E' - E'
      in bitTranspose_loop 2 w E' M (halve w m M c) 0)"
proof -
  have "fold (transpose_even_step (w + w) w w m M) [0..<2] (c, 0) = (drop_bit (w + w + (w + w)) c, halve w m M c)" for M
    by (simp add: numeral_2_eq_2 transpose_even_step_field halve_def)
  then show ?thesis
    using assms by (simp add: bitTranspose_loop.simps [of 2 "w + w"] Let_def del: push_bit_or)
qed

lemma bitTranspose_2_32:
  "bitTranspose 2 32 c =
     halve 1 0x3333333333333333 0x5555555555555555
      (halve 2 0x0F0F0F0F0F0F0F0F 0x3333333333333333
        (halve 4 0x00FF00FF00FF00FF 0x0F0F0F0F0F0F0F0F
          (halve 8 0x0000FFFF0000FFFF 0x00FF00FF00FF00FF
            (halve 16 0x00000000FFFFFFFF 0x0000FFFF0000FFFF c))))"
  by (simp add: bitTranspose_def ones_def bitTranspose_loop.simps [of 2 "Suc 0"]
      loop_halves [of 16, simplified] loop_halves [of 8, simplified] loop_halves [of 4, simplified]
      loop_halves [of 2, simplified] loop_halves [of 1, unfolded one_add_one])

definition swap_pos :: "nat \<Rightarrow> nat \<Rightarrow> nat" where
  "swap_pos w n = (if even (n div w) then if even (n div (2 * w)) then n else n - w
     else if even (n div (2 * w)) then n + w else n)"


lemma all_below_64: "(\<forall>n<64. P n) \<longleftrightarrow>
     P 63 \<and> P 62 \<and> P 61 \<and> P 60 \<and> P 59 \<and> P 58 \<and> P 57 \<and> P 56 \<and> P 55
     \<and> P 54 \<and> P 53 \<and> P 52 \<and> P 51 \<and> P 50 \<and> P 49 \<and> P 48 \<and> P 47
     \<and> P 46 \<and> P 45 \<and> P 44 \<and> P 43 \<and> P 42 \<and> P 41 \<and> P 40 \<and> P 39
     \<and> P 38 \<and> P 37 \<and> P 36 \<and> P 35 \<and> P 34 \<and> P 33 \<and> P 32 \<and> P 31
     \<and> P 30 \<and> P 29 \<and> P 28 \<and> P 27 \<and> P 26 \<and> P 25 \<and> P 24 \<and> P 23
     \<and> P 22 \<and> P 21 \<and> P 20 \<and> P 19 \<and> P 18 \<and> P 17 \<and> P 16 \<and> P 15
     \<and> P 14 \<and> P 13 \<and> P 12 \<and> P 11 \<and> P 10 \<and> P 9 \<and> P 8 \<and> P 7 \<and>
     P 6 \<and> P 5 \<and> P 4 \<and> P 3 \<and> P 2 \<and> P 1 \<and> P 0"
  for P :: "nat \<Rightarrow> bool"
  by (simp add: numeral_eq_Suc All_less_Suc)


lemma bit_halve:
  "\<forall>n<64. bit (halve 16 0x00000000FFFFFFFF 0x0000FFFF0000FFFF c) n = bit c (swap_pos 16 n)"
  "\<forall>n<64. bit (halve 8 0x0000FFFF0000FFFF 0x00FF00FF00FF00FF c) n = bit c (swap_pos 8 n)"
  "\<forall>n<64. bit (halve 4 0x00FF00FF00FF00FF 0x0F0F0F0F0F0F0F0F c) n = bit c (swap_pos 4 n)"
  "\<forall>n<64. bit (halve 2 0x0F0F0F0F0F0F0F0F 0x3333333333333333 c) n = bit c (swap_pos 2 n)"
  unfolding all_below_64 halve_def bit_or_iff bit_push_bit_iff bit_transpose_field bit_drop_bit_eq o_def swap_pos_def
  by (intro conjI; simp)+

lemma bit_halve_1:
  "\<forall>n<64. bit (halve 1 0x3333333333333333 0x5555555555555555 c) n = bit c (swap_pos 1 n)"
  unfolding all_below_64 halve_def bit_or_iff bit_push_bit_iff bit_transpose_field bit_drop_bit_eq o_def swap_pos_def
  by (intro conjI; (simp; fail)?) (simp, simp only: numeral_3_eq_3)

lemma bit_transpose_2_32:
  "\<forall>n<64. bit (bitTranspose 2 32 c) n = bit c (32 * (n mod 2) + n div 2)"
proof -
  have "\<forall>n<64. swap_pos 16 n < 64" "\<forall>n<64. swap_pos 8 n < 64" "\<forall>n<64. swap_pos 4 n < 64"
      "\<forall>n<64. swap_pos 2 n < 64" "\<forall>n<64. swap_pos 1 n < 64"
    unfolding all_below_64 by (intro conjI; simp add: swap_pos_def)+
  moreover have "\<forall>n<64. swap_pos 16 (swap_pos 8 (swap_pos 4 (swap_pos 2 (swap_pos 1 n)))) = 32 * (n mod 2) + n div 2"
    unfolding all_below_64 by (intro conjI; simp add: swap_pos_def)
  ultimately show ?thesis
    by (simp add: bitTranspose_2_32 bit_halve bit_halve_1 del: One_nat_def)
qed
lemma bitTranspose_inverse:
  "bitTranspose 32 2 (bitTranspose 2 32 c) = c"
  "bitTranspose 2 32 (bitTranspose 32 2 c) = c"
proof -
  have 1: "\<forall>n<64. (if n < 32 then 2 * n else 2 * (n - 32) + 1) < (64::nat)"
    and 2: "\<forall>n<64. 32 * ((if n < 32 then 2 * n else 2 * (n - 32) + 1) mod 2)
                + (if n < 32 then 2 * n else 2 * (n - 32) + 1) div 2 = (n::nat)"
    and 3: "\<forall>n<64. 32 * (n mod 2) + n div 2 < (64::nat)"
    and 4: "\<forall>n<64. (if 32 * (n mod 2) + n div 2 < 32 then 2 * (32 * (n mod 2) + n div 2)
                else 2 * (32 * (n mod 2) + n div 2 - 32) + 1) = (n::nat)"
    unfolding all_below_64 by simp_all
  show "bitTranspose 32 2 (bitTranspose 2 32 c) = c"
  proof (rule bit_word_eqI)
    fix n assume "n < LENGTH(64)"
    then have n: "n < 64" by simp
    let ?m = "if n < 32 then 2 * n else 2 * (n - 32) + 1"
    have "bit (bitTranspose 32 2 (bitTranspose 2 32 c)) n = bit (bitTranspose 2 32 c) ?m"
      using n by (simp only: bit_transpose_32_2 simp_thms)
    also have "\<dots> = bit c (32 * (?m mod 2) + ?m div 2)"
      using bit_transpose_2_32 1 n by blast
    also have "\<dots> = bit c n" using 2 n by metis
    finally show "bit (bitTranspose 32 2 (bitTranspose 2 32 c)) n = bit c n" .
  qed
  show "bitTranspose 2 32 (bitTranspose 32 2 c) = c"
  proof (rule bit_word_eqI)
    fix n assume "n < LENGTH(64)"
    then have n: "n < 64" by simp
    then have "bit (bitTranspose 2 32 (bitTranspose 32 2 c)) n = bit (bitTranspose 32 2 c) (32 * (n mod 2) + n div 2)"
      using bit_transpose_2_32 by blast
    also have "\<dots> = bit c n"
      by (simp only: bit_transpose_32_2 3 [rule_format, OF n] 4 [rule_format, OF n] simp_thms)
    finally show "bit (bitTranspose 2 32 (bitTranspose 32 2 c)) n = bit c n" .
  qed
qed

section \<open>Folding shifts\<close>

lemma xor_shifts_linear: "xor_shifts b limit (x XOR y) = xor_shifts b limit x XOR xor_shifts b limit y"
proof (induction b limit x arbitrary: y rule: xor_shifts.induct)
  case (1 b limit w)
  from "1.IH" [of "y XOR drop_bit b y"] show ?case
    by (subst (1 2 3) xor_shifts.simps) (simp add: drop_bit_xor ac_simps)
qed

lemma drop_bit_beyond: "64 \<le> k \<Longrightarrow> drop_bit k w = 0" for w :: bitmask
  by (rule bit_word_eqI) (auto simp: bit_drop_bit_eq dest: bit_imp_le_length)

lemma xor_shifts_drop: "drop_bit k (xor_shifts b limit x) = xor_shifts b limit (drop_bit k x)"
proof (induction b limit x rule: xor_shifts.induct)
  case (1 b limit w)
  then show ?case
    by (subst (1 2) xor_shifts.simps) (simp add: drop_bit_xor add.commute)
qed

lemma xor_shifts_undoes:
  "0 < b \<Longrightarrow> 64 \<le> limit \<Longrightarrow> xor_shifts b limit (w XOR drop_bit b w) = w"
proof (induction "limit - b" arbitrary: b w rule: less_induct)
  case less
  have twice: "(w XOR drop_bit b w) XOR drop_bit b (w XOR drop_bit b w) = w XOR drop_bit (2 * b) w"
    by (simp add: drop_bit_xor xor.assoc mult_2)
  show ?case
  proof (cases "limit \<le> b")
    case True
    with less.prems show ?thesis by (subst xor_shifts.simps) (simp add: drop_bit_beyond)
  next
    case False
    with less.prems less.hyps [of "2 * b" w] show ?thesis
      by (subst xor_shifts.simps) (simp only: twice, simp)
  qed
qed

lemma xor_shifts_undone:
  "0 < b \<Longrightarrow> 64 \<le> limit \<Longrightarrow> xor_shifts b limit w XOR drop_bit b (xor_shifts b limit w) = w"
  by (simp add: xor_shifts_drop xor_shifts_undoes flip: xor_shifts_linear)
section \<open>The loop over the digits\<close>

text \<open>A word as its list of two-bit digits, the most significant first.\<close>

definition digits :: "nat \<Rightarrow> bitmask \<Rightarrow> bitmask list" where
  "digits k w = map (\<lambda>j. drop_bit (j * 2) w AND 3) (rev [0..<k])"

definition undigits :: "bitmask \<Rightarrow> bitmask list \<Rightarrow> bitmask" where
  "undigits acc ds = fold (\<lambda>d acc. push_bit 2 acc OR d) ds acc"

lemma digits_simps [simp]: "digits 0 w = []" "digits (Suc k) w = (drop_bit (k * 2) w AND 3) # digits k w"
  by (simp_all add: digits_def)

lemma undigits_simps [simp]: "undigits acc [] = acc" "undigits acc (d # ds) = undigits (push_bit 2 acc OR d) ds"
  by (simp_all add: undigits_def)

lemma length_digits [simp]: "length (digits k w) = k" 
  by (induction k) auto

definition digit :: "bitmask \<Rightarrow> bool" where
  "digit d \<longleftrightarrow> d AND 3 = d"

lemma bit_3_int: "bit (3 :: int) n \<longleftrightarrow> n < 2"
proof -
  have "(3 :: int) = mask 2" by (simp add: mask_eq_exp_minus_1)
  then show ?thesis by (simp only: bit_mask_iff) simp
qed

lemma bit_3: "bit (3 :: bitmask) n \<longleftrightarrow> n < 2"
  by (auto simp: bit_3_int)

lemma digit_bit: "digit d \<Longrightarrow> bit d n \<Longrightarrow> n < 2"
  unfolding digit_def by (metis bit_3 bit_and_iff)

lemma digit_and [simp]: "digit (w AND 3)"
  by (simp add: digit_def and.assoc)

lemma digit_cases: "digit d \<Longrightarrow> d = 0 \<or> d = 1 \<or> d = 2 \<or> d = 3"
proof -
  assume "digit d"
  then have "d = take_bit 2 d" by (intro bit_word_eqI) (auto simp: bit_take_bit_iff dest: digit_bit)
  then have "unat d = take_bit 2 (unat d)" by (metis unsigned_take_bit_eq)
  moreover have "take_bit 2 (unat d) < 4" by (simp add: take_bit_eq_mod)
  ultimately have "unat d \<in> {0, 1, 2, 3}" by auto
  then show ?thesis by (auto simp: word_unat_eq_iff)
qed

lemma undigits_split: "undigits a ds = push_bit (length ds * 2) a OR undigits 0 ds"
proof (induction ds arbitrary: a)
  case (Cons d ds)
  from Cons.IH [of "push_bit 2 a OR d"] Cons.IH [of d] show ?case
    by (simp add: or.assoc push_bit_or add.commute)
qed simp

lemma undigits_small: "\<forall>d\<in>set ds. digit d \<Longrightarrow> bit (undigits 0 ds) n \<Longrightarrow> n < length ds * 2"
proof (induction ds)
  case (Cons d ds)
  then show ?case using undigits_split [of d ds]
    by (auto simp: bit_or_iff bit_push_bit_iff dest: digit_bit)
qed simp

lemma digits_low: "digits k (push_bit (k * 2 + j) a OR x) = digits k x"
proof (induction k arbitrary: j)
  case (Suc k)
  have "drop_bit (k * 2) (push_bit (Suc k * 2 + j) a OR x) AND 3 = drop_bit (k * 2) x AND 3"
    by (rule bit_word_eqI) (simp only: bit_and_iff bit_or_iff bit_drop_bit_eq o_def bit_push_bit_iff bit_3, auto)
  with Suc.IH [of "2 + j"] show ?case by (simp add: add.assoc)
qed simp

lemma digits_undigits:
  "\<forall>d\<in>set ds. digit d \<Longrightarrow> length ds \<le> 32 \<Longrightarrow> digits (length ds) (undigits acc ds) = ds"
proof (induction ds arbitrary: acc)
  case (Cons d ds)
  have "drop_bit (length ds * 2) (undigits (push_bit 2 acc OR d) ds) AND 3 = d"
    using Cons.prems by (subst undigits_split)
      (intro bit_word_eqI, simp only: bit_and_iff bit_or_iff bit_drop_bit_eq o_def bit_push_bit_iff bit_3, auto dest: undigits_small digit_bit)
  with Cons show ?case by simp
qed simp

lemma shift_pos: "2 \<le> n \<Longrightarrow> Suc (Suc (k + n - 2)) = k + n" "2 \<le> n \<Longrightarrow> Suc (Suc (k + (n - 2))) = k + n"
  by simp_all

lemma undigits_digits_drop: "undigits (drop_bit (k * 2) w) (digits k w) = w"
proof (induction k)
  case (Suc k)
  have "push_bit 2 (drop_bit (Suc k * 2) w) OR (drop_bit (k * 2) w AND 3) = drop_bit (k * 2) w"
    by (rule bit_word_eqI) (simp only: bit_and_iff bit_or_iff bit_drop_bit_eq o_def bit_push_bit_iff bit_3, auto simp: shift_pos)
  with Suc show ?case by simp
qed simp

lemma undigits_digits: "undigits 0 (digits 32 w) = w"
  using undigits_digits_drop [of 32 w] by (simp add: drop_bit_beyond)

definition next_rotation :: "nat \<Rightarrow> bitmask \<Rightarrow> nat" where
  "next_rotation r d = adjust_rotation r 2 1 d"

fun to_cells :: "nat \<Rightarrow> bitmask \<Rightarrow> bitmask list \<Rightarrow> bitmask list" where
  "to_cells r f [] = []"
| "to_cells r f (d # ds) =
     (rotateLeft d r 2 XOR f) # to_cells (next_rotation r d) (push_bit r 1) ds"

fun from_cells :: "nat \<Rightarrow> bitmask \<Rightarrow> bitmask list \<Rightarrow> bitmask list" where
  "from_cells r f [] = []"
| "from_cells r f (c # cs) =
     (let d = rotateRight (f XOR c) r 2 in d # from_cells (next_rotation r d) (push_bit r 1) cs)"

lemma ones_2 [simp]: "ones 2 = 3" "drop_bit (Suc 0) (3::bitmask) = 1"
  by (simp_all add: ones_def)

lemma i2c_digits_list:
  "i2c_digits 2 k w r f acc = undigits acc (to_cells r f (digits k w))"
  by (induction k arbitrary: r f acc) (simp_all add: Let_def next_rotation_def)

lemma c2i_digits_list:
  "c2i_digits 2 k w r f acc = undigits acc (from_cells r f (digits k w))"
  by (induction k arbitrary: r f acc) (simp_all add: Let_def next_rotation_def)

lemma next_rotation_simps [simp]:
  "next_rotation 0 0 = 1" "next_rotation 0 1 = 0" "next_rotation 0 2 = 1" "next_rotation 0 3 = 0"
  "next_rotation 1 0 = 0" "next_rotation 1 1 = 1" "next_rotation 1 2 = 0" "next_rotation 1 3 = 1"
  by code_simp+

lemmas next_rotation_Suc [simp] = next_rotation_simps(5-8) [unfolded One_nat_def]

definition cell_state :: "nat \<Rightarrow> bitmask \<Rightarrow> bool" where
  "cell_state r f \<longleftrightarrow> (r = 0 \<or> r = 1) \<and> (f = 0 \<or> f = 1 \<or> f = 2)"

lemma cell_step:
  assumes "cell_state r f" "digit d"
  shows "rotateRight (f XOR (rotateLeft d r 2 XOR f)) r 2 = d"
    and "rotateLeft (rotateRight (f XOR d) r 2) r 2 XOR f = d"
    and "digit (rotateLeft d r 2 XOR f)" and "digit (rotateRight (f XOR d) r 2)"
    and "cell_state (next_rotation r d) (2 ^ r)"
  using assms digit_cases [OF assms(2)]
  by (auto simp: cell_state_def digit_def rotateLeft_def rotateRight_def)

lemma cells_inverse:
  "cell_state r f \<Longrightarrow> \<forall>d\<in>set ds. digit d \<Longrightarrow> from_cells r f (to_cells r f ds) = ds"
  "cell_state r f \<Longrightarrow> \<forall>d\<in>set ds. digit d \<Longrightarrow> to_cells r f (from_cells r f ds) = ds"
  by (induction ds arbitrary: r f) (simp_all add: cell_step Let_def)

lemma cells_digits:
  "cell_state r f \<Longrightarrow> list_all digit ds \<Longrightarrow> list_all digit (to_cells r f ds)"
  "cell_state r f \<Longrightarrow> list_all digit ds \<Longrightarrow> list_all digit (from_cells r f ds)"
  by (induction ds arbitrary: r f) (simp_all add: cell_step(3-5) Let_def)

lemma length_cells [simp]: "length (to_cells r f ds) = length ds" "length (from_cells r f ds) = length ds"
  by (induction ds arbitrary: r f) (simp_all add: Let_def)

lemma digit_digits: "\<forall>d\<in>set (digits k w). digit d"
  by (induction k) simp_all

lemma digit_loops_inverse:
  "c2i_digits 2 32 (i2c_digits 2 32 w 0 0 0) 0 0 0 = w"
  "i2c_digits 2 32 (c2i_digits 2 32 w 0 0 0) 0 0 0 = w"
proof -
  have s: "cell_state 0 0" by (simp add: cell_state_def)
  let ?ds = "digits 32 w"
  have d: "\<forall>d\<in>set ?ds. digit d" by (rule digit_digits)
  have "digits 32 (undigits 0 (to_cells 0 0 ?ds)) = to_cells 0 0 ?ds"
    using digits_undigits [of "to_cells 0 0 ?ds" 0] cells_digits(1) [OF s, of ?ds] d by (simp add: list_all_iff)
  then show "c2i_digits 2 32 (i2c_digits 2 32 w 0 0 0) 0 0 0 = w"
    by (simp add: i2c_digits_list c2i_digits_list cells_inverse(1) [OF s d] undigits_digits)
  have "digits 32 (undigits 0 (from_cells 0 0 ?ds)) = from_cells 0 0 ?ds"
    using digits_undigits [of "from_cells 0 0 ?ds" 0] cells_digits(2) [OF s, of ?ds] d by (simp add: list_all_iff)
  then show "i2c_digits 2 32 (c2i_digits 2 32 w 0 0 0) 0 0 0 = w"
    by (simp add: i2c_digits_list c2i_digits_list cells_inverse(2) [OF s d] undigits_digits)
qed

section \<open>Both directions together\<close>

definition curve_word :: "bitmask \<Rightarrow> bitmask" where
  "curve_word i = bitTranspose 32 2 (xor_shifts 2 64
     (i2c_digits 2 32 (i XOR drop_bit 1 (i XOR nthbits 2 64)) 0 0 0))"

definition code_word :: "bitmask \<Rightarrow> bitmask" where
  "code_word t = (let c = bitTranspose 2 32 t in
     xor_shifts 1 64 (c2i_digits 2 32 (c XOR drop_bit 2 c) 0 0 0 XOR drop_bit 1 (nthbits 2 64)))"

lemma ones_32: "ones 32 = mask 32"
  by (simp add: ones_def mask_eq_exp_minus_1)

lemma hilbert_i2c_word:
  "hilbert_i2c 2 32 i = [curve_word i AND mask 32, drop_bit 32 (curve_word i) AND mask 32]"
proof -
  have "split_coords 32 2 w = [w AND mask 32, drop_bit 32 w AND mask 32]" for w
    by (simp only: numeral_2_eq_2 split_coords.simps ones_32)
  then show ?thesis by (simp only: hilbert_i2c_def curve_word_def Let_def) simp
qed

lemma hilbert_c2i_word: "hilbert_c2i 2 32 [x, y] = code_word (push_bit 32 y OR x)"
proof -
  have "[0..<2] = [0, 1]" by (simp add: upt_rec)
  then show ?thesis by (simp add: hilbert_c2i_def code_word_def Let_def)
qed

lemma curve_word_inverse: "code_word (curve_word i) = i"
proof -
  have "(i XOR drop_bit 1 (i XOR N)) XOR drop_bit 1 N = i XOR drop_bit 1 i" for N
    by (simp add: drop_bit_xor ac_simps)
  then show ?thesis
    by (simp add: code_word_def curve_word_def bitTranspose_inverse xor_shifts_undone digit_loops_inverse
        xor_shifts_undoes Let_def del: One_nat_def)
qed

lemma code_word_inverse: "curve_word (code_word t) = t"
proof -
  let ?N = "nthbits 2 64" and ?c = "bitTranspose 2 32 t"
  let ?J = "c2i_digits 2 32 (?c XOR drop_bit 2 ?c) 0 0 0"
  let ?i = "xor_shifts 1 64 (?J XOR drop_bit 1 ?N)"
  have "?i XOR drop_bit 1 ?i = ?J XOR drop_bit 1 ?N" by (simp add: xor_shifts_undone del: One_nat_def)
  then have "?i XOR drop_bit 1 (?i XOR ?N) = ?J"
    by (simp only: drop_bit_xor flip: xor.assoc) (simp only: xor.assoc xor_self_eq xor.right_neutral)
  then show ?thesis
    by (simp add: code_word_def curve_word_def digit_loops_inverse xor_shifts_undoes bitTranspose_inverse Let_def del: One_nat_def)
qed

lemma join_halves: "push_bit 32 (drop_bit 32 t AND mask 32) OR (t AND mask 32) = t" for t :: bitmask
  by (rule bit_word_eqI)
    (simp only: bit_and_iff bit_or_iff bit_drop_bit_eq o_def bit_push_bit_iff bit_mask_iff, auto)

lemma split_halves:
  fixes x y :: bitmask
  assumes "x < 2 ^ 32" "y < 2 ^ 32"
  shows "(push_bit 32 y OR x) AND mask 32 = x" "drop_bit 32 (push_bit 32 y OR x) AND mask 32 = y"
proof -
  have *: "bit w n \<Longrightarrow> n < 32" if "w < 2 ^ 32" for w :: bitmask and n
  proof -
    assume "bit w n"
    from that have "uint w < 2 ^ 32" by (simp add: word_less_def)
    then have "take_bit 32 w = w" by (simp only: take_bit_eq_mask mask_eq_iff)
    with \<open>bit w n\<close> show "n < 32" by (metis bit_take_bit_iff)
  qed
  note [dest] = * [OF assms(1)] * [OF assms(2)]
  show "(push_bit 32 y OR x) AND mask 32 = x" "drop_bit 32 (push_bit 32 y OR x) AND mask 32 = y"
    by (rule bit_word_eqI, simp only: bit_and_iff bit_or_iff bit_drop_bit_eq o_def bit_push_bit_iff bit_mask_iff, auto)+
qed

text \<open>
  C14. The Hilbert index and the coordinates of the 32-bit grid determine each
  other: \<open>hilbert_i2c\<close> undoes \<open>hilbert_c2i\<close> on every pair of 32-bit
  coordinates, and \<open>hilbert_c2i\<close> undoes \<open>hilbert_i2c\<close> on every index.
\<close>

theorem hilbert_roundtrip:
  assumes "x < 2 ^ 32" "y < 2 ^ 32"
  shows "hilbert_i2c 2 32 (hilbert_c2i 2 32 [x, y]) = [x, y] \<and> hilbert_c2i 2 32 (hilbert_i2c 2 32 i) = i"
  by (simp only: hilbert_i2c_word hilbert_c2i_word code_word_inverse split_halves [OF assms] join_halves
      curve_word_inverse simp_thms)

theorem hilbert_roundtrip_witness:
  "hilbert_i2c 2 32 (hilbert_c2i 2 32 [4294967295, 7]) = [4294967295, 7] \<and> hilbert_c2i 2 32 (hilbert_i2c 2 32 (- 1)) = - 1"
  by (rule hilbert_roundtrip) simp_all

end
