(* ===== verification/PointOps.thy ===== *)
theory PointOps
  imports PointIds ZOrder Hilbert
begin

text \<open>
  The remaining routines of \<open>geo/\<close>: the second Morton index of
  \<open>point.hpp\<close>, the sorts that take addresses, and the overloads and resets around
  differences.
\<close>

unbundle bit_operations_syntax

section \<open>The index by dilation\<close>

text \<open>
  \<open>mortonIndex\<close> first folds a 32-bit value around its sign bit. The masks are
  \<open>long\<close> literals, so the arithmetic is done on 64 bits and cut to 32.
\<close>

definition fold_sign :: "32 word \<Rightarrow> 32 word" where
  "fold_sign ix =
     (let ixs = signed_drop_bit 31 ix
       in ucast ((((ucast ix AND 0x7FFFFFFF) XOR scast ixs) - scast ixs) + 0x7FFFFFFF :: 64 word))"

definition dilate_step :: "nat \<Rightarrow> 64 word \<Rightarrow> 64 word \<Rightarrow> 64 word" where
  "dilate_step s m xx = (xx OR push_bit s xx) AND m"

definition dilate :: "64 word \<Rightarrow> 64 word" where
  "dilate xx =
     (let xx = dilate_step 16 0x0000ffff0000ffff xx;
          xx = dilate_step 8 0x00ff00ff00ff00ff xx;
          xx = dilate_step 4 0x0f0f0f0f0f0f0f0f xx;
          xx = dilate_step 2 0x3333333333333333 xx
       in dilate_step 1 0x5555555555555555 xx)"

definition mortonIndex :: "point \<Rightarrow> 64 word" where
  "mortonIndex p =
     (let ix = fold_sign (cast_u32 (pt_x p));
          iy = fold_sign (cast_u32 (pt_y p));
          xx = dilate (ucast ix);
          yy = dilate (ucast iy)
       in xx OR push_bit 1 yy)"

lemma signed_drop_bit_31: "signed_drop_bit 31 w = (if bit w 31 then - 1 else 0)" for w :: "32 word"
  by (rule bit_word_eqI) (auto simp: bit_signed_drop_bit_iff min_def Suc_le_eq)

lemma ucast_down:
  "(ucast (a + b) :: 32 word) = ucast a + ucast b" "(ucast (a - b) :: 32 word) = ucast a - ucast b"
  for a b :: "64 word"
proof -
  have d: "is_down (ucast :: 64 word \<Rightarrow> 32 word)" by (simp add: is_down)
  have "ucast (word_of_int (uint a + uint b) :: 64 word) = (word_of_int (uint a + uint b) :: 32 word)"
    "ucast (word_of_int (uint a - uint b) :: 64 word) = (word_of_int (uint a - uint b) :: 32 word)"
    by (rule ucast_down_wi [OF d])+
  then show "(ucast (a + b) :: 32 word) = ucast a + ucast b" "(ucast (a - b) :: 32 word) = ucast a - ucast b"
    by (simp_all add: wi_hom_syms [symmetric] flip: ucast_eq)
qed

lemma low_31: "w AND 0x7FFFFFFF = (if bit w 31 then w - 0x80000000 else w)" for w :: "32 word"
proof -
  have bits: "bit (0x7FFFFFFF :: 32 word) n \<longleftrightarrow> n < 31" "bit (0x80000000 :: 32 word) n \<longleftrightarrow> n = 31" for n
    using bit_mask_iff [of 31 n, where 'a = "32 word"] bit_exp_iff [of 31 n, where 'a = "32 word"]
    by (auto simp: mask_eq_exp_minus_1)
  show ?thesis
  proof (cases "bit w 31")
    case True
    have "(w AND 0x7FFFFFFF) + 0x80000000 = (w AND 0x7FFFFFFF) OR 0x80000000"
      by (rule disjunctive_add) (simp only: bit_and_iff bits; simp)
    also have "\<dots> = w"
      by (rule bit_word_eqI) (use True in \<open>auto simp only: bit_or_iff bit_and_iff bits\<close>, simp_all)
    finally show ?thesis using True by (simp add: algebra_simps)
  next
    case False
    have "n < 31" if "bit w n" for n
      using bit_imp_le_length [OF that] that False by (cases "n = 31") auto
    then show ?thesis
      using False by (intro bit_word_eqI) (auto simp only: bit_and_iff bits if_False)
  qed
qed

lemma ucast_32 [simp]: "ucast (ucast w :: 64 word) = w" "ucast (- 1 :: 64 word) = (- 1 :: 32 word)" for w :: "32 word"
  by (rule bit_word_eqI, auto simp: bit_ucast_iff dest: bit_imp_le_length)+

text \<open>Values below \<open>2 ^ 31\<close> are shifted up, the others reversed.\<close>

lemma fold_sign_eq: "fold_sign w = (if bit w 31 then NOT w else w + 0x7FFFFFFF)"
proof (cases "bit w 31")
  case True
  then show ?thesis
    by (simp add: fold_sign_def signed_drop_bit_31 ucast_down unsigned_and_eq unsigned_xor_eq low_31 not_eq_complement)
next
  case False
  then show ?thesis
    by (simp add: fold_sign_def signed_drop_bit_31 ucast_down unsigned_and_eq unsigned_xor_eq low_31)
qed

text \<open>After the step with shift \<open>s\<close> the bits stand in blocks of \<open>s\<close>.\<close>

definition in_blocks :: "nat \<Rightarrow> 64 word \<Rightarrow> 64 word \<Rightarrow> bool" where
  "in_blocks s x w \<longleftrightarrow> (\<forall>n<64. bit w n = (n mod (2 * s) < s \<and> bit x (n div (2 * s) * s + n mod s)))"

lemma dilate_blocks:
  "in_blocks 32 x w \<Longrightarrow> in_blocks 16 x (dilate_step 16 0x0000ffff0000ffff w)"
  "in_blocks 16 x w \<Longrightarrow> in_blocks 8 x (dilate_step 8 0x00ff00ff00ff00ff w)"
  "in_blocks 8 x w \<Longrightarrow> in_blocks 4 x (dilate_step 4 0x0f0f0f0f0f0f0f0f w)"
  "in_blocks 4 x w \<Longrightarrow> in_blocks 2 x (dilate_step 2 0x3333333333333333 w)"
  "in_blocks 2 x w \<Longrightarrow> in_blocks 1 x (dilate_step 1 0x5555555555555555 w)"
  unfolding in_blocks_def all_below_64 dilate_step_def bit_or_iff bit_and_iff bit_push_bit_iff
  by (simp_all, simp_all only: numeral_2_eq_2)

lemma bit_dilate:
  assumes "n < 64" shows "bit (dilate (ucast (w :: 32 word))) n \<longleftrightarrow> even n \<and> bit w (n div 2)"
proof -
  have "in_blocks 32 (ucast w) (ucast w)"
    unfolding in_blocks_def
  proof (intro allI impI)
    fix n :: nat assume "n < 64"
    then show "bit (ucast w :: 64 word) n =
        (n mod (2 * 32) < 32 \<and> bit (ucast w :: 64 word) (n div (2 * 32) * 32 + n mod 32))"
      by (cases "n < 32") (use bit_imp_le_length [of w n] in \<open>auto simp: bit_ucast_iff\<close>)
  qed
  then have "in_blocks 1 (ucast w) (dilate (ucast w))"
    unfolding dilate_def Let_def by (intro dilate_blocks)
  then have "bit (dilate (ucast w)) n = (n mod 2 < 1 \<and> bit (ucast w :: 64 word) (n div 2))"
    using assms by (simp add: in_blocks_def)
  moreover have "n mod 2 < 1 \<longleftrightarrow> even n" by presburger
  moreover have "n div 2 < 64" using assms by simp
  ultimately show ?thesis by (simp add: bit_ucast_iff)
qed

text \<open>The index interleaves the folded values, with \<open>y\<close> at the odd positions.\<close>

lemma mortonIndex_interleaves:
  "mortonIndex p = interleave_words (fold_sign (cast_u32 (pt_y p))) (fold_sign (cast_u32 (pt_x p)))"
proof (rule bit_word_eqI)
  fix n assume "n < LENGTH(64)"
  then have n: "n < 64" by simp
  have "bit (mortonIndex p) n \<longleftrightarrow> bit (dilate (ucast (fold_sign (cast_u32 (pt_x p))))) n \<or>
      1 \<le> n \<and> bit (dilate (ucast (fold_sign (cast_u32 (pt_y p))))) (n - 1)"
    using n by (simp only: mortonIndex_def Let_def bit_or_iff bit_push_bit_iff) simp
  moreover have "(n - 1) div 2 = n div 2 \<and> even (n - 1)" if "odd n" using that by (auto elim: oddE)
  moreover have "odd (n - 1)" if "even n" "1 \<le> n" using that by simp
  ultimately show "bit (mortonIndex p) n =
      bit (interleave_words (fold_sign (cast_u32 (pt_y p))) (fold_sign (cast_u32 (pt_x p)))) n"
    using n bit_dilate [of n] bit_dilate [of "n - 1"]
    by (cases "n = 0"; cases "even n") (auto simp: bit_interleave_words Suc_le_eq)
qed

section \<open>Sorting along the curve\<close>

text \<open>
  \<open>std::sort\<close> and \<open>parlay::sort\<close> with a comparison; both promise a
  permutation in which no element precedes a smaller one.
\<close>

fun insert_less :: "('a \<Rightarrow> 'a \<Rightarrow> bool) \<Rightarrow> 'a \<Rightarrow> 'a list \<Rightarrow> 'a list" where
  "insert_less lt x [] = [x]"
| "insert_less lt x (y # ys) = (if lt y x then y # insert_less lt x ys else x # y # ys)"

definition sort_less :: "('a \<Rightarrow> 'a \<Rightarrow> bool) \<Rightarrow> 'a list \<Rightarrow> 'a list" where
  "sort_less lt xs = foldr (insert_less lt) xs []"

definition morton_sort :: "point list \<Rightarrow> point list" where
  "morton_sort P = sort_less morton_less P"

text \<open>The address of a point of a sequence is its position there.\<close>

definition get_unsorted_address :: "point list \<Rightarrow> nat list" where
  "get_unsorted_address P = map (\<lambda>i. i) [0..<length P]"

definition get_sorted_address :: "point list \<Rightarrow> nat list" where
  "get_sorted_address P =
     (let P_set = map (\<lambda>i. i) [0..<length P]
       in sort_less (\<lambda>lhs rhs. morton_less (P ! lhs) (P ! rhs)) P_set)"

text \<open>The variant of \<open>get_sorted_points\<close> with the Hilbert code as the default.\<close>

definition get_sorted_points_hilbert ::
  "(point \<Rightarrow> 64 word) \<Rightarrow> point list \<Rightarrow> bool \<Rightarrow> point list \<times> point list" where
  "get_sorted_points_hilbert ov P use_hilbert =
     (let P' = map (\<lambda>p. p\<lparr>morton_id := (if use_hilbert then ov p else interleave_bits p)\<rparr>) P
       in (P', sort_key (\<lambda>p. (morton_id p, pt_id p)) P'))"

lemma sort_less_by_code:
  assumes "\<forall>x\<in>set xs. \<forall>y\<in>set xs. lt x y \<longleftrightarrow> key x < (key y :: 'k :: linorder)"
  shows "mset (sort_less lt xs) = mset xs \<and> sorted_by key (sort_less lt xs)"
proof -
  have ins: "mset (insert_less lt x ys) = add_mset x (mset ys)" for x ys
    by (induction ys) auto
  have m: "mset (sort_less lt ys) = mset ys" for ys
    unfolding sort_less_def by (induction ys) (simp_all add: ins)
  have srt: "sorted_by key (insert_less lt x ys)"
    if "\<forall>y\<in>set ys. lt y x \<longleftrightarrow> key y < key x" "sorted_by key ys" for x ys
    using that
  proof (induction ys)
    case (Cons y ys)
    have "set (insert_less lt x ys) = insert x (set ys)" using ins by (metis set_mset_add_mset_insert set_mset_mset)
    with Cons show ?case by (force simp: sorted_by_Cons)
  qed (simp add: sorted_by_Cons)
  have "sorted_by key (sort_less lt xs)"
    using assms
  proof (induction xs)
    case (Cons x xs)
    have "set (sort_less lt xs) = set xs" using m by (metis set_mset_mset)
    then have "sorted_by key (insert_less lt x (sort_less lt xs))" using Cons by (intro srt) auto
    then show ?case by (simp add: sort_less_def)
  qed (simp add: sort_less_def)
  with m show ?thesis by blast
qed

lemma get_sorted_address_correct:
  assumes "\<forall>p\<in>set P. grid_point p"
  shows "mset (get_sorted_address P) = mset [0..<length P] \<and>
    sorted_by (\<lambda>i. interleave_bits (P ! i)) (get_sorted_address P)"
  unfolding get_sorted_address_def Let_def map_ident
  by (intro sort_less_by_code ballI morton_less_code) (use assms in \<open>auto simp: grid_point_def\<close>)

lemma morton_sort_correct:
  assumes "\<forall>p\<in>set P. grid_point p"
  shows "mset (morton_sort P) = mset P \<and> sorted_by interleave_bits (morton_sort P)"
  unfolding morton_sort_def
  by (intro sort_less_by_code ballI morton_less_code) (use assms in \<open>auto simp: grid_point_def\<close>)

lemma get_sorted_points_hilbert_eq: "get_sorted_points_hilbert ov P h = get_sorted_points ov P h"
proof -
  have "(\<lambda>p. (morton_id p, pt_id p)) = pt_key" by (rule ext) (simp add: pt_key_def)
  moreover have "set_code ov h = (\<lambda>p. p\<lparr>morton_id := (if h then ov p else interleave_bits p)\<rparr>)"
    by (rule ext) (simp add: set_code_def)
  ultimately show ?thesis by (simp add: get_sorted_points_hilbert_def get_sorted_points_def)
qed

section \<open>Overloads on differences\<close>

definition merge_pts_all :: "point list \<Rightarrow> point list \<Rightarrow> diff_type \<Rightarrow> bool \<Rightarrow> diff_type option" where
  "merge_pts_all a b ret_diff reverse = merge_pts (\<lambda>_. True) a b ret_diff reverse"

definition reset_diff_to :: "diff_type \<Rightarrow> nat \<Rightarrow> nat \<Rightarrow> diff_type" where
  "reset_diff_to d add_sz remove_sz =
     d\<lparr>d_add := [], d_remove := [], add_cap := add_sz, remove_cap := remove_sz\<rparr>"

lemma merge_pts_all_eq:
  "merge_pts_all a b d rv = append_diff d rv (diff_by pt_key pt_key b a) (diff_by pt_key pt_key a b)"
  by (simp add: merge_pts_all_def merge_pts_eq filter_True)

lemma reset_diff_to_new: "reset_diff_to d n m = new_diff n m"
  by (simp add: reset_diff_to_def new_diff_def)

lemma merge_pts_after_reset:
  "merge_pts_pair a b = map_option (\<lambda>d. (d_add d, d_remove d)) (merge_pts_all a b (reset_diff_to d0 (length b) (length a)) False)"
  by (simp add: merge_pts_pair_eq merge_pts_all_def merge_pts_new reset_diff_to_new)

end
