(* ===== verification/GeoBox.thy ===== *)
theory GeoBox
  imports Points
begin

text \<open>
  The bounding-box routines of \<open>operations.hpp\<close>: tests between points and
  boxes, the box of a sequence, squared distances, and the halves
  \<open>compute_cur_box\<close> of a box that the quadtree searches descend into.
\<close>

section \<open>Tests on boxes\<close>

definition is_same_mbr :: "Bounding_Box \<Rightarrow> Bounding_Box \<Rightarrow> bool" where
  "is_same_mbr lhs rhs \<longleftrightarrow>
     pt_x (fst lhs) = pt_x (fst rhs) \<and> pt_y (fst lhs) = pt_y (fst rhs) \<and>
     pt_x (snd lhs) = pt_x (snd rhs) \<and> pt_y (snd lhs) = pt_y (snd rhs)"

definition merge_mbr :: "Bounding_Box \<Rightarrow> Bounding_Box \<Rightarrow> Bounding_Box" where
  "merge_mbr a b =
     (Point2 (min (pt_x (fst a)) (pt_x (fst b))) (min (pt_y (fst a)) (pt_y (fst b))),
      Point2 (max (pt_x (snd a)) (pt_x (snd b))) (max (pt_y (snd a)) (pt_y (snd b))))"

definition point_in_mbr :: "point \<Rightarrow> Bounding_Box \<Rightarrow> bool" where
  "point_in_mbr p mbr \<longleftrightarrow>
     pt_x (fst mbr) \<le> pt_x p \<and> pt_x p \<le> pt_x (snd mbr) \<and>
     pt_y (fst mbr) \<le> pt_y p \<and> pt_y p \<le> pt_y (snd mbr)"

definition mbr_in_mbr :: "Bounding_Box \<Rightarrow> Bounding_Box \<Rightarrow> bool" where
  "mbr_in_mbr small large \<longleftrightarrow>
     pt_x (fst small) \<ge> pt_x (fst large) \<and> pt_x (snd small) \<le> pt_x (snd large) \<and>
     pt_y (fst small) \<ge> pt_y (fst large) \<and> pt_y (snd small) \<le> pt_y (snd large)"

definition mbr_exclude_mbr :: "Bounding_Box \<Rightarrow> Bounding_Box \<Rightarrow> bool" where
  "mbr_exclude_mbr small large \<longleftrightarrow>
     (pt_x (fst small) > pt_x (snd large) \<or> pt_x (snd small) < pt_x (fst large)) \<or>
     (pt_y (fst small) > pt_y (snd large) \<or> pt_y (snd small) < pt_y (fst large))"

definition mbr_mbr_relation :: "Bounding_Box \<Rightarrow> Bounding_Box \<Rightarrow> int" where
  "mbr_mbr_relation small large =
     (let minc_x = max (pt_x (fst small)) (pt_x (fst large));
          minc_y = max (pt_y (fst small)) (pt_y (fst large));
          maxc_x = min (pt_x (snd small)) (pt_x (snd large));
          maxc_y = min (pt_y (snd small)) (pt_y (snd large))
      in if minc_x \<le> maxc_x \<and> minc_y \<le> maxc_y then
           (if minc_x = pt_x (fst small) \<and> maxc_x = pt_x (snd small) \<and>
               minc_y = pt_y (fst small) \<and> maxc_y = pt_y (snd small) then 1 else 0)
         else - 1)"

definition mbr_intersects_mbr :: "Bounding_Box \<Rightarrow> Bounding_Box \<Rightarrow> bool" where
  "mbr_intersects_mbr a b =
     (if pt_x (fst a) > pt_x (snd b) \<or> pt_x (snd a) < pt_x (fst b) then False
      else if pt_y (fst a) > pt_y (snd b) \<or> pt_y (snd a) < pt_y (fst b) then False
      else True)"

definition valid_mbr :: "Bounding_Box \<Rightarrow> bool" where
  "valid_mbr m \<longleftrightarrow> pt_x (fst m) \<le> pt_x (snd m) \<and> pt_y (fst m) \<le> pt_y (snd m)"

lemma relation_contained: "mbr_mbr_relation s l > 0 \<longleftrightarrow> valid_mbr s \<and> mbr_in_mbr s l"
  by (auto simp: mbr_mbr_relation_def Let_def valid_mbr_def mbr_in_mbr_def max_def min_def)

lemma relation_range: "mbr_mbr_relation s l \<in> {- 1, 0, 1}"
  by (simp add: mbr_mbr_relation_def Let_def)

lemma relation_excluded:
  "mbr_mbr_relation s l < 0 \<longleftrightarrow> \<not> (\<exists>x y. point_in_mbr (Point2 x y) s \<and> point_in_mbr (Point2 x y) l)"
proof
  assume "\<not> (\<exists>x y. point_in_mbr (Point2 x y) s \<and> point_in_mbr (Point2 x y) l)"
  then have "\<not> (point_in_mbr (Point2 (max (pt_x (fst s)) (pt_x (fst l))) (max (pt_y (fst s)) (pt_y (fst l)))) s \<and>
      point_in_mbr (Point2 (max (pt_x (fst s)) (pt_x (fst l))) (max (pt_y (fst s)) (pt_y (fst l)))) l)" by blast
  then show "mbr_mbr_relation s l < 0"
    by (auto simp: mbr_mbr_relation_def Let_def point_in_mbr_def)
qed (auto simp: mbr_mbr_relation_def Let_def point_in_mbr_def split: if_splits)

lemma point_in_mbr_trans: "point_in_mbr p s \<Longrightarrow> mbr_in_mbr s l \<Longrightarrow> point_in_mbr p l"
  by (auto simp: point_in_mbr_def mbr_in_mbr_def)

lemma relation_contained_point: "mbr_mbr_relation s l > 0 \<Longrightarrow> point_in_mbr p s \<Longrightarrow> point_in_mbr p l"
  using relation_contained point_in_mbr_trans by blast

lemma point_in_mbr_Point2: "point_in_mbr p m \<longleftrightarrow> point_in_mbr (Point2 (pt_x p) (pt_y p)) m"
  by (simp add: point_in_mbr_def)

lemma relation_excluded_point: "mbr_mbr_relation s l < 0 \<Longrightarrow> point_in_mbr p s \<Longrightarrow> \<not> point_in_mbr p l"
  using relation_excluded point_in_mbr_Point2 by blast

lemma intersects_not_excludes: "mbr_intersects_mbr a b \<longleftrightarrow> \<not> mbr_exclude_mbr a b"
  by (auto simp: mbr_intersects_mbr_def mbr_exclude_mbr_def)

lemma merge_mbr_in: "mbr_in_mbr a (merge_mbr a b)" "mbr_in_mbr b (merge_mbr a b)"
  by (auto simp: mbr_in_mbr_def merge_mbr_def)

lemma merge_mbr_point: "point_in_mbr p a \<or> point_in_mbr p b \<Longrightarrow> point_in_mbr p (merge_mbr a b)"
  using merge_mbr_in point_in_mbr_trans by blast

text \<open>
  C31. The three-way test of the searches on valid boxes: 1 exactly when every
  point of the first box is in the second, -1 exactly when no point is in both,
  which is the answer of \<open>mbr_exclude_mbr\<close> and the negation of
  \<open>mbr_intersects_mbr\<close>; 0 otherwise.
\<close>

theorem mbr_mbr_relation_correct:
  assumes "valid_mbr s" "valid_mbr l"
  shows "(mbr_mbr_relation s l = 1 \<longleftrightarrow> (\<forall>x y. point_in_mbr (Point2 x y) s \<longrightarrow> point_in_mbr (Point2 x y) l))
    \<and> (mbr_mbr_relation s l = - 1 \<longleftrightarrow> (\<forall>x y. \<not> (point_in_mbr (Point2 x y) s \<and> point_in_mbr (Point2 x y) l)))
    \<and> (mbr_mbr_relation s l = - 1 \<longleftrightarrow> mbr_exclude_mbr s l)
    \<and> (mbr_mbr_relation s l = - 1 \<longleftrightarrow> \<not> mbr_intersects_mbr s l)
    \<and> mbr_mbr_relation s l \<in> {- 1, 0, 1}"
proof (intro conjI)
  have 1: "mbr_mbr_relation s l = 1 \<longleftrightarrow> mbr_mbr_relation s l > 0"
    and m1: "mbr_mbr_relation s l = - 1 \<longleftrightarrow> mbr_mbr_relation s l < 0"
    using relation_range [of s l] by auto
  show "mbr_mbr_relation s l = 1 \<longleftrightarrow> (\<forall>x y. point_in_mbr (Point2 x y) s \<longrightarrow> point_in_mbr (Point2 x y) l)"
  proof
    assume "\<forall>x y. point_in_mbr (Point2 x y) s \<longrightarrow> point_in_mbr (Point2 x y) l"
    then have "point_in_mbr (Point2 (pt_x (fst s)) (pt_y (fst s))) l"
      "point_in_mbr (Point2 (pt_x (snd s)) (pt_y (snd s))) l"
      using assms(1) by (auto simp: point_in_mbr_def valid_mbr_def)
    then show "mbr_mbr_relation s l = 1"
      unfolding 1 relation_contained using assms(1) by (simp add: mbr_in_mbr_def point_in_mbr_def)
  qed (use 1 relation_contained_point in blast)
  show "mbr_mbr_relation s l = - 1 \<longleftrightarrow> (\<forall>x y. \<not> (point_in_mbr (Point2 x y) s \<and> point_in_mbr (Point2 x y) l))"
    unfolding m1 relation_excluded by blast
  show ex: "mbr_mbr_relation s l = - 1 \<longleftrightarrow> mbr_exclude_mbr s l"
    using assms by (auto simp: mbr_mbr_relation_def Let_def mbr_exclude_mbr_def valid_mbr_def)
  show "mbr_mbr_relation s l = - 1 \<longleftrightarrow> \<not> mbr_intersects_mbr s l"
    unfolding ex intersects_not_excludes by simp
qed (rule relation_range)

theorem mbr_mbr_relation_correct_witness:
  "mbr_mbr_relation (Point2 1 1, Point2 2 2) (Point2 0 0, Point2 3 3) = 1
   \<and> point_in_mbr (Point2 2 1) (Point2 0 0, Point2 3 3)
   \<and> mbr_intersects_mbr (Point2 1 1, Point2 2 2) (Point2 0 0, Point2 3 3)"
proof -
  have v: "valid_mbr (Point2 1 1, Point2 2 2)" "valid_mbr (Point2 0 0, Point2 3 3)"
    by (simp_all add: valid_mbr_def)
  have "mbr_mbr_relation (Point2 1 1, Point2 2 2) (Point2 0 0, Point2 3 3) = 1"
    by (simp add: mbr_mbr_relation_def Let_def)
  moreover have "point_in_mbr (Point2 2 1) (Point2 1 1, Point2 2 2)" by (simp add: point_in_mbr_def)
  ultimately show ?thesis using mbr_mbr_relation_correct [OF v] by (metis one_neq_neg_one)
qed

section \<open>The box of a sequence\<close>

text \<open>\<open>FT_INF_MIN\<close>, the start of the two maxima, is the smallest positive normal double.\<close>

definition mbr_step :: "Bounding_Box \<Rightarrow> point \<Rightarrow> Bounding_Box" where
  "mbr_step m p =
     (Point2 (min (pt_x (fst m)) (pt_x p)) (min (pt_y (fst m)) (pt_y p)),
      Point2 (max (pt_x (snd m)) (pt_x p)) (max (pt_y (snd m)) (pt_y p)))"

definition get_mbr :: "point list \<Rightarrow> Bounding_Box" where
  "get_mbr P = foldl mbr_step (Point2 FT_INF_MAX FT_INF_MAX, Point2 FT_INF_MIN FT_INF_MIN) P"

lemma foldl_mbr_step:
  "foldl mbr_step (Point2 a b, Point2 c d) P =
     (Point2 (foldl min a (map pt_x P)) (foldl min b (map pt_y P)),
      Point2 (foldl max c (map pt_x P)) (foldl max d (map pt_y P)))"
  by (induction P arbitrary: a b c d) (simp_all add: mbr_step_def)

lemma foldl_min_le: "foldl min a xs \<le> (a :: FT)" "x \<in> set xs \<Longrightarrow> foldl min a xs \<le> x"
proof (induction xs arbitrary: a)
  case (Cons y xs)
  { case 1 then show ?case using Cons.IH(1) [of "min a y"] by simp }
  { case 2 then show ?case using Cons.IH [of "min a y"] by (auto intro: order_trans) }
qed simp_all

lemma foldl_max_ge: "(a :: FT) \<le> foldl max a xs" "x \<in> set xs \<Longrightarrow> x \<le> foldl max a xs"
proof (induction xs arbitrary: a)
  case (Cons y xs)
  { case 1 then show ?case using Cons.IH(1) [of "max a y"] by simp }
  { case 2 then show ?case using Cons.IH [of "max a y"] by (auto intro: order_trans) }
qed simp_all

lemma foldl_min_attained: "foldl min a xs = a \<or> foldl min a xs \<in> set (xs :: FT list)"
  by (induction xs arbitrary: a) (auto simp: min_def)

lemma foldl_max_attained: "foldl max a xs = a \<or> foldl max a xs \<in> set (xs :: FT list)"
  by (induction xs arbitrary: a) (auto simp: max_def)

lemma get_mbr_contains: "p \<in> set P \<Longrightarrow> point_in_mbr p (get_mbr P)"
  by (simp add: get_mbr_def foldl_mbr_step point_in_mbr_def foldl_min_le(2) foldl_max_ge(2))

text \<open>
  \<open>get_mbr\<close> contains every point of its sequence, and for a nonempty
  sequence of coordinates from the smallest positive normal double up to the largest double it is
  the least such box: each side passes through a point.
\<close>

theorem get_mbr_least:
  assumes "P \<noteq> []"
    and "\<forall>p\<in>set P. FT_INF_MIN \<le> pt_x p \<and> pt_x p \<le> FT_INF_MAX \<and> FT_INF_MIN \<le> pt_y p \<and> pt_y p \<le> FT_INF_MAX"
  shows "(\<forall>p\<in>set P. point_in_mbr p (get_mbr P))
    \<and> pt_x (fst (get_mbr P)) \<in> pt_x ` set P \<and> pt_x (snd (get_mbr P)) \<in> pt_x ` set P
    \<and> pt_y (fst (get_mbr P)) \<in> pt_y ` set P \<and> pt_y (snd (get_mbr P)) \<in> pt_y ` set P"
proof -
  have "foldl min FT_INF_MAX xs \<in> set xs \<and> foldl max FT_INF_MIN xs \<in> set xs"
    if "xs \<noteq> []" "\<forall>x\<in>set xs. FT_INF_MIN \<le> x \<and> x \<le> FT_INF_MAX" for xs
  proof -
    from that(1) obtain x where x: "x \<in> set xs" by (cases xs) auto
    have "FT_INF_MAX \<in> set xs" if "foldl min FT_INF_MAX xs = FT_INF_MAX"
      using foldl_min_le(2) [OF x, of FT_INF_MAX] that x \<open>\<forall>x\<in>set xs. _\<close> by (metis order_antisym)
    moreover have "FT_INF_MIN \<in> set xs" if "foldl max FT_INF_MIN xs = FT_INF_MIN"
      using foldl_max_ge(2) [OF x, of FT_INF_MIN] that x \<open>\<forall>x\<in>set xs. _\<close> by (metis order_antisym)
    ultimately show ?thesis
      using foldl_min_attained [of FT_INF_MAX xs] foldl_max_attained [of FT_INF_MIN xs] by metis
  qed
  from this [of "map pt_x P"] this [of "map pt_y P"] assms show ?thesis
    by (simp add: get_mbr_contains) (simp add: get_mbr_def foldl_mbr_step)
qed

lemma FT_INF_MIN_le_1: "FT_INF_MIN \<le> 1"
  using less_imp_le [OF pow2_strict_mono, of "- 1022" 0] by (simp add: FT_INF_MIN_def)

lemma FT_INF_MAX_ge: "2 ^ 53 \<le> FT_INF_MAX"
proof -
  have "1 * pow2 1023 \<le> (2 - pow2 (- 52)) * pow2 1023"
    using less_imp_le [OF pow2_strict_mono, of "- 52" 0] by (intro mult_right_mono) simp_all
  then have "pow2 1023 \<le> FT_INF_MAX" by (simp add: FT_INF_MAX_def)
  moreover have "pow2 53 \<le> pow2 1023" using less_imp_le [OF pow2_strict_mono, of 53 1023] by simp
  ultimately show ?thesis using pow2_nat [of 53] by simp
qed

theorem get_mbr_least_witness:
  "point_in_mbr (Point3 1 2 3) (get_mbr [Point3 1 2 3, Point3 2 1 5])
   \<and> pt_x (snd (get_mbr [Point3 1 2 3, Point3 2 1 5])) \<in> {2, 1}"
proof -
  have n: "[Point3 1 2 3, Point3 2 1 5] \<noteq> []" by simp
  have h: "\<forall>p\<in>set [Point3 1 2 3, Point3 2 1 5].
      FT_INF_MIN \<le> pt_x p \<and> pt_x p \<le> FT_INF_MAX \<and> FT_INF_MIN \<le> pt_y p \<and> pt_y p \<le> FT_INF_MAX"
    using FT_INF_MIN_le_1 FT_INF_MAX_ge by simp
  show ?thesis using get_mbr_least [OF n h] by simp
qed

text \<open>
  The start value of the maxima is not below every double: for points whose
  coordinates are all zero or negative the upper corner of \<open>get_mbr\<close> is
  \<open>FT_INF_MIN\<close>, a positive number that no point has.
\<close>

theorem get_mbr_not_least_at_zero:
  assumes "\<forall>p\<in>set P. pt_x p \<le> 0 \<and> pt_y p \<le> 0"
  shows "pt_x (snd (get_mbr P)) = FT_INF_MIN \<and> pt_y (snd (get_mbr P)) = FT_INF_MIN
    \<and> pt_x (snd (get_mbr P)) \<notin> pt_x ` set P"
proof -
  have m: "foldl max FT_INF_MIN xs = FT_INF_MIN" if "\<forall>x\<in>set xs. x \<le> 0" for xs
    using that foldl_max_attained [of FT_INF_MIN xs] foldl_max_ge(1) [of FT_INF_MIN xs] FT_INF_MIN_pos
    by (metis order_trans not_less)
  have "FT_INF_MIN \<notin> pt_x ` set P" using assms FT_INF_MIN_pos by (metis imageE not_less)
  then show ?thesis using assms m [of "map pt_x P"] m [of "map pt_y P"]
    by (simp add: get_mbr_def foldl_mbr_step)
qed

theorem get_mbr_not_least_at_zero_witness:
  "pt_x (snd (get_mbr [Point3 1 0 0])) = FT_INF_MIN \<and> FT_INF_MIN \<notin> pt_x ` set [Point3 1 0 0]"
  using get_mbr_not_least_at_zero [of "[Point3 1 0 0]"] by simp

section \<open>Squared distances\<close>

definition point_mbr_sqrdis :: "point \<Rightarrow> Bounding_Box \<Rightarrow> FT" where
  "point_mbr_sqrdis p mbr =
     (let dx = max (max (fsub (pt_x (fst mbr)) (pt_x p)) 0) (max (fsub (pt_x p) (pt_x (snd mbr))) 0);
          dy = max (max (fsub (pt_y (fst mbr)) (pt_y p)) 0) (max (fsub (pt_y p) (pt_y (snd mbr))) 0)
      in fadd (fmul dx dx) (fmul dy dy))"

definition point_point_sqrdis :: "point \<Rightarrow> point \<Rightarrow> FT" where
  "point_point_sqrdis lhs rhs =
     fadd (fmul (fsub (pt_x lhs) (pt_x rhs)) (fsub (pt_x lhs) (pt_x rhs)))
          (fmul (fsub (pt_y lhs) (pt_y rhs)) (fsub (pt_y lhs) (pt_y rhs)))"

lemma box_distance_le: "point_in_mbr p mbr \<Longrightarrow> point_mbr_sqrdis q mbr \<le> point_point_sqrdis p q"
  unfolding point_mbr_sqrdis_def point_point_sqrdis_def Let_def fadd_def fmul_def fsub_def point_in_mbr_def
  by (intro b64.sum_mono b64.square_mono b64.gap_le) auto

text \<open>
  C30. The pruning bound of the nearest-neighbour searches, in the rounded
  arithmetic the code computes with: the squared distance from a query point to a
  box is never above the computed squared distance from any point of the box, is zero
  inside the box, and shrinking the box can only increase it.
\<close>

theorem point_mbr_sqrdis_lower_bound:
  shows "(\<forall>p. point_in_mbr p mbr \<longrightarrow> point_mbr_sqrdis q mbr \<le> point_point_sqrdis p q)
    \<and> (point_in_mbr q mbr \<longrightarrow> point_mbr_sqrdis q mbr = 0)
    \<and> (mbr_in_mbr small mbr \<longrightarrow> point_mbr_sqrdis q mbr \<le> point_mbr_sqrdis q small)"
proof (intro conjI impI allI)
  show "point_mbr_sqrdis q mbr \<le> point_point_sqrdis p q" if "point_in_mbr p mbr" for p
    using that by (rule box_distance_le)
  show "point_mbr_sqrdis q mbr = 0" if "point_in_mbr q mbr"
  proof -
    have "fsub a b \<le> 0" if "a \<le> b" for a b using that by (simp add: fsub_def b64.nonpos)
    then show ?thesis using that
      by (simp add: point_mbr_sqrdis_def point_in_mbr_def Let_def max_def fadd_def fmul_def)
  qed
  assume "mbr_in_mbr small mbr"
  then have le: "pt_x (fst mbr) \<le> pt_x (fst small)" "pt_x (snd small) \<le> pt_x (snd mbr)"
    "pt_y (fst mbr) \<le> pt_y (fst small)" "pt_y (snd small) \<le> pt_y (snd mbr)"
    by (auto simp: mbr_in_mbr_def)
  have gap: "max (max (fsub lo q) 0) (max (fsub q hi) 0) \<le> max (max (fsub lo' q) 0) (max (fsub q hi') 0)"
    if "lo \<le> lo'" "hi' \<le> hi" for lo lo' hi hi' q
    unfolding fsub_def using that by (intro max.mono b64.mono) auto
  show "point_mbr_sqrdis q mbr \<le> point_mbr_sqrdis q small"
    unfolding point_mbr_sqrdis_def Let_def fadd_def fmul_def
    by (intro b64.sum_mono b64.prod_mono gap le) auto
qed

theorem point_mbr_sqrdis_lower_bound_witness:
  "point_mbr_sqrdis (Point2 5 1) (Point2 0 0, Point2 2 2) \<le> point_point_sqrdis (Point2 2 2) (Point2 5 1)
   \<and> point_mbr_sqrdis (Point2 5 1) (Point2 0 0, Point2 2 2) \<le> point_mbr_sqrdis (Point2 5 1) (Point2 1 1, Point2 2 2)
   \<and> point_mbr_sqrdis (Point2 1 1) (Point2 0 0, Point2 2 2) = 0"
proof -
  have "point_in_mbr (Point2 2 2) (Point2 0 0, Point2 2 2)" "point_in_mbr (Point2 1 1) (Point2 0 0, Point2 2 2)"
    "mbr_in_mbr (Point2 1 1, Point2 2 2) (Point2 0 0, Point2 2 2)"
    by (simp_all add: point_in_mbr_def mbr_in_mbr_def)
  then show ?thesis
    using point_mbr_sqrdis_lower_bound [of "(Point2 0 0, Point2 2 2)" "Point2 5 1" "(Point2 1 1, Point2 2 2)"]
      point_mbr_sqrdis_lower_bound [of "(Point2 0 0, Point2 2 2)" "Point2 1 1"] by blast
qed

definition mbr_mbr_within_dis :: "Bounding_Box \<Rightarrow> Bounding_Box \<Rightarrow> FT \<Rightarrow> bool" where
  "mbr_mbr_within_dis mbr1 mbr2 point_dis \<longleftrightarrow>
     \<not> (dcmp (fsub (fadd (pt_x (snd mbr1)) point_dis) (pt_x (fst mbr2))) < 0 \<or>
        dcmp (fsub (fadd (pt_y (snd mbr1)) point_dis) (pt_y (fst mbr2))) < 0 \<or>
        dcmp (fsub (fadd (pt_x (snd mbr2)) point_dis) (pt_x (fst mbr1))) < 0 \<or>
        dcmp (fsub (fadd (pt_y (snd mbr2)) point_dis) (pt_y (fst mbr1))) < 0)"

text \<open>The join predicate at the leaves: the computed distance does not exceed the threshold.\<close>

definition within_dis :: "FT \<Rightarrow> point \<Rightarrow> point \<Rightarrow> bool" where
  "within_dis d p q \<longleftrightarrow> dcmp (fsub (point_point_sqrdis p q) (fmul d d)) \<le> 0"

text \<open>\<open>knn_bf\<close>, the brute-force reference: the \<open>k\<close>-th smallest distance.\<close>

definition knn_bf :: "nat \<Rightarrow> point \<Rightarrow> point list \<Rightarrow> FT option" where
  "knn_bf k q P =
     (let q_sqrdis = sort (map (point_point_sqrdis q) P)
      in if 1 \<le> k \<and> k \<le> length P then Some (q_sqrdis ! (k - 1)) else None)"

section \<open>The halves of a box\<close>

definition compute_cur_box ::
  "Bounding_Box \<Rightarrow> FT \<Rightarrow> FT \<Rightarrow> nat \<Rightarrow> bool \<Rightarrow> Bounding_Box \<times> Bounding_Box \<times> FT \<times> FT" where
  "compute_cur_box cur_mbr x_prefix y_prefix b x_splitter =
     (let shift_b = (b + 1) div 2;
          split_value = fmul 1 (of_int (uint (push_bit (shift_b - 1) (1 :: 32 word))))
      in if x_splitter then
           ((fst cur_mbr, (snd cur_mbr)\<lparr>pt_x := min (fsub (fadd x_prefix split_value) FT_EPS) (pt_x (snd cur_mbr))\<rparr>),
            ((fst cur_mbr)\<lparr>pt_x := max (fadd x_prefix split_value) (pt_x (fst cur_mbr))\<rparr>, snd cur_mbr),
            fadd x_prefix split_value, y_prefix)
         else
           ((fst cur_mbr, (snd cur_mbr)\<lparr>pt_y := min (fsub (fadd y_prefix split_value) FT_EPS) (pt_y (snd cur_mbr))\<rparr>),
            ((fst cur_mbr)\<lparr>pt_y := max (fadd y_prefix split_value) (pt_y (fst cur_mbr))\<rparr>, snd cur_mbr),
            x_prefix, fadd y_prefix split_value))"

end
