(* ===== verification/MvqTree.thy ===== *)
theory MvqTree
  imports PointSeqs
begin

text \<open>
  The quadtree of \<open>mvq.hpp\<close> as a value: its nodes, building from a sorted
  sequence, the in-place batch insertion and deletion, the deletion that collapses
  small nodes, and the traversals. A null \<open>shared_ptr\<close> is \<open>Null\<close>. The two
  branches the code may run in parallel work on disjoint subtrees and run one
  after the other here. \<open>b\<close> is the number of code bits below the node; the
  code never visits an interior node with \<open>b = 0\<close> (\<open>mvq_ok\<close> says so), where its
  unsigned \<open>b - 1\<close> would wrap. Addresses, sharing and versions are added in
  \<open>MvqHeap\<close>.
\<close>

section \<open>Nodes\<close>

datatype qtree =
  Null
| LeafNode "point list"
| InteNode qtree qtree nat

fun get_num_points :: "qtree \<Rightarrow> nat" where
  "get_num_points Null = 0"
| "get_num_points (LeafNode records) = length records"
| "get_num_points (InteNode l_son r_son num_pts) = num_pts"

fun is_leaf :: "qtree \<Rightarrow> bool" where
  "is_leaf (LeafNode records) = True"
| "is_leaf t = False"

definition create_leaf :: "point list \<Rightarrow> nat \<Rightarrow> qtree" where
  "create_leaf P b = LeafNode P"

definition merge_nodes :: "qtree \<Rightarrow> qtree \<Rightarrow> qtree" where
  "merge_nodes L R =
     (let L_num_pts = (if L = Null then 0 else get_num_points L);
          R_num_pts = (if R = Null then 0 else get_num_points R)
      in InteNode L R (L_num_pts + R_num_pts))"

definition delete_merge_nodes :: "qtree \<Rightarrow> qtree \<Rightarrow> qtree" where
  "delete_merge_nodes L R =
     (let L_num_pts = (if L = Null then 0 else get_num_points L);
          R_num_pts = (if R = Null then 0 else get_num_points R)
      in InteNode L R (L_num_pts + R_num_pts))"

definition create_internal :: "qtree \<Rightarrow> qtree \<Rightarrow> qtree" where
  "create_internal L R = merge_nodes L R"

lemma create_internal_eq [simp]: "create_internal L R = InteNode L R (get_num_points L + get_num_points R)"
  by (simp add: create_internal_def merge_nodes_def)

lemma delete_merge_nodes_eq [simp]: "delete_merge_nodes L R = InteNode L R (get_num_points L + get_num_points R)"
  by (simp add: delete_merge_nodes_def)

text \<open>
  \<open>collect_records\<close>, without a buffer and into a buffer at a position. A write past
  the end of the buffer is \<open>None\<close>.
\<close>

fun collect_records :: "qtree \<Rightarrow> point list" where
  "collect_records Null = []"
| "collect_records (LeafNode records) = records"
| "collect_records (InteNode l_son r_son num_pts) = collect_records l_son @ collect_records r_son"

fun write_at :: "point list \<Rightarrow> point list \<Rightarrow> nat \<Rightarrow> (point list \<times> nat) option" where
  "write_at [] out cnt = Some (out, cnt)"
| "write_at (p # ps) out cnt = (if cnt < length out then write_at ps (out[cnt := p]) (cnt + 1) else None)"

fun collect_records_out :: "qtree \<Rightarrow> point list \<Rightarrow> nat \<Rightarrow> (point list \<times> nat) option" where
  "collect_records_out Null out cnt = Some (out, cnt)"
| "collect_records_out (LeafNode records) out cnt = write_at records out cnt"
| "collect_records_out (InteNode l_son r_son num_pts) out cnt =
     do {
       let R_cnt = cnt + (if l_son \<noteq> Null then get_num_points l_son else 0);
       (out1, cnt1) \<leftarrow> collect_records_out l_son out cnt;
       (out2, _) \<leftarrow> collect_records_out r_son out1 R_cnt;
       Some (out2, cnt1) }"

section \<open>Building and batch updates\<close>

fun build :: "nat \<Rightarrow> point list \<Rightarrow> nat \<Rightarrow> qtree" where
  "build leaf_size P b =
     (if b = 0 \<or> length P \<le> leaf_size then create_leaf P b
      else
        let splitter = split_by_bit P 0 (length P) b;
            L = (if 0 < splitter then build leaf_size (take splitter P) (b - 1) else Null);
            R = (if splitter < length P then build leaf_size (drop splitter P) (b - 1) else Null)
        in create_internal L R)"

declare build.simps [simp del]

definition build_root :: "nat \<Rightarrow> qtree \<Rightarrow> point list \<Rightarrow> qtree" where
  "build_root leaf_size rt P = (if P = [] then rt else build leaf_size P 64)"

fun batch_insert_sorted_node :: "nat \<Rightarrow> qtree \<Rightarrow> point list \<Rightarrow> nat \<Rightarrow> qtree" where
  "batch_insert_sorted_node leaf_size Null P b = build leaf_size P b"
| "batch_insert_sorted_node leaf_size (LeafNode records) P b =
     (if b = 0 \<or> length records + length P \<le> leaf_size then LeafNode (merge_by pt_key records P)
      else build leaf_size (merge_by pt_key records P) b)"
| "batch_insert_sorted_node leaf_size (InteNode l_son r_son num_pts) P b =
     (let splitter = split_by_bit P 0 (length P) b;
          l' = (if 0 < splitter then batch_insert_sorted_node leaf_size l_son (take splitter P) (b - 1) else l_son);
          r' = (if splitter < length P then batch_insert_sorted_node leaf_size r_son (drop splitter P) (b - 1) else r_son)
      in delete_merge_nodes l' r')"

definition batch_insert_sorted :: "nat \<Rightarrow> qtree \<Rightarrow> point list \<Rightarrow> qtree" where
  "batch_insert_sorted leaf_size rt P =
     (if P = [] then rt
      else if rt = Null then build_root leaf_size rt P
      else batch_insert_sorted_node leaf_size rt P 64)"

fun batch_delete_sorted_node :: "qtree \<Rightarrow> point list \<Rightarrow> nat \<Rightarrow> qtree option" where
  "batch_delete_sorted_node Null P b = Some Null"
| "batch_delete_sorted_node (LeafNode records) P b =
     do { (added, removed) \<leftarrow> merge_pts_pair records P; Some (LeafNode removed) }"
| "batch_delete_sorted_node (InteNode l_son r_son num_pts) P b =
     do {
       let splitter = split_by_bit P 0 (length P) b;
       l' \<leftarrow> (if 0 < splitter then batch_delete_sorted_node l_son (take splitter P) (b - 1) else Some l_son);
       r' \<leftarrow> (if splitter < length P then batch_delete_sorted_node r_son (drop splitter P) (b - 1) else Some r_son);
       Some (delete_merge_nodes l' r') }"

definition batch_delete_sorted :: "qtree \<Rightarrow> point list \<Rightarrow> qtree option" where
  "batch_delete_sorted rt P =
     (if P = [] \<or> rt = Null then Some rt else batch_delete_sorted_node rt P 64)"

text \<open>
  The tree that \<open>multi_version_batch_delete_sorted_node\<close> aims at, a specification: \<open>MvqHeap\<close> has
  the routine itself. At an interior node:
  null when both sons are, a small only son in place of the node, one leaf in place of
  two small sons. The code casts both sons to leaves there; a son that is an
  interior node is undefined behaviour, \<open>None\<close>.
\<close>

definition delete_collapse :: "nat \<Rightarrow> qtree \<Rightarrow> qtree \<Rightarrow> qtree option" where
  "delete_collapse leaf_size new_l_son new_r_son =
     (if new_l_son = Null \<and> new_r_son = Null then Some Null
      else if new_l_son = Null then
        (if get_num_points new_r_son \<le> leaf_size then Some new_r_son
         else Some (InteNode new_l_son new_r_son (get_num_points new_r_son)))
      else if new_r_son = Null then
        (if get_num_points new_l_son \<le> leaf_size then Some new_l_son
         else Some (InteNode new_l_son new_r_son (get_num_points new_l_son)))
      else if get_num_points new_l_son + get_num_points new_r_son \<le> leaf_size then
        (case (new_l_son, new_r_son) of
           (LeafNode L, LeafNode R) \<Rightarrow> Some (create_leaf (merge_by pt_key L R) 0)
         | _ \<Rightarrow> None)
      else Some (delete_merge_nodes new_l_son new_r_son))"

fun mv_delete_node :: "nat \<Rightarrow> qtree \<Rightarrow> point list \<Rightarrow> nat \<Rightarrow> qtree option" where
  "mv_delete_node leaf_size Null P b = Some Null"
| "mv_delete_node leaf_size (LeafNode records) P b =
     (let records' = get_delete_p_all records P 0 (length P)
      in Some (if records' = [] then Null else LeafNode records'))"
| "mv_delete_node leaf_size (InteNode l_son r_son num_pts) P b =
     (let splitter = split_by_bit P 0 (length P) b in
      case (if 0 < splitter then mv_delete_node leaf_size l_son (take splitter P) (b - 1) else Some l_son) of
        None \<Rightarrow> None
      | Some l' \<Rightarrow>
          (case (if splitter < length P then mv_delete_node leaf_size r_son (drop splitter P) (b - 1) else Some r_son) of
             None \<Rightarrow> None
           | Some r' \<Rightarrow> delete_collapse leaf_size l' r'))"

section \<open>The invariant\<close>

text \<open>
  \<open>mvq_ok b t\<close>: at level \<open>b\<close> all points share the code bits from \<open>b\<close> up,
  leaves are sorted, interior nodes separate the points by the bit below
  \<open>b\<close> and count them. \<open>dense\<close>: every interior node has more points than a
  leaf may hold.
\<close>

fun mvq_ok :: "nat \<Rightarrow> qtree \<Rightarrow> bool" where
  "mvq_ok b Null = True"
| "mvq_ok b (LeafNode records) \<longleftrightarrow>
     sorted_by pt_key records \<and> (\<forall>p\<in>set records. zcoded p) \<and> same_cell b (set records)"
| "mvq_ok b (InteNode l r n) \<longleftrightarrow>
     1 \<le> b \<and> b \<le> 64 \<and> mvq_ok (b - 1) l \<and> mvq_ok (b - 1) r
     \<and> n = length (collect_records l) + length (collect_records r)
     \<and> same_cell b (set (collect_records l) \<union> set (collect_records r))
     \<and> (\<forall>p\<in>set (collect_records l). bit_clear b p) \<and> (\<forall>p\<in>set (collect_records r). \<not> bit_clear b p)"

fun dense :: "nat \<Rightarrow> qtree \<Rightarrow> bool" where
  "dense leaf_size (InteNode l r n) \<longleftrightarrow> leaf_size < n \<and> dense leaf_size l \<and> dense leaf_size r"
| "dense leaf_size t \<longleftrightarrow> True"

definition batch :: "nat \<Rightarrow> point list \<Rightarrow> bool" where
  "batch b P \<longleftrightarrow> sorted_by pt_key P \<and> (\<forall>p\<in>set P. zcoded p) \<and> same_cell b (set P)"

lemma batch_leaf [simp]: "mvq_ok b (LeafNode P) \<longleftrightarrow> batch b P"
  by (simp add: batch_def)

declare mvq_ok.simps(2) [simp del]

lemma mvq_ok_num_points: "mvq_ok b t \<Longrightarrow> get_num_points t = length (collect_records t)"
  by (cases t) auto

lemma mvq_ok_zcoded: "mvq_ok b t \<Longrightarrow> p \<in> set (collect_records t) \<Longrightarrow> zcoded p"
  by (induction t arbitrary: b) (auto simp: batch_def)

lemma mvq_ok_cell: "mvq_ok b t \<Longrightarrow> same_cell b (set (collect_records t))"
  by (cases t) (auto simp: batch_def)

lemma cell_half:
  assumes "same_cell b S" "1 \<le> b" "b \<le> 64" "\<forall>p\<in>S. zcoded p"
  shows "\<forall>p\<in>S. bit_clear b p \<Longrightarrow> same_cell (b - 1) S"
    and "\<forall>p\<in>S. \<not> bit_clear b p \<Longrightarrow> same_cell (b - 1) S"
  using same_cell_split [OF assms(1,2), of False] same_cell_split [OF assms(1,2), of True]
    bit_clear_code [OF _ assms(2,3)] assms(4) by simp_all

lemma batch_split:
  assumes "batch b P" "1 \<le> b" "b \<le> 64" "s = split_by_bit P 0 (length P) b"
  shows "batch (b - 1) (take s P)" "batch (b - 1) (drop s P)"
    "\<forall>p\<in>set (take s P). bit_clear b p" "\<forall>p\<in>set (drop s P). \<not> bit_clear b p"
    "set (take s P) \<subseteq> set P" "set (drop s P) \<subseteq> set P"
proof -
  have s: "take s P = filter (bit_clear b) P" "drop s P = filter (\<lambda>p. \<not> bit_clear b p) P"
    using split_by_bit_sorted [of P b] assms by (auto simp: batch_def)
  have z: "\<forall>p\<in>set (take s P). zcoded p" "\<forall>p\<in>set (drop s P). zcoded p"
    and clr: "\<forall>p\<in>set (take s P). bit_clear b p" "\<forall>p\<in>set (drop s P). \<not> bit_clear b p"
    and sub: "set (take s P) \<subseteq> set P" "set (drop s P) \<subseteq> set P"
    unfolding s using assms(1) by (auto simp: batch_def)
  have c: "same_cell b (set (take s P))" "same_cell b (set (drop s P))"
    using assms(1) sub same_cell_subset unfolding batch_def by blast+
  have "same_cell (b - 1) (set (take s P))" by (rule cell_half(1) [OF c(1) assms(2,3) z(1) clr(1)])
  moreover have "same_cell (b - 1) (set (drop s P))" by (rule cell_half(2) [OF c(2) assms(2,3) z(2) clr(2)])
  ultimately show "batch (b - 1) (take s P)" "batch (b - 1) (drop s P)"
    using z assms(1) sorted_by_take sorted_by_drop unfolding batch_def by blast+
  show "\<forall>p\<in>set (take s P). bit_clear b p" "\<forall>p\<in>set (drop s P). \<not> bit_clear b p"
    "set (take s P) \<subseteq> set P" "set (drop s P) \<subseteq> set P" by (fact clr sub)+
qed

lemma descend:
  assumes "mvq_ok b (InteNode l r n)" "batch b P" "s = split_by_bit P 0 (length P) b"
    and "same_cell b (set P \<union> set (collect_records (InteNode l r n)))"
  shows "same_cell (b - 1) (set (take s P) \<union> set (collect_records l))"
    and "same_cell (b - 1) (set (drop s P) \<union> set (collect_records r))"
proof -
  have b: "1 \<le> b" "b \<le> 64" using assms(1) by auto
  note sp = batch_split [OF assms(2) b assms(3)]
  have "same_cell b (set (take s P) \<union> set (collect_records l))" "same_cell b (set (drop s P) \<union> set (collect_records r))"
    using sp(5,6) by (auto intro: same_cell_subset [OF assms(4)])
  moreover have "\<forall>p\<in>set (take s P) \<union> set (collect_records l). zcoded p"
    "\<forall>p\<in>set (drop s P) \<union> set (collect_records r). zcoded p"
    using sp(1,2) assms(1) mvq_ok_zcoded by (auto simp: batch_def)
  moreover have "\<forall>p\<in>set (take s P) \<union> set (collect_records l). bit_clear b p"
    "\<forall>p\<in>set (drop s P) \<union> set (collect_records r). \<not> bit_clear b p"
    using sp(3,4) assms(1) by auto
  ultimately show "same_cell (b - 1) (set (take s P) \<union> set (collect_records l))"
    "same_cell (b - 1) (set (drop s P) \<union> set (collect_records r))"
    using cell_half b by blast+
qed

text \<open>Keys of the two halves of a cell are ordered, hence disjoint.\<close>

lemma half_less:
  assumes "same_cell b S" "\<forall>p\<in>S. zcoded p" "1 \<le> b" "b \<le> 64"
    "p \<in> S" "q \<in> S" "bit_clear b p" "\<not> bit_clear b q"
  shows "pt_key p < pt_key q"
  using assms code_less_of_bit [of b p q] bit_clear_code unfolding same_cell_def by blast

lemma mvq_ok_sorted: "mvq_ok b t \<Longrightarrow> sorted_by pt_key (collect_records t)"
proof (induction t arbitrary: b)
  case (InteNode l r n)
  let ?S = "set (collect_records l) \<union> set (collect_records r)"
  have z: "\<forall>p\<in>?S. zcoded p" using InteNode.prems mvq_ok_zcoded by auto
  have "pt_key p \<le> pt_key q" if "p \<in> set (collect_records l)" "q \<in> set (collect_records r)" for p q
    using half_less [of b ?S p q] that InteNode.prems z by auto
  then show ?case using InteNode by (auto simp: sorted_by_append)
qed (simp_all add: batch_def)

section \<open>Building\<close>

lemma build_correct:
  "batch b P \<Longrightarrow> b \<le> 64 \<Longrightarrow>
   mvq_ok b (build leaf_size P b) \<and> dense leaf_size (build leaf_size P b) \<and> collect_records (build leaf_size P b) = P"
proof (induction leaf_size P b rule: build.induct)
  case (1 leaf_size P b)
  show ?case
  proof (cases "b = 0 \<or> length P \<le> leaf_size")
    case True
    then show ?thesis using "1.prems" by (simp add: build.simps create_leaf_def)
  next
    case False
    define s where "s = split_by_bit P 0 (length P) b"
    have b: "1 \<le> b" "b \<le> 64" using False "1.prems" by auto
    note sp = batch_split [OF "1.prems"(1) b s_def]
    define L where "L = (if 0 < s then build leaf_size (take s P) (b - 1) else Null)"
    define R where "R = (if s < length P then build leaf_size (drop s P) (b - 1) else Null)"
    have L: "mvq_ok (b - 1) L \<and> dense leaf_size L \<and> collect_records L = take s P"
      using "1.IH"(1) [OF False s_def] sp(1) b unfolding L_def by auto
    have R: "mvq_ok (b - 1) R \<and> dense leaf_size R \<and> collect_records R = drop s P"
      using "1.IH"(2) [OF False s_def] sp(2) b unfolding R_def by auto
    have lr: "set (take s P) \<union> set (drop s P) = set P"
      by (metis append_take_drop_id set_append)
    have "build leaf_size P b = create_internal L R"
      using False unfolding L_def R_def s_def by (subst build.simps) (simp add: Let_def)
    moreover have "get_num_points L = length (take s P)" "get_num_points R = length (drop s P)"
      using L R mvq_ok_num_points by metis+
    moreover have "length (take s P) + length (drop s P) = length P"
      by (metis append_take_drop_id length_append)
    ultimately show ?thesis
      using L R b sp False lr "1.prems"(1) by (simp add: batch_def del: length_take length_drop)
  qed
qed

section \<open>Insertion\<close>

lemma batch_insert_sorted_node_correct:
  assumes "mvq_ok b t" "dense leaf_size t" "batch b P" "same_cell b (set P \<union> set (collect_records t))" "b \<le> 64"
  shows "mvq_ok b (batch_insert_sorted_node leaf_size t P b)
    \<and> dense leaf_size (batch_insert_sorted_node leaf_size t P b)
    \<and> mset (collect_records (batch_insert_sorted_node leaf_size t P b)) = mset (collect_records t) + mset P"
  using assms
proof (induction t arbitrary: P b)
  case Null
  then show ?case using build_correct by simp
next
  case (LeafNode rs)
  then have m: "batch b (merge_by pt_key rs P)"
    by (auto simp: batch_def sorted_merge_by Un_commute)
  then show ?case using build_correct [OF m] LeafNode.prems by simp
next
  case (InteNode l r n)
  define s where "s = split_by_bit P 0 (length P) b"
  define A where "A = take s P" define B where "B = drop s P"
  have b: "1 \<le> b" "b \<le> 64" using InteNode.prems by auto
  note sp = batch_split [OF InteNode.prems(3) b s_def, folded A_def B_def]
  define l' where "l' = (if 0 < s then batch_insert_sorted_node leaf_size l A (b - 1) else l)"
  define r' where "r' = (if s < length P then batch_insert_sorted_node leaf_size r B (b - 1) else r)"
  note cells = descend [OF InteNode.prems(1,3) s_def InteNode.prems(4), folded A_def B_def]
  from cells(1) have L: "mvq_ok (b - 1) l' \<and> dense leaf_size l' \<and> mset (collect_records l') = mset (collect_records l) + mset A"
    using InteNode.IH(1) [of "b - 1" A] InteNode.prems(1,2) sp(1) b unfolding l'_def A_def by auto
  from cells(2) have R: "mvq_ok (b - 1) r' \<and> dense leaf_size r' \<and> mset (collect_records r') = mset (collect_records r) + mset B"
    using InteNode.IH(2) [of "b - 1" B] InteNode.prems(1,2) sp(2) b unfolding r'_def B_def by auto
  have AB: "mset A + mset B = mset P"
    unfolding A_def B_def by (metis append_take_drop_id mset_append)
  have sets: "set (collect_records l') = set (collect_records l) \<union> set A"
    "set (collect_records r') = set (collect_records r) \<union> set B"
    using L R by (metis set_mset_mset set_mset_union)+
  have lens: "length (collect_records l') = length (collect_records l) + length A"
    "length (collect_records r') = length (collect_records r) + length B"
    using L R by (metis size_mset size_union)+
  have res: "batch_insert_sorted_node leaf_size (InteNode l r n) P b = delete_merge_nodes l' r'"
    by (simp add: l'_def r'_def A_def B_def s_def Let_def)
  have nums: "get_num_points l' = length (collect_records l')" "get_num_points r' = length (collect_records r')"
    using L R mvq_ok_num_points by blast+
  have "same_cell b (set (collect_records l') \<union> set (collect_records r'))"
    unfolding sets using sp(5,6) by (auto intro!: same_cell_subset [OF InteNode.prems(4)])
  then show ?case
    using L R b sp AB InteNode.prems(1,2) unfolding res
    by (auto simp: nums sets lens add.assoc add.left_commute simp del: batch_insert_sorted_node.simps)
qed

section \<open>Deletion\<close>

lemma minus_halves:
  assumes "set_mset A \<inter> set_mset D = {}" "set_mset C \<inter> set_mset B = {}"
  shows "(A + C) - (B + D) = (A - B) + (C - D :: 'k multiset)"
proof (rule multiset_eqI)
  fix x
  have "count A x = 0 \<or> count D x = 0" "count C x = 0 \<or> count B x = 0"
    using assms by (auto simp: count_eq_zero_iff)
  then show "count ((A + C) - (B + D)) x = count ((A - B) + (C - D)) x" by auto
qed

text \<open>The keys of one half of a cell are disjoint from those of the other.\<close>

lemma descend_keys:
  assumes "mvq_ok b (InteNode l r n)" "batch b P" "s = split_by_bit P 0 (length P) b"
    and "same_cell b (set P \<union> set (collect_records (InteNode l r n)))"
  shows "keys_of pt_key (collect_records (InteNode l r n)) - keys_of pt_key P =
      (keys_of pt_key (collect_records l) - keys_of pt_key (take s P)) +
      (keys_of pt_key (collect_records r) - keys_of pt_key (drop s P))"
proof -
  have b: "1 \<le> b" "b \<le> 64" using assms(1) by auto
  note sp = batch_split [OF assms(2) b assms(3)]
  let ?S = "set P \<union> set (collect_records (InteNode l r n))"
  have z: "\<forall>p\<in>?S. zcoded p" using assms(1,2) mvq_ok_zcoded by (auto simp: batch_def)
  have lt: "pt_key p < pt_key q" if "p \<in> ?S" "q \<in> ?S" "bit_clear b p" "\<not> bit_clear b q" for p q
    by (rule half_less [OF assms(4) z b that])
  have "pt_key p \<noteq> pt_key q" if "p \<in> set (collect_records l)" "q \<in> set (drop s P)" for p q
    using lt [of p q] that sp(4,6) assms(1) by fastforce
  then have "set_mset (keys_of pt_key (collect_records l)) \<inter> set_mset (keys_of pt_key (drop s P)) = {}"
    by (fastforce simp: disjoint_iff)
  moreover have "pt_key q \<noteq> pt_key p" if "p \<in> set (take s P)" "q \<in> set (collect_records r)" for p q
    using lt [of p q] that sp(3,5) assms(1) by fastforce
  then have "set_mset (keys_of pt_key (collect_records r)) \<inter> set_mset (keys_of pt_key (take s P)) = {}"
    by (fastforce simp: disjoint_iff)
  moreover have "keys_of pt_key P = keys_of pt_key (take s P) + keys_of pt_key (drop s P)"
    by (metis append_take_drop_id keys_of_simps(3))
  ultimately show ?thesis by (simp only: collect_records.simps keys_of_simps(3) minus_halves)
qed

lemma delete_collapse_correct:
  assumes "mvq_ok (b - 1) l" "mvq_ok (b - 1) r" "dense leaf_size l" "dense leaf_size r" "1 \<le> b" "b \<le> 64"
    and "same_cell b (set (collect_records l) \<union> set (collect_records r))"
    and "\<forall>p\<in>set (collect_records l). bit_clear b p" "\<forall>p\<in>set (collect_records r). \<not> bit_clear b p"
  shows "\<exists>t. delete_collapse leaf_size l r = Some t \<and> mvq_ok b t \<and> dense leaf_size t
    \<and> mset (collect_records t) = mset (collect_records l) + mset (collect_records r)"
proof -
  have up: "mvq_ok b t" if "mvq_ok (b - 1) t" "dense leaf_size t" "get_num_points t \<le> leaf_size"
    "same_cell b (set (collect_records t))" for t
    using that by (cases t) (auto simp: batch_def)
  have n: "get_num_points l = length (collect_records l)" "get_num_points r = length (collect_records r)"
    using assms(1,2) mvq_ok_num_points by blast+
  consider (nn) "l = Null" "r = Null" | (ln) "l = Null" "r \<noteq> Null" | (rn) "l \<noteq> Null" "r = Null"
    | (small) "l \<noteq> Null" "r \<noteq> Null" "get_num_points l + get_num_points r \<le> leaf_size"
    | (large) "l \<noteq> Null" "r \<noteq> Null" "\<not> get_num_points l + get_num_points r \<le> leaf_size" by blast
  then show ?thesis
  proof cases
    case nn then show ?thesis by (simp add: delete_collapse_def)
  next
    case ln
    then show ?thesis using assms n up [of r] by (simp add: delete_collapse_def)
  next
    case rn
    then show ?thesis using assms n up [of l] by (simp add: delete_collapse_def)
  next
    case small
    then obtain L R where lr: "l = LeafNode L" "r = LeafNode R"
      using assms(3,4) by (cases l; cases r) auto
    have "\<forall>p\<in>set L \<union> set R. zcoded p" using assms(1,2) lr by (auto simp: batch_def)
    then have "pt_key p < pt_key q" if "p \<in> set L" "q \<in> set R" for p q
      using half_less [of b "set L \<union> set R" p q] assms lr that by auto
    then have "batch b (merge_by pt_key L R)"
      using assms lr by (auto simp: batch_def sorted_merge_by)
    then show ?thesis using small lr by (simp add: delete_collapse_def create_leaf_def)
  next
    case large
    then show ?thesis using assms n by (auto simp: delete_collapse_def)
  qed
qed

lemma mv_delete_node_correct:
  assumes "mvq_ok b t" "dense leaf_size t" "batch b P" "same_cell b (set P \<union> set (collect_records t))" "b \<le> 64"
  shows "\<exists>t'. mv_delete_node leaf_size t P b = Some t' \<and> mvq_ok b t' \<and> dense leaf_size t'
    \<and> set (collect_records t') \<subseteq> set (collect_records t)
    \<and> keys_of pt_key (collect_records t') = keys_of pt_key (collect_records t) - keys_of pt_key P"
  using assms
proof (induction t arbitrary: P b)
  case Null
  then show ?case by simp
next
  case (LeafNode rs)
  define rs' where "rs' = get_delete_p_all rs P 0 (length P)"
  have e: "rs' = diff_by pt_key pt_key rs P" by (simp add: rs'_def get_delete_p_all_eq)
  have "sorted_by pt_key rs" "sorted_by pt_key P" using LeafNode.prems by (auto simp: batch_def)
  then have k: "keys_of pt_key rs' = keys_of pt_key rs - keys_of pt_key P" "sorted_by pt_key rs'"
    unfolding e by (auto simp: keys_diff_by sorted_diff_by)
  have "set rs' \<subseteq> set rs" unfolding e by (rule set_diff_by)
  moreover from this have "batch b rs'"
    using LeafNode.prems(1) k(2) same_cell_subset by (auto simp: batch_def)
  moreover have "keys_of pt_key rs - keys_of pt_key P = {#}" if "rs' = []" using k that by simp
  ultimately show ?case using k(1) by (simp add: rs'_def [symmetric] Let_def)
next
  case (InteNode l r n)
  define s where "s = split_by_bit P 0 (length P) b"
  define A where "A = take s P" define B where "B = drop s P"
  have b: "1 \<le> b" "b \<le> 64" "b - 1 \<le> 64" using InteNode.prems by auto
  note sp = batch_split [OF InteNode.prems(3) b(1,2) s_def, folded A_def B_def]
  note cells = descend [OF InteNode.prems(1,3) s_def InteNode.prems(4), folded A_def B_def]
  note keys = descend_keys [OF InteNode.prems(1,3) s_def InteNode.prems(4), folded A_def B_def]
  obtain l' where l': "(if 0 < s then mv_delete_node leaf_size l A (b - 1) else Some l) = Some l'"
    and L: "mvq_ok (b - 1) l'" "dense leaf_size l'" "set (collect_records l') \<subseteq> set (collect_records l)"
      "keys_of pt_key (collect_records l') = keys_of pt_key (collect_records l) - keys_of pt_key A"
    using InteNode.IH(1) [of "b - 1" A] InteNode.prems(1,2) sp(1) cells(1) b
    by (cases "0 < s") (auto simp: A_def)
  obtain r' where r': "(if s < length P then mv_delete_node leaf_size r B (b - 1) else Some r) = Some r'"
    and R: "mvq_ok (b - 1) r'" "dense leaf_size r'" "set (collect_records r') \<subseteq> set (collect_records r)"
      "keys_of pt_key (collect_records r') = keys_of pt_key (collect_records r) - keys_of pt_key B"
    using InteNode.IH(2) [of "b - 1" B] InteNode.prems(1,2) sp(2) cells(2) b
    by (cases "s < length P") (auto simp: B_def)
  have "same_cell b (set (collect_records l') \<union> set (collect_records r'))"
    using L(3) R(3) by (auto intro!: same_cell_subset [OF InteNode.prems(4)])
  moreover have "\<forall>p\<in>set (collect_records l'). bit_clear b p" "\<forall>p\<in>set (collect_records r'). \<not> bit_clear b p"
    using L(3) R(3) InteNode.prems(1) by auto
  ultimately obtain t' where t': "delete_collapse leaf_size l' r' = Some t'" "mvq_ok b t'" "dense leaf_size t'"
    "mset (collect_records t') = mset (collect_records l') + mset (collect_records r')"
    using delete_collapse_correct [OF L(1) R(1) L(2) R(2) b(1,2)] by blast
  have "mv_delete_node leaf_size (InteNode l r n) P b = Some t'"
    by (simp only: mv_delete_node.simps Let_def s_def [symmetric] A_def [symmetric] B_def [symmetric]
        l' r' option.case t'(1))
  moreover have "keys_of pt_key (collect_records t') = keys_of pt_key (collect_records (InteNode l r n)) - keys_of pt_key P"
    unfolding keys L(4) [symmetric] R(4) [symmetric] using t'(4) by (simp add: keys_of_def)
  moreover have "set (collect_records t') = set (collect_records l') \<union> set (collect_records r')"
    using t'(4) by (metis set_mset_mset set_mset_union)
  ultimately show ?case using t' L(3) R(3) by auto
qed

lemma batch_delete_sorted_node_correct:
  assumes "mvq_ok b t" "batch b P" "same_cell b (set P \<union> set (collect_records t))" "b \<le> 64"
  shows "\<exists>t'. batch_delete_sorted_node t P b = Some t' \<and> mvq_ok b t'
    \<and> set (collect_records t') \<subseteq> set (collect_records t)
    \<and> keys_of pt_key (collect_records t') = keys_of pt_key (collect_records t) - keys_of pt_key P"
  using assms
proof (induction t arbitrary: P b)
  case Null
  then show ?case by simp
next
  case (LeafNode rs)
  have e: "batch_delete_sorted_node (LeafNode rs) P b = Some (LeafNode (diff_by pt_key pt_key rs P))"
    by (simp add: merge_pts_pair_eq)
  have "sorted_by pt_key rs" "sorted_by pt_key P" using LeafNode.prems by (auto simp: batch_def)
  moreover have "set (diff_by pt_key pt_key rs P) \<subseteq> set rs" by (rule set_diff_by)
  ultimately show ?case unfolding e using LeafNode.prems(1) same_cell_subset
    by (auto simp: batch_def keys_diff_by sorted_diff_by)
next
  case (InteNode l r n)
  define s where "s = split_by_bit P 0 (length P) b"
  define A where "A = take s P" define B where "B = drop s P"
  have b: "1 \<le> b" "b \<le> 64" "b - 1 \<le> 64" using InteNode.prems by auto
  note sp = batch_split [OF InteNode.prems(2) b(1,2) s_def, folded A_def B_def]
  note cells = descend [OF InteNode.prems(1,2) s_def InteNode.prems(3), folded A_def B_def]
  note keys = descend_keys [OF InteNode.prems(1,2) s_def InteNode.prems(3), folded A_def B_def]
  obtain l' where l': "(if 0 < s then batch_delete_sorted_node l A (b - 1) else Some l) = Some l'"
    and L: "mvq_ok (b - 1) l'" "set (collect_records l') \<subseteq> set (collect_records l)"
      "keys_of pt_key (collect_records l') = keys_of pt_key (collect_records l) - keys_of pt_key A"
    using InteNode.IH(1) [of "b - 1" A] InteNode.prems(1) sp(1) cells(1) b by (cases "0 < s") (auto simp: A_def)
  obtain r' where r': "(if s < length P then batch_delete_sorted_node r B (b - 1) else Some r) = Some r'"
    and R: "mvq_ok (b - 1) r'" "set (collect_records r') \<subseteq> set (collect_records r)"
      "keys_of pt_key (collect_records r') = keys_of pt_key (collect_records r) - keys_of pt_key B"
    using InteNode.IH(2) [of "b - 1" B] InteNode.prems(1) sp(2) cells(2) b by (cases "s < length P") (auto simp: B_def)
  have res: "batch_delete_sorted_node (InteNode l r n) P b = Some (delete_merge_nodes l' r')"
    by (simp only: batch_delete_sorted_node.simps Let_def s_def [symmetric] A_def [symmetric] B_def [symmetric]
        l' r' Option.bind.simps)
  have nums: "get_num_points l' = length (collect_records l')" "get_num_points r' = length (collect_records r')"
    using L R mvq_ok_num_points by blast+
  have "same_cell b (set (collect_records l') \<union> set (collect_records r'))"
    using L(2) R(2) by (auto intro!: same_cell_subset [OF InteNode.prems(3)])
  moreover have "keys_of pt_key (collect_records l' @ collect_records r') =
      keys_of pt_key (collect_records (InteNode l r n)) - keys_of pt_key P"
    unfolding keys L(3) [symmetric] R(3) [symmetric] by simp
  ultimately show ?case
    using L R b InteNode.prems(1) nums unfolding res by (auto simp del: batch_delete_sorted_node.simps)
qed

section \<open>The operations on the root\<close>

text \<open>
  C11. Building from Morton-sorted points gives a tree that satisfies the
  invariant, whose interior nodes all have more points than a leaf may hold, and
  whose traversal returns exactly the given sequence.
\<close>

theorem build_root_correct:
  assumes "P \<noteq> []" "sorted_by pt_key P" "\<forall>p\<in>set P. zcoded p"
  shows "mvq_ok 64 (build_root leaf_size rt P) \<and> dense leaf_size (build_root leaf_size rt P)
    \<and> collect_records (build_root leaf_size rt P) = P"
  using build_correct [of 64 P leaf_size] assms by (simp add: build_root_def batch_def)

theorem build_root_correct_witness:
  "collect_records (build_root 1 Null [set_code (\<lambda>_. 0) False (Point3 1 1 1), set_code (\<lambda>_. 0) False (Point3 2 1 1)])
     = [set_code (\<lambda>_. 0) False (Point3 1 1 1), set_code (\<lambda>_. 0) False (Point3 2 1 1)]"
proof -
  let ?P = "[set_code (\<lambda>_. 0) False (Point3 1 1 1), set_code (\<lambda>_. 0) False (Point3 2 1 1)]"
  have "interleave_bits (Point3 1 1 1) = interleave_bits (Point3 2 1 1)" by (simp add: interleave_bits_def)
  then have "pt_key (?P ! 0) \<le> pt_key (?P ! 1)"
    by (simp add: pt_key_def set_code_def Point3_def)
  then have "sorted_by pt_key ?P" by (simp add: sorted_by_Cons)
  moreover have "\<forall>p\<in>set ?P. zcoded p" by simp
  moreover have "?P \<noteq> []" by simp
  ultimately show ?thesis using build_root_correct [of ?P 1 Null] by blast
qed

text \<open>
  C12. The in-place batch updates of the root: insertion keeps the invariant and
  adds exactly the batch; deletion never overruns a buffer, keeps the invariant, removes as many points of
  every key as the batch has, and adds nothing.
\<close>

theorem in_place_updates_correct:
  assumes "mvq_ok 64 t" "dense leaf_size t" "sorted_by pt_key P" "\<forall>p\<in>set P. zcoded p"
  shows "mvq_ok 64 (batch_insert_sorted leaf_size t P) \<and> dense leaf_size (batch_insert_sorted leaf_size t P)
    \<and> mset (collect_records (batch_insert_sorted leaf_size t P)) = mset (collect_records t) + mset P
    \<and> (\<exists>t'. batch_delete_sorted t P = Some t' \<and> mvq_ok 64 t'
      \<and> keys_of pt_key (collect_records t') = keys_of pt_key (collect_records t) - keys_of pt_key P
      \<and> set (collect_records t') \<subseteq> set (collect_records t))"
proof -
  have b: "batch 64 P" using assms by (simp add: batch_def)
  have "mvq_ok 64 (batch_insert_sorted leaf_size t P) \<and> dense leaf_size (batch_insert_sorted leaf_size t P)
    \<and> mset (collect_records (batch_insert_sorted leaf_size t P)) = mset (collect_records t) + mset P"
  proof -
    consider "P = []" | "P \<noteq> []" "t = Null" | "P \<noteq> []" "t \<noteq> Null" by blast
    then show ?thesis
    proof cases
      case 1 then show ?thesis using assms(1,2) by (simp add: batch_insert_sorted_def)
    next
      case 2 then show ?thesis
        using build_correct [OF b, of leaf_size] by (simp add: batch_insert_sorted_def build_root_def)
    next
      case 3 then show ?thesis
        using batch_insert_sorted_node_correct [OF assms(1,2) b] by (simp add: batch_insert_sorted_def)
    qed
  qed
  moreover have "\<exists>t'. batch_delete_sorted t P = Some t' \<and> mvq_ok 64 t'
      \<and> keys_of pt_key (collect_records t') = keys_of pt_key (collect_records t) - keys_of pt_key P
      \<and> set (collect_records t') \<subseteq> set (collect_records t)"
    using batch_delete_sorted_node_correct [OF assms(1) b] assms(1)
    by (cases "P = [] \<or> t = Null") (auto simp: batch_delete_sorted_def)
  ultimately show ?thesis by blast
qed

theorem in_place_updates_correct_witness:
  "\<exists>t'. batch_delete_sorted (batch_insert_sorted 2 Null [set_code (\<lambda>_. 0) False (Point3 1 1 1)])
      [set_code (\<lambda>_. 0) False (Point3 1 1 1)] = Some t' \<and> collect_records t' = []"
proof -
  let ?P = "[set_code (\<lambda>_. 0) False (Point3 1 1 1)]"
  have P: "sorted_by pt_key ?P" "\<forall>p\<in>set ?P. zcoded p" by (simp_all add: sorted_by_Cons)
  have i: "mvq_ok 64 (batch_insert_sorted 2 Null ?P) \<and> dense 2 (batch_insert_sorted 2 Null ?P)
      \<and> mset (collect_records (batch_insert_sorted 2 Null ?P)) = mset ?P"
    using in_place_updates_correct [of Null 2 ?P] P by simp
  then have k: "keys_of pt_key (collect_records (batch_insert_sorted 2 Null ?P)) = keys_of pt_key ?P"
    by (blast intro: keys_of_mset_cong)
  obtain t' where "batch_delete_sorted (batch_insert_sorted 2 Null ?P) ?P = Some t'" "keys_of pt_key (collect_records t') = {#}"
    using in_place_updates_correct [of "batch_insert_sorted 2 Null ?P" 2 ?P] i P
    unfolding k diff_cancel by blast
  then show ?thesis by (auto simp: keys_of_def)
qed

section \<open>Collecting into a buffer\<close>

fun leftmost :: "qtree \<Rightarrow> point list" where
  "leftmost Null = []"
| "leftmost (LeafNode records) = records"
| "leftmost (InteNode l_son r_son num_pts) = leftmost l_son"

lemma write_at_eq:
  "cnt + length ps \<le> length out \<Longrightarrow>
   write_at ps out cnt = Some (take cnt out @ ps @ drop (cnt + length ps) out, cnt + length ps)"
proof (induction ps out cnt rule: write_at.induct)
  case (2 p ps out cnt)
  have "take (cnt + 1) (out[cnt := p]) = take cnt out @ [p]"
    using "2.prems" by (simp add: take_Suc_conv_app_nth)
  moreover have "drop (cnt + 1 + length ps) (out[cnt := p]) = drop (cnt + length (p # ps)) out"
    by (simp add: drop_update_cancel)
  ultimately show ?case using 2 by simp
qed simp

text \<open>
  C29. \<open>collect_records\<close> into a buffer with enough room writes the records of
  the whole subtree from the given position on and leaves the rest of the buffer
  alone, but the position it hands back has only advanced past the leftmost leaf: a
  caller that goes on writing there overwrites what the right branches wrote.
\<close>

theorem collect_records_out_correct:
  assumes "mvq_ok b t" "cnt + length (collect_records t) \<le> length out"
  shows "collect_records_out t out cnt = Some
    (take cnt out @ collect_records t @ drop (cnt + length (collect_records t)) out,
     cnt + length (leftmost t))"
  using assms
proof (induction t arbitrary: b out cnt)
  case (InteNode l r n)
  have ok: "mvq_ok (b - 1) l" "mvq_ok (b - 1) r" using InteNode.prems(1) by auto
  let ?L = "collect_records l" and ?R = "collect_records r"
  have nl: "(if l \<noteq> Null then get_num_points l else 0) = length ?L"
    using mvq_ok_num_points [OF ok(1)] by auto
  let ?out1 = "take cnt out @ ?L @ drop (cnt + length ?L) out"
  have "collect_records_out l out cnt = Some (?out1, cnt + length (leftmost l))"
    using InteNode.IH(1) [OF ok(1)] InteNode.prems(2) by simp
  moreover have "collect_records_out r ?out1 (cnt + length ?L) = Some
      (take (cnt + length ?L) ?out1 @ ?R @ drop (cnt + length ?L + length ?R) ?out1,
       cnt + length ?L + length (leftmost r))"
    using InteNode.IH(2) [OF ok(2), of "cnt + length ?L" ?out1] InteNode.prems(2) by simp
  moreover have len: "length (take cnt out @ ?L) = cnt + length ?L" using InteNode.prems(2) by simp
  have "take (length xs) (xs @ ys) = xs" for xs ys :: "point list" by simp
  then have "take (cnt + length ?L) ?out1 = take cnt out @ ?L"
    unfolding len [symmetric] append_assoc [symmetric] .
  moreover have "drop (cnt + length ?L + length ?R) ?out1 = drop (cnt + length ?L + length ?R) out"
  proof -
    have "drop (length xs + n) (xs @ ys) = drop n ys" for xs ys :: "point list" and n by simp
    from this [of "take cnt out @ ?L" "length ?R" "drop (cnt + length ?L) out"] show ?thesis
      unfolding len append_assoc by (simp add: add.commute)
  qed
  ultimately show ?case using nl by (simp add: Let_def add.assoc)
qed (simp_all add: write_at_eq)

theorem collect_records_out_correct_witness:
  "collect_records_out (LeafNode [set_code (\<lambda>_. 0) False (Point3 1 1 1)]) [Point3 0 0 0, Point3 0 0 0] 1
     = Some ([Point3 0 0 0, set_code (\<lambda>_. 0) False (Point3 1 1 1)], 2)"
  using collect_records_out_correct [of 64 "LeafNode [set_code (\<lambda>_. 0) False (Point3 1 1 1)]" 1 "[Point3 0 0 0, Point3 0 0 0]"]
  by (simp add: batch_def sorted_by_Cons)

end
