(* ===== verification/MvqQuery.thy ===== *)
theory MvqQuery
  imports MvqTree GeoBox
begin

text \<open>
  The searches of \<open>mvq.hpp\<close> that carry a box down the quadtree: range count,
  range report and the boxed \<open>collect_records\<close>, with the invariant that relates
  the box and the coordinate prefixes to the points below a node. The nearest-neighbour
  search is in \<open>MvqKnn\<close>.
\<close>

section \<open>Boxes of the descent\<close>

text \<open>
  Coordinates the descent is sound for: doubles in the range of the cast to
  \<open>unsigned int\<close>, except the doubles strictly between \<open>1 - FT_EPS\<close> and 1
  (there is one), which \<open>compute_cur_box\<close> leaves out of the left box.
\<close>

definition safe_coord :: "FT \<Rightarrow> bool" where
  "safe_coord x \<longleftrightarrow> is_double x \<and> in_range x \<and> \<not> (1 - FT_EPS < x \<and> x < 1)"

definition safe_point :: "point \<Rightarrow> bool" where
  "safe_point p \<longleftrightarrow> safe_coord (pt_x p) \<and> safe_coord (pt_y p)"

lemma below_split:
  assumes "safe_coord x" "x < of_int v" "1 \<le> v"
  shows "x \<le> fsub (of_int v) FT_EPS"
proof -
  have d: "is_double x" using assms by (simp add: safe_coord_def)
  have "x \<le> of_int v - FT_EPS"
  proof (cases "x < 1")
    case True
    then have "x \<le> 1 - FT_EPS" using assms(1) by (simp add: safe_coord_def)
    moreover have "(1 :: rat) \<le> of_int v" using assms(3) by simp
    ultimately show ?thesis by linarith
  next
    case False
    then obtain k where "x = of_int k * pow2 (0 - 52)" using is_double_grid [OF d, of 0] by auto
    then show ?thesis using grid_gap [of x k 52 v] assms(2) by (simp add: FT_EPS_def)
  qed
  then have "rnd64 x \<le> rnd64 (of_int v - FT_EPS)" by (rule b64.mono)
  then show ?thesis using d by (simp add: fsub_def is_double_def)
qed

text \<open>Bit \<open>k\<close> of a number in an aligned interval tells the half it is in.\<close>

lemma half_bit:
  fixes n X :: int
  assumes "2 ^ Suc k dvd X" "X \<le> n" "n < X + 2 ^ Suc k"
  shows "bit n k \<longleftrightarrow> X + 2 ^ k \<le> n"
proof -
  obtain m where m: "X = 2 ^ Suc k * m" using assms(1) by (elim dvdE)
  define r where "r = n - X"
  have r: "n = 2 * m * 2 ^ k + r" "0 \<le> r" "r < 2 * 2 ^ k" using assms m by (auto simp: r_def)
  have d: "n div 2 ^ k = 2 * m + r div 2 ^ k" unfolding r(1) by (rule div_mult_self3) simp
  have "r div 2 ^ k = (if 2 ^ k \<le> r then 1 else 0)"
  proof (cases "2 ^ k \<le> r")
    case True
    then have "r div 2 ^ k = (r - 2 ^ k) div 2 ^ k + 1" by (simp add: div_pos_geq)
    also have "(r - 2 ^ k) div 2 ^ k = 0" using r True by (intro div_pos_pos_trivial) linarith+
    finally show ?thesis using True by simp
  next
    case False
    then show ?thesis using r(2) by simp
  qed
  then have "bit n k \<longleftrightarrow> 2 ^ k \<le> r" unfolding bit_iff_odd d by simp
  then show ?thesis by (simp only: r_def le_diff_eq add.commute)
qed

lemma cast_bit:
  assumes "in_range x" "k < 32" "2 ^ Suc k dvd X" "of_int X \<le> x" "x < of_int (X + 2 ^ Suc k)"
  shows "bit (cast_u32 x) k \<longleftrightarrow> of_int (X + 2 ^ k) \<le> x"
proof -
  have "bit (cast_u32 x) k \<longleftrightarrow> bit \<lfloor>x\<rfloor> k"
    using uint_cast_u32 [OF assms(1)] bit_uint_iff [of "cast_u32 x" k] assms(2) by simp
  also have "\<dots> \<longleftrightarrow> X + 2 ^ k \<le> \<lfloor>x\<rfloor>"
    by (rule half_bit) (use assms in \<open>auto simp: le_floor_iff floor_less_iff\<close>)
  finally show ?thesis by (simp only: le_floor_iff)
qed

lemma bit_clear_x: "even b \<Longrightarrow> bit_clear b p \<longleftrightarrow> \<not> bit (cast_u32 (pt_x p)) ((b - 1) div 2)"
  unfolding bit_clear_def Let_def by (simp add: bit_iff_and_push_bit_not_eq_0 even_iff_mod_2_eq_zero)

lemma bit_clear_y: "odd b \<Longrightarrow> bit_clear b p \<longleftrightarrow> \<not> bit (cast_u32 (pt_y p)) ((b - 1) div 2)"
  unfolding bit_clear_def Let_def by (simp add: bit_iff_and_push_bit_not_eq_0 odd_iff_mod_2_eq_one)

text \<open>
  \<open>frame b xs xp yp box S\<close>: the prefixes are the lower corner of the aligned
  cell of level \<open>b\<close>, the splitter is the one of the level, and the points
  \<open>S\<close> lie in the cell and in the box.
\<close>

definition aligned :: "nat \<Rightarrow> FT \<Rightarrow> bool" where
  "aligned k c \<longleftrightarrow> (\<exists>X. c = of_int X \<and> 0 \<le> X \<and> 2 ^ k dvd X \<and> X + 2 ^ k \<le> 2 ^ 32)"

definition slab :: "nat \<Rightarrow> FT \<Rightarrow> FT \<Rightarrow> bool" where
  "slab k c x \<longleftrightarrow> c \<le> x \<and> x < c + 2 ^ k"

definition frame :: "nat \<Rightarrow> bool \<Rightarrow> FT \<Rightarrow> FT \<Rightarrow> Bounding_Box \<Rightarrow> point set \<Rightarrow> bool" where
  "frame b xs xp yp box S \<longleftrightarrow>
     xs = even b \<and> aligned (b div 2) xp \<and> aligned ((b + 1) div 2) yp \<and>
     (\<forall>p\<in>S. safe_point p \<and> slab (b div 2) xp (pt_x p) \<and> slab ((b + 1) div 2) yp (pt_y p) \<and> point_in_mbr p box)"

lemma split_value_eq:
  assumes "k < 32"
  shows "fmul 1 (of_int (uint (push_bit k (1 :: 32 word)))) = 2 ^ k"
proof -
  have "(2::int) ^ k < 2 ^ 32" by (rule power_strict_increasing [OF assms]) simp
  then have "uint (push_bit k (1 :: 32 word)) = 2 ^ k"
    using assms uint_2p [of k, where 'a = 32] by (simp add: word_gt_0 exp_eq_zero_iff)
  moreover have "rnd64 (of_int (2 ^ k)) = of_int (2 ^ k)"
    by (rule rnd64_of_int) (use \<open>2 ^ k < 2 ^ 32\<close> in simp)
  ultimately show ?thesis by (simp add: fmul_def)
qed

lemma aligned_half:
  assumes "aligned (Suc k) c" "k < 32"
  shows "aligned k c" "fadd c (2 ^ k) = c + 2 ^ k" "aligned k (c + 2 ^ k)"
proof -
  obtain X where X: "c = of_int X" "0 \<le> X" "2 ^ Suc k dvd X" "X + 2 ^ Suc k \<le> 2 ^ 32"
    using assms(1) by (auto simp: aligned_def)
  have "(2 :: int) ^ k dvd X" using X(3) by (meson dvd_trans le_SucI le_imp_power_dvd order_refl)
  moreover have "X + 2 ^ k \<le> 2 ^ 32"
    using X(4) zero_le_power [of "2 :: int" k] unfolding power_Suc by linarith
  ultimately show "aligned k c" "aligned k (c + 2 ^ k)"
    using X unfolding aligned_def by (auto intro: exI [of _ X] exI [of _ "X + 2 ^ k"])
  show "fadd c (2 ^ k) = c + 2 ^ k"
    using fadd_of_int [of X "2 ^ k"] X \<open>X + 2 ^ k \<le> 2 ^ 32\<close> by simp
qed

lemma slab_half:
  assumes "aligned (Suc k) c" "k < 32" "slab (Suc k) c x" "safe_coord x"
  shows "\<not> bit (cast_u32 x) k \<Longrightarrow> slab k c x \<and> x \<le> fsub (fadd c (2 ^ k)) FT_EPS"
    and "bit (cast_u32 x) k \<Longrightarrow> slab k (c + 2 ^ k) x \<and> fadd c (2 ^ k) \<le> x"
proof -
  obtain X where X: "c = of_int X" "0 \<le> X" "2 ^ Suc k dvd X" "X + 2 ^ Suc k \<le> 2 ^ 32"
    using assms(1) by (auto simp: aligned_def)
  have e: "c + 2 ^ k = of_int (X + 2 ^ k)" "c + 2 ^ Suc k = of_int (X + 2 ^ Suc k)" using X(1) by simp_all
  have b: "bit (cast_u32 x) k \<longleftrightarrow> c + 2 ^ k \<le> x"
    unfolding e by (rule cast_bit) (use assms X e in \<open>auto simp: slab_def safe_coord_def\<close>)
  note fa = aligned_half(2) [OF assms(1,2)]
  show "slab k c x \<and> x \<le> fsub (fadd c (2 ^ k)) FT_EPS" if "\<not> bit (cast_u32 x) k"
  proof -
    have lt: "x < of_int (X + 2 ^ k)" using that b e(1) by simp
    have "1 \<le> X + 2 ^ k" using X(2) by (metis add_increasing one_le_numeral one_le_power)
    from below_split [OF assms(4) lt this] show ?thesis
      using assms(3) lt unfolding fa e(1) [symmetric] by (simp add: slab_def)
  qed
  show "slab k (c + 2 ^ k) x \<and> fadd c (2 ^ k) \<le> x" if "bit (cast_u32 x) k"
    using that b assms(3) unfolding fa by (simp add: slab_def)
qed

lemma frame_subset: "frame b xs xp yp box S \<Longrightarrow> T \<subseteq> S \<Longrightarrow> frame b xs xp yp box T"
  by (auto simp: frame_def)

lemma frame_in_box: "frame b xs xp yp box S \<Longrightarrow> p \<in> S \<Longrightarrow> point_in_mbr p box"
  by (simp add: frame_def)

text \<open>The two boxes and prefixes computed for the sons frame the points of the sons.\<close>

lemma frame_sons:
  assumes f: "frame b xs xp yp box (S \<union> T)" and b: "1 \<le> b" "b \<le> 64"
    and S: "\<forall>p\<in>S. bit_clear b p" and T: "\<forall>p\<in>T. \<not> bit_clear b p"
    and c: "compute_cur_box box xp yp b xs = (LB, RB, rx, ry)"
  shows "frame (b - 1) (\<not> xs) xp yp LB S" "frame (b - 1) (\<not> xs) rx ry RB T"
proof -
  define k where "k = (b - 1) div 2"
  have k: "k < 32" "(b + 1) div 2 - 1 = k" using b by (auto simp: k_def)
  note sv = split_value_eq [OF k(1)]
  have ev: "xs = even b" using f by (simp add: frame_def)
  note c' = c [unfolded compute_cur_box_def Let_def k(2) sv]
  have "frame (b - 1) (\<not> xs) xp yp LB S \<and> frame (b - 1) (\<not> xs) rx ry RB T"
  proof (cases xs)
    case True
    then have d: "b div 2 = Suc k" "(b - 1) div 2 = k" "(b + 1) div 2 = Suc k" "(b - 1 + 1) div 2 = Suc k"
      using ev b by (auto simp: k_def elim!: evenE)
    have al: "aligned (Suc k) xp" "aligned (Suc k) yp" using f d by (auto simp: frame_def)
    have box: "LB = (fst box, (snd box)\<lparr>pt_x := min (fsub (fadd xp (2 ^ k)) FT_EPS) (pt_x (snd box))\<rparr>)"
      "RB = ((fst box)\<lparr>pt_x := max (fadd xp (2 ^ k)) (pt_x (fst box))\<rparr>, snd box)"
      "rx = xp + 2 ^ k" "ry = yp"
      using c' True by (auto simp: aligned_half(2) [OF al(1) k(1)])
    have "slab k xp (pt_x p) \<and> pt_x p \<le> fsub (fadd xp (2 ^ k)) FT_EPS" if "p \<in> S" for p
      using slab_half(1) [OF al(1) k(1), of "pt_x p"] f that S d bit_clear_x [of b p] ev True
      by (auto simp: frame_def safe_point_def k_def)
    moreover have "slab k (xp + 2 ^ k) (pt_x p) \<and> fadd xp (2 ^ k) \<le> pt_x p" if "p \<in> T" for p
      using slab_half(2) [OF al(1) k(1), of "pt_x p"] f that T d bit_clear_x [of b p] ev True
      by (auto simp: frame_def safe_point_def k_def)
    ultimately show ?thesis
      using f ev True al b aligned_half [OF al(1) k(1)] unfolding frame_def d box
      by (auto simp: point_in_mbr_def)
  next
    case False
    then have d: "b div 2 = k" "(b - 1) div 2 = k" "(b + 1) div 2 = Suc k" "(b - 1 + 1) div 2 = k"
      using ev b by (auto simp: k_def elim!: oddE)
    have al: "aligned k xp" "aligned (Suc k) yp" using f d by (auto simp: frame_def)
    have box: "LB = (fst box, (snd box)\<lparr>pt_y := min (fsub (fadd yp (2 ^ k)) FT_EPS) (pt_y (snd box))\<rparr>)"
      "RB = ((fst box)\<lparr>pt_y := max (fadd yp (2 ^ k)) (pt_y (fst box))\<rparr>, snd box)"
      "rx = xp" "ry = yp + 2 ^ k"
      using c' False by (auto simp: aligned_half(2) [OF al(2) k(1)])
    have "slab k yp (pt_y p) \<and> pt_y p \<le> fsub (fadd yp (2 ^ k)) FT_EPS" if "p \<in> S" for p
      using slab_half(1) [OF al(2) k(1), of "pt_y p"] f that S d bit_clear_y [of b p] ev False
      by (auto simp: frame_def safe_point_def k_def)
    moreover have "slab k (yp + 2 ^ k) (pt_y p) \<and> fadd yp (2 ^ k) \<le> pt_y p" if "p \<in> T" for p
      using slab_half(2) [OF al(2) k(1), of "pt_y p"] f that T d bit_clear_y [of b p] ev False
      by (auto simp: frame_def safe_point_def k_def)
    ultimately show ?thesis
      using f ev False al aligned_half [OF al(2) k(1)] b unfolding frame_def d box
      by (auto simp: point_in_mbr_def)
  qed
  then show "frame (b - 1) (\<not> xs) xp yp LB S" "frame (b - 1) (\<not> xs) rx ry RB T" by blast+
qed

text \<open>The frame of the root.\<close>

lemma frame_root:
  assumes "\<forall>p\<in>S. safe_point p \<and> point_in_mbr p box"
  shows "frame 64 True 0 0 box S"
  using assms by (auto simp: frame_def aligned_def slab_def safe_point_def safe_coord_def in_range_def)

section \<open>Range count and range report\<close>

text \<open>
  The code dereferences the node it is given when the box is not excluded, so a
  count on a null root is undefined, \<open>None\<close>; sons are checked first. The output
  buffer of the report is its allocated size \<open>cap\<close> and its filled prefix.
\<close>

fun range_count_node ::
  "qtree \<Rightarrow> Bounding_Box \<Rightarrow> Bounding_Box \<Rightarrow> FT \<Rightarrow> FT \<Rightarrow> nat \<Rightarrow> bool \<Rightarrow> nat option" where
  "range_count_node Null query cur x_prefix y_prefix b x_splitter =
     (if mbr_mbr_relation cur query < 0 then Some 0 else None)"
| "range_count_node (LeafNode records) query cur x_prefix y_prefix b x_splitter =
     (let flag = mbr_mbr_relation cur query in
      if flag < 0 then Some 0
      else if flag > 0 then Some (length records)
      else Some (foldl (\<lambda>ret p. if point_in_mbr p query then ret + 1 else ret) 0 records))"
| "range_count_node (InteNode l_son r_son num_pts) query cur x_prefix y_prefix b x_splitter =
     (let flag = mbr_mbr_relation cur query in
      if flag < 0 then Some 0
      else if flag > 0 then Some num_pts
      else
        (case compute_cur_box cur x_prefix y_prefix b x_splitter of (L_box, R_box, rx_prefix, ry_prefix) \<Rightarrow>
          (case (if l_son \<noteq> Null then range_count_node l_son query L_box x_prefix y_prefix (b - 1) (\<not> x_splitter)
                 else Some 0,
                 if r_son \<noteq> Null then range_count_node r_son query R_box rx_prefix ry_prefix (b - 1) (\<not> x_splitter)
                 else Some 0) of
             (Some ret_L, Some ret_R) \<Rightarrow> Some (ret_L + ret_R)
           | _ \<Rightarrow> None)))"

definition range_count :: "qtree \<Rightarrow> Bounding_Box \<Rightarrow> Bounding_Box \<Rightarrow> nat option" where
  "range_count x query cur = range_count_node x query cur 0 0 64 True"

fun scan_leaf :: "nat \<Rightarrow> point list \<Rightarrow> Bounding_Box \<Rightarrow> point list \<Rightarrow> point list option" where
  "scan_leaf cap [] query out = Some out"
| "scan_leaf cap (p # ps) query out =
     do { out \<leftarrow> (if point_in_mbr p query then put_point cap p out else Some out); scan_leaf cap ps query out }"

fun range_report_node ::
  "nat \<Rightarrow> qtree \<Rightarrow> Bounding_Box \<Rightarrow> Bounding_Box \<Rightarrow> FT \<Rightarrow> FT \<Rightarrow> nat \<Rightarrow> bool \<Rightarrow> point list \<Rightarrow> point list option" where
  "range_report_node cap Null query cur x_prefix y_prefix b x_splitter out = Some out"
| "range_report_node cap (LeafNode records) query cur x_prefix y_prefix b x_splitter out =
     (if mbr_mbr_relation cur query < 0 then Some out else scan_leaf cap records query out)"
| "range_report_node cap (InteNode l_son r_son num_pts) query cur x_prefix y_prefix b x_splitter out =
     (if mbr_mbr_relation cur query < 0 then Some out
      else
        (case compute_cur_box cur x_prefix y_prefix b x_splitter of (L_box, R_box, rx_prefix, ry_prefix) \<Rightarrow>
           do {
             out \<leftarrow> range_report_node cap l_son query L_box x_prefix y_prefix (b - 1) (\<not> x_splitter) out;
             range_report_node cap r_son query R_box rx_prefix ry_prefix (b - 1) (\<not> x_splitter) out }))"

definition range_report :: "nat \<Rightarrow> qtree \<Rightarrow> Bounding_Box \<Rightarrow> Bounding_Box \<Rightarrow> point list \<Rightarrow> point list option" where
  "range_report cap x query cur out = range_report_node cap x query cur 0 0 64 True out"

text \<open>The \<open>collect_records\<close> with a query box repeats the box computation in place.\<close>

fun collect_records_in ::
  "qtree \<Rightarrow> Bounding_Box \<Rightarrow> Bounding_Box \<Rightarrow> FT \<Rightarrow> FT \<Rightarrow> nat \<Rightarrow> bool \<Rightarrow> point list" where
  "collect_records_in Null query cur x_prefix y_prefix b x_splitter = []"
| "collect_records_in (LeafNode records) query cur x_prefix y_prefix b x_splitter =
     (let flag = mbr_mbr_relation cur query in
      if flag < 0 then [] else if flag > 0 then records else filter (\<lambda>p. point_in_mbr p query) records)"
| "collect_records_in (InteNode l_son r_son num_pts) query cur x_prefix y_prefix b x_splitter =
     (if mbr_mbr_relation cur query < 0 then []
      else
        (case compute_cur_box cur x_prefix y_prefix b x_splitter of (L_box, R_box, rx_prefix, ry_prefix) \<Rightarrow>
           collect_records_in l_son query L_box x_prefix y_prefix (b - 1) (\<not> x_splitter) @
           collect_records_in r_son query R_box rx_prefix ry_prefix (b - 1) (\<not> x_splitter)))"

definition in_query :: "Bounding_Box \<Rightarrow> point list \<Rightarrow> point list" where
  "in_query query P = filter (\<lambda>p. point_in_mbr p query) P"

lemma in_query_simps [simp]: "in_query q [] = []" "in_query q (P @ Q) = in_query q P @ in_query q Q"
  by (simp_all add: in_query_def)

lemma scan_leaf_eq: "scan_leaf cap ps q out = put_points cap (in_query q ps) out"
proof (induction ps arbitrary: out)
  case (Cons p ps)
  have "scan_leaf cap ps q = put_points cap (in_query q ps)" by (rule ext) (rule Cons)
  then show ?case using put_points_append [of cap "[p]" out "in_query q ps"]
    by (simp add: in_query_def put_point_points)
qed (simp add: in_query_def)

lemma count_leaf_eq: "foldl (\<lambda>ret p. if point_in_mbr p q then ret + 1 else ret) n ps = n + length (in_query q ps)"
  by (induction ps arbitrary: n) (auto simp: in_query_def)

text \<open>What the three-way test tells about the points of a framed subtree.\<close>

lemma in_query_excluded:
  assumes "frame b xs xp yp box (set P)" "mbr_mbr_relation box q < 0" shows "in_query q P = []"
  using assms frame_in_box relation_excluded_point unfolding in_query_def filter_empty_conv by metis

lemma in_query_contained:
  assumes "frame b xs xp yp box (set P)" "mbr_mbr_relation box q > 0" shows "in_query q P = P"
  using assms frame_in_box relation_contained_point unfolding in_query_def filter_id_conv by metis

lemma range_report_node_eq:
  "mvq_ok b t \<Longrightarrow> frame b xs xp yp cur (set (collect_records t)) \<Longrightarrow>
   range_report_node cap t q cur xp yp b xs out = put_points cap (in_query q (collect_records t)) out"
proof (induction t arbitrary: cur xp yp b xs out)
  case (InteNode l r n)
  obtain LB RB rx ry where c: "compute_cur_box cur xp yp b xs = (LB, RB, rx, ry)" by (metis prod_cases4)
  have fr: "frame b xs xp yp cur (set (collect_records l) \<union> set (collect_records r))"
    using InteNode.prems by simp
  note fs = frame_sons [OF fr _ _ _ _ c]
  show ?case
  proof (cases "mbr_mbr_relation cur q < 0")
    case True
    then show ?thesis using in_query_excluded [OF InteNode.prems(2)] by simp
  next
    case False
    have "range_report_node cap l q LB xp yp (b - 1) (\<not> xs) out = put_points cap (in_query q (collect_records l)) out"
      using InteNode.IH(1) InteNode.prems(1) fs(1) by simp
    moreover have "range_report_node cap r q RB rx ry (b - 1) (\<not> xs) = put_points cap (in_query q (collect_records r))"
      by (rule ext) (use InteNode.IH(2) InteNode.prems(1) fs(2) in simp)
    ultimately show ?thesis using False c by (simp add: put_points_append)
  qed
next
  case (LeafNode rs)
  then show ?case using in_query_excluded [OF LeafNode.prems(2)] by (simp add: scan_leaf_eq)
qed simp

lemma collect_records_in_eq:
  "mvq_ok b t \<Longrightarrow> frame b xs xp yp cur (set (collect_records t)) \<Longrightarrow>
   collect_records_in t q cur xp yp b xs = in_query q (collect_records t)"
proof (induction t arbitrary: cur xp yp b xs)
  case (InteNode l r n)
  obtain LB RB rx ry where c: "compute_cur_box cur xp yp b xs = (LB, RB, rx, ry)" by (metis prod_cases4)
  have fr: "frame b xs xp yp cur (set (collect_records l) \<union> set (collect_records r))"
    using InteNode.prems by simp
  note fs = frame_sons [OF fr _ _ _ _ c]
  show ?case
  proof (cases "mbr_mbr_relation cur q < 0")
    case True
    then show ?thesis using in_query_excluded [OF InteNode.prems(2)] by simp
  next
    case False
    then show ?thesis using InteNode c fs by simp
  qed
next
  case (LeafNode rs)
  then show ?case using in_query_excluded [OF LeafNode.prems(2)] in_query_contained [OF LeafNode.prems(2)]
    by (simp add: Let_def) (simp add: in_query_def)
qed simp

lemma range_count_node_eq:
  "t \<noteq> Null \<Longrightarrow> mvq_ok b t \<Longrightarrow> frame b xs xp yp cur (set (collect_records t)) \<Longrightarrow>
   range_count_node t q cur xp yp b xs = Some (length (in_query q (collect_records t)))"
proof (induction t arbitrary: cur xp yp b xs)
  case (InteNode l r n)
  obtain LB RB rx ry where c: "compute_cur_box cur xp yp b xs = (LB, RB, rx, ry)" by (metis prod_cases4)
  have fr: "frame b xs xp yp cur (set (collect_records l) \<union> set (collect_records r))"
    using InteNode.prems by simp
  note fs = frame_sons [OF fr _ _ _ _ c]
  have L: "(if l \<noteq> Null then range_count_node l q LB xp yp (b - 1) (\<not> xs) else Some 0) =
      Some (length (in_query q (collect_records l)))"
    using InteNode.IH(1) [of "b - 1" "\<not> xs" xp yp LB] InteNode.prems fs(1) by auto
  have R: "(if r \<noteq> Null then range_count_node r q RB rx ry (b - 1) (\<not> xs) else Some 0) =
      Some (length (in_query q (collect_records r)))"
    using InteNode.IH(2) [of "b - 1" "\<not> xs" rx ry RB] InteNode.prems fs(2) by auto
  consider "mbr_mbr_relation cur q < 0" | "mbr_mbr_relation cur q > 0" | "mbr_mbr_relation cur q = 0" by linarith
  then show ?case
  proof cases
    case 1
    then show ?thesis using in_query_excluded [OF InteNode.prems(3)] by simp
  next
    case 2
    then show ?thesis using in_query_contained [OF InteNode.prems(3)] InteNode.prems(2) by (simp add: Let_def)
  next
    case 3
    then show ?thesis using L R by (simp add: Let_def c)
  qed
next
  case (LeafNode rs)
  then show ?case using in_query_excluded [OF LeafNode.prems(3)] in_query_contained [OF LeafNode.prems(3)]
    by (simp add: Let_def count_leaf_eq)
qed simp

text \<open>
  C4. On a tree that satisfies the invariant, whose points are representable
  coordinates in the box handed to the search, a range report writes exactly the
  points in the query box, in Morton order, after what the buffer held, and overruns the buffer
  exactly when they do not fit; range count returns their number, and the boxed
  traversal the same points.
\<close>

theorem range_queries_exact:
  assumes "mvq_ok 64 t" "t \<noteq> Null"
    and "\<forall>p\<in>set (collect_records t). safe_point p \<and> point_in_mbr p cur"
    and "length out \<le> cap"
  shows "range_report cap t query cur out =
      (let found = filter (\<lambda>p. point_in_mbr p query) (collect_records t) in
       if length out + length found \<le> cap then Some (out @ found) else None)
    \<and> range_count t query cur = Some (length (filter (\<lambda>p. point_in_mbr p query) (collect_records t)))
    \<and> collect_records_in t query cur 0 0 64 True = filter (\<lambda>p. point_in_mbr p query) (collect_records t)"
  using range_report_node_eq [OF assms(1) frame_root] range_count_node_eq [OF assms(2,1) frame_root]
    collect_records_in_eq [OF assms(1) frame_root] assms(3) put_points_fits [OF assms(4)]
  by (simp add: range_report_def range_count_def in_query_def Let_def)

lemma safe_coord_of_int: "0 \<le> n \<Longrightarrow> n < 2 ^ 32 \<Longrightarrow> safe_coord (of_int n)"
  using FT_EPS_less_1
  by (cases "n = 0") (auto simp: safe_coord_def in_range_def is_double_of_int)

lemma safe_coord_numeral [simp]: "safe_coord 0" "safe_coord 1"
  "numeral n < (2 ^ 32 :: int) \<Longrightarrow> safe_coord (numeral n)"
  using safe_coord_of_int [of 0] safe_coord_of_int [of 1] safe_coord_of_int [of "numeral n"] by simp_all

theorem range_queries_exact_witness:
  "range_report 1 (LeafNode [set_code (\<lambda>_. 0) False (Point3 1 2 3)]) (Point2 2 2, Point2 4 4) (Point2 0 0, Point2 8 8) []
     = Some [set_code (\<lambda>_. 0) False (Point3 1 2 3)]
   \<and> range_report 0 (LeafNode [set_code (\<lambda>_. 0) False (Point3 1 2 3)]) (Point2 2 2, Point2 4 4) (Point2 0 0, Point2 8 8) [] = None"
proof -
  let ?t = "LeafNode [set_code (\<lambda>_. 0) False (Point3 1 2 3)]"
  have t: "mvq_ok 64 ?t" by (simp add: batch_def sorted_by_Cons)
  have s: "\<forall>p\<in>set (collect_records ?t). safe_point p \<and> point_in_mbr p (Point2 0 0, Point2 8 8)"
    by (simp add: safe_point_def point_in_mbr_def)
  have n: "?t \<noteq> Null" "length ([] :: point list) \<le> 0" "length ([] :: point list) \<le> 1" by simp_all
  show ?thesis
    using range_queries_exact [OF t n(1) s n(2), of "(Point2 2 2, Point2 4 4)"]
      range_queries_exact [OF t n(1) s n(3), of "(Point2 2 2, Point2 4 4)"]
    by (simp add: point_in_mbr_def Let_def)
qed

section \<open>The coordinate that is left out\<close>

text \<open>
  \<open>corner k t\<close>: the node \<open>k\<close> steps down the left sons: the cell of level \<open>64 - k\<close> at the
  origin. Level 2 splits it at \<open>x = 1\<close>, and the left box of that split ends at \<open>1 - FT_EPS\<close>.
\<close>

primrec corner :: "nat \<Rightarrow> qtree \<Rightarrow> qtree" where
  "corner 0 t = t"
| "corner (Suc k) t = (case t of InteNode l r n \<Rightarrow> corner k l | _ \<Rightarrow> Null)"

definition pred_one :: FT where
  "pred_one = 1 - pow2 (- 53)"

lemma pow2_small: "pow2 (- 53) < FT_EPS" "pow2 (- 53) < 1"
  using pow2_strict_mono [of "- 53" 0] by (simp_all add: FT_EPS_def)

lemma pred_one_double: "is_double pred_one" "is_double (1 - FT_EPS)"
proof -
  have e: "1 - FT_EPS = of_int (2 ^ 52 - 1) * pow2 (- 52)" "pred_one = of_int (2 ^ 53 - 1) * pow2 (- 53)"
    using pow2_nat [of 52] pow2_add [of 52 "- 52"] pow2_nat [of 53] pow2_add [of 53 "- 53"]
    by (simp_all add: FT_EPS_def pred_one_def algebra_simps)
  show "is_double pred_one" "is_double (1 - FT_EPS)" unfolding e by (rule is_double_pow2_mult; simp)+
qed

lemma relation_gap:
  "pt_x (snd a) < pt_x (fst q) \<Longrightarrow> mbr_mbr_relation a q < 0"
  "pt_x (snd q) < pt_x (fst a) \<Longrightarrow> mbr_mbr_relation a q < 0"
  "pt_y (snd q) < pt_y (fst a) \<Longrightarrow> mbr_mbr_relation a q < 0"
  "pt_x (snd q) < pt_x (snd a) \<Longrightarrow> mbr_mbr_relation a q \<le> 0"
  by (auto simp: mbr_mbr_relation_def Let_def)

lemma excluded_node:
  assumes "mbr_mbr_relation cur q < 0"
  shows "range_report_node cap t q cur xp yp b xs out = Some out" "range_count_node t q cur xp yp b xs = Some 0"
  using assms by (cases t; simp)+

text \<open>The boxes of the sons at the origin, for the split at \<open>2 ^ k\<close>.\<close>

lemma origin_box:
  assumes "b = 2 * k + (if xs then 2 else 1)" "k < 32" "compute_cur_box cur 0 0 b xs = (LB, RB, rx, ry)"
  shows "xs \<Longrightarrow> LB = (fst cur, (snd cur)\<lparr>pt_x := min (fsub (2 ^ k) FT_EPS) (pt_x (snd cur))\<rparr>) \<and> 2 ^ k \<le> pt_x (fst RB)"
    and "\<not> xs \<Longrightarrow> pt_x (snd LB) = pt_x (snd cur) \<and> 2 ^ k \<le> pt_y (fst RB)"
proof -
  have "(2 :: int) ^ Suc k \<le> 2 ^ 32" using assms(2) by (intro power_increasing) auto
  then have "aligned (Suc k) 0" by (auto simp: aligned_def)
  then have f: "fadd 0 (2 ^ k) = 2 ^ k" using aligned_half(2) [of k 0] assms(2) by simp
  have k: "(b + 1) div 2 - 1 = k" using assms(1) by auto
  note c = assms(3) [unfolded compute_cur_box_def Let_def k split_value_eq [OF assms(2)] f]
  show "xs \<Longrightarrow> LB = (fst cur, (snd cur)\<lparr>pt_x := min (fsub (2 ^ k) FT_EPS) (pt_x (snd cur))\<rparr>) \<and> 2 ^ k \<le> pt_x (fst RB)"
    "\<not> xs \<Longrightarrow> pt_x (snd LB) = pt_x (snd cur) \<and> 2 ^ k \<le> pt_y (fst RB)"
    using c by auto
qed

lemma left_end: "1 \<le> k \<Longrightarrow> 1 \<le> fsub (2 ^ k) FT_EPS" "fsub 1 FT_EPS = 1 - FT_EPS"
proof -
  show "fsub 1 FT_EPS = 1 - FT_EPS" using pred_one_double(2) by (simp add: fsub_def is_double_def)
  assume "1 \<le> k"
  then have "(2 :: rat) ^ 1 \<le> 2 ^ k" by (intro power_increasing) auto
  then have "1 \<le> 2 ^ k - FT_EPS" using FT_EPS_less_1 by simp
  then have "rnd64 1 \<le> rnd64 (2 ^ k - FT_EPS)" by (rule b64.mono)
  then show "1 \<le> fsub (2 ^ k) FT_EPS" using rnd64_of_int [of 1] by (simp add: fsub_def)
qed

lemma corner_missed:
  assumes q: "1 - FT_EPS < pt_x (fst q)" "pt_x (snd q) < 1" "pt_y (snd q) < 2"
  shows "corner d t = InteNode l r n \<Longrightarrow> d + 2 \<le> 64 \<Longrightarrow> 1 \<le> pt_x (snd cur) \<Longrightarrow>
    range_report_node cap t q cur 0 0 (d + 2) (even d) out = Some out \<and>
    range_count_node t q cur 0 0 (d + 2) (even d) = Some 0"
proof (induction d arbitrary: t cur)
  case 0
  then have t: "t = InteNode l r n" by simp
  obtain LB RB rx ry where c: "compute_cur_box cur 0 0 2 True = (LB, RB, rx, ry)" by (metis prod_cases4)
  have box: "LB = (fst cur, (snd cur)\<lparr>pt_x := min (1 - FT_EPS) (pt_x (snd cur))\<rparr>)" "1 \<le> pt_x (fst RB)"
    using origin_box(1) [OF _ _ c, of 0] by (simp_all add: left_end)
  have "mbr_mbr_relation LB q < 0" by (rule relation_gap(1)) (use box(1) q(1) in auto)
  moreover have "mbr_mbr_relation RB q < 0" by (rule relation_gap(2)) (use box(2) q(2) in auto)
  moreover have "mbr_mbr_relation cur q \<le> 0" by (rule relation_gap(4)) (use 0 q(2) in simp)
  ultimately show ?case using excluded_node [of LB q] excluded_node [of RB q] excluded_node [of cur q]
    unfolding t by (cases "mbr_mbr_relation cur q < 0") (simp_all add: c numeral_2_eq_2 [symmetric] Let_def)
next
  case (Suc d)
  then obtain l1 r1 n1 where t: "t = InteNode l1 r1 n1" "corner d l1 = InteNode l r n" by (cases t) auto
  define k where "k = (d + 2) div 2"
  have k: "1 \<le> k" "k < 32" "Suc d + 2 = 2 * k + (if even (Suc d) then 2 else 1)"
    using Suc.prems(2) by (auto simp: k_def elim!: evenE oddE)
  obtain LB RB rx ry where c: "compute_cur_box cur 0 0 (Suc d + 2) (even (Suc d)) = (LB, RB, rx, ry)" by (metis prod_cases4)
  have "(2 :: rat) ^ 1 \<le> 2 ^ k" using k(1) by (intro power_increasing) auto
  then have two: "(2 :: rat) \<le> 2 ^ k" by simp
  note box = origin_box [OF k(3,2) c]
  have L: "1 \<le> pt_x (snd LB)" using box left_end(1) [OF k(1)] Suc.prems(3) by (cases "even (Suc d)") auto
  have R: "mbr_mbr_relation RB q < 0"
  proof (cases "even (Suc d)")
    case True
    show ?thesis by (rule relation_gap(2)) (use box(1) [OF True] two q(2) in simp)
  next
    case False
    show ?thesis by (rule relation_gap(3)) (use box(2) [OF False] two q(3) in simp)
  qed
  have z: "mbr_mbr_relation cur q \<le> 0" by (rule relation_gap(4)) (use Suc.prems q(2) in simp)
  have pre: "rx = rx" by simp
  have IH: "range_report_node cap l1 q LB 0 0 (d + 2) (even d) out = Some out"
    "range_count_node l1 q LB 0 0 (d + 2) (even d) = Some 0"
    using Suc.IH [OF t(2) _ L] Suc.prems(2) by simp_all
  show ?case
    using IH excluded_node [OF R] excluded_node [of cur q] z c unfolding t(1)
    by (cases "mbr_mbr_relation cur q < 0") (simp_all add: Let_def)
qed

text \<open>
  C28. The coordinates that C4 leaves out are a real gap of the search. In any tree whose cell at the
  origin is split at \<open>x = 1\<close>, no query box strictly between \<open>1 - FT_EPS\<close> and 1 (and below 2 in
  \<open>y\<close>) finds anything: the report writes nothing and the count is 0, although the box holds a stored point.
  The largest double below 1 is such a coordinate.
\<close>

theorem range_search_misses_pred_one:
  assumes "corner 62 t = InteNode l r n" "1 \<le> pt_x (snd cur)"
    and "1 - FT_EPS < pt_x (fst q)" "pt_x (snd q) < 1" "pt_y (snd q) < 2"
    and "p \<in> set (collect_records t)" "point_in_mbr p q"
  shows "filter (\<lambda>p. point_in_mbr p q) (collect_records t) \<noteq> [] \<and>
    range_report cap t q cur out = Some out \<and> range_count t q cur = Some 0 \<and>
    is_double pred_one \<and> 1 - FT_EPS < pred_one \<and> pred_one < 1"
proof -
  have "range_report_node cap t q cur 0 0 64 True out = Some out \<and> range_count_node t q cur 0 0 64 True = Some 0"
    using corner_missed [OF assms(3-5,1) _ assms(2), of cap out] by simp
  moreover have "filter (\<lambda>p. point_in_mbr p q) (collect_records t) \<noteq> []"
    using assms(6,7) by (auto simp: filter_empty_conv)
  ultimately show ?thesis
    using pow2_small pred_one_double(1) by (simp add: range_report_def range_count_def) (simp add: pred_one_def)
qed

text \<open>Two points, one in the gap and one at 1, indexed with leaves of one point.\<close>

definition gap_points :: "point list" where
  "gap_points = [set_code (\<lambda>_. 0) False (Point3 1 pred_one 0), set_code (\<lambda>_. 0) False (Point3 2 1 0)]"

lemma gap_casts: "cast_u32 pred_one = 0" "cast_u32 1 = 1" "cast_u32 0 = 0"
proof -
  have p: "0 < pred_one" "pred_one < 1" using pow2_small by (simp_all add: pred_one_def)
  then have "\<lfloor>pred_one\<rfloor> = 0" by linarith
  then show "cast_u32 pred_one = 0" "cast_u32 1 = 1" "cast_u32 0 = 0"
    using p by (simp_all add: cast_u32_def ftrunc_def)
qed

lemma gap_points_sorted: "sorted_by pt_key gap_points" "\<forall>p\<in>set gap_points. zcoded p"
proof -
  have "interleave_bits (Point3 1 pred_one 0) = 0" "interleave_bits (Point3 2 1 0) \<noteq> 0"
    by (simp_all add: interleave_bits_def interleave_words_def interleave_step_def upt_conv_Cons gap_casts)
  then show "sorted_by pt_key gap_points"
    by (simp add: gap_points_def sorted_by_Cons set_code_def pt_key_def word_gt_0 less_imp_le)
  show "\<forall>p\<in>set gap_points. zcoded p" by (simp add: gap_points_def)
qed

lemma gap_points_clear: "3 \<le> b \<Longrightarrow> p \<in> set gap_points \<Longrightarrow> bit_clear b p"
proof -
  assume b: "3 \<le> b" and p: "p \<in> set gap_points"
  obtain k where "(b - 1) div 2 = Suc k" using b by (cases "(b - 1) div 2") auto
  then have "even (push_bit ((b - 1) div 2) (1 :: 32 word))" by simp
  then show "bit_clear b p"
    using p by (auto simp only: gap_points_def set_simps insert_iff empty_iff bit_clear_def Let_def)
      (simp_all add: gap_casts one_and_eq even_iff_mod_2_eq_zero)
qed

lemma gap_corner: "d + 2 \<le> 64 \<Longrightarrow> \<exists>l r n. corner d (build 1 gap_points (d + 2)) = InteNode l r n"
proof (induction d)
  case 0
  then show ?case by (subst build.simps) (simp add: gap_points_def Let_def)
next
  case (Suc d)
  have "split_at (bit_clear (d + 3)) gap_points 0 2 2"
    using gap_points_clear [of "d + 3"] by (auto simp: split_at_def gap_points_def less_2_cases_iff)
  then have "split_by_bit gap_points 0 2 (d + 3) = 2" by (rule split_by_bit_split_at)
  moreover have l: "length gap_points = 2" by (simp add: gap_points_def)
  ultimately have "build 1 gap_points (Suc d + 2) = create_internal (build 1 gap_points (d + 2)) Null"
    by (subst build.simps) (simp add: Let_def numeral_3_eq_3 numeral_2_eq_2)
  then show ?case using Suc by simp
qed

theorem range_search_misses_pred_one_witness:
  "let t = build_root 1 Null gap_points; q = (Point2 pred_one 0, Point2 pred_one 0); cur = (Point2 0 0, Point2 2 2)
   in mvq_ok 64 t \<and> filter (\<lambda>p. point_in_mbr p q) (collect_records t) \<noteq> [] \<and>
     range_report 2 t q cur [] = Some [] \<and> range_count t q cur = Some 0"
proof -
  let ?t = "build_root 1 Null gap_points" and ?q = "(Point2 pred_one 0, Point2 pred_one 0)"
  have t: "?t = build 1 gap_points 64" by (simp add: build_root_def gap_points_def)
  have ok: "mvq_ok 64 ?t" "collect_records ?t = gap_points"
    using build_correct [of 64 gap_points 1] gap_points_sorted unfolding t by (simp_all add: batch_def)
  obtain l r n where c: "corner 62 ?t = InteNode l r n" using gap_corner [of 62] unfolding t by auto
  have q: "1 \<le> pt_x (snd (Point2 0 0, Point2 2 2))" "1 - FT_EPS < pt_x (fst ?q)" "pt_x (snd ?q) < 1" "pt_y (snd ?q) < 2"
    "set_code (\<lambda>_. 0) False (Point3 1 pred_one 0) \<in> set (collect_records ?t)"
    "point_in_mbr (set_code (\<lambda>_. 0) False (Point3 1 pred_one 0)) ?q"
    using pow2_small unfolding ok(2) by (simp_all add: pred_one_def gap_points_def point_in_mbr_def)
  show ?thesis
    using range_search_misses_pred_one [OF c q, of 2 "[]"] ok(1) by (simp add: Let_def)
qed

end
