(* ===== verification/KnnQueue.thy ===== *)
theory KnnQueue
  imports GeoBox
begin

text \<open>
  The bounded priority queue of the nearest-neighbour searches. \<open>nn_pair_cmp\<close>
  orders pairs by distance, and equal distances by descending id; the queue is a
  \<open>std::priority_queue\<close>, kept here as the list of its elements, greatest first.
  The searches of the quadtree and of the other trees differ in how they decide that
  a candidate is better than the top; the locale states what they need of it.
\<close>

section \<open>The queue\<close>

type_synonym nn_pair = "point \<times> FT"

definition nn_pair_cmp :: "nn_pair \<Rightarrow> nn_pair \<Rightarrow> bool" where
  "nn_pair_cmp lhs rhs \<longleftrightarrow>
     snd lhs < snd rhs \<or> (snd lhs = snd rhs \<and> pt_id (fst lhs) > pt_id (fst rhs))"

fun pq_push :: "nn_pair \<Rightarrow> nn_pair list \<Rightarrow> nn_pair list" where
  "pq_push x [] = [x]"
| "pq_push x (y # ys) = (if nn_pair_cmp x y then y # pq_push x ys else x # y # ys)"

definition pq_top :: "nn_pair list \<Rightarrow> nn_pair option" where
  "pq_top q = (case q of [] \<Rightarrow> None | x # xs \<Rightarrow> Some x)"

definition pq_pop :: "nn_pair list \<Rightarrow> nn_pair list" where
  "pq_pop q = tl q"

text \<open>
  One candidate at a leaf: pushed while there is room, otherwise it replaces the top
  when it is better. \<open>top()\<close> of an empty queue is undefined, \<open>None\<close>.
\<close>

definition offer ::
  "(nn_pair \<Rightarrow> nn_pair \<Rightarrow> bool) \<Rightarrow> nat \<Rightarrow> nn_pair \<Rightarrow> nn_pair list \<Rightarrow> nn_pair list option" where
  "offer better k x nn_res =
     (if length nn_res < k then Some (pq_push x nn_res)
      else
        (case pq_top nn_res of
           None \<Rightarrow> None
         | Some t \<Rightarrow> Some (if better x t then pq_push x (pq_pop nn_res) else nn_res)))"

fun knn_scan ::
  "(nn_pair \<Rightarrow> nn_pair \<Rightarrow> bool) \<Rightarrow> nat \<Rightarrow> point \<Rightarrow> point list \<Rightarrow> nn_pair list \<Rightarrow> nn_pair list option" where
  "knn_scan better k query_point [] nn_res = Some nn_res"
| "knn_scan better k query_point (p # ps) nn_res =
     (case offer better k (p, point_point_sqrdis p query_point) nn_res of
        None \<Rightarrow> None
      | Some nn_res' \<Rightarrow> knn_scan better k query_point ps nn_res')"

text \<open>The pairs of a point sequence and a query point.\<close>

definition nn_pairs :: "point \<Rightarrow> point list \<Rightarrow> nn_pair multiset" where
  "nn_pairs query_point P = image_mset (\<lambda>p. (p, point_point_sqrdis p query_point)) (mset P)"

lemma nn_pairs_simps [simp]:
  "nn_pairs qp [] = {#}"
  "nn_pairs qp (p # ps) = add_mset (p, point_point_sqrdis p qp) (nn_pairs qp ps)"
  "nn_pairs qp (P @ Q) = nn_pairs qp P + nn_pairs qp Q"
  by (simp_all add: nn_pairs_def)

section \<open>The smallest elements of a sorted list\<close>

lemma take_insort_take: "take k (insort x (take k L)) = take k (insort x L)"
proof (induction L arbitrary: k)
  case (Cons y L)
  then show ?case by (cases k) (auto simp: take_Cons' split: if_splits)
qed simp

lemma sorted_mset_eqI: "sorted xs \<Longrightarrow> sorted ys \<Longrightarrow> mset xs = mset ys \<Longrightarrow> xs = ys"
  using properties_for_sort [of xs ys] sorted_sort_id [of ys] by simp

lemma last_insort: "sorted M \<Longrightarrow> M \<noteq> [] \<Longrightarrow> last (insort x M) = max x (last M)"
proof (induction M)
  case (Cons y M)
  then show ?case
    by (cases "M = []") (auto simp: max_def insort_is_Cons insort_not_Nil intro: order_trans dest: last_in_set)
qed simp

lemma mset_butlast: "xs \<noteq> [] \<Longrightarrow> mset (butlast xs) = mset xs - {#last xs#}"
  by (metis add_mset_remove_trivial append_butlast_last_id mset_append mset_single_iff_right
      add_mset_add_single mset.simps union_commute)

lemma butlast_insort:
  assumes "sorted M" "M \<noteq> []"
  shows "butlast (insort x M) = (if x < last M then insort x (butlast M) else M)"
proof (rule sorted_mset_eqI)
  have ne: "insort x M \<noteq> []" by (simp add: insort_not_Nil)
  show "sorted (butlast (insort x M))" using assms(1) by (simp add: sorted_butlast sorted_insort)
  show "sorted (if x < last M then insort x (butlast M) else M)"
    using assms(1) by (simp add: sorted_butlast sorted_insort)
  show "mset (butlast (insort x M)) = mset (if x < last M then insort x (butlast M) else M)"
    using assms less_imp_le [of x "last M"]
    by (auto simp: mset_butlast [OF ne] mset_butlast [OF assms(2)] last_insort max_def last_in_set
        add_mset_remove_trivial_If)
qed

text \<open>The \<open>k\<close> smallest keys of a multiset, ascending.\<close>

definition smallest :: "nat \<Rightarrow> 'k::linorder multiset \<Rightarrow> 'k list" where
  "smallest k M = take k (sorted_list_of_multiset M)"

lemma sorted_smallest [simp]: "sorted (smallest k M)"
  by (simp add: smallest_def sorted_wrt_take)

lemma smallest_empty [simp]: "smallest k {#} = []"
  by (simp add: smallest_def)

lemma smallest_insert: "smallest k (add_mset x M) = take k (insort x (smallest k M))"
  unfolding smallest_def take_insort_take by simp

lemma length_smallest_le: "length (smallest k M) \<le> k"
  by (simp add: smallest_def)

lemma smallest_insert_room:
  "length (smallest k M) < k \<Longrightarrow> smallest k (add_mset x M) = insort x (smallest k M)"
  unfolding smallest_insert by (rule take_all) simp

lemma smallest_insert_full:
  assumes "length (smallest k M) = k" "1 \<le> k"
  shows "smallest k (add_mset x M) =
    (if x < last (smallest k M) then insort x (butlast (smallest k M)) else smallest k M)"
proof -
  have "smallest k M \<noteq> []" using assms by auto
  moreover have "take k (insort x (smallest k M)) = butlast (insort x (smallest k M))"
    by (simp add: butlast_conv_take assms(1))
  ultimately show ?thesis unfolding smallest_insert by (simp add: butlast_insort)
qed

lemma smallest_prune:
  assumes "length (smallest k M) = k" "1 \<le> k" "\<forall>x\<in>#N. last (smallest k M) \<le> x"
  shows "smallest k (M + N) = smallest k M"
  using assms(3)
proof (induction N)
  case (add x N)
  then have "smallest k (add_mset x (M + N)) = smallest k (M + N)"
    using assms smallest_insert_full [of k "M + N" x] by (simp add: not_less [symmetric])
  then show ?case using add by simp
qed simp

section \<open>The contract of a candidate test\<close>

text \<open>
  \<open>better\<close> compares keys, and the key respects the order of the queue. Then the
  queue always holds the \<open>k\<close> smallest keys of the candidates it was offered, and
  candidates that are not below the top can be skipped.
\<close>

locale nn_offer =
  fixes key :: "nn_pair \<Rightarrow> 'k::linorder"
    and better :: "nn_pair \<Rightarrow> nn_pair \<Rightarrow> bool"
  assumes better: "better x y \<longleftrightarrow> key x < key y"
    and cmp_le: "nn_pair_cmp x y \<Longrightarrow> key x \<le> key y"
    and cmp_ge: "\<not> nn_pair_cmp x y \<Longrightarrow> key y \<le> key x"
begin

definition holds :: "nat \<Rightarrow> nn_pair multiset \<Rightarrow> nn_pair list \<Rightarrow> bool" where
  "holds k M q \<longleftrightarrow> rev (map key q) = smallest k (image_mset key M) \<and> set q \<subseteq> set_mset M"

lemma holds_empty: "holds k {#} []"
  by (simp add: holds_def)

lemma mset_push: "mset (pq_push x q) = add_mset x (mset q)"
  by (induction q) auto

lemma push_insort:
  assumes "sorted (rev (map key q))"
  shows "rev (map key (pq_push x q)) = insort (key x) (rev (map key q))"
proof (rule sorted_mset_eqI)
  show "sorted (insort (key x) (rev (map key q)))" using assms by (simp add: sorted_insort)
  show "mset (rev (map key (pq_push x q))) = mset (insort (key x) (rev (map key q)))"
    using arg_cong [OF mset_push, of "image_mset key" x q] by simp
  show "sorted (rev (map key (pq_push x q)))"
    using assms
  proof (induction q)
    case (Cons y q)
    have "set (pq_push x q) = insert x (set q)" using mset_push [of x q] by (metis set_mset_add_mset_insert set_mset_mset)
    then show ?case using Cons cmp_le [of x y] cmp_ge [of x y]
      by (cases "nn_pair_cmp x y") (fastforce simp: sorted_append)+
  qed simp
qed

lemma offer_holds:
  assumes "holds k M q" "1 \<le> k"
  shows "\<exists>q'. offer better k x q = Some q' \<and> holds k (add_mset x M) q'"
proof -
  let ?S = "smallest k (image_mset key M)"
  have q: "rev (map key q) = ?S" and sub: "set q \<subseteq> set_mset M" using assms(1) by (auto simp: holds_def)
  have len: "length q = length ?S" using arg_cong [OF q, of length] by simp
  have srt: "sorted (rev (map key q))" unfolding q by simp
  have pushed: "set (pq_push x ys) = insert x (set ys)" for ys
    by (metis mset_push set_mset_add_mset_insert set_mset_mset)
  show ?thesis
  proof (cases "length q < k")
    case True
    then show ?thesis using len q sub push_insort [OF srt, of x] smallest_insert_room [of k "image_mset key M" "key x"]
      by (auto simp: offer_def holds_def pushed)
  next
    case False
    then have full: "length ?S = k" using len length_smallest_le [of k] by (metis le_antisym not_less)
    then obtain t r where tr: "q = t # r" using len assms(2) by (cases q) auto
    have S: "?S = rev (map key r) @ [key t]" using q tr by simp
    then have "sorted (rev (map key r))" using srt q by (simp add: sorted_append)
    note push = push_insort [OF this, of x]
    note ins = smallest_insert_full [OF full assms(2), of "key x"]
    show ?thesis
    proof (cases "better x t")
      case True
      then have "offer better k x q = Some (pq_push x r)"
        using False tr by (simp add: offer_def pq_top_def pq_pop_def)
      moreover have "holds k (add_mset x M) (pq_push x r)"
        using True better push ins S sub tr by (auto simp: holds_def pushed)
      ultimately show ?thesis by blast
    next
      case nb: False
      then have "offer better k x q = Some q" using False tr by (simp add: offer_def pq_top_def)
      moreover have "holds k (add_mset x M) q" using nb better ins S sub q by (auto simp: holds_def)
      ultimately show ?thesis by blast
    qed
  qed
qed

lemma scan_holds:
  "holds k M q \<Longrightarrow> 1 \<le> k \<Longrightarrow>
   \<exists>q'. knn_scan better k qp ps q = Some q' \<and> holds k (M + nn_pairs qp ps) q'"
proof (induction ps arbitrary: M q)
  case (Cons p ps)
  obtain q1 where "offer better k (p, point_point_sqrdis p qp) q = Some q1"
    "holds k (add_mset (p, point_point_sqrdis p qp) M) q1"
    using offer_holds [OF Cons.prems] by blast
  then show ?case using Cons.IH [of "add_mset (p, point_point_sqrdis p qp) M" q1] Cons.prems(2) by simp
qed simp

lemma holds_prune:
  assumes "holds k M q" "1 \<le> k" "\<not> length q < k" "pq_top q = Some t" "\<forall>x\<in>#N. key t \<le> key x"
  shows "holds k (M + N) q"
proof -
  have q: "rev (map key q) = smallest k (image_mset key M)" and sub: "set q \<subseteq> set_mset M"
    using assms(1) by (auto simp: holds_def)
  have len: "length (smallest k (image_mset key M)) = k"
    using arg_cong [OF q, of length] assms(3) length_smallest_le [of k "image_mset key M"] by simp
  obtain r where "q = t # r" using assms(4) by (auto simp: pq_top_def split: list.splits)
  then have "smallest k (image_mset key M) = rev (map key r) @ [key t]" using q by simp
  then have "smallest k (image_mset key M + image_mset key N) = smallest k (image_mset key M)"
    using smallest_prune [OF len assms(2)] assms(5) by simp
  then show ?thesis using q sub by (auto simp: holds_def)
qed

lemma holds_top:
  assumes "holds k M q" "1 \<le> k" "\<not> length q < k"
  obtains t where "pq_top q = Some t"
  using assms by (cases q) (auto simp: pq_top_def)

end

text \<open>The order of the queue itself, and distances alone.\<close>

definition nn_key :: "nn_pair \<Rightarrow> FT \<times> int" where
  "nn_key x = (snd x, - uint (pt_id (fst x)))"

definition nearer :: "nn_pair \<Rightarrow> nn_pair \<Rightarrow> bool" where
  "nearer x y \<longleftrightarrow> snd x < snd y"

lemma nn_pair_cmp_key: "nn_pair_cmp x y \<longleftrightarrow> nn_key x < nn_key y"
  by (auto simp: nn_pair_cmp_def nn_key_def word_less_def)

interpretation by_cmp: nn_offer nn_key nn_pair_cmp
  by unfold_locales (auto simp: nn_pair_cmp_key)

interpretation by_dis: nn_offer snd nearer
  by unfold_locales (auto simp: nearer_def nn_pair_cmp_def)

end
