(* ===== verification/MvqKnn.thy ===== *)
theory MvqKnn
  imports MvqQuery KnnQueue "HOL-Library.Monad_Syntax"
begin

text \<open>
  The nearest-neighbour search of \<open>mvq.hpp\<close>: the two sons are visited nearest
  box first, and a son is skipped when the queue is full and the box is farther than
  the top of the queue.
\<close>

section \<open>The search\<close>

definition may_improve :: "nat \<Rightarrow> FT \<Rightarrow> nn_pair list \<Rightarrow> bool option" where
  "may_improve k sqrdis nn_res =
     (if length nn_res < k then Some True
      else map_option (\<lambda>t. sqrdis \<le> snd t) (pq_top nn_res))"

fun knn_report_node ::
  "qtree \<Rightarrow> nat \<Rightarrow> point \<Rightarrow> Bounding_Box \<Rightarrow> FT \<Rightarrow> FT \<Rightarrow> nat \<Rightarrow> bool \<Rightarrow> nn_pair list \<Rightarrow> nn_pair list option" where
  "knn_report_node Null k query_point cur x_prefix y_prefix b x_splitter nn_res = Some nn_res"
| "knn_report_node (LeafNode records) k query_point cur x_prefix y_prefix b x_splitter nn_res =
     knn_scan nn_pair_cmp k query_point records nn_res"
| "knn_report_node (InteNode l_son r_son num_pts) k query_point cur x_prefix y_prefix b x_splitter nn_res =
     (case compute_cur_box cur x_prefix y_prefix b x_splitter of (L_box, R_box, rx_prefix, ry_prefix) \<Rightarrow>
        let l_son_sqrdis = (if l_son \<noteq> Null then point_mbr_sqrdis query_point L_box else FT_INF_MAX);
            r_son_sqrdis = (if r_son \<noteq> Null then point_mbr_sqrdis query_point R_box else FT_INF_MAX)
        in if l_son_sqrdis \<le> r_son_sqrdis then
             do {
               go_l \<leftarrow> may_improve k l_son_sqrdis nn_res;
               nn1 \<leftarrow> (if go_l then knn_report_node l_son k query_point L_box x_prefix y_prefix (b - 1) (\<not> x_splitter) nn_res
                       else Some nn_res);
               go_r \<leftarrow> may_improve k r_son_sqrdis nn1;
               if go_r then knn_report_node r_son k query_point R_box rx_prefix ry_prefix (b - 1) (\<not> x_splitter) nn1
               else Some nn1 }
           else
             do {
               go_r \<leftarrow> may_improve k r_son_sqrdis nn_res;
               nn1 \<leftarrow> (if go_r then knn_report_node r_son k query_point R_box rx_prefix ry_prefix (b - 1) (\<not> x_splitter) nn_res
                       else Some nn_res);
               go_l \<leftarrow> may_improve k l_son_sqrdis nn1;
               if go_l then knn_report_node l_son k query_point L_box x_prefix y_prefix (b - 1) (\<not> x_splitter) nn1
               else Some nn1 })"

definition knn_report :: "qtree \<Rightarrow> nat \<Rightarrow> point \<Rightarrow> Bounding_Box \<Rightarrow> nn_pair list option" where
  "knn_report rt k query_point cur = knn_report_node rt k query_point cur 0 0 64 True []"

section \<open>Exactness\<close>

text \<open>Skipping or visiting a son whose points are no nearer than the tested distance.\<close>

lemma guarded_visit:
  assumes h: "by_cmp.holds k M q" and k: "1 \<le> k"
    and vis: "\<And>q. by_cmp.holds k M q \<Longrightarrow> \<exists>q'. visit q = Some q' \<and> by_cmp.holds k (M + nn_pairs qp P) q'"
    and far: "\<forall>p\<in>set P. d \<le> point_point_sqrdis p qp"
  shows "\<exists>go q'. may_improve k d q = Some go \<and> (if go then visit q else Some q) = Some q'
    \<and> by_cmp.holds k (M + nn_pairs qp P) q'"
proof (cases "length q < k")
  case True
  then show ?thesis using vis [OF h] by (auto simp: may_improve_def)
next
  case False
  then obtain t where t: "pq_top q = Some t" using by_cmp.holds_top [OF h k] by blast
  show ?thesis
  proof (cases "d \<le> snd t")
    case True
    then show ?thesis using vis [OF h] False t by (auto simp: may_improve_def)
  next
    case nle: False
    have "nn_key t \<le> nn_key x" if "x \<in># nn_pairs qp P" for x
      using that nle far by (fastforce simp: nn_pairs_def nn_key_def)
    then have "by_cmp.holds k (M + nn_pairs qp P) q"
      using by_cmp.holds_prune [OF h k False t] by blast
    then show ?thesis using False t nle by (intro exI [of _ False] exI [of _ q]) (simp add: may_improve_def)
  qed
qed

lemma knn_report_node_holds:
  assumes "mvq_ok b t" "frame b xs xp yp cur (set (collect_records t))" "by_cmp.holds k M q" "1 \<le> k"
  shows "\<exists>q'. knn_report_node t k qp cur xp yp b xs q = Some q'
    \<and> by_cmp.holds k (M + nn_pairs qp (collect_records t)) q'"
  using assms
proof (induction t arbitrary: cur xp yp b xs M q)
  case (InteNode l r n)
  obtain LB RB rx ry where c: "compute_cur_box cur xp yp b xs = (LB, RB, rx, ry)" by (metis prod_cases4)
  have fr: "frame b xs xp yp cur (set (collect_records l) \<union> set (collect_records r))"
    using InteNode.prems by simp
  have fl: "frame (b - 1) (\<not> xs) xp yp LB (set (collect_records l))"
    and frr: "frame (b - 1) (\<not> xs) rx ry RB (set (collect_records r))"
    using frame_sons [OF fr _ _ _ _ c] InteNode.prems(1) by auto
  have ok: "mvq_ok (b - 1) l" "mvq_ok (b - 1) r" using InteNode.prems(1) by auto
  define ld where "ld = (if l \<noteq> Null then point_mbr_sqrdis qp LB else FT_INF_MAX)"
  define rd where "rd = (if r \<noteq> Null then point_mbr_sqrdis qp RB else FT_INF_MAX)"
  have far: "\<forall>p\<in>set (collect_records l). ld \<le> point_point_sqrdis p qp"
    "\<forall>p\<in>set (collect_records r). rd \<le> point_point_sqrdis p qp"
    using box_distance_le frame_in_box [OF fl] frame_in_box [OF frr] by (auto simp: ld_def rd_def)
  let ?L = "knn_report_node l k qp LB xp yp (b - 1) (\<not> xs)"
  let ?R = "knn_report_node r k qp RB rx ry (b - 1) (\<not> xs)"
  have vl: "\<exists>go q'. may_improve k ld q = Some go \<and> (if go then ?L q else Some q) = Some q'
      \<and> by_cmp.holds k (M + nn_pairs qp (collect_records l)) q'" if "by_cmp.holds k M q" for M q
    by (rule guarded_visit [OF that InteNode.prems(4) InteNode.IH(1) [OF ok(1) fl _ InteNode.prems(4)] far(1)])
  have vr: "\<exists>go q'. may_improve k rd q = Some go \<and> (if go then ?R q else Some q) = Some q'
      \<and> by_cmp.holds k (M + nn_pairs qp (collect_records r)) q'" if "by_cmp.holds k M q" for M q
    by (rule guarded_visit [OF that InteNode.prems(4) InteNode.IH(2) [OF ok(2) frr _ InteNode.prems(4)] far(2)])
  note unf = knn_report_node.simps(3) c prod.case Let_def ld_def [symmetric] rd_def [symmetric]
  show ?case
  proof (cases "ld \<le> rd")
    case True
    obtain g1 q1 where 1: "may_improve k ld q = Some g1" "(if g1 then ?L q else Some q) = Some q1"
      "by_cmp.holds k (M + nn_pairs qp (collect_records l)) q1" using vl [OF InteNode.prems(3)] by blast
    obtain g2 q2 where 2: "may_improve k rd q1 = Some g2" "(if g2 then ?R q1 else Some q1) = Some q2"
      "by_cmp.holds k (M + nn_pairs qp (collect_records l) + nn_pairs qp (collect_records r)) q2"
      using vr [OF 1(3)] by blast
    have "knn_report_node (InteNode l r n) k qp cur xp yp b xs q = Some q2"
      using True 1 2 unfolding unf by simp
    then show ?thesis using 2(3) by (simp add: add.assoc)
  next
    case False
    obtain g1 q1 where 1: "may_improve k rd q = Some g1" "(if g1 then ?R q else Some q) = Some q1"
      "by_cmp.holds k (M + nn_pairs qp (collect_records r)) q1" using vr [OF InteNode.prems(3)] by blast
    obtain g2 q2 where 2: "may_improve k ld q1 = Some g2" "(if g2 then ?L q1 else Some q1) = Some q2"
      "by_cmp.holds k (M + nn_pairs qp (collect_records r) + nn_pairs qp (collect_records l)) q2"
      using vl [OF 1(3)] by blast
    have "knn_report_node (InteNode l r n) k qp cur xp yp b xs q = Some q2"
      using False 1 2 unfolding unf by simp
    then show ?thesis using 2(3) by (simp add: ac_simps)
  qed
next
  case (LeafNode rs)
  then show ?case using by_cmp.scan_holds by simp
qed (simp add: nn_pairs_def)

section \<open>Agreement with the brute-force reference\<close>

lemma point_point_sqrdis_sym: "point_point_sqrdis p q = point_point_sqrdis q p"
  using fsub_minus [of "pt_x p" "pt_x q"] fsub_minus [of "pt_y p" "pt_y q"]
  by (simp add: point_point_sqrdis_def fmul_def)

lemma smallest_map_mono:
  assumes "mono f"
  shows "map f (smallest k M) = smallest k (image_mset f M)"
proof -
  have "map f (sorted_list_of_multiset M) = sorted_list_of_multiset (image_mset f M)"
    by (rule sorted_mset_eqI)
       (auto simp: sorted_map intro!: sorted_wrt_mono_rel [OF _ sorted_sorted_list_of_multiset] monoD [OF assms])
  then show ?thesis by (simp add: smallest_def take_map [symmetric])
qed

lemma nn_keys_distances: "map fst (smallest k (image_mset nn_key M)) = smallest k (image_mset snd M)"
proof -
  have "mono (fst :: FT \<times> int \<Rightarrow> FT)" by (auto intro!: monoI simp: less_eq_prod_def)
  then show ?thesis using smallest_map_mono [of fst k "image_mset nn_key M"]
    by (simp add: nn_key_def multiset.map_comp comp_def)
qed

text \<open>
  C5. The pruned search from the root returns, for every \<open>k \<ge> 1\<close>, the \<open>k\<close>
  nearest points: the distances and ids in its queue are the \<open>k\<close> smallest of the
  whole tree in the order of the queue (distance, then larger id first), every entry is a
  point of the tree with its computed distance, and the top of a full queue is what
  the brute-force reference \<open>knn_bf\<close> computes.
\<close>

theorem knn_report_exact:
  assumes "mvq_ok 64 t" "\<forall>p\<in>set (collect_records t). safe_point p \<and> point_in_mbr p cur" "1 \<le> k"
  shows "\<exists>q. knn_report t k query_point cur = Some q
    \<and> rev (map nn_key q) = smallest k (image_mset nn_key (nn_pairs query_point (collect_records t)))
    \<and> set q \<subseteq> set_mset (nn_pairs query_point (collect_records t))
    \<and> (k \<le> length (collect_records t) \<longrightarrow>
        map_option snd (pq_top q) = knn_bf k query_point (collect_records t))"
proof -
  let ?P = "collect_records t"
  obtain q where q: "knn_report t k query_point cur = Some q" "by_cmp.holds k (nn_pairs query_point ?P) q"
    using knn_report_node_holds [OF assms(1) frame_root [OF assms(2)] by_cmp.holds_empty assms(3)]
    unfolding knn_report_def by auto
  then have keys: "rev (map nn_key q) = smallest k (image_mset nn_key (nn_pairs query_point ?P))"
    "set q \<subseteq> set_mset (nn_pairs query_point ?P)" by (simp_all add: by_cmp.holds_def)
  have "map fst (rev (map nn_key q)) = smallest k (image_mset snd (nn_pairs query_point ?P))"
    unfolding keys(1) by (rule nn_keys_distances)
  then have d: "rev (map snd q) = smallest k (image_mset snd (nn_pairs query_point ?P))"
    by (simp add: rev_map nn_key_def comp_def)
  have ds: "image_mset snd (nn_pairs query_point ?P) = mset (map (point_point_sqrdis query_point) ?P)"
    unfolding point_point_sqrdis_sym [of query_point]
    by (simp add: nn_pairs_def multiset.map_comp comp_def)
  have s: "smallest k (image_mset snd (nn_pairs query_point ?P)) = take k (sort (map (point_point_sqrdis query_point) ?P))"
    unfolding ds smallest_def sorted_list_of_multiset_mset ..
  have "map_option snd (pq_top q) = knn_bf k query_point ?P" if "k \<le> length ?P"
  proof -
    have len: "length q = k" using arg_cong [OF d, of length] s that by simp
    then obtain x r where xr: "q = x # r" using assms(3) by (cases q) auto
    then have "take k (sort (map (point_point_sqrdis query_point) ?P)) = rev (map snd r) @ [snd x]" "k = Suc (length r)"
      using d s len by simp_all
    then have "sort (map (point_point_sqrdis query_point) ?P) ! (k - 1) = snd x"
      by (metis diff_Suc_1 length_map length_rev lessI nth_append_length nth_take)
    then show ?thesis using that assms(3) xr by (simp add: knn_bf_def pq_top_def Let_def)
  qed
  then show ?thesis using q(1) keys by blast
qed

theorem knn_report_exact_witness:
  "\<exists>q. knn_report (LeafNode [set_code (\<lambda>_. 0) False (Point3 1 2 3)]) 1 (Point2 2 2) (Point2 0 0, Point2 8 8) = Some q
    \<and> map_option snd (pq_top q) = Some 1"
proof -
  let ?t = "LeafNode [set_code (\<lambda>_. 0) False (Point3 1 2 3)]"
  have 1: "mvq_ok 64 ?t" by (simp add: batch_def sorted_by_Cons)
  have 2: "\<forall>p\<in>set (collect_records ?t). safe_point p \<and> point_in_mbr p (Point2 0 0, Point2 8 8)"
    by (simp add: safe_point_def point_in_mbr_def)
  have "knn_bf 1 (Point2 2 2) (collect_records ?t) = Some 1"
    by (simp add: knn_bf_def point_point_sqrdis_def fsub_def fmul_def fadd_def fl_simps)
  then show ?thesis using knn_report_exact [OF 1 2, of 1 "Point2 2 2"] by auto
qed

end
