(* ===== verification/MvqHeap.thy ===== *)
theory MvqHeap
  imports MvqTree "HOL-Library.Monad_Syntax"
begin

text \<open>
  The persistent updates of \<open>mvq.hpp\<close> on an explicit store of nodes. A
  \<open>shared_ptr\<close> is an address or null; allocation takes the next address and
  no address is reused. An update copies a node before it changes it, so the pointer
  it works on is the only owner of its node: an assignment to that pointer destroys the
  node, and its cell is emptied. Every version is a root pointer into the one store, and
  nodes are shared between versions. A null dereference, a visit below level 0 and an access to a
  destroyed node are \<open>None\<close>.
\<close>

section \<open>The store\<close>

type_synonym addr = nat

datatype hnode =
  HLeaf "point list"
| HInte "addr option" "addr option" nat

record heap =
  cells :: "addr \<Rightarrow> hnode option"
  nxt :: addr

definition empty_heap :: heap where
  "empty_heap = \<lparr>cells = (\<lambda>_. None), nxt = 0\<rparr>"

definition alloc :: "heap \<Rightarrow> hnode \<Rightarrow> heap \<times> addr option" where
  "alloc h nd = (h\<lparr>cells := (cells h)(nxt h := Some nd), nxt := Suc (nxt h)\<rparr>, Some (nxt h))"

definition store :: "heap \<Rightarrow> addr \<Rightarrow> hnode \<Rightarrow> heap" where
  "store h a nd = h\<lparr>cells := (cells h)(a := Some nd)\<rparr>"

definition free :: "heap \<Rightarrow> addr \<Rightarrow> heap" where
  "free h a = h\<lparr>cells := (cells h)(a := None)\<rparr>"

definition deref :: "heap \<Rightarrow> addr option \<Rightarrow> hnode option" where
  "deref h x = Option.bind x (cells h)"

fun node_points :: "hnode \<Rightarrow> nat" where
  "node_points (HLeaf records) = length records"
| "node_points (HInte l_son r_son num_pts) = num_pts"

definition num_points_of :: "heap \<Rightarrow> addr option \<Rightarrow> nat option" where
  "num_points_of h x = (if x = None then Some 0 else map_option node_points (deref h x))"

definition node_copy :: "heap \<Rightarrow> addr option \<Rightarrow> (heap \<times> addr option) option" where
  "node_copy h x =
     (if x = None then Some (h, None)
      else do {
        nd \<leftarrow> deref h x;
        Some (alloc h nd) })"

section \<open>Building and inserting\<close>

fun hbuild :: "nat \<Rightarrow> heap \<Rightarrow> point list \<Rightarrow> nat \<Rightarrow> (heap \<times> addr option) option" where
  "hbuild leaf_size h P b =
     (if b = 0 \<or> length P \<le> leaf_size then Some (alloc h (HLeaf P))
      else
        let splitter = split_by_bit P 0 (length P) b in
        do {
          (h1, L) \<leftarrow> (if 0 < splitter then hbuild leaf_size h (take splitter P) (b - 1) else Some (h, None));
          (h2, R) \<leftarrow> (if splitter < length P then hbuild leaf_size h1 (drop splitter P) (b - 1) else Some (h1, None));
          nl \<leftarrow> num_points_of h2 L;
          nr \<leftarrow> num_points_of h2 R;
          Some (alloc h2 (HInte L R (nl + nr))) })"

declare hbuild.simps [simp del]

fun mv_insert_node ::
  "nat \<Rightarrow> heap \<Rightarrow> addr option \<Rightarrow> point list \<Rightarrow> nat \<Rightarrow> (heap \<times> addr option) option" where
  "mv_insert_node leaf_size h x P b =
     (case x of
        None \<Rightarrow> hbuild leaf_size h P b
      | Some a \<Rightarrow>
        (case cells h a of
           None \<Rightarrow> None
         | Some (HLeaf records) \<Rightarrow>
             (if b = 0 \<or> length records + length P \<le> leaf_size
              then Some (store h a (HLeaf (merge_by pt_key records P)), x)
              else do {
                (h', x') \<leftarrow> hbuild leaf_size h (merge_by pt_key records P) b;
                Some (free h' a, x') })
         | Some (HInte l_son r_son num_pts) \<Rightarrow>
             (if b = 0 then None
              else
                let splitter = split_by_bit P 0 (length P) b in
                do {
                  (h2, l') \<leftarrow> (if 0 < splitter then do {
                      (h1, l1) \<leftarrow> node_copy h l_son;
                      mv_insert_node leaf_size h1 l1 (take splitter P) (b - 1) }
                    else Some (h, l_son));
                  (h4, r') \<leftarrow> (if splitter < length P then do {
                      (h3, r1) \<leftarrow> node_copy h2 r_son;
                      mv_insert_node leaf_size h3 r1 (drop splitter P) (b - 1) }
                    else Some (h2, r_son));
                  nl \<leftarrow> num_points_of h4 l';
                  nr \<leftarrow> num_points_of h4 r';
                  Some (store h4 a (HInte l' r' (nl + nr)), x) })))"

declare mv_insert_node.simps [simp del]

definition multi_version_batch_insert_sorted ::
  "nat \<Rightarrow> heap \<Rightarrow> point list \<Rightarrow> addr option \<Rightarrow> (heap \<times> addr option) option" where
  "multi_version_batch_insert_sorted leaf_size h P old_root =
     do {
       (h1, new_root) \<leftarrow> node_copy h old_root;
       mv_insert_node leaf_size h1 new_root P 64 }"

section \<open>Deleting\<close>

text \<open>
  The tail of the deletion at an interior node \<open>a\<close> whose sons are now \<open>l'\<close> and
  \<open>r'\<close>. When the node is to be replaced by its only son or by a merged leaf, the
  assignment to the pointer destroys the node, whose only owner it is, and the code
  then still reads its sons and writes its count through \<open>cur_inte\<close>: undefined, \<open>None\<close>.
\<close>

definition hdelete_collapse ::
  "nat \<Rightarrow> heap \<Rightarrow> addr \<Rightarrow> addr option \<Rightarrow> addr option \<Rightarrow> (heap \<times> addr option) option" where
  "hdelete_collapse leaf_size h a l' r' =
     (if l' = None \<and> r' = None then Some (free h a, None)
      else do {
        nl \<leftarrow> num_points_of h l';
        nr \<leftarrow> num_points_of h r';
        let kept = Some (store h a (HInte l' r' (nl + nr)), Some a);
        if l' = None then (if nr \<le> leaf_size then None else kept)
        else if r' = None then (if nl \<le> leaf_size then None else kept)
        else if nl + nr \<le> leaf_size then None
        else kept })"

fun mv_hdelete_node ::
  "nat \<Rightarrow> heap \<Rightarrow> addr option \<Rightarrow> point list \<Rightarrow> nat \<Rightarrow> (heap \<times> addr option) option" where
  "mv_hdelete_node leaf_size h x P b =
     (case x of
        None \<Rightarrow> Some (h, None)
      | Some a \<Rightarrow>
        (case cells h a of
           None \<Rightarrow> None
         | Some (HLeaf records) \<Rightarrow>
             (let records' = get_delete_p_all records P 0 (length P)
              in if records' = [] then Some (free h a, None) else Some (store h a (HLeaf records'), x))
         | Some (HInte l_son r_son num_pts) \<Rightarrow>
             (if b = 0 then None
              else
                let splitter = split_by_bit P 0 (length P) b in
                do {
                  (h2, l') \<leftarrow> (if 0 < splitter then do {
                      (h1, l1) \<leftarrow> node_copy h l_son;
                      mv_hdelete_node leaf_size h1 l1 (take splitter P) (b - 1) }
                    else Some (h, l_son));
                  (h4, r') \<leftarrow> (if splitter < length P then do {
                      (h3, r1) \<leftarrow> node_copy h2 r_son;
                      mv_hdelete_node leaf_size h3 r1 (drop splitter P) (b - 1) }
                    else Some (h2, r_son));
                  hdelete_collapse leaf_size h4 a l' r' })))"

declare mv_hdelete_node.simps [simp del]

definition multi_version_batch_delete_sorted ::
  "nat \<Rightarrow> heap \<Rightarrow> point list \<Rightarrow> addr option \<Rightarrow> (heap \<times> addr option) option" where
  "multi_version_batch_delete_sorted leaf_size h P old_root =
     do {
       (h1, new_root) \<leftarrow> node_copy h old_root;
       mv_hdelete_node leaf_size h1 new_root P 64 }"

section \<open>Representation\<close>

text \<open>
  \<open>reps h S p t\<close>: the pointer \<open>p\<close> leads to the tree \<open>t\<close> through cells
  whose addresses are in \<open>S\<close>. \<open>shallow h S a t\<close>: the cell \<open>a\<close> itself
  may be outside of \<open>S\<close>.
\<close>

primrec reps :: "heap \<Rightarrow> addr set \<Rightarrow> addr option \<Rightarrow> qtree \<Rightarrow> bool" where
  "reps h S p Null \<longleftrightarrow> p = None"
| "reps h S p (LeafNode records) \<longleftrightarrow> (\<exists>a. p = Some a \<and> a \<in> S \<and> cells h a = Some (HLeaf records))"
| "reps h S p (InteNode l r n) \<longleftrightarrow>
     (\<exists>a pl pr. p = Some a \<and> a \<in> S \<and> cells h a = Some (HInte pl pr n) \<and> reps h S pl l \<and> reps h S pr r)"

primrec shallow :: "heap \<Rightarrow> addr set \<Rightarrow> addr \<Rightarrow> qtree \<Rightarrow> bool" where
  "shallow h S a Null \<longleftrightarrow> False"
| "shallow h S a (LeafNode records) \<longleftrightarrow> cells h a = Some (HLeaf records)"
| "shallow h S a (InteNode l r n) \<longleftrightarrow>
     (\<exists>pl pr. cells h a = Some (HInte pl pr n) \<and> reps h S pl l \<and> reps h S pr r)"

definition unchanged :: "addr set \<Rightarrow> heap \<Rightarrow> heap \<Rightarrow> bool" where
  "unchanged S h h' \<longleftrightarrow> (\<forall>a\<in>S. cells h' a = cells h a)"

lemma unchanged_refl [simp]: "unchanged S h h"
  by (simp add: unchanged_def)

lemma unchanged_trans: "unchanged S h h1 \<Longrightarrow> unchanged S h1 h2 \<Longrightarrow> unchanged S h h2"
  by (simp add: unchanged_def)

lemma unchanged_subset: "unchanged S h h' \<Longrightarrow> T \<subseteq> S \<Longrightarrow> unchanged T h h'"
  by (auto simp: unchanged_def)

lemma unchanged_store: "a \<notin> S \<Longrightarrow> unchanged S h (store h a nd)"
  by (auto simp: unchanged_def store_def)

lemma unchanged_free: "a \<notin> S \<Longrightarrow> unchanged S h (free h a)"
  by (auto simp: unchanged_def free_def)

lemma free_nxt [simp]: "nxt (free h a) = nxt h"
  by (simp add: free_def)

lemma reps_subset: "reps h S p t \<Longrightarrow> S \<subseteq> T \<Longrightarrow> reps h T p t"
  by (induction t arbitrary: p) auto

lemma reps_frame: "reps h S p t \<Longrightarrow> unchanged S h h' \<Longrightarrow> reps h' S p t"
  by (induction t arbitrary: p) (auto simp: unchanged_def)

lemma reps_None [simp]: "reps h S None t \<longleftrightarrow> t = Null"
  by (cases t) auto

lemma reps_None_iff: "reps h S p t \<Longrightarrow> p = None \<longleftrightarrow> t = Null"
  by (cases t) auto

lemma reps_shallow: "reps h S (Some a) t \<longleftrightarrow> a \<in> S \<and> shallow h S a t"
  by (cases t) auto

lemma shallow_frame: "shallow h S a t \<Longrightarrow> unchanged S h h' \<Longrightarrow> cells h' a = cells h a \<Longrightarrow> shallow h' S a t"
  by (cases t) (auto dest: reps_frame)

lemma shallow_subset: "shallow h S a t \<Longrightarrow> S \<subseteq> T \<Longrightarrow> shallow h T a t"
  by (cases t) (auto intro: reps_subset)

lemma num_points_reps: "reps h S p t \<Longrightarrow> num_points_of h p = Some (get_num_points t)"
  by (cases t) (auto simp: num_points_of_def deref_def)

lemma store_nxt [simp]: "nxt (store h a nd) = nxt h"
  by (simp add: store_def)

lemma store_cell [simp]: "cells (store h a nd) a = Some nd"
  by (simp add: store_def)

section \<open>The persistent insertion refines the insertion on trees\<close>

text \<open>
  The outcome of an operation whose own cell is in \<open>own\<close>, started in
  \<open>h\<close>: the result is built from \<open>S\<close>, \<open>own\<close> and fresh cells, and
  of the cells of \<open>h\<close> only those of \<open>own\<close> may change.
\<close>

definition outcome :: "heap \<Rightarrow> addr set \<Rightarrow> addr set \<Rightarrow> heap \<times> addr option \<Rightarrow> qtree \<Rightarrow> bool" where
  "outcome h S own res t \<longleftrightarrow>
     reps (fst res) (S \<union> own \<union> {nxt h..<nxt (fst res)}) (snd res) t
     \<and> nxt h \<le> nxt (fst res) \<and> unchanged ({..<nxt h} - own) h (fst res)"

lemma outcomeD:
  assumes "outcome h S own (h', p) t"
  shows "reps h' (S \<union> own \<union> {nxt h..<nxt h'}) p t" "nxt h \<le> nxt h'" "unchanged ({..<nxt h} - own) h h'"
  using assms by (auto simp: outcome_def)

lemma outcome_same: "reps h S p t \<Longrightarrow> outcome h S {} (h, p) t"
  by (simp add: outcome_def)

lemma alloc_facts:
  assumes "alloc h nd = (h', p)"
  shows "p = Some (nxt h)" "nxt h' = Suc (nxt h)" "cells h' (nxt h) = Some nd" "unchanged {..<nxt h} h h'"
  using assms by (auto simp: alloc_def unchanged_def)

lemma outcome_alloc_leaf: "outcome h S {} (alloc h (HLeaf P)) (LeafNode P)"
  by (auto simp: outcome_def alloc_def unchanged_def)

text \<open>Two operations in sequence, each on its own side, with sons from \<open>S\<close>.\<close>

lemma outcome_pair:
  assumes L: "outcome h S {} (h1, pl) l" and R: "outcome h1 S {} (h2, pr) r"
    and S: "S \<subseteq> {..<nxt h}"
  shows "reps h2 (S \<union> {nxt h..<nxt h2}) pl l" "reps h2 (S \<union> {nxt h..<nxt h2}) pr r"
    "nxt h \<le> nxt h2" "unchanged {..<nxt h} h h2"
proof -
  note l = outcomeD [OF L] and r = outcomeD [OF R]
  have "unchanged (S \<union> {nxt h..<nxt h1}) h1 h2"
    by (rule unchanged_subset [OF r(3)]) (use S l(2) in auto)
  then have "reps h2 (S \<union> {nxt h..<nxt h1}) pl l" using reps_frame l(1) by simp
  then show "reps h2 (S \<union> {nxt h..<nxt h2}) pl l" by (rule reps_subset) (use r(2) in auto)
  show "reps h2 (S \<union> {nxt h..<nxt h2}) pr r" by (rule reps_subset [OF r(1)]) (use l(2) in auto)
  show "nxt h \<le> nxt h2" using l(2) r(2) by simp
  have "unchanged {..<nxt h} h1 h2" by (rule unchanged_subset [OF r(3)]) (use l(2) in auto)
  then show "unchanged {..<nxt h} h h2" using unchanged_trans l(3) by simp
qed

lemma hbuild_refines:
  assumes "S \<subseteq> {..<nxt h}"
  shows "\<exists>res. hbuild leaf_size h P b = Some res \<and> outcome h S {} res (build leaf_size P b)"
  using assms
proof (induction leaf_size P b arbitrary: h rule: build.induct)
  case (1 leaf_size P b)
  show ?case
  proof (cases "b = 0 \<or> length P \<le> leaf_size")
    case True
    then show ?thesis
      by (auto simp: hbuild.simps [of leaf_size h P b] build.simps [of leaf_size P b] create_leaf_def
          outcome_alloc_leaf simp del: create_internal_eq)
  next
    case False
    define s where "s = split_by_bit P 0 (length P) b"
    define L where "L = (if 0 < s then build leaf_size (take s P) (b - 1) else Null)"
    define R where "R = (if s < length P then build leaf_size (drop s P) (b - 1) else Null)"
    obtain h1 pl where l: "(if 0 < s then hbuild leaf_size h (take s P) (b - 1) else Some (h, None)) = Some (h1, pl)"
      "outcome h S {} (h1, pl) L"
      using "1.IH"(1) [OF False s_def _ "1.prems"] unfolding L_def
      by (cases "0 < s") (auto simp: outcome_same)
    have S1: "S \<subseteq> {..<nxt h1}" using "1.prems" outcomeD(2) [OF l(2)] by auto
    obtain h2 pr where r: "(if s < length P then hbuild leaf_size h1 (drop s P) (b - 1) else Some (h1, None)) = Some (h2, pr)"
      "outcome h1 S {} (h2, pr) R"
      using "1.IH"(2) [OF False s_def L_def _ S1] unfolding R_def
      by (cases "s < length P") (auto simp: outcome_same)
    note pair = outcome_pair [OF l(2) r(2) "1.prems"]
    define res where "res = alloc h2 (HInte pl pr (get_num_points L + get_num_points R))"
    have "hbuild leaf_size h P b = Some res"
      using False l(1) r(1) num_points_reps [OF pair(1)] num_points_reps [OF pair(2)] unfolding res_def s_def
      by (subst hbuild.simps) (simp add: Let_def)
    moreover have "build leaf_size P b = create_internal L R"
      using False unfolding L_def R_def s_def by (subst build.simps) (simp add: Let_def)
    moreover obtain h3 p where a: "res = (h3, p)" by fastforce
    note af = alloc_facts [OF a [unfolded res_def]]
    have un: "unchanged (S \<union> {nxt h..<nxt h2}) h2 h3"
      by (rule unchanged_subset [OF af(4)]) (use "1.prems" pair(3) in auto)
    have "reps h3 (S \<union> {nxt h..<nxt h3}) p (create_internal L R)"
      using reps_frame [OF pair(1) un] reps_frame [OF pair(2) un] af pair(3)
      by (auto intro: reps_subset)
    moreover have "unchanged {..<nxt h} h h3"
      by (rule unchanged_trans [OF pair(4)], rule unchanged_subset [OF af(4)]) (use pair(3) in auto)
    ultimately show ?thesis using a af(2) pair(3) by (auto simp: outcome_def)
  qed
qed

text \<open>
  \<open>refines_op op S t t'\<close>: run on a fresh cell that holds \<open>t\<close> (or on null), the
  operation yields \<open>t'\<close> and touches only that cell and fresh ones. A son is first
  copied and then handed to such an operation.
\<close>

definition refines_op ::
  "(heap \<Rightarrow> addr option \<Rightarrow> (heap \<times> addr option) option) \<Rightarrow> addr set \<Rightarrow> qtree \<Rightarrow> qtree \<Rightarrow> bool" where
  "refines_op opn S t t' \<longleftrightarrow> (\<forall>h. S \<subseteq> {..<nxt h} \<longrightarrow>
     (t = Null \<longrightarrow> (\<exists>res. opn h None = Some res \<and> outcome h S {} res t')) \<and>
     (\<forall>a. a \<notin> S \<and> a < nxt h \<and> shallow h S a t \<longrightarrow>
        (\<exists>res. opn h (Some a) = Some res \<and> outcome h S {a} res t')))"

lemma refines_opI:
  assumes "\<And>h. S \<subseteq> {..<nxt h} \<Longrightarrow> t = Null \<Longrightarrow> \<exists>res. opn h None = Some res \<and> outcome h S {} res t'"
    and "\<And>h a. S \<subseteq> {..<nxt h} \<Longrightarrow> a \<notin> S \<Longrightarrow> a < nxt h \<Longrightarrow> shallow h S a t \<Longrightarrow>
        \<exists>res. opn h (Some a) = Some res \<and> outcome h S {a} res t'"
  shows "refines_op opn S t t'"
  using assms unfolding refines_op_def by blast

lemma refines_opD:
  assumes "refines_op opn S t t'" "S \<subseteq> {..<nxt h}"
  shows "t = Null \<Longrightarrow> \<exists>res. opn h None = Some res \<and> outcome h S {} res t'"
    and "a \<notin> S \<Longrightarrow> a < nxt h \<Longrightarrow> shallow h S a t \<Longrightarrow>
        \<exists>res. opn h (Some a) = Some res \<and> outcome h S {a} res t'"
  using assms unfolding refines_op_def by blast+

lemma copy_step:
  assumes "refines_op opn S t t'" "reps h S p t" "S \<subseteq> {..<nxt h}"
  shows "\<exists>h' p'. (do { (h1, p1) \<leftarrow> node_copy h p; opn h1 p1 }) = Some (h', p') \<and> outcome h S {} (h', p') t'"
proof (cases p)
  case None
  then have "t = Null" using assms(2) by simp
  then obtain res where "opn h None = Some res" "outcome h S {} res t'"
    using refines_opD(1) [OF assms(1,3)] by blast
  then show ?thesis using None by (cases res) (auto simp: node_copy_def)
next
  case (Some a)
  then have a: "a \<in> S" "shallow h S a t" using assms(2) reps_shallow by auto
  obtain nd where nd: "cells h a = Some nd" using a(2) by (cases t) auto
  obtain h1 p1 where h1: "alloc h nd = (h1, p1)" by fastforce
  note af = alloc_facts [OF h1]
  have "unchanged S h h1" by (rule unchanged_subset [OF af(4) assms(3)])
  then have "shallow h1 S (nxt h) t" using a(2) nd af(3)
    by (cases t) (auto dest: reps_frame)
  moreover have "nxt h \<notin> S" "S \<subseteq> {..<nxt h1}" using assms(3) af(2) by auto
  ultimately obtain h' p' where op: "opn h1 (Some (nxt h)) = Some (h', p')" "outcome h1 S {nxt h} (h', p') t'"
    using refines_opD(2) [OF assms(1)] af(2) by (metis lessI surj_pair)
  note o = outcomeD [OF op(2)]
  have "S \<union> {nxt h} \<union> {nxt h1..<nxt h'} = S \<union> {nxt h..<nxt h'}" using o(2) af(2) by auto
  moreover have "unchanged {..<nxt h} h1 h'" by (rule unchanged_subset [OF o(3)]) (use af(2) in auto)
  ultimately have "outcome h S {} (h', p') t'"
    using o unchanged_trans [OF af(4)] af(2) by (auto simp: outcome_def)
  then show ?thesis using Some nd h1 op(1) af(1) by (simp add: node_copy_def deref_def)
qed

text \<open>Writing the own cell after both sons have been handled.\<close>

lemma outcome_store:
  assumes S: "S \<subseteq> {..<nxt h}" "a \<notin> S" "a < nxt h" "nxt h \<le> nxt h2" "unchanged {..<nxt h} h h2"
    and "reps h2 (S \<union> {nxt h..<nxt h2}) pl l" "reps h2 (S \<union> {nxt h..<nxt h2}) pr r"
  shows "outcome h S {a} (store h2 a (HInte pl pr n), Some a) (InteNode l r n)"
proof -
  have un: "unchanged (S \<union> {nxt h..<nxt h2}) h2 (store h2 a nd)" for nd
    by (rule unchanged_store) (use S in auto)
  have fr: "unchanged ({..<nxt h} - {a}) h (store h2 a nd)" for nd
    by (rule unchanged_trans [OF unchanged_subset [OF S(5)] unchanged_store]) auto
  have sub: "S \<union> {nxt h..<nxt h2} \<subseteq> S \<union> {a} \<union> {nxt h..<nxt h2}" by auto
  note l = reps_subset [OF reps_frame [OF assms(6) un] sub]
    and r = reps_subset [OF reps_frame [OF assms(7) un] sub]
  show ?thesis using l r fr S(4) by (simp add: outcome_def)
qed

text \<open>Destroying the own node.\<close>

lemma outcome_free:
  assumes "a \<notin> S" "a < nxt h" "outcome h S {} (h2, p) t"
  shows "outcome h S {a} (free h2 a, p) t"
proof -
  note o = outcomeD [OF assms(3)]
  have "reps (free h2 a) (S \<union> {nxt h..<nxt h2}) p t"
    using reps_frame [OF _ unchanged_free] o(1) assms(1,2) by simp
  then have "reps (free h2 a) (S \<union> {a} \<union> {nxt h..<nxt h2}) p t" by (rule reps_subset) auto
  moreover have "unchanged ({..<nxt h} - {a}) h2 (free h2 a)" by (rule unchanged_free) simp
  then have "unchanged ({..<nxt h} - {a}) h (free h2 a)"
    using unchanged_trans unchanged_subset [OF o(3)] by (metis Diff_empty Diff_subset)
  ultimately show ?thesis using o(2) by (simp add: outcome_def)
qed

lemma outcome_free_null:
  assumes "nxt h \<le> nxt h2" "unchanged {..<nxt h} h h2"
  shows "outcome h S {a} (free h2 a, None) Null"
  using assms by (auto simp: outcome_def free_def unchanged_def)

lemma outcome_store_leaf:
  assumes "a \<notin> S" shows "outcome h S {a} (store h a (HLeaf rs), Some a) (LeafNode rs)"
  using unchanged_store [of a "{..<nxt h} - {a}" h "HLeaf rs"] by (simp add: outcome_def)

lemma outcome_weaken: "outcome h S {} res t \<Longrightarrow> outcome h S {a} res t"
  by (auto simp: outcome_def elim: reps_subset unchanged_subset)

lemma mv_insert_node_refines:
  "mvq_ok b t \<Longrightarrow>
   refines_op (\<lambda>h x. mv_insert_node leaf_size h x P b) S t (batch_insert_sorted_node leaf_size t P b)"
proof (induction t arbitrary: P b)
  case Null
  show ?case
    by (rule refines_opI) (use hbuild_refines in \<open>simp_all add: mv_insert_node.simps [where x = None]\<close>)
next
  case (LeafNode rs)
  show ?case
  proof (rule refines_opI)
    fix h a assume S: "S \<subseteq> {..<nxt h}" and a: "a \<notin> S" "a < nxt h" "shallow h S a (LeafNode rs)"
    show "\<exists>res. mv_insert_node leaf_size h (Some a) P b = Some res \<and>
        outcome h S {a} res (batch_insert_sorted_node leaf_size (LeafNode rs) P b)"
    proof (cases "b = 0 \<or> length rs + length P \<le> leaf_size")
      case True
      then show ?thesis using a outcome_store_leaf by (auto simp: mv_insert_node.simps [where x = "Some a"])
    next
      case False
      obtain h' p where "hbuild leaf_size h (merge_by pt_key rs P) b = Some (h', p)"
        "outcome h S {} (h', p) (build leaf_size (merge_by pt_key rs P) b)"
        using hbuild_refines [OF S, of leaf_size "merge_by pt_key rs P" b] by (metis surj_pair)
      then show ?thesis using False a outcome_free [OF a(1,2)]
        by (auto simp: mv_insert_node.simps [where x = "Some a"])
    qed
  qed simp
next
  case (InteNode l r n)
  define s where "s = split_by_bit P 0 (length P) b"
  define l' where "l' = (if 0 < s then batch_insert_sorted_node leaf_size l (take s P) (b - 1) else l)"
  define r' where "r' = (if s < length P then batch_insert_sorted_node leaf_size r (drop s P) (b - 1) else r)"
  have b: "b \<noteq> 0" "mvq_ok (b - 1) l" "mvq_ok (b - 1) r" using InteNode.prems by auto
  have res: "batch_insert_sorted_node leaf_size (InteNode l r n) P b = delete_merge_nodes l' r'"
    by (simp add: l'_def r'_def s_def Let_def)
  show ?case
  proof (rule refines_opI)
    fix h a assume S: "S \<subseteq> {..<nxt h}" and a: "a \<notin> S" "a < nxt h" "shallow h S a (InteNode l r n)"
    then obtain pl pr where cell: "cells h a = Some (HInte pl pr n)" "reps h S pl l" "reps h S pr r" by auto
    obtain h2 pl' where L: "(if 0 < s then do { (h1, l1) \<leftarrow> node_copy h pl;
          mv_insert_node leaf_size h1 l1 (take s P) (b - 1) } else Some (h, pl)) = Some (h2, pl')"
      "outcome h S {} (h2, pl') l'"
      using copy_step [OF InteNode.IH(1) [OF b(2)] cell(2) S, of "take s P"] outcome_same [OF cell(2)]
      unfolding l'_def by (cases "0 < s") auto
    have S2: "S \<subseteq> {..<nxt h2}" using S outcomeD(2) [OF L(2)] by auto
    have r2: "reps h2 S pr r"
      by (rule reps_frame [OF cell(3)], rule unchanged_subset [OF outcomeD(3) [OF L(2)]]) (use S in auto)
    obtain h4 pr' where R: "(if s < length P then do { (h3, r1) \<leftarrow> node_copy h2 pr;
          mv_insert_node leaf_size h3 r1 (drop s P) (b - 1) } else Some (h2, pr)) = Some (h4, pr')"
      "outcome h2 S {} (h4, pr') r'"
      using copy_step [OF InteNode.IH(2) [OF b(3)] r2 S2, of "drop s P"] outcome_same [OF r2]
      unfolding r'_def by (cases "s < length P") auto
    note pair = outcome_pair [OF L(2) R(2) S]
    have "mv_insert_node leaf_size h (Some a) P b =
        Some (store h4 a (HInte pl' pr' (get_num_points l' + get_num_points r')), Some a)"
      using L(1) R(1) b(1) num_points_reps [OF pair(1)] num_points_reps [OF pair(2)]
      unfolding s_def by (subst mv_insert_node.simps) (simp add: cell Let_def)
    then show "\<exists>res. mv_insert_node leaf_size h (Some a) P b = Some res \<and>
        outcome h S {a} res (batch_insert_sorted_node leaf_size (InteNode l r n) P b)"
      unfolding res using outcome_store(1) [OF S a(1,2) pair(3,4,1,2)] by simp
  qed simp
qed

section \<open>The persistent deletion refines the deletion on trees\<close>

text \<open>
  \<open>merges_at leaf_size l r\<close>: a node left with these sons is replaced. \<open>collapses leaf_size t P b\<close>:
  the deletion of \<open>P\<close> replaces some node of \<open>t\<close> in this way.
\<close>

definition merges_at :: "nat \<Rightarrow> qtree \<Rightarrow> qtree \<Rightarrow> bool" where
  "merges_at leaf_size l r \<longleftrightarrow> (l \<noteq> Null \<or> r \<noteq> Null) \<and> get_num_points l + get_num_points r \<le> leaf_size"

fun collapses :: "nat \<Rightarrow> qtree \<Rightarrow> point list \<Rightarrow> nat \<Rightarrow> bool" where
  "collapses leaf_size (InteNode l r n) P b =
     (let splitter = split_by_bit P 0 (length P) b;
          left = take splitter P; right = drop splitter P
      in (0 < splitter \<and> collapses leaf_size l left (b - 1)) \<or>
         (splitter < length P \<and> collapses leaf_size r right (b - 1)) \<or>
         (case (if 0 < splitter then mv_delete_node leaf_size l left (b - 1) else Some l,
                if splitter < length P then mv_delete_node leaf_size r right (b - 1) else Some r) of
            (Some l', Some r') \<Rightarrow> merges_at leaf_size l' r'
          | _ \<Rightarrow> False))"
| "collapses leaf_size t P b = False"

lemma hdelete_collapse_refines:
  assumes S: "S \<subseteq> {..<nxt h}" "a \<notin> S" "a < nxt h" "nxt h \<le> nxt h2" "unchanged {..<nxt h} h h2"
    and L: "reps h2 (S \<union> {nxt h..<nxt h2}) pl l" and R: "reps h2 (S \<union> {nxt h..<nxt h2}) pr r"
    and t: "delete_collapse leaf_size l r = Some t"
  shows "if merges_at leaf_size l r then hdelete_collapse leaf_size h2 a pl pr = None
    else \<exists>res. hdelete_collapse leaf_size h2 a pl pr = Some res \<and> outcome h S {a} res t"
proof -
  note nums = num_points_reps [OF L] num_points_reps [OF R]
  note null = reps_None_iff [OF L] reps_None_iff [OF R]
  show ?thesis
  proof (cases "l = Null \<and> r = Null")
    case True
    then have "t = Null" using t by (simp add: delete_collapse_def)
    then show ?thesis using True null outcome_free_null [OF S(4,5)] by (simp add: merges_at_def hdelete_collapse_def)
  next
    case some: False
    show ?thesis
    proof (cases "get_num_points l + get_num_points r \<le> leaf_size")
      case True
      then show ?thesis using some nums null by (auto simp: merges_at_def hdelete_collapse_def Let_def)
    next
      case False
      then have "t = InteNode l r (get_num_points l + get_num_points r)"
        using t some by (auto simp: delete_collapse_def split: if_splits)
      moreover have "hdelete_collapse leaf_size h2 a pl pr =
          Some (store h2 a (HInte pl pr (get_num_points l + get_num_points r)), Some a)"
        using False some nums null by (auto simp: hdelete_collapse_def Let_def)
      ultimately show ?thesis using False outcome_store [OF S L R] by (simp add: merges_at_def)
    qed
  qed
qed

text \<open>\<open>fails_op\<close>: run on a copy of \<open>t\<close>, the operation is undefined.\<close>

definition fails_op ::
  "(heap \<Rightarrow> addr option \<Rightarrow> (heap \<times> addr option) option) \<Rightarrow> addr set \<Rightarrow> qtree \<Rightarrow> bool" where
  "fails_op opn S t \<longleftrightarrow> t \<noteq> Null \<and> (\<forall>h a. S \<subseteq> {..<nxt h} \<and> a \<notin> S \<and> a < nxt h \<and> shallow h S a t \<longrightarrow> opn h (Some a) = None)"

lemma copy_step_fails:
  assumes "fails_op opn S t" "reps h S p t" "S \<subseteq> {..<nxt h}"
  shows "(do { (h1, p1) \<leftarrow> node_copy h p; opn h1 p1 }) = None"
proof -
  obtain a where p: "p = Some a" using assms(1,2) reps_None_iff [OF assms(2)] by (auto simp: fails_op_def)
  then have a: "a \<in> S" "shallow h S a t" using assms(2) reps_shallow by auto
  obtain nd where nd: "cells h a = Some nd" using a(2) by (cases t) auto
  obtain h1 p1 where h1: "alloc h nd = (h1, p1)" by fastforce
  note af = alloc_facts [OF h1]
  have "unchanged S h h1" by (rule unchanged_subset [OF af(4) assms(3)])
  then have "shallow h1 S (nxt h) t" using a(2) nd af(3)
    by (cases t) (auto dest: reps_frame)
  moreover have "nxt h \<notin> S" "S \<subseteq> {..<nxt h1}" using assms(3) af(2) by auto
  ultimately have "opn h1 (Some (nxt h)) = None" using assms(1) af(2) unfolding fails_op_def by simp
  then show ?thesis using p nd h1 af(1) by (simp add: node_copy_def deref_def)
qed

text \<open>The deletion is undefined when it collapses a node, and refines the one on trees otherwise.\<close>

lemma mv_hdelete_node_refines:
  "mvq_ok b t \<Longrightarrow> mv_delete_node leaf_size t P b = Some t' \<Longrightarrow>
   if collapses leaf_size t P b then fails_op (\<lambda>h x. mv_hdelete_node leaf_size h x P b) S t
   else refines_op (\<lambda>h x. mv_hdelete_node leaf_size h x P b) S t t'"
proof (induction t arbitrary: P b t')
  case Null
  then show ?case
    by (simp, intro refines_opI) (auto simp: mv_hdelete_node.simps [where x = None] outcome_same)
next
  case (LeafNode rs)
  define rs' where "rs' = get_delete_p_all rs P 0 (length P)"
  have t': "t' = (if rs' = [] then Null else LeafNode rs')"
    using LeafNode.prems(2) by (auto simp: rs'_def Let_def split: if_splits)
  have "refines_op (\<lambda>h x. mv_hdelete_node leaf_size h x P b) S (LeafNode rs) t'"
  proof (rule refines_opI)
    fix h a assume S: "S \<subseteq> {..<nxt h}" and a: "a \<notin> S" "a < nxt h" "shallow h S a (LeafNode rs)"
    then show "\<exists>res. mv_hdelete_node leaf_size h (Some a) P b = Some res \<and> outcome h S {a} res t'"
      using outcome_store_leaf [OF a(1)] outcome_free_null [of h h] unfolding t'
      by (auto simp: mv_hdelete_node.simps [where x = "Some a"] rs'_def Let_def)
  qed simp
  then show ?case by simp
next
  case (InteNode l r n)
  define s where "s = split_by_bit P 0 (length P) b"
  define cl where "cl \<longleftrightarrow> 0 < s \<and> collapses leaf_size l (take s P) (b - 1)"
  define cr where "cr \<longleftrightarrow> s < length P \<and> collapses leaf_size r (drop s P) (b - 1)"
  have b: "b \<noteq> 0" "mvq_ok (b - 1) l" "mvq_ok (b - 1) r" using InteNode.prems(1) by auto
  obtain l' r' where
    l': "(if 0 < s then mv_delete_node leaf_size l (take s P) (b - 1) else Some l) = Some l'" and
    r': "(if s < length P then mv_delete_node leaf_size r (drop s P) (b - 1) else Some r) = Some r'" and
    t': "delete_collapse leaf_size l' r' = Some t'"
    using InteNode.prems(2) unfolding mv_delete_node.simps Let_def s_def [symmetric]
    by (auto split: option.splits)
  have c: "collapses leaf_size (InteNode l r n) P b \<longleftrightarrow> cl \<or> cr \<or> merges_at leaf_size l' r'"
    unfolding collapses.simps Let_def s_def [symmetric] l' r' cl_def cr_def by simp
  have run: "if cl \<or> cr \<or> merges_at leaf_size l' r' then mv_hdelete_node leaf_size h (Some a) P b = None
      else \<exists>res. mv_hdelete_node leaf_size h (Some a) P b = Some res \<and> outcome h S {a} res t'"
    if S: "S \<subseteq> {..<nxt h}" and a: "a \<notin> S" "a < nxt h" "shallow h S a (InteNode l r n)" for h a
  proof -
    obtain pl pr where cell: "cells h a = Some (HInte pl pr n)" "reps h S pl l" "reps h S pr r" using a(3) by auto
    define lrun where "lrun = (if 0 < s then do { (h1, l1) \<leftarrow> node_copy h pl;
          mv_hdelete_node leaf_size h1 l1 (take s P) (b - 1) } else Some (h, pl))"
    define rrun where "rrun h2 = (if s < length P then do { (h3, r1) \<leftarrow> node_copy h2 pr;
          mv_hdelete_node leaf_size h3 r1 (drop s P) (b - 1) } else Some (h2, pr))" for h2
    have eq: "mv_hdelete_node leaf_size h (Some a) P b =
        do { (h2, l') \<leftarrow> lrun; (h4, r') \<leftarrow> rrun h2; hdelete_collapse leaf_size h4 a l' r' }"
      using b(1) unfolding lrun_def rrun_def s_def by (subst mv_hdelete_node.simps) (simp add: cell Let_def)
    show ?thesis
    proof (cases cl)
      case True
      then have "lrun = None"
        using copy_step_fails [OF _ cell(2) S] InteNode.IH(1) [OF b(2), of "take s P"] l' unfolding lrun_def cl_def by auto
      then show ?thesis using True eq by simp
    next
      case ncl: False
      obtain h2 pl' where L: "lrun = Some (h2, pl')" "outcome h S {} (h2, pl') l'"
        using copy_step [OF _ cell(2) S, of "\<lambda>h x. mv_hdelete_node leaf_size h x (take s P) (b - 1)" l']
          InteNode.IH(1) [OF b(2), of "take s P"] outcome_same [OF cell(2)] l' ncl
        unfolding lrun_def cl_def by (cases "0 < s") auto
      have S2: "S \<subseteq> {..<nxt h2}" using S outcomeD(2) [OF L(2)] by auto
      have r2: "reps h2 S pr r"
        by (rule reps_frame [OF cell(3)], rule unchanged_subset [OF outcomeD(3) [OF L(2)]]) (use S in auto)
      show ?thesis
      proof (cases cr)
        case True
        then have "rrun h2 = None"
          using copy_step_fails [OF _ r2 S2] InteNode.IH(2) [OF b(3), of "drop s P"] r' unfolding rrun_def cr_def by auto
        then show ?thesis using True eq L(1) by simp
      next
        case ncr: False
        obtain h4 pr' where R: "rrun h2 = Some (h4, pr')" "outcome h2 S {} (h4, pr') r'"
          using copy_step [OF _ r2 S2, of "\<lambda>h x. mv_hdelete_node leaf_size h x (drop s P) (b - 1)" r']
            InteNode.IH(2) [OF b(3), of "drop s P"] outcome_same [OF r2] r' ncr
          unfolding rrun_def cr_def by (cases "s < length P") auto
        note pair = outcome_pair [OF L(2) R(2) S]
        show ?thesis
          using hdelete_collapse_refines [OF S a(1,2) pair(3,4,1,2) t'] ncl ncr L(1) R(1) by (simp add: eq del: split_paired_Ex)
      qed
    qed
  qed
  then show ?case
    unfolding c fails_op_def by (auto intro: refines_opI)
qed

section \<open>Versions\<close>

text \<open>
  Reading a version back: the tree a pointer leads to, down to a depth. Trees of
  the invariant have depth at most 64.
\<close>

fun tree_of :: "heap \<Rightarrow> addr option \<Rightarrow> nat \<Rightarrow> qtree option" where
  "tree_of h x d =
     (case x of
        None \<Rightarrow> Some Null
      | Some a \<Rightarrow>
        (case cells h a of
           None \<Rightarrow> None
         | Some (HLeaf records) \<Rightarrow> Some (LeafNode records)
         | Some (HInte l_son r_son num_pts) \<Rightarrow>
             (if d = 0 then None
              else do {
                l \<leftarrow> tree_of h l_son (d - 1);
                r \<leftarrow> tree_of h r_son (d - 1);
                Some (InteNode l r num_pts) })))"

declare tree_of.simps [simp del]

lemma tree_of_reps: "reps h S p t \<Longrightarrow> mvq_ok b t \<Longrightarrow> tree_of h p b = Some t"
proof (induction t arbitrary: p b)
  case (InteNode l r n)
  then obtain a pl pr where "p = Some a" "cells h a = Some (HInte pl pr n)" "reps h S pl l" "reps h S pr r"
    by auto
  with InteNode show ?case by (subst tree_of.simps) auto
qed (auto simp: tree_of.simps)

definition version :: "nat \<Rightarrow> heap \<Rightarrow> addr option \<Rightarrow> qtree \<Rightarrow> bool" where
  "version leaf_size h p t \<longleftrightarrow> reps h {..<nxt h} p t \<and> mvq_ok 64 t \<and> dense leaf_size t"

definition extends_heap :: "heap \<Rightarrow> heap \<Rightarrow> bool" where
  "extends_heap h h' \<longleftrightarrow> nxt h \<le> nxt h' \<and> unchanged {..<nxt h} h h'"

lemma extends_heap_trans: "extends_heap h h1 \<Longrightarrow> extends_heap h1 h2 \<Longrightarrow> extends_heap h h2"
  unfolding extends_heap_def by (auto simp: unchanged_def)

lemma version_extends: "version leaf_size h p t \<Longrightarrow> extends_heap h h' \<Longrightarrow> version leaf_size h' p t"
  unfolding version_def extends_heap_def
  by (meson lessThan_subset_iff reps_frame reps_subset)

lemma batch_sorted_points: "batch 64 (snd (get_sorted_points ov P False))"
  unfolding batch_def
  using get_sorted_points_facts(3) [of ov P False] get_sorted_points_zcoded [of ov P]
  by (metis prod.collapse same_cell_64)

lemma mset_sorted_points: "mset (snd (get_sorted_points ov P h)) = mset (map (set_code ov h) P)"
  using get_sorted_points_facts [of ov P h] by (metis prod.collapse)

lemma outcome_version:
  assumes "outcome h {..<nxt h} {} (h', p) t" "mvq_ok 64 t" "dense leaf_size t"
  shows "version leaf_size h' p t" "extends_heap h h'"
proof -
  note o = outcomeD [OF assms(1)]
  have "reps h' {..<nxt h'} p t" by (rule reps_subset [OF o(1)]) (use o(2) in auto)
  then show "version leaf_size h' p t" using assms by (simp add: version_def)
  show "extends_heap h h'" using o(2,3) by (simp add: extends_heap_def)
qed

lemma multi_version_batch_insert_sorted_correct:
  assumes "version leaf_size h p t" "batch 64 P"
  shows "\<exists>h' p'. multi_version_batch_insert_sorted leaf_size h P p = Some (h', p')
    \<and> version leaf_size h' p' (batch_insert_sorted_node leaf_size t P 64) \<and> extends_heap h h'"
proof -
  have v: "reps h {..<nxt h} p t" "mvq_ok 64 t" "dense leaf_size t" using assms(1) by (auto simp: version_def)
  note c = batch_insert_sorted_node_correct [OF v(2,3) assms(2)]
  show ?thesis
    using copy_step [OF mv_insert_node_refines [OF v(2), of leaf_size P] v(1)] outcome_version c
    unfolding multi_version_batch_insert_sorted_def by (metis order_refl same_cell_64)
qed

text \<open>The deletion: undefined if it collapses; \<open>S\<close> is any set of cells that holds the old version.\<close>

lemma multi_version_batch_delete_sorted_fails:
  assumes "version leaf_size h p t" "batch 64 P" "collapses leaf_size t P 64"
  shows "multi_version_batch_delete_sorted leaf_size h P p = None"
proof -
  have v: "reps h {..<nxt h} p t" "mvq_ok 64 t" "dense leaf_size t" using assms(1) by (auto simp: version_def)
  obtain t' where "mv_delete_node leaf_size t P 64 = Some t'"
    using mv_delete_node_correct [OF v(2,3) assms(2)] by auto
  from mv_hdelete_node_refines [OF v(2) this, of "{..<nxt h}"] assms(3)
  have "fails_op (\<lambda>h x. mv_hdelete_node leaf_size h x P 64) {..<nxt h} t" by simp
  from copy_step_fails [OF this v(1)] show ?thesis by (simp add: multi_version_batch_delete_sorted_def)
qed

lemma multi_version_batch_delete_sorted_correct:
  assumes "version leaf_size h p t" "batch 64 P" "\<not> collapses leaf_size t P 64"
    and S: "reps h S p t" "S \<subseteq> {..<nxt h}"
  shows "\<exists>h' p' t'. multi_version_batch_delete_sorted leaf_size h P p = Some (h', p')
    \<and> version leaf_size h' p' t' \<and> extends_heap h h' \<and> reps h' (S \<union> {nxt h..<nxt h'}) p' t'
    \<and> keys_of pt_key (collect_records t') = keys_of pt_key (collect_records t) - keys_of pt_key P"
proof -
  have v: "mvq_ok 64 t" "dense leaf_size t" using assms(1) by (auto simp: version_def)
  obtain t' where t': "mv_delete_node leaf_size t P 64 = Some t'" "mvq_ok 64 t'" "dense leaf_size t'"
    "keys_of pt_key (collect_records t') = keys_of pt_key (collect_records t) - keys_of pt_key P"
    using mv_delete_node_correct [OF v assms(2)] by auto
  have "refines_op (\<lambda>h x. mv_hdelete_node leaf_size h x P 64) S t t'"
    using mv_hdelete_node_refines [OF v(1) t'(1), of S] assms(3) by simp
  from copy_step [OF this S] obtain h' p' where
    d: "multi_version_batch_delete_sorted leaf_size h P p = Some (h', p')" "outcome h S {} (h', p') t'"
    unfolding multi_version_batch_delete_sorted_def by blast
  note o = outcomeD [OF d(2)]
  have "reps h' {..<nxt h'} p' t'" by (rule reps_subset [OF o(1)]) (use o(2) S(2) in auto)
  then show ?thesis using d(1) o t' by (auto simp: version_def extends_heap_def)
qed

definition coded_keys :: "(point \<Rightarrow> 64 word) \<Rightarrow> point list \<Rightarrow> zkey multiset" where
  "coded_keys ov P = keys_of pt_key (map (set_code ov False) P)"

lemma keys_sorted_points: "keys_of pt_key (snd (get_sorted_points ov P False)) = coded_keys ov P"
  unfolding coded_keys_def by (rule keys_of_mset_cong) (rule mset_sorted_points)

section \<open>States\<close>

text \<open>The store with all its version roots.\<close>

record mvq_state =
  mheap :: heap
  multi_version_roots :: "addr option list"

definition init_state :: mvq_state where
  "init_state = \<lparr>mheap = empty_heap, multi_version_roots = [None]\<rparr>"

definition good_state :: "nat \<Rightarrow> mvq_state \<Rightarrow> bool" where
  "good_state leaf_size s \<longleftrightarrow> (\<forall>p\<in>set (multi_version_roots s). \<exists>t. version leaf_size (mheap s) p t)"

lemma good_init: "good_state leaf_size init_state"
  by (simp add: good_state_def init_state_def version_def)

lemma good_version:
  assumes "good_state leaf_size s" "i < length (multi_version_roots s)"
  obtains t where "version leaf_size (mheap s) (multi_version_roots s ! i) t"
  using assms unfolding good_state_def by (meson nth_mem)

lemma read_version:
  assumes "good_state leaf_size s" "i < length (multi_version_roots s)"
    and "tree_of (mheap s) (multi_version_roots s ! i) 64 = Some t"
  shows "version leaf_size (mheap s) (multi_version_roots s ! i) t"
proof -
  obtain u where u: "version leaf_size (mheap s) (multi_version_roots s ! i) u"
    using good_version [OF assms(1,2)] by blast
  then have "u = t" using tree_of_reps assms(3) unfolding version_def by fastforce
  with u show ?thesis by simp
qed

end
