(* ===== verification/MvqReclaim.thy ===== *)
theory MvqReclaim
  imports MvqHeap
begin

text \<open>
  Releasing versions (\<open>mvq.hpp\<close>): reference counts, \<open>shared_ptr::reset\<close>, and the routines
  \<open>gc_nocheck\<close> and \<open>garbage_collect\<close>. A slot is a \<open>shared_ptr\<close> variable: a version
  root (or a local variable, listed with them) or the son of a node. The count of a node is the number
  of slots that hold it. The facts are about a region of the store, closed under the sons
  of its nodes: a release that starts inside stays inside.
\<close>

section \<open>Slots and counts\<close>

datatype slot = Root nat | LSon addr | RSon addr

definition cell_at :: "mvq_state \<Rightarrow> addr \<Rightarrow> hnode option" where
  "cell_at s a = cells (mheap s) a"

definition set_cell :: "mvq_state \<Rightarrow> addr \<Rightarrow> hnode option \<Rightarrow> mvq_state" where
  "set_cell s a nd = s\<lparr>mheap := (mheap s)\<lparr>cells := (cells (mheap s))(a := nd)\<rparr>\<rparr>"

definition read_slot :: "mvq_state \<Rightarrow> slot \<Rightarrow> addr option" where
  "read_slot s sl =
     (case sl of
        Root i \<Rightarrow> multi_version_roots s ! i
      | LSon c \<Rightarrow> (case cell_at s c of Some (HInte l r n) \<Rightarrow> l | _ \<Rightarrow> None)
      | RSon c \<Rightarrow> (case cell_at s c of Some (HInte l r n) \<Rightarrow> r | _ \<Rightarrow> None))"

definition clear_slot :: "mvq_state \<Rightarrow> slot \<Rightarrow> mvq_state" where
  "clear_slot s sl =
     (case sl of
        Root i \<Rightarrow> s\<lparr>multi_version_roots := (multi_version_roots s)[i := None]\<rparr>
      | LSon c \<Rightarrow> (case cell_at s c of Some (HInte l r n) \<Rightarrow> set_cell s c (Some (HInte None r n)) | _ \<Rightarrow> s)
      | RSon c \<Rightarrow> (case cell_at s c of Some (HInte l r n) \<Rightarrow> set_cell s c (Some (HInte l None n)) | _ \<Rightarrow> s))"

fun node_refs :: "hnode option \<Rightarrow> addr \<Rightarrow> nat" where
  "node_refs (Some (HInte l r n)) a = of_bool (l = Some a) + of_bool (r = Some a)"
| "node_refs _ a = 0"

definition use_count :: "mvq_state \<Rightarrow> addr \<Rightarrow> nat" where
  "use_count s a = count_list (multi_version_roots s) (Some a) +
     sum_list (map (\<lambda>c. node_refs (cell_at s c) a) [0..<nxt (mheap s)])"

section \<open>Releasing\<close>

text \<open>
  What happens after a slot that held \<open>x\<close> was cleared: a node that is held no more is
  destroyed, its sons in the reverse order of their declaration. \<open>fuel\<close> bounds the depth.
\<close>

fun release :: "nat \<Rightarrow> mvq_state \<Rightarrow> addr option \<Rightarrow> mvq_state option" where
  "release fuel s None = Some s"
| "release fuel s (Some a) =
     (if use_count s a > 0 then Some s
      else
        (case cell_at s a of
           None \<Rightarrow> None
         | Some (HLeaf records) \<Rightarrow> Some (set_cell s a None)
         | Some (HInte l r n) \<Rightarrow>
             (case fuel of
                0 \<Rightarrow> None
              | Suc f \<Rightarrow> do {
                  s \<leftarrow> release f (clear_slot s (RSon a)) r;
                  s \<leftarrow> release f (clear_slot s (LSon a)) l;
                  Some (set_cell s a None) })))"

definition reset :: "nat \<Rightarrow> mvq_state \<Rightarrow> slot \<Rightarrow> mvq_state option" where
  "reset fuel s sl = release fuel (clear_slot s sl) (read_slot s sl)"

fun gc_nocheck :: "nat \<Rightarrow> mvq_state \<Rightarrow> slot \<Rightarrow> mvq_state option" where
  "gc_nocheck fuel s x =
     (case read_slot s x of
        None \<Rightarrow> Some s
      | Some a \<Rightarrow>
        (case cell_at s a of
           None \<Rightarrow> None
         | Some (HLeaf records) \<Rightarrow> reset fuel s x
         | Some (HInte l r n) \<Rightarrow>
             (if use_count s a = 1
              then (case fuel of
                      0 \<Rightarrow> None
                    | Suc f \<Rightarrow> do {
                        s \<leftarrow> gc_nocheck f s (LSon a);
                        s \<leftarrow> gc_nocheck f s (RSon a);
                        reset fuel s x })
              else reset fuel s x)))"

declare gc_nocheck.simps [simp del]

text \<open>\<open>garbage_collect\<close> with one other version, and with two; \<open>cutoff\<close> is \<open>granularity_cutoff\<close>.\<close>

fun garbage_collect :: "nat \<Rightarrow> nat \<Rightarrow> mvq_state \<Rightarrow> slot \<Rightarrow> slot \<Rightarrow> mvq_state option" where
  "garbage_collect fuel cutoff s base x =
     (case read_slot s x of
        None \<Rightarrow> Some s
      | Some a \<Rightarrow>
        (if read_slot s x = read_slot s base then Some s
         else
           (case cell_at s a of
              None \<Rightarrow> None
            | Some (HLeaf records) \<Rightarrow> reset fuel s x
            | Some (HInte l r n) \<Rightarrow>
                (case read_slot s base of
                   None \<Rightarrow> gc_nocheck fuel s x
                 | Some b \<Rightarrow>
                   (case cell_at s b of
                      None \<Rightarrow> None
                    | Some (HLeaf records) \<Rightarrow> gc_nocheck fuel s x
                    | Some (HInte bl br bn) \<Rightarrow>
                        (case fuel of
                           0 \<Rightarrow> None
                         | Suc f \<Rightarrow> do {
                             s \<leftarrow> (if n > cutoff then do {
                                     s \<leftarrow> garbage_collect f cutoff s (LSon b) (LSon a);
                                     garbage_collect f cutoff s (RSon b) (RSon a) }
                                   else Some s);
                             reset fuel s x }))))))"

declare garbage_collect.simps [simp del]

definition inte_at :: "mvq_state \<Rightarrow> slot \<Rightarrow> addr option" where
  "inte_at s sl =
     (case read_slot s sl of
        None \<Rightarrow> None
      | Some a \<Rightarrow> (case cell_at s a of Some (HInte l r n) \<Rightarrow> Some a | _ \<Rightarrow> None))"

text \<open>The recursive calls pass the sons of \<open>x\<close> and \<open>new_ver\<close> in each other's place.\<close>

fun garbage_collect3 :: "nat \<Rightarrow> nat \<Rightarrow> mvq_state \<Rightarrow> slot \<Rightarrow> slot \<Rightarrow> slot \<Rightarrow> mvq_state option" where
  "garbage_collect3 fuel cutoff s base new_ver x =
     (case read_slot s x of
        None \<Rightarrow> Some s
      | Some a \<Rightarrow>
        (if read_slot s x = read_slot s base \<or> read_slot s x = read_slot s new_ver then Some s
         else
           (case cell_at s a of
              None \<Rightarrow> None
            | Some (HLeaf records) \<Rightarrow> reset fuel s x
            | Some (HInte l r n) \<Rightarrow>
                (case (inte_at s base, inte_at s new_ver) of
                   (None, _) \<Rightarrow> garbage_collect fuel cutoff s new_ver x
                 | (Some b, None) \<Rightarrow> garbage_collect fuel cutoff s base x
                 | (Some b, Some v) \<Rightarrow>
                     (case fuel of
                        0 \<Rightarrow> None
                      | Suc f \<Rightarrow> do {
                          s \<leftarrow> (if n > cutoff then do {
                                  s \<leftarrow> garbage_collect3 f cutoff s (LSon b) (LSon a) (LSon v);
                                  garbage_collect3 f cutoff s (RSon b) (RSon a) (RSon v) }
                                else Some s);
                          reset fuel s x })))))"

declare garbage_collect3.simps [simp del]

section \<open>Counting references\<close>

lemma use_count_sum:
  "use_count s a = card {i. i < length (multi_version_roots s) \<and> multi_version_roots s ! i = Some a} +
     (\<Sum>c<nxt (mheap s). node_refs (cell_at s c) a)"
proof -
  have "{i. i < length xs \<and> Some a = xs ! i} = {i. i < length xs \<and> xs ! i = Some a}" for xs by auto
  then show ?thesis
    by (simp only: use_count_def count_list_eq_length_filter length_filter_conv_card
        interv_sum_list_conv_sum_set_nat set_upt atLeast0LessThan)
qed

lemma cell_at_set_cell [simp]: "cell_at (set_cell s a nd) c = (if c = a then nd else cell_at s c)"
  by (simp add: cell_at_def set_cell_def)

lemma set_cell_sel [simp]:
  "multi_version_roots (set_cell s a nd) = multi_version_roots s" "nxt (mheap (set_cell s a nd)) = nxt (mheap s)"
  by (simp_all add: set_cell_def)

lemma nxt_clear [simp]: "nxt (mheap (clear_slot s sl)) = nxt (mheap s)"
  by (simp add: clear_slot_def split: slot.split option.split hnode.split)

lemma sum_upd:
  fixes f g :: "nat \<Rightarrow> nat"
  assumes "c < n" "\<And>i. i \<noteq> c \<Longrightarrow> g i = f i"
  shows "(\<Sum>i<n. g i) + f c = (\<Sum>i<n. f i) + g c"
proof -
  have "(\<Sum>i<n. h i) = h c + (\<Sum>i\<in>{..<n} - {c}. h i)" for h :: "nat \<Rightarrow> nat"
    using assms(1) by (subst sum.remove [of _ c]) auto
  moreover have "(\<Sum>i\<in>{..<n} - {c}. g i) = (\<Sum>i\<in>{..<n} - {c}. f i)" using assms(2) by (intro sum.cong) auto
  ultimately show ?thesis by simp
qed

text \<open>Changing one cell changes the counts by what the cell refers to.\<close>

lemma use_count_set_cell:
  assumes "c < nxt (mheap s)"
  shows "use_count (set_cell s c nd) a + node_refs (cell_at s c) a = use_count s a + node_refs nd a"
proof -
  have "(\<Sum>i<nxt (mheap s). node_refs (cell_at (set_cell s c nd) i) a) + node_refs (cell_at s c) a =
      (\<Sum>i<nxt (mheap s). node_refs (cell_at s i) a) + node_refs nd a"
    using sum_upd [OF assms, of "\<lambda>i. node_refs (cell_at (set_cell s c nd) i) a" "\<lambda>i. node_refs (cell_at s i) a"] by simp
  then show ?thesis unfolding use_count_sum by simp
qed

text \<open>The region \<open>U\<close> has no cell that is not allocated; the slots in it.\<close>

definition bounded :: "addr set \<Rightarrow> mvq_state \<Rightarrow> bool" where
  "bounded U s \<longleftrightarrow> (\<forall>c\<in>U. cell_at s c \<noteq> None \<longrightarrow> c < nxt (mheap s))"

definition valid_slot :: "addr set \<Rightarrow> mvq_state \<Rightarrow> slot \<Rightarrow> bool" where
  "valid_slot U s sl \<longleftrightarrow> (case sl of Root i \<Rightarrow> i < length (multi_version_roots s) | LSon c \<Rightarrow> c \<in> U | RSon c \<Rightarrow> c \<in> U)"

lemma card_roots_update:
  assumes "i < length xs"
  shows "card {j. j < length xs \<and> xs[i := None] ! j = Some a} + of_bool (xs ! i = Some a) =
    card {j. j < length xs \<and> xs ! j = Some a}"
proof -
  let ?A = "{j. j < length xs \<and> xs ! j = Some a}"
  have e: "{j. j < length xs \<and> xs[i := None] ! j = Some a} = ?A - {i}"
    using assms by (auto simp: nth_list_update split: if_splits)
  show ?thesis
  proof (cases "xs ! i = Some a")
    case True
    then have "i \<in> ?A" "finite ?A" using assms by auto
    then have "card (?A - {i}) + 1 = card ?A" by (metis Suc_eq_plus1 card_Suc_Diff1)
    then show ?thesis using True e by simp
  next
    case False
    then have "?A - {i} = ?A" by auto
    then show ?thesis using False e by simp
  qed
qed

lemma use_count_clear:
  assumes "valid_slot U s sl" "bounded U s"
  shows "use_count (clear_slot s sl) a + of_bool (read_slot s sl = Some a) = use_count s a"
proof (cases sl)
  case (Root i)
  then show ?thesis
    using assms(1) card_roots_update [of i "multi_version_roots s" a]
    by (simp add: use_count_sum clear_slot_def read_slot_def valid_slot_def cell_at_def)
next
  case (LSon c)
  show ?thesis
  proof (cases "\<exists>l r n. cell_at s c = Some (HInte l r n)")
    case True
    then obtain l r n where c: "cell_at s c = Some (HInte l r n)" by blast
    then have "c < nxt (mheap s)" using assms LSon by (auto simp: bounded_def valid_slot_def)
    from use_count_set_cell [OF this, of "Some (HInte None r n)" a] c show ?thesis
      by (simp add: LSon clear_slot_def read_slot_def)
  qed (auto simp: LSon clear_slot_def read_slot_def split: option.split hnode.split)
next
  case (RSon c)
  show ?thesis
  proof (cases "\<exists>l r n. cell_at s c = Some (HInte l r n)")
    case True
    then obtain l r n where c: "cell_at s c = Some (HInte l r n)" by blast
    then have "c < nxt (mheap s)" using assms RSon by (auto simp: bounded_def valid_slot_def)
    from use_count_set_cell [OF this, of "Some (HInte l None n)" a] c show ?thesis
      by (simp add: RSon clear_slot_def read_slot_def)
  qed (auto simp: RSon clear_slot_def read_slot_def split: option.split hnode.split)
qed

section \<open>The invariant of the store\<close>

text \<open>
  In the region \<open>U\<close> every pointer leads to a living node, sons are in the region and have a
  smaller rank than their node: there are no cycles. \<open>orphans\<close> are living nodes that no slot holds.
\<close>

definition store_ok :: "(addr \<Rightarrow> nat) \<Rightarrow> addr set \<Rightarrow> mvq_state \<Rightarrow> bool" where
  "store_ok rank U s \<longleftrightarrow> bounded U s \<and> (\<forall>b\<in>U. use_count s b > 0 \<longrightarrow> cell_at s b \<noteq> None) \<and>
     (\<forall>c\<in>U. \<forall>l r n b. cell_at s c = Some (HInte l r n) \<and> (l = Some b \<or> r = Some b) \<longrightarrow> b \<in> U \<and> rank b < rank c)"

definition orphans :: "mvq_state \<Rightarrow> addr set" where
  "orphans s = {a. cell_at s a \<noteq> None \<and> use_count s a = 0}"

fun slot_owner :: "slot \<Rightarrow> addr set" where
  "slot_owner (Root i) = {}"
| "slot_owner (LSon c) = {c}"
| "slot_owner (RSon c) = {c}"

text \<open>\<open>held K J s\<close>: the living nodes \<open>K\<close> are held by roots of \<open>J\<close> or by each other.\<close>

definition held :: "addr set \<Rightarrow> nat set \<Rightarrow> mvq_state \<Rightarrow> bool" where
  "held K J s \<longleftrightarrow> (\<forall>b\<in>K. cell_at s b \<noteq> None \<and>
     ((\<exists>j\<in>J. j < length (multi_version_roots s) \<and> multi_version_roots s ! j = Some b) \<or>
      (\<exists>c\<in>K. node_refs (cell_at s c) b > 0)))"

lemma cell_clear_other: "c \<notin> slot_owner sl \<Longrightarrow> cell_at (clear_slot s sl) c = cell_at s c"
  by (cases sl) (auto simp: clear_slot_def cell_at_def set_cell_def split: option.split hnode.split)

lemma cell_clear_None [simp]: "cell_at (clear_slot s sl) c = None \<longleftrightarrow> cell_at s c = None"
  by (cases sl) (auto simp: clear_slot_def cell_at_def set_cell_def split: option.split hnode.split)

lemma cell_clear_inte:
  assumes "cell_at (clear_slot s sl) c = Some (HInte l r n)"
  obtains l' r' where "cell_at s c = Some (HInte l' r' n)" "l = None \<or> l = l'" "r = None \<or> r = r'"
  using assms
  by (cases sl) (auto simp: clear_slot_def cell_at_def set_cell_def split: option.splits hnode.splits if_splits)

lemma cell_clear_son [simp]:
  "cell_at s a = Some (HInte l r n) \<Longrightarrow> cell_at (clear_slot s (LSon a)) a = Some (HInte None r n)"
  "cell_at s a = Some (HInte l r n) \<Longrightarrow> cell_at (clear_slot s (RSon a)) a = Some (HInte l None n)"
  by (simp_all add: clear_slot_def)

lemma read_son [simp]:
  "cell_at s a = Some (HInte l r n) \<Longrightarrow> read_slot s (LSon a) = l"
  "cell_at s a = Some (HInte l r n) \<Longrightarrow> read_slot s (RSon a) = r"
  by (simp_all add: read_slot_def)

lemma valid_son [simp]: "valid_slot U s (LSon a) \<longleftrightarrow> a \<in> U" "valid_slot U s (RSon a) \<longleftrightarrow> a \<in> U"
  by (simp_all add: valid_slot_def)

lemma roots_clear_son [simp]:
  "multi_version_roots (clear_slot s (LSon a)) = multi_version_roots s"
  "multi_version_roots (clear_slot s (RSon a)) = multi_version_roots s"
  by (simp_all add: clear_slot_def split: option.split hnode.split)

lemma bounded_clear: "bounded U s \<Longrightarrow> bounded U (clear_slot s sl)"
  by (simp add: bounded_def)

lemma read_alive:
  assumes "store_ok rank U s" "valid_slot U s sl" "read_slot s sl = Some b" "b \<in> U" shows "cell_at s b \<noteq> None"
  using assms use_count_clear [of U s sl b] by (auto simp: store_ok_def)

lemma clear_count: "valid_slot U s sl \<Longrightarrow> bounded U s \<Longrightarrow> use_count (clear_slot s sl) a \<le> use_count s a"
  using use_count_clear [of U s sl a] by linarith

lemma clear_ok:
  assumes "store_ok rank U s" "valid_slot U s sl" shows "store_ok rank U (clear_slot s sl)"
proof -
  have b: "bounded U s" using assms(1) by (simp add: store_ok_def)
  have "cell_at s a \<noteq> None" if "a \<in> U" "use_count (clear_slot s sl) a > 0" for a
    using that clear_count [OF assms(2) b, of a] assms(1) unfolding store_ok_def by (metis gr_zeroI leD)
  moreover have "x \<in> U \<and> rank x < rank c"
    if "c \<in> U" "cell_at (clear_slot s sl) c = Some (HInte l r n)" "l = Some x \<or> r = Some x" for c l r n x
  proof -
    from cell_clear_inte [OF that(2)]
    obtain l' r' where "cell_at s c = Some (HInte l' r' n)" "l = None \<or> l = l'" "r = None \<or> r = r'" by metis
    then show ?thesis using that(1,3) assms(1) unfolding store_ok_def by (metis option.distinct(1))
  qed
  ultimately show ?thesis unfolding store_ok_def using bounded_clear [OF b] by simp
qed

text \<open>Removing a node that holds nothing and that nothing holds.\<close>

lemma free_ok:
  assumes "store_ok rank U s" "a \<in> U" "cell_at s a = Some nd" "\<And>b. node_refs (Some nd) b = 0" "use_count s a = 0"
  shows "store_ok rank U (set_cell s a None)" "use_count (set_cell s a None) b = use_count s b"
    "orphans (set_cell s a None) = orphans s - {a}"
proof -
  have "a < nxt (mheap s)" using assms(1-3) by (simp add: store_ok_def bounded_def)
  then have u: "use_count (set_cell s a None) b = use_count s b" for b
    using use_count_set_cell [of a s None b] assms(3,4) by simp
  then show "use_count (set_cell s a None) b = use_count s b" .
  show "orphans (set_cell s a None) = orphans s - {a}" by (auto simp: orphans_def u)
  have "b \<noteq> a" if "use_count s b > 0" for b using that assms(5) by auto
  then show "store_ok rank U (set_cell s a None)" using assms(1) unfolding store_ok_def bounded_def by (simp add: u) blast
qed

lemma orphans_clear:
  assumes "valid_slot U s sl" "bounded U s"
  shows "orphans (clear_slot s sl) \<subseteq> orphans s \<union> set_option (read_slot s sl)"
proof
  fix a assume "a \<in> orphans (clear_slot s sl)"
  then show "a \<in> orphans s \<union> set_option (read_slot s sl)"
    using use_count_clear [OF assms, of a] by (cases "read_slot s sl = Some a") (auto simp: orphans_def)
qed

lemma root_counts:
  assumes "j < length (multi_version_roots s)" "multi_version_roots s ! j = Some b"
  shows "0 < card {i. i < length (multi_version_roots s) \<and> multi_version_roots s ! i = Some b}"
  using assms by (subst card_gt_0_iff) auto

lemma cell_counts:
  assumes "bounded U s" "c \<in> U" "node_refs (cell_at s c) b > 0"
  shows "0 < (\<Sum>c<nxt (mheap s). node_refs (cell_at s c) b)"
proof -
  have "cell_at s c \<noteq> None" using assms(3) by (cases "cell_at s c") auto
  then have "c \<in> {..<nxt (mheap s)}" using assms(1,2) by (auto simp: bounded_def)
  then have "node_refs (cell_at s c) b \<le> (\<Sum>c<nxt (mheap s). node_refs (cell_at s c) b)"
    by (intro member_le_sum) auto
  then show ?thesis using assms(3) by linarith
qed

lemma held_count: "held K J s \<Longrightarrow> K \<subseteq> U \<Longrightarrow> bounded U s \<Longrightarrow> b \<in> K \<Longrightarrow> use_count s b > 0"
proof -
  assume h: "held K J s" "K \<subseteq> U" "bounded U s" "b \<in> K"
  then consider j where "j < length (multi_version_roots s)" "multi_version_roots s ! j = Some b"
    | c where "c \<in> U" "node_refs (cell_at s c) b > 0" unfolding held_def by blast
  then show ?thesis
  proof cases
    case 1
    then show ?thesis using root_counts [OF 1] by (simp add: use_count_sum)
  next
    case 2
    then show ?thesis using cell_counts [OF h(3) 2] by (simp add: use_count_sum)
  qed
qed

lemma held_cong:
  "held K J s \<Longrightarrow> (\<And>c. c \<in> K \<Longrightarrow> cell_at s' c = cell_at s c) \<Longrightarrow>
   (\<And>j. j \<in> J \<Longrightarrow> j < length (multi_version_roots s) \<Longrightarrow> j < length (multi_version_roots s') \<and> multi_version_roots s' ! j = multi_version_roots s ! j) \<Longrightarrow>
   held K J s'"
  unfolding held_def by metis

text \<open>A slot outside the held part is one more holder.\<close>

definition slot_outside :: "addr set \<Rightarrow> nat set \<Rightarrow> slot \<Rightarrow> bool" where
  "slot_outside K J sl \<longleftrightarrow> (case sl of Root i \<Rightarrow> i \<notin> J | LSon c \<Rightarrow> c \<notin> K | RSon c \<Rightarrow> c \<notin> K)"

lemma held_clear:
  assumes "held K J s" "slot_outside K J sl" shows "held K J (clear_slot s sl)"
proof (rule held_cong [OF assms(1)])
  show "cell_at (clear_slot s sl) c = cell_at s c" if "c \<in> K" for c
    using assms(2) that by (intro cell_clear_other) (cases sl; auto simp: slot_outside_def)
  show "j < length (multi_version_roots (clear_slot s sl)) \<and> multi_version_roots (clear_slot s sl) ! j = multi_version_roots s ! j"
    if "j \<in> J" "j < length (multi_version_roots s)" for j
  proof (cases sl)
    case (Root i)
    then have "i \<noteq> j" using assms(2) that(1) by (auto simp: slot_outside_def)
    then show ?thesis using Root that(2) by (simp add: clear_slot_def)
  qed (use that in simp_all)
qed

lemma outside_not_held:
  assumes "held K J s" "slot_outside K J sl" "K \<subseteq> U" "valid_slot U s sl" "bounded U s" "read_slot s sl = Some a" "use_count s a = 1"
  shows "a \<notin> K"
proof
  assume "a \<in> K"
  then have "use_count (clear_slot s sl) a > 0" by (rule held_count [OF held_clear [OF assms(1,2)] assms(3) bounded_clear [OF assms(5)]])
  with use_count_clear [OF assms(4,5), of a] assms(6,7) show False by simp
qed

section \<open>What releasing does\<close>

text \<open>
  From \<open>s\<close> to \<open>s'\<close> only nodes of the region of rank below \<open>k\<close> changed, counts fell, and
  every held part of the region is as it was.
\<close>

definition shrunk :: "(addr \<Rightarrow> nat) \<Rightarrow> addr set \<Rightarrow> nat \<Rightarrow> mvq_state \<Rightarrow> mvq_state \<Rightarrow> bool" where
  "shrunk rank U k s s' \<longleftrightarrow> store_ok rank U s' \<and> (\<forall>b. use_count s' b \<le> use_count s b) \<and>
     nxt (mheap s') = nxt (mheap s) \<and> multi_version_roots s' = multi_version_roots s \<and>
     (\<forall>c. c \<notin> U \<or> k \<le> rank c \<longrightarrow> cell_at s' c = cell_at s c) \<and>
     (\<forall>K J. held K J s \<and> K \<subseteq> U \<longrightarrow> (\<forall>c\<in>K. cell_at s' c = cell_at s c))"

lemma shrunkD:
  assumes "shrunk rank U k s s'"
  shows "store_ok rank U s'" "use_count s' b \<le> use_count s b" "nxt (mheap s') = nxt (mheap s)"
    "multi_version_roots s' = multi_version_roots s" "c \<notin> U \<or> k \<le> rank c \<Longrightarrow> cell_at s' c = cell_at s c"
    "held K J s \<Longrightarrow> K \<subseteq> U \<Longrightarrow> d \<in> K \<Longrightarrow> cell_at s' d = cell_at s d"
  using assms by (auto simp: shrunk_def)

lemma shrunk_refl: "store_ok rank U s \<Longrightarrow> shrunk rank U k s s"
  by (simp add: shrunk_def)

lemma held_shrunk: "shrunk rank U k s s' \<Longrightarrow> held K J s \<Longrightarrow> K \<subseteq> U \<Longrightarrow> held K J s'"
  by (rule held_cong) (auto simp: shrunk_def)

lemma shrunk_trans: "shrunk rank U k s s' \<Longrightarrow> shrunk rank U k s' s'' \<Longrightarrow> shrunk rank U k s s''"
proof -
  assume a: "shrunk rank U k s s'" and b: "shrunk rank U k s' s''"
  show ?thesis unfolding shrunk_def
  proof (intro conjI allI impI ballI)
    fix c K J assume h: "held K J s \<and> K \<subseteq> U" and c: "c \<in> K"
    from h have h: "held K J s" "K \<subseteq> U" by simp_all
    show "cell_at s'' c = cell_at s c"
      using shrunkD(6) [OF a h c] shrunkD(6) [OF b held_shrunk [OF a h] h(2) c] by simp
  next
    show "use_count s'' c \<le> use_count s c" for c using shrunkD(2) [OF a, of c] shrunkD(2) [OF b, of c] by simp
  qed (use shrunkD(3-5) [OF a] shrunkD(1,3-5) [OF b] in simp_all)
qed

lemma shrunk_mono: "shrunk rank U k s s' \<Longrightarrow> k \<le> k' \<Longrightarrow> shrunk rank U k' s s'"
  by (auto simp: shrunk_def)

lemma unheld: "use_count s a = 0 \<Longrightarrow> bounded U s \<Longrightarrow> held K J s \<Longrightarrow> K \<subseteq> U \<Longrightarrow> a \<notin> K"
  using held_count [of K J s U a] by auto

text \<open>Clearing a son of a node that nothing holds, and removing that node.\<close>

lemma clear_shrunk:
  assumes "store_ok rank U s" "sl = LSon a \<or> sl = RSon a" "a \<in> U" "rank a < k" "use_count s a = 0"
  shows "shrunk rank U k s (clear_slot s sl)"
proof -
  have v: "valid_slot U s sl" using assms(2,3) by auto
  have b: "bounded U s" using assms(1) by (simp add: store_ok_def)
  have "cell_at (clear_slot s sl) c = cell_at s c" if "c \<noteq> a" for c
    using that assms(2) by (intro cell_clear_other) auto
  moreover have "multi_version_roots (clear_slot s sl) = multi_version_roots s" using assms(2) by auto
  moreover have "c \<noteq> a" if "c \<notin> U \<or> k \<le> rank c \<or> (held K J s \<and> K \<subseteq> U) \<and> c \<in> K" for c K J
    using that assms(3,4) unheld [OF assms(5) b, of K J] by auto
  ultimately show ?thesis
    using clear_ok [OF assms(1) v] clear_count [OF v b] unfolding shrunk_def
    by (intro conjI allI impI ballI) (blast | simp)+
qed

lemma free_shrunk:
  assumes "store_ok rank U s" "a \<in> U" "cell_at s a = Some nd" "\<And>b. node_refs (Some nd) b = 0" "use_count s a = 0" "rank a < k"
  shows "shrunk rank U k s (set_cell s a None)" "orphans (set_cell s a None) = orphans s - {a}"
proof -
  note f = free_ok [OF assms(1-5)]
  have "bounded U s" using assms(1) by (simp add: store_ok_def)
  then show "shrunk rank U k s (set_cell s a None)"
    using f(1,2) assms(2,6) unheld [OF assms(5)] by (auto simp: shrunk_def)
  show "orphans (set_cell s a None) = orphans s - {a}" by (rule f(3))
qed

text \<open>One side of the destruction of a node: clear the son, release what it held.\<close>

lemma release_son:
  assumes ok: "store_ok rank U s" and sl: "sl = LSon a \<or> sl = RSon a" and z: "use_count s a = 0" and x: "read_slot s sl = x"
    and son: "\<And>b. x = Some b \<Longrightarrow> b \<in> U \<and> rank b < rank a" and k: "a \<in> U" "rank a < k" "rank a \<le> f"
    and rel: "store_ok rank U (clear_slot s sl) \<Longrightarrow>
      (\<And>b. x = Some b \<Longrightarrow> b \<in> U \<and> cell_at (clear_slot s sl) b \<noteq> None \<and> rank b < rank a) \<Longrightarrow> rank a \<le> f \<Longrightarrow>
      \<exists>s'. release f (clear_slot s sl) x = Some s' \<and> shrunk rank U (rank a) (clear_slot s sl) s' \<and>
        orphans s' \<subseteq> orphans (clear_slot s sl) - set_option x"
  shows "\<exists>s'. release f (clear_slot s sl) x = Some s' \<and> shrunk rank U k s s' \<and> orphans s' \<subseteq> orphans s \<and>
    use_count s' a = 0 \<and> cell_at s' a = cell_at (clear_slot s sl) a"
proof -
  have v: "valid_slot U s sl" using sl k(1) by auto
  have b: "bounded U s" using ok by (simp add: store_ok_def)
  have "b \<in> U \<and> cell_at (clear_slot s sl) b \<noteq> None \<and> rank b < rank a" if "x = Some b" for b
    using read_alive [OF ok v] x that son by simp
  then obtain s' where s': "release f (clear_slot s sl) x = Some s'" "shrunk rank U (rank a) (clear_slot s sl) s'"
      "orphans s' \<subseteq> orphans (clear_slot s sl) - set_option x"
    using rel [OF clear_ok [OF ok v] _ k(3)] by blast
  have sh: "shrunk rank U k s s'"
    using shrunk_trans [OF clear_shrunk [OF ok sl k(1,2) z] shrunk_mono [OF s'(2)]] k(2) by simp
  have "use_count s' a = 0" using shrunkD(2) [OF sh, of a] z by simp
  moreover have "orphans s' \<subseteq> orphans s" using s'(3) orphans_clear [OF v b] x by blast
  ultimately show ?thesis using s'(1) sh shrunkD(5) [OF s'(2)] by auto
qed

lemma release_spec:
  "store_ok rank U s \<Longrightarrow> (\<And>a. x = Some a \<Longrightarrow> a \<in> U \<and> cell_at s a \<noteq> None \<and> rank a < k) \<Longrightarrow> k \<le> fuel \<Longrightarrow>
   \<exists>s'. release fuel s x = Some s' \<and> shrunk rank U k s s' \<and> orphans s' \<subseteq> orphans s - set_option x"
proof (induction fuel s x arbitrary: k rule: release.induct)
  case (2 fuel s a)
  have a: "a \<in> U" "cell_at s a \<noteq> None" "rank a < k" using "2.prems"(2) by auto
  consider (held) "use_count s a > 0"
    | (leaf) records where "use_count s a = 0" "cell_at s a = Some (HLeaf records)"
    | (inte) l r n where "use_count s a = 0" "cell_at s a = Some (HInte l r n)"
    using a(2) by (metis gr0I hnode.exhaust not_None_eq)
  then show ?case
  proof cases
    case held
    then show ?thesis using "2.prems"(1) by (auto simp: shrunk_refl orphans_def)
  next
    case leaf
    then show ?thesis using free_shrunk [OF "2.prems"(1) a(1) leaf(2) _ leaf(1) a(3)] by auto
  next
    case inte
    obtain f where fuel: "fuel = Suc f" using "2.prems"(3) a(3) by (cases fuel) auto
    have f: "rank a \<le> f" using "2.prems"(3) a(3) fuel by simp
    have son: "b \<in> U \<and> rank b < rank a" if "l = Some b \<or> r = Some b" for b
      using that "2.prems"(1) a(1) inte(2) unfolding store_ok_def by blast
    have nz: "\<not> use_count s a > 0" using inte(1) by simp
    obtain s2 where s2: "release f (clear_slot s (RSon a)) r = Some s2" "shrunk rank U k s s2" "orphans s2 \<subseteq> orphans s"
        "use_count s2 a = 0" "cell_at s2 a = Some (HInte l None n)"
      using release_son [OF "2.prems"(1) disjI2 [OF refl] inte(1) read_son(2) [OF inte(2)] son [OF disjI2] a(1,3) f
          "2.IH"(1) [OF nz inte(2) refl fuel]]
      unfolding cell_clear_son(2) [OF inte(2)] by blast
    obtain s4 where s4: "release f (clear_slot s2 (LSon a)) l = Some s4" "shrunk rank U k s2 s4" "orphans s4 \<subseteq> orphans s2"
        "use_count s4 a = 0" "cell_at s4 a = Some (HInte None None n)"
      using release_son [OF shrunkD(1) [OF s2(2)] disjI1 [OF refl] s2(4) read_son(1) [OF s2(5)] son [OF disjI1] a(1,3) f
          "2.IH"(2) [OF nz inte(2) refl fuel s2(1)]]
      unfolding cell_clear_son(1) [OF s2(5)] by blast
    have none: "node_refs (Some (HInte None None n)) b = 0" for b by simp
    note free = free_shrunk [OF shrunkD(1) [OF s4(2)] a(1) s4(5) none s4(4) a(3)]
    have "shrunk rank U k s (set_cell s4 a None)"
      by (rule shrunk_trans [OF s2(2) shrunk_trans [OF s4(2) free(1)]])
    moreover have "orphans (set_cell s4 a None) \<subseteq> orphans s - {a}"
      unfolding free(2) using s2(3) s4(3) by auto
    moreover have "release fuel s (Some a) = Some (set_cell s4 a None)"
      by (simp add: fuel inte s2(1) s4(1))
    ultimately show ?thesis unfolding option.set by blast
  qed
qed (simp add: shrunk_refl)

section \<open>Resetting a slot\<close>

text \<open>
  From \<open>s\<close> to \<open>s'\<close> the slot \<open>x\<close> was cleared, and what only it held was
  freed: nodes outside the region, nodes of rank \<open>k\<close> and more and every held part elsewhere are untouched.
\<close>

definition dropped :: "(addr \<Rightarrow> nat) \<Rightarrow> addr set \<Rightarrow> nat \<Rightarrow> slot \<Rightarrow> mvq_state \<Rightarrow> mvq_state \<Rightarrow> bool" where
  "dropped rank U k x s s' \<longleftrightarrow> store_ok rank U s' \<and> orphans s' \<subseteq> orphans s \<and>
     multi_version_roots s' = multi_version_roots (clear_slot s x) \<and>
     nxt (mheap s') = nxt (mheap s) \<and>
     (\<forall>c. c \<notin> U \<or> k \<le> rank c \<longrightarrow> cell_at s' c = cell_at (clear_slot s x) c) \<and>
     (\<forall>K J. held K J s \<and> K \<subseteq> U \<and> slot_outside K J x \<longrightarrow> (\<forall>c\<in>K. cell_at s' c = cell_at s c))"

lemma droppedD:
  assumes "dropped rank U k x s s'"
  shows "store_ok rank U s'" "orphans s' \<subseteq> orphans s" "multi_version_roots s' = multi_version_roots (clear_slot s x)"
    "nxt (mheap s') = nxt (mheap s)" "c \<notin> U \<or> k \<le> rank c \<Longrightarrow> cell_at s' c = cell_at (clear_slot s x) c"
    "held K J s \<Longrightarrow> K \<subseteq> U \<Longrightarrow> slot_outside K J x \<Longrightarrow> d \<in> K \<Longrightarrow> cell_at s' d = cell_at s d"
  using assms unfolding dropped_def by blast+

lemma slot_cell: "slot_outside K J x \<Longrightarrow> c \<in> K \<Longrightarrow> cell_at (clear_slot s x) c = cell_at s c"
  by (intro cell_clear_other) (cases x; auto simp: slot_outside_def)

lemma held_dropped:
  assumes "dropped rank U k x s s'" "held K J s" "K \<subseteq> U" "slot_outside K J x" shows "held K J s'"
proof (rule held_cong [OF held_clear [OF assms(2,4)]])
  show "cell_at s' c = cell_at (clear_slot s x) c" if "c \<in> K" for c
    using droppedD(6) [OF assms that] slot_cell [OF assms(4) that] by simp
qed (simp add: droppedD(3) [OF assms(1)])

lemma clear_empty:
  assumes "read_slot s x = None" "valid_slot U s x" shows "clear_slot s x = s"
proof (cases x)
  case (Root i)
  then have "(multi_version_roots s)[i := None] = multi_version_roots s"
    using assms by (simp add: read_slot_def list_update_same_conv valid_slot_def)
  then show ?thesis by (simp add: Root clear_slot_def)
next
  case (LSon c)
  then show ?thesis using assms
    by (auto simp: clear_slot_def read_slot_def set_cell_def cell_at_def fun_upd_idem split: option.split hnode.split)
next
  case (RSon c)
  then show ?thesis using assms
    by (auto simp: clear_slot_def read_slot_def set_cell_def cell_at_def fun_upd_idem split: option.split hnode.split)
qed

lemma dropped_empty:
  "store_ok rank U s \<Longrightarrow> read_slot s x = None \<Longrightarrow> valid_slot U s x \<Longrightarrow> dropped rank U k x s s"
  using clear_empty [of s x U] by (simp add: dropped_def)

lemma reset_spec:
  assumes ok: "store_ok rank U s" and v: "valid_slot U s x"
    and k: "\<And>a. read_slot s x = Some a \<Longrightarrow> a \<in> U \<and> rank a < k" "k \<le> fuel"
  shows "\<exists>s'. reset fuel s x = Some s' \<and> dropped rank U k x s s'"
proof -
  have b: "bounded U s" using ok by (simp add: store_ok_def)
  have "a \<in> U \<and> cell_at (clear_slot s x) a \<noteq> None \<and> rank a < k" if "read_slot s x = Some a" for a
    using read_alive [OF ok v that] k(1) [OF that] by simp
  from release_spec [OF clear_ok [OF ok v] this k(2)] obtain s' where
    s': "release fuel (clear_slot s x) (read_slot s x) = Some s'" "shrunk rank U k (clear_slot s x) s'"
      "orphans s' \<subseteq> orphans (clear_slot s x) - set_option (read_slot s x)" by blast
  have "cell_at s' c = cell_at s c" if h: "held K J s \<and> K \<subseteq> U \<and> slot_outside K J x" "c \<in> K" for K J c
    using shrunkD(6) [OF s'(2) held_clear _ h(2)] slot_cell [OF _ h(2)] h(1) by metis
  moreover have "orphans s' \<subseteq> orphans s" using s'(3) orphans_clear [OF v b] by blast
  ultimately have "dropped rank U k x s s'"
    unfolding dropped_def using shrunkD(1,3,4,5) [OF s'(2)] by (intro conjI allI impI ballI) simp_all
  then show ?thesis using s'(1) by (auto simp: reset_def)
qed

section \<open>The recursive release\<close>

lemma roots_clear: "multi_version_roots s = multi_version_roots t \<Longrightarrow>
  multi_version_roots (clear_slot s x) = multi_version_roots (clear_slot t x)"
  by (cases x) (simp_all add: clear_slot_def split: option.split hnode.split)

lemma cell_clear_cong:
  assumes "cell_at s c = cell_at t c" shows "cell_at (clear_slot s x) c = cell_at (clear_slot t x) c"
proof (cases "c \<in> slot_owner x")
  case True
  then have x: "x = LSon c \<or> x = RSon c" by (cases x) auto
  consider "cell_at t c = None" | rs where "cell_at t c = Some (HLeaf rs)"
    | l r n where "cell_at t c = Some (HInte l r n)" by (metis hnode.exhaust not_None_eq)
  then show ?thesis
    by cases (use x in \<open>elim disjE; simp add: clear_slot_def assms\<close>)+
qed (simp add: cell_clear_other assms)

text \<open>Freeing the sons of a node that only \<open>x\<close> holds, before \<open>x\<close> itself.\<close>

lemma dropped_son:
  assumes "dropped rank U (rank a) sl s s2" "sl = LSon a \<or> sl = RSon a"
  shows "multi_version_roots s2 = multi_version_roots s"
    "c \<noteq> a \<Longrightarrow> c \<notin> U \<or> rank a \<le> rank c \<Longrightarrow> cell_at s2 c = cell_at s c"
    "cell_at s2 a = cell_at (clear_slot s sl) a"
proof -
  show "multi_version_roots s2 = multi_version_roots s" using droppedD(3) [OF assms(1)] assms(2) by auto
  show "cell_at s2 a = cell_at (clear_slot s sl) a" by (rule droppedD(5) [OF assms(1)]) simp
  show "cell_at s2 c = cell_at s c" if "c \<noteq> a" "c \<notin> U \<or> rank a \<le> rank c"
    using droppedD(5) [OF assms(1) that(2)] cell_clear_other [of c sl s] assms(2) that(1) by auto
qed

lemma dropped_seq:
  assumes x: "valid_slot U s x" "read_slot s x = Some a" "use_count s a = 1" "a \<in> U" "rank a < k" "store_ok rank U s"
    and l: "dropped rank U (rank a) (LSon a) s s2" and r: "dropped rank U (rank a) (RSon a) s2 s3"
    and d: "dropped rank U k x s3 s'"
  shows "dropped rank U k x s s'"
proof -
  have b: "bounded U s" using x(6) by (simp add: store_ok_def)
  note l' = dropped_son [OF l disjI1 [OF refl]] and r' = dropped_son [OF r disjI2 [OF refl]]
  have roots: "multi_version_roots s3 = multi_version_roots s" using l'(1) r'(1) by simp
  have high: "cell_at s3 c = cell_at s c" if "c \<notin> U \<or> k \<le> rank c" for c
    using l'(2) [of c] r'(2) [of c] that x(4,5) by force
  have part: "cell_at s' c = cell_at s c" if h: "held K J s" "K \<subseteq> U" "slot_outside K J x" "c \<in> K" for K J c
  proof -
    have "a \<notin> K" by (rule outside_not_held [OF h(1,3,2) x(1) b x(2,3)])
    then have o: "slot_outside K J (LSon a)" "slot_outside K J (RSon a)" by (simp_all add: slot_outside_def)
    note h2 = held_dropped [OF l h(1,2) o(1)]
    note h3 = held_dropped [OF r h2 h(2) o(2)]
    show ?thesis
      using droppedD(6) [OF l h(1,2) o(1) h(4)] droppedD(6) [OF r h2 h(2) o(2) h(4)] droppedD(6) [OF d h3 h(2,3,4)] by simp
  qed
  show ?thesis unfolding dropped_def
  proof (intro conjI allI impI ballI)
    show "store_ok rank U s'" by (rule droppedD(1) [OF d])
    show "orphans s' \<subseteq> orphans s" using droppedD(2) [OF l] droppedD(2) [OF r] droppedD(2) [OF d] by blast
    show "multi_version_roots s' = multi_version_roots (clear_slot s x)"
      using droppedD(3) [OF d] roots_clear [OF roots] by simp
    show "nxt (mheap s') = nxt (mheap s)" using droppedD(4) [OF l] droppedD(4) [OF r] droppedD(4) [OF d] by simp
    show "cell_at s' c = cell_at (clear_slot s x) c" if "c \<notin> U \<or> k \<le> rank c" for c
      using droppedD(5) [OF d that] cell_clear_cong [OF high [OF that]] by simp
    show "cell_at s' c = cell_at s c" if "held K J s \<and> K \<subseteq> U \<and> slot_outside K J x" "c \<in> K" for K J c
      using part that by blast
  qed
qed

lemma son_rank:
  "store_ok rank U s \<Longrightarrow> c \<in> U \<Longrightarrow> cell_at s c = Some (HInte l r n) \<Longrightarrow> l = Some b \<or> r = Some b \<Longrightarrow>
   b \<in> U \<and> rank b < rank c"
  unfolding store_ok_def by blast

lemma owner_rank:
  assumes "store_ok rank U s" "valid_slot U s x" "read_slot s x = Some a" "c \<in> slot_owner x"
  shows "rank a < rank c"
  using assms(2-4)
  by (cases x)
    (auto simp: read_slot_def valid_slot_def intro: son_rank [OF assms(1), THEN conjunct2] split: option.splits hnode.splits)

lemma read_slot_cong:
  assumes "multi_version_roots s = multi_version_roots t" "\<And>c. c \<in> slot_owner x \<Longrightarrow> cell_at s c = cell_at t c"
  shows "read_slot s x = read_slot t x"
  using assms by (cases x) (simp_all add: read_slot_def)

lemma gc_nocheck_spec:
  "store_ok rank U s \<Longrightarrow> valid_slot U s x \<Longrightarrow> (\<And>a. read_slot s x = Some a \<Longrightarrow> a \<in> U \<and> rank a < k) \<Longrightarrow> k \<le> fuel \<Longrightarrow>
   \<exists>s'. gc_nocheck fuel s x = Some s' \<and> dropped rank U k x s s'"
proof (induction fuel arbitrary: s x k)
  case 0
  then have "read_slot s x = None" by (cases "read_slot s x") auto
  then show ?case using dropped_empty [OF "0.prems"(1) _ "0.prems"(2)] by (simp add: gc_nocheck.simps)
next
  case (Suc f)
  note reset = reset_spec [OF Suc.prems]
  show ?case
  proof (cases "read_slot s x")
    case None
    then show ?thesis using dropped_empty [OF Suc.prems(1) _ Suc.prems(2)] by (simp add: gc_nocheck.simps)
  next
    case (Some a)
    have ra: "a \<in> U" "rank a < k" "rank a \<le> f" using Suc.prems(3) [OF Some] Suc.prems(4) by simp_all
    have alive: "cell_at s a \<noteq> None" by (rule read_alive [OF Suc.prems(1,2) Some ra(1)])
    show ?thesis
    proof (cases "(\<exists>l r n. cell_at s a = Some (HInte l r n)) \<and> use_count s a = 1")
      case False
      then have "gc_nocheck (Suc f) s x = reset (Suc f) s x"
        using alive Some by (subst gc_nocheck.simps) (auto split: hnode.split)
      then show ?thesis using reset by simp
    next
      case True
      then obtain l r n where c: "cell_at s a = Some (HInte l r n)" by blast
      have son: "b \<in> U \<and> rank b < rank a" if "l = Some b \<or> r = Some b" for b
        by (rule son_rank [OF Suc.prems(1) ra(1) c that])
      have v: "valid_slot U s (LSon a)" "valid_slot U t (RSon a)" for t using ra(1) by simp_all
      obtain s2 where s2: "gc_nocheck f s (LSon a) = Some s2" "dropped rank U (rank a) (LSon a) s s2"
        using Suc.IH [OF Suc.prems(1) v(1) _ ra(3)] son read_son(1) [OF c] by auto
      have c2: "cell_at s2 a = Some (HInte None r n)" using dropped_son(3) [OF s2(2)] cell_clear_son(1) [OF c] by simp
      obtain s3 where s3: "gc_nocheck f s2 (RSon a) = Some s3" "dropped rank U (rank a) (RSon a) s2 s3"
        using Suc.IH [OF droppedD(1) [OF s2(2)] v(2) _ ra(3)] son read_son(2) [OF c2] by auto
      have roots: "multi_version_roots s3 = multi_version_roots s"
        using dropped_son(1) [OF s2(2)] dropped_son(1) [OF s3(2)] by simp
      have "cell_at s3 d = cell_at s d" if "d \<in> slot_owner x" for d
        using dropped_son(2) [OF s2(2), of d] dropped_son(2) [OF s3(2), of d]
          owner_rank [OF Suc.prems(1,2) Some that] by force
      then have rd: "read_slot s3 x = Some a" using read_slot_cong [OF roots] Some by simp
      have v: "valid_slot U s3 x" using Suc.prems(2) roots by (simp add: valid_slot_def split: slot.splits)
      obtain s' where s': "reset (Suc f) s3 x = Some s'" "dropped rank U k x s3 s'"
        using reset_spec [OF droppedD(1) [OF s3(2)] v _ Suc.prems(4)] rd ra(1,2) by auto
      have "gc_nocheck (Suc f) s x = Some s'"
        using Some c True s2(1) s3(1) s'(1) by (subst gc_nocheck.simps) simp
      moreover have "dropped rank U k x s s'"
        by (rule dropped_seq [OF Suc.prems(2) Some _ ra(1,2) Suc.prems(1) s2(2) s3(2) s'(2)]) (use True in simp)
      ultimately show ?thesis by blast
    qed
  qed
qed

end
