(* ===== verification/MvqCommit.thy ===== *)
theory MvqCommit
  imports MvqReclaim
begin

text \<open>
  \<open>commit\<close> (\<open>mvq.hpp\<close>): delete from a version, insert into the result and drop the
  intermediate version with \<open>gc_nocheck\<close>. It is undefined exactly when the deletion replaces a node
  by its only son or by a merged leaf; otherwise it makes a new version and leaves every existing
  one alone. Then the runs of a client that builds and commits.
\<close>

section \<open>The nodes that are reachable\<close>

inductive reaches :: "heap \<Rightarrow> addr option \<Rightarrow> addr \<Rightarrow> bool" for h where
  here: "cells h a = Some nd \<Longrightarrow> reaches h (Some a) a"
| left_son: "cells h c = Some (HInte l r n) \<Longrightarrow> reaches h l a \<Longrightarrow> reaches h (Some c) a"
| right_son: "cells h c = Some (HInte l r n) \<Longrightarrow> reaches h r a \<Longrightarrow> reaches h (Some c) a"

inductive_cases reachesE: "reaches h p a"

definition reach_set :: "heap \<Rightarrow> addr option \<Rightarrow> addr set" where
  "reach_set h p = {a. reaches h p a}"

lemma reach_set_None [simp]: "reach_set h None = {}"
  by (auto simp: reach_set_def elim: reachesE)

lemma reach_set_leaf: "cells h a = Some (HLeaf records) \<Longrightarrow> reach_set h (Some a) = {a}"
  by (auto simp: reach_set_def elim: reachesE intro: reaches.here)

lemma reach_set_inte:
  "cells h a = Some (HInte l r n) \<Longrightarrow> reach_set h (Some a) = insert a (reach_set h l \<union> reach_set h r)"
  by (auto simp: reach_set_def elim: reachesE intro: reaches.intros)

definition all_nodes :: "mvq_state \<Rightarrow> addr set" where
  "all_nodes s = (\<Union>p\<in>set (multi_version_roots s). reach_set (mheap s) p)"


text \<open>The tree a pointer leads to, its height and what the pointer reaches.\<close>

lemma reps_functional: "reps h S p t \<Longrightarrow> reps h T p u \<Longrightarrow> t = u"
proof (induction t arbitrary: p u)
  case (InteNode l r n)
  then obtain a pl pr where c: "p = Some a" "cells h a = Some (HInte pl pr n)" "reps h S pl l" "reps h S pr r" by auto
  with InteNode.prems(2) obtain l' r' where "u = InteNode l' r' n" "reps h T pl l'" "reps h T pr r'" by (cases u) auto
  with InteNode.IH c show ?case by blast
next
  case (LeafNode records)
  then show ?case by (cases u) auto
qed simp

primrec height :: "qtree \<Rightarrow> nat" where
  "height Null = 0"
| "height (LeafNode records) = 0"
| "height (InteNode l r n) = Suc (max (height l) (height r))"

lemma height_bound: "mvq_ok b t \<Longrightarrow> height t \<le> b"
  by (induction t arbitrary: b) fastforce+

lemma rank_exists: "\<exists>rank. \<forall>a t. reps h UNIV (Some a) t \<longrightarrow> rank a = height t"
proof -
  have "\<exists>k. \<forall>t. reps h UNIV (Some a) t \<longrightarrow> k = height t" for a
    using reps_functional [of h UNIV "Some a" _ UNIV] by metis
  then show ?thesis by metis
qed

lemma reaches_reps: "reaches h p a \<Longrightarrow> reps h S p t \<Longrightarrow> \<exists>u. reps h S (Some a) u \<and> height u \<le> height t"
proof (induction arbitrary: t rule: reaches.induct)
  case (here a nd) then show ?case by blast
next
  case (left_son c l r n a)
  then obtain tl tr where "t = InteNode tl tr n" "reps h S l tl" by (cases t) auto
  with left_son.IH show ?case by fastforce
next
  case (right_son c l r n a)
  then obtain tl tr where "t = InteNode tl tr n" "reps h S r tr" by (cases t) auto
  with right_son.IH show ?case by fastforce
qed

lemma reaches_trans: "reaches h p c \<Longrightarrow> cells h c = Some (HInte l r n) \<Longrightarrow> reaches h l a \<or> reaches h r a \<Longrightarrow> reaches h p a"
  by (induction rule: reaches.induct) (auto intro: reaches.intros)

lemma reaches_cell: "reaches h p a \<Longrightarrow> cells h a \<noteq> None"
  by (induction rule: reaches.induct) auto


lemma reaches_holder:
  "reaches h p a \<Longrightarrow> p = Some a \<or> (\<exists>c. reaches h p c \<and> node_refs (cells h c) a > 0)"
proof (induction rule: reaches.induct)
  case (left_son c l r n a)
  then show ?case using reaches.left_son [OF left_son.hyps(1)] reaches.here [OF left_son.hyps(1)] by fastforce
next
  case (right_son c l r n a)
  then show ?case using reaches.right_son [OF right_son.hyps(1)] reaches.here [OF right_son.hyps(1)] by fastforce
qed simp

text \<open>What the roots of \<open>J\<close> reach is a held part.\<close>

definition part :: "mvq_state \<Rightarrow> nat set \<Rightarrow> addr set" where
  "part s J = (\<Union>j\<in>{j \<in> J. j < length (multi_version_roots s)}. reach_set (mheap s) (multi_version_roots s ! j))"

lemma part_held: "held (part s J) J s"
  unfolding held_def
proof
  fix b assume "b \<in> part s J"
  then obtain j where j: "j \<in> J" "j < length (multi_version_roots s)" "reaches (mheap s) (multi_version_roots s ! j) b"
    by (auto simp: part_def reach_set_def)
  have "cell_at s b \<noteq> None" using reaches_cell [OF j(3)] by (simp add: cell_at_def)
  moreover have "c \<in> part s J" if "reaches (mheap s) (multi_version_roots s ! j) c" for c
    using that j(1,2) by (auto simp: part_def reach_set_def)
  ultimately show "cell_at s b \<noteq> None \<and>
      ((\<exists>j\<in>J. j < length (multi_version_roots s) \<and> multi_version_roots s ! j = Some b) \<or>
       (\<exists>c\<in>part s J. node_refs (cell_at s c) b > 0))"
    using reaches_holder [OF j(3)] j(1,2) unfolding cell_at_def by blast
qed

lemma reps_reach: "reps h S p t \<Longrightarrow> reps h (reach_set h p \<inter> S) p t"
proof (induction t arbitrary: p)
  case (InteNode l r n)
  then obtain a pl pr where c: "p = Some a" "a \<in> S" "cells h a = Some (HInte pl pr n)" "reps h S pl l" "reps h S pr r" by auto
  note rs = reach_set_inte [OF c(3)]
  have "reps h (reach_set h p \<inter> S) pl l" "reps h (reach_set h p \<inter> S) pr r"
    unfolding c(1) rs by (rule reps_subset [OF InteNode.IH(1) [OF c(4)]], blast, rule reps_subset [OF InteNode.IH(2) [OF c(5)]], blast)
  then show ?case using c(1-3) rs by auto
qed (auto simp: reach_set_leaf)

lemma version_frame:
  assumes "version leaf_size h p t" "unchanged (reach_set h p) h h'" "nxt h' = nxt h"
  shows "version leaf_size h' p t"
proof -
  have "reps h (reach_set h p \<inter> {..<nxt h}) p t" using assms(1) reps_reach by (simp add: version_def)
  from reps_frame [OF this unchanged_subset [OF assms(2)]] have "reps h' {..<nxt h} p t"
    using reps_subset by (metis inf_le1 inf_le2)
  then show ?thesis using assms(1,3) by (simp add: version_def)
qed

lemma reaches_frame:
  "reaches h p a \<Longrightarrow> unchanged (reach_set h p) h h' \<Longrightarrow> reaches h' p a"
proof (induction rule: reaches.induct)
  case (here a nd)
  then have "a \<in> reach_set h (Some a)" by (auto simp: reach_set_def intro: reaches.here)
  then show ?case using here by (auto simp: unchanged_def intro: reaches.here)
next
  case (left_son c l r n a)
  then show ?case using reach_set_inte [OF left_son.hyps(1)] by (auto simp: unchanged_def intro: reaches.left_son)
next
  case (right_son c l r n a)
  then show ?case using reach_set_inte [OF right_son.hyps(1)] by (auto simp: unchanged_def intro: reaches.right_son)
qed

section \<open>Committing\<close>

text \<open>
  \<open>others\<close> are the slots of the program beside the old version and the two locals: what
  \<open>gc_nocheck\<close> finds as a count depends on them. Depth 65 is enough for trees of depth 64.
\<close>

definition commit ::
  "(point \<Rightarrow> 64 word) \<Rightarrow> nat \<Rightarrow> addr option list \<Rightarrow> heap \<Rightarrow> addr option \<Rightarrow> point list \<Rightarrow> point list \<Rightarrow>
   (heap \<times> addr option) option" where
  "commit ov leaf_size others h old_version P_insert P_delete =
     do {
       let P_set = snd (get_sorted_points ov P_delete False);
       (h1, tmp_ver) \<leftarrow> multi_version_batch_delete_sorted leaf_size h P_set old_version;
       let P_set = snd (get_sorted_points ov P_insert False);
       (h2, new_ver) \<leftarrow> multi_version_batch_insert_sorted leaf_size h1 P_set tmp_ver;
       s \<leftarrow> gc_nocheck 65 \<lparr>mheap = h2, multi_version_roots = others @ [old_version, new_ver, tmp_ver]\<rparr>
              (Root (length others + 2));
       Some (mheap s, new_ver) }"

definition commit_collapses :: "(point \<Rightarrow> 64 word) \<Rightarrow> nat \<Rightarrow> qtree \<Rightarrow> point list \<Rightarrow> bool" where
  "commit_collapses ov leaf_size t P_delete = collapses leaf_size t (snd (get_sorted_points ov P_delete False)) 64"

text \<open>What a pointer reaches, as a region of the store.\<close>

lemma version_height: "version leaf_size h p t \<Longrightarrow> height t \<le> 64"
  using height_bound by (simp add: version_def)

lemma region_ok:
  assumes ps: "\<And>p. p \<in> P \<Longrightarrow> \<exists>t. version leaf_size (mheap s) p t"
    and roots: "P \<subseteq> set (multi_version_roots s)"
  obtains rank where "store_ok rank (\<Union>p\<in>P. reach_set (mheap s) p) s"
    "\<And>a. a \<in> (\<Union>p\<in>P. reach_set (mheap s) p) \<Longrightarrow> rank a < 65"
proof -
  let ?h = "mheap s" and ?U = "\<Union>p\<in>P. reach_set (mheap s) p"
  have live: "\<exists>u. reps ?h {..<nxt ?h} (Some a) u \<and> height u \<le> 64" if a: "a \<in> ?U" for a
  proof -
    obtain p where p: "p \<in> P" "reaches ?h p a" using a unfolding reach_set_def by blast
    from ps [OF p(1)] obtain t where t: "version leaf_size ?h p t" by blast
    then have "reps ?h {..<nxt ?h} p t" by (simp add: version_def)
    from reaches_reps [OF p(2) this] version_height [OF t] show ?thesis by (meson le_trans)
  qed
  obtain rank where rank: "\<And>a t. reps ?h UNIV (Some a) t \<Longrightarrow> rank a = height t" using rank_exists [of ?h] by blast
  have rk: "rank a = height t" if "reps ?h {..<nxt ?h} (Some a) t" for a t using rank [OF reps_subset [OF that]] by simp
  have "c < nxt ?h" if "c \<in> ?U" for c using live [OF that] unfolding reps_shallow by blast
  then have b: "bounded ?U s" unfolding bounded_def by blast
  have alive: "cell_at s a \<noteq> None" if "reps ?h {..<nxt ?h} (Some a) t" for a t using that by (cases t) (auto simp: cell_at_def)
  have son: "b \<in> ?U \<and> rank b < rank c"
    if c: "c \<in> ?U" "cell_at s c = Some (HInte l r n)" "l = Some b \<or> r = Some b" for b c l r n
  proof -
    obtain u where u: "reps ?h {..<nxt ?h} (Some c) u" using live [OF c(1)] by blast
    then obtain tl tr where t: "u = InteNode tl tr n" "reps ?h {..<nxt ?h} l tl" "reps ?h {..<nxt ?h} r tr"
      using c(2) by (cases u) (auto simp: cell_at_def)
    then obtain v where v: "reps ?h {..<nxt ?h} (Some b) v" "height v < height u" using c(3) by fastforce
    have "reaches ?h (Some b) b" using alive [OF v(1)] by (auto simp: cell_at_def intro: reaches.here)
    obtain p where p: "p \<in> P" "reaches ?h p c" using c(1) unfolding reach_set_def by blast
    have cell: "cells ?h c = Some (HInte l r n)" using c(2) by (simp add: cell_at_def)
    have "reaches ?h p b"
      by (rule reaches_trans [OF p(2) cell]) (use \<open>reaches ?h (Some b) b\<close> c(3) in auto)
    then have "b \<in> ?U" using p(1) unfolding reach_set_def by blast
    then show ?thesis using v rk [OF u] rk [OF v(1)] by simp
  qed
  have "cell_at s c \<noteq> None" if "c \<in> ?U" for c using live [OF that] alive by blast
  then have ok: "store_ok rank ?U s" unfolding store_ok_def using b son by simp
  have lt: "rank a < 65" if "a \<in> ?U" for a
  proof -
    from live [OF that] obtain u where "reps ?h {..<nxt ?h} (Some a) u" "height u \<le> 64" by blast
    then show ?thesis using rk [of a u] by simp
  qed
  show thesis by (rule that [OF ok lt])
qed

text \<open>
  Dropping the intermediate version: what it reaches below the address \<open>n\<close> the old version
  reaches too, so nothing below \<open>n\<close> and nothing of the new version changes.
\<close>

lemma drop_tmp:
  assumes v: "version leaf_size h old t" "version leaf_size h new u" "version leaf_size h tmp w"
    and own: "\<And>c. reaches h tmp c \<Longrightarrow> c < n \<Longrightarrow> reaches h old c"
  shows "\<exists>s. gc_nocheck 65 \<lparr>mheap = h, multi_version_roots = others @ [old, new, tmp]\<rparr> (Root (length others + 2)) = Some s \<and>
    nxt (mheap s) = nxt h \<and> unchanged ({..<n} \<union> reach_set h new) h (mheap s)"
proof -
  let ?k = "length others"
  define s where "s = \<lparr>mheap = h, multi_version_roots = others @ [old, new, tmp]\<rparr>"
  let ?U = "\<Union>p\<in>{old, new, tmp}. reach_set (mheap s) p"
  have sel: "mheap s = h" "multi_version_roots s = others @ [old, new, tmp]" by (simp_all add: s_def)
  have "\<exists>t. version leaf_size (mheap s) p t" if "p \<in> {old, new, tmp}" for p using that v by (auto simp: sel)
  then obtain rank where rank: "store_ok rank ?U s" "\<And>a. a \<in> ?U \<Longrightarrow> rank a < 65"
    using region_ok [of "{old, new, tmp}" leaf_size s] by (auto simp: sel)
  have val: "valid_slot ?U s (Root (?k + 2))" by (simp add: valid_slot_def sel)
  have rd: "read_slot s (Root (?k + 2)) = tmp" by (simp add: read_slot_def sel nth_append)
  have "a \<in> ?U \<and> rank a < 65" if "tmp = Some a" for a
  proof -
    have "cells h a \<noteq> None" using v(3) that by (cases w) (auto simp: version_def)
    then have "reaches h (Some a) a" by (auto intro: reaches.here)
    then have "a \<in> ?U" using that by (auto simp: reach_set_def sel)
    then show ?thesis using rank(2) by blast
  qed
  then obtain s' where s': "gc_nocheck 65 s (Root (?k + 2)) = Some s'" "dropped rank ?U 65 (Root (?k + 2)) s s'"
    using gc_nocheck_spec [OF rank(1) val, of 65 65] rd by auto
  let ?J = "{?k, ?k + 1}"
  have part: "part s ?J = reach_set h old \<union> reach_set h new"
  proof -
    have "{j \<in> ?J. j < length (multi_version_roots s)} = ?J" by (auto simp: sel)
    then show ?thesis by (simp add: part_def sel nth_append)
  qed
  have keep: "cell_at s' c = cell_at s c" if "reaches h old c \<or> reaches h new c" for c
  proof (rule droppedD(6) [OF s'(2) part_held [of s ?J]])
    show "part s ?J \<subseteq> ?U" unfolding part by (auto simp: sel)
    show "slot_outside (part s ?J) ?J (Root (?k + 2))" by (simp add: slot_outside_def)
    show "c \<in> part s ?J" unfolding part using that by (auto simp: reach_set_def)
  qed
  have "cell_at s' c = cell_at s c" if "c < n" for c
  proof (cases "reaches h old c \<or> reaches h new c")
    case False
    then have "c \<notin> ?U" using own [OF _ that] by (auto simp: reach_set_def sel)
    then show ?thesis using droppedD(5) [OF s'(2)] by (simp add: cell_clear_other)
  qed (rule keep)
  then have "unchanged ({..<n} \<union> reach_set h new) h (mheap s')"
    using keep unfolding unchanged_def cell_at_def sel(1) by (auto simp: reach_set_def)
  moreover have "nxt (mheap s') = nxt h" using droppedD(4) [OF s'(2)] by (simp add: sel)
  ultimately show ?thesis using s'(1) unfolding s_def by blast
qed

lemma reaches_in: "reaches h p a \<Longrightarrow> reps h S p t \<Longrightarrow> a \<in> S"
  using reaches_reps [of h p a S t] reps_shallow by blast

lemma commit_correct:
  assumes "version leaf_size h p t"
  shows "if commit_collapses ov leaf_size t D then commit ov leaf_size others h p I D = None
    else \<exists>h' p' t'. commit ov leaf_size others h p I D = Some (h', p') \<and> version leaf_size h' p' t' \<and> extends_heap h h'
    \<and> keys_of pt_key (collect_records t') =
        keys_of pt_key (collect_records t) - coded_keys ov D + coded_keys ov I"
proof (cases "commit_collapses ov leaf_size t D")
  case True
  then show ?thesis
    using multi_version_batch_delete_sorted_fails [OF assms batch_sorted_points, of ov D]
    by (simp add: commit_collapses_def commit_def)
next
  case False
  let ?D = "snd (get_sorted_points ov D False)" and ?I = "snd (get_sorted_points ov I False)"
  let ?S = "reach_set h p \<inter> {..<nxt h}"
  have S: "reps h ?S p t" "?S \<subseteq> {..<nxt h}" using assms reps_reach by (auto simp: version_def)
  obtain h1 p1 t1 where d: "multi_version_batch_delete_sorted leaf_size h ?D p = Some (h1, p1)"
    "version leaf_size h1 p1 t1" "extends_heap h h1" "reps h1 (?S \<union> {nxt h..<nxt h1}) p1 t1"
    "keys_of pt_key (collect_records t1) = keys_of pt_key (collect_records t) - coded_keys ov D"
    using multi_version_batch_delete_sorted_correct [OF assms batch_sorted_points _ S] False
    unfolding commit_collapses_def keys_sorted_points [of ov D, symmetric] by blast
  let ?t = "batch_insert_sorted_node leaf_size t1 ?I 64"
  obtain h2 p2 where i: "multi_version_batch_insert_sorted leaf_size h1 ?I p1 = Some (h2, p2)"
    "version leaf_size h2 p2 ?t" "extends_heap h1 h2"
    using multi_version_batch_insert_sorted_correct [OF d(2) batch_sorted_points] by blast
  note e = extends_heap_trans [OF d(3) i(3)]
  have "mset (collect_records ?t) = mset (collect_records t1) + mset ?I"
    using batch_insert_sorted_node_correct [of 64 t1 leaf_size ?I] d(2) batch_sorted_points
    by (simp add: version_def)
  then have k: "keys_of pt_key (collect_records ?t) = keys_of pt_key (collect_records t1) + coded_keys ov I"
    unfolding keys_sorted_points [of ov I, symmetric] by (simp add: keys_of_def)
  have u1: "unchanged (?S \<union> {nxt h..<nxt h1}) h1 h2"
    by (rule unchanged_subset [of "{..<nxt h1}"]) (use i(3) d(3) in \<open>auto simp: extends_heap_def\<close>)
  have own: "reaches h2 p c" if "reaches h2 p1 c" "c < nxt h" for c
  proof -
    have "c \<in> ?S" using reaches_in [OF that(1) reps_frame [OF d(4) u1]] that(2) by auto
    then have "reaches h p c" by (simp add: reach_set_def)
    moreover have "unchanged (reach_set h p) h h2"
      using e reaches_in [OF _ S(1)] by (auto simp: extends_heap_def unchanged_def reach_set_def)
    ultimately show ?thesis by (rule reaches_frame)
  qed
  obtain s where s: "gc_nocheck 65 \<lparr>mheap = h2, multi_version_roots = others @ [p, p2, p1]\<rparr> (Root (length others + 2)) = Some s"
    "nxt (mheap s) = nxt h2" "unchanged ({..<nxt h} \<union> reach_set h2 p2) h2 (mheap s)"
    using drop_tmp [OF version_extends [OF assms e] i(2) version_extends [OF d(2) i(3)] own] by blast
  have "version leaf_size (mheap s) p2 ?t"
    by (rule version_frame [OF i(2) unchanged_subset [OF s(3)] s(2)]) simp
  moreover have "unchanged {..<nxt h} h2 (mheap s)" by (rule unchanged_subset [OF s(3)]) simp
  then have "extends_heap h (mheap s)" using e s(2) unfolding extends_heap_def by (auto simp: unchanged_def)
  moreover have "commit ov leaf_size others h p I D = Some (mheap s, p2)"
    using d(1) i(1) s(1) unfolding commit_def by (simp add: Let_def)
  ultimately have "\<exists>h' p' t'. commit ov leaf_size others h p I D = Some (h', p') \<and> version leaf_size h' p' t' \<and> extends_heap h h'
    \<and> keys_of pt_key (collect_records t') =
        keys_of pt_key (collect_records t) - coded_keys ov D + coded_keys ov I"
    unfolding d(5) [symmetric] k [symmetric] by blast
  then show ?thesis using False by simp
qed

section \<open>Runs\<close>

text \<open>
  The steps of a client: a new version is built from a point set, or committed on
  top of any existing version.
\<close>

inductive vstep :: "(point \<Rightarrow> 64 word) \<Rightarrow> nat \<Rightarrow> mvq_state \<Rightarrow> mvq_state \<Rightarrow> bool" for ov leaf_size where
  build_step:
    "P \<noteq> [] \<Longrightarrow> hbuild leaf_size (mheap s) (snd (get_sorted_points ov P False)) 64 = Some (h', p') \<Longrightarrow>
     vstep ov leaf_size s \<lparr>mheap = h', multi_version_roots = multi_version_roots s @ [p']\<rparr>"
| commit_step:
    "i < length (multi_version_roots s) \<Longrightarrow>
     commit ov leaf_size (take i (multi_version_roots s) @ drop (Suc i) (multi_version_roots s)) (mheap s)
       (multi_version_roots s ! i) I D = Some (h', p') \<Longrightarrow>
     vstep ov leaf_size s \<lparr>mheap = h', multi_version_roots = multi_version_roots s @ [p']\<rparr>"

inductive_cases vstepE: "vstep ov leaf_size s s'"

lemma hbuild_version:
  assumes "hbuild leaf_size h (snd (get_sorted_points ov P False)) 64 = Some (h', p')"
  shows "\<exists>t. version leaf_size h' p' t" "extends_heap h h'"
proof -
  let ?P = "snd (get_sorted_points ov P False)"
  have "outcome h {..<nxt h} {} (h', p') (build leaf_size ?P 64)"
    using hbuild_refines [of "{..<nxt h}" h leaf_size ?P 64] assms by auto
  then show "\<exists>t. version leaf_size h' p' t" "extends_heap h h'"
    using outcome_version build_correct [OF batch_sorted_points [of ov P], of leaf_size] by blast+
qed

lemma commit_some:
  assumes "version leaf_size h p t" "commit ov leaf_size others h p I D = Some (h', p')"
  obtains t' where "version leaf_size h' p' t'" "extends_heap h h'" "\<not> commit_collapses ov leaf_size t D"
  using commit_correct [OF assms(1), of ov D others I] assms(2) by (auto split: if_splits)

lemma vstep_extends:
  assumes "vstep ov leaf_size s s'" "good_state leaf_size s"
  shows "extends_heap (mheap s) (mheap s')
    \<and> (\<exists>p t. multi_version_roots s' = multi_version_roots s @ [p] \<and> version leaf_size (mheap s') p t)"
  using assms(1)
proof cases
  case (build_step P h' p')
  then show ?thesis using hbuild_version by fastforce
next
  case (commit_step i I D h' p')
  obtain t where "version leaf_size (mheap s) (multi_version_roots s ! i) t"
    using good_version [OF assms(2)] commit_step by blast
  from commit_some [OF this commit_step(3)] show ?thesis using commit_step(1) by fastforce
qed

lemma vstep_good: "vstep ov leaf_size s s' \<Longrightarrow> good_state leaf_size s \<Longrightarrow> good_state leaf_size s'"
proof -
  assume st: "vstep ov leaf_size s s'" and g: "good_state leaf_size s"
  from vstep_extends [OF st g] obtain p t where e: "extends_heap (mheap s) (mheap s')"
    "multi_version_roots s' = multi_version_roots s @ [p]" "version leaf_size (mheap s') p t" by blast
  show ?thesis using g version_extends [OF _ e(1)] e(3) unfolding good_state_def e(2) by fastforce
qed

lemma steps_good: "(vstep ov leaf_size)\<^sup>*\<^sup>* s s' \<Longrightarrow> good_state leaf_size s \<Longrightarrow> good_state leaf_size s'"
  by (induction rule: rtranclp_induct) (auto intro: vstep_good)

lemma steps_extend:
  "(vstep ov leaf_size)\<^sup>*\<^sup>* s s' \<Longrightarrow> good_state leaf_size s \<Longrightarrow>
   extends_heap (mheap s) (mheap s') \<and> (\<exists>ps. multi_version_roots s' = multi_version_roots s @ ps)"
proof (induction rule: rtranclp_induct)
  case base then show ?case by (simp add: extends_heap_def)
next
  case (step y z)
  then have "good_state leaf_size y" using steps_good by blast
  with vstep_extends [OF step.hyps(2)] step.IH [OF step.prems] show ?case
    using extends_heap_trans by fastforce
qed

text \<open>A concrete run: insert one point into the empty version, then delete it again.\<close>

lemma sorted_points_single: "get_sorted_points ov [p] h = ([set_code ov h p], [set_code ov h p])"
  "get_sorted_points ov [] h = ([], [])"
  by (simp_all add: get_sorted_points_def Let_def)

lemma commit_insert_empty:
  assumes "1 \<le> leaf_size"
  shows "commit ov leaf_size others h None [p] [] = Some (alloc h (HLeaf [set_code ov False p]))"
  using assms
  by (simp add: commit_def sorted_points_single multi_version_batch_delete_sorted_def
      multi_version_batch_insert_sorted_def node_copy_def mv_hdelete_node.simps mv_insert_node.simps hbuild.simps
      gc_nocheck.simps read_slot_def nth_append alloc_def)

definition run1 :: mvq_state where
  "run1 = \<lparr>mheap = fst (alloc empty_heap (HLeaf [set_code (\<lambda>_. 0) False (Point3 1 2 3)])),
           multi_version_roots = [None, Some 0]\<rparr>"

lemma run1_step: "vstep (\<lambda>_. 0) 2 init_state run1"
proof -
  have "vstep (\<lambda>_. 0) 2 init_state
      \<lparr>mheap = fst (alloc empty_heap (HLeaf [set_code (\<lambda>_. 0) False (Point3 1 2 3)])),
       multi_version_roots = multi_version_roots init_state @ [Some 0]\<rparr>"
    by (rule commit_step [where i = 0 and I = "[Point3 1 2 3]" and D = "[]"])
       (simp_all add: init_state_def commit_insert_empty alloc_def empty_heap_def)
  then show ?thesis by (simp add: run1_def init_state_def)
qed

lemma run1_tree: "tree_of (mheap run1) (multi_version_roots run1 ! 1) 64 =
    Some (LeafNode [set_code (\<lambda>_. 0) False (Point3 1 2 3)])"
  by (simp add: run1_def tree_of.simps alloc_def empty_heap_def)

lemma run1_reachable: "(vstep (\<lambda>_. 0) 2)\<^sup>*\<^sup>* init_state run1"
  using run1_step by blast

text \<open>Deleting from a leaf never collapses.\<close>

lemma run1_delete:
  obtains s' where "vstep (\<lambda>_. 0) 2 run1 s'" "length (multi_version_roots s') = 3"
proof -
  have g: "good_state 2 run1" using steps_good [OF run1_reachable good_init] .
  have l: "1 < length (multi_version_roots run1)" by (simp add: run1_def)
  note v = read_version [OF g l run1_tree]
  let ?o = "take 1 (multi_version_roots run1) @ drop (Suc 1) (multi_version_roots run1)"
  obtain h' p' where "commit (\<lambda>_. 0) 2 ?o (mheap run1) (multi_version_roots run1 ! 1) [] [Point3 1 2 3] = Some (h', p')"
    using commit_correct [OF v, of "\<lambda>_. 0" "[Point3 1 2 3]" ?o "[]"] by (auto simp: commit_collapses_def)
  from commit_step [OF l this] show ?thesis using that by (simp add: run1_def)
qed

text \<open>
  A second run: two points in opposite corners, in two leaves of one point under an interior node.
\<close>

definition low :: point where "low = set_code (\<lambda>_. 0) False (Point3 1 0 0)"
definition high :: point where "high = set_code (\<lambda>_. 0) False (Point3 2 (2 ^ 31) (2 ^ 31))"

lemma low_high_clear: "bit_clear 64 low" "\<not> bit_clear 64 high"
  by (simp_all add: bit_clear_def low_def high_def set_code_def interleave_bits_def interleave_words_def
      interleave_step_def cast_u32_def ftrunc_def upt_conv_Cons)

lemma low_high_split: "split_by_bit [low, high] 0 (Suc (Suc 0)) 64 = Suc 0" "split_by_bit [low] 0 (Suc 0) 64 = Suc 0"
    "split_by_bit [] 0 0 64 = 0"
  by (rule split_by_bit_split_at, auto simp: split_at_def low_high_clear less_Suc_eq nth_Cons split: nat.splits)+

lemma low_high_sorted: "snd (get_sorted_points (\<lambda>_. 0) [Point3 1 0 0, Point3 2 (2 ^ 31) (2 ^ 31)] False) = [low, high]"
proof -
  have m: "morton_id low = 0" "bit (morton_id high) 63"
    by (simp_all add: low_def high_def set_code_def interleave_bits_def interleave_words_def
      interleave_step_def cast_u32_def ftrunc_def upt_conv_Cons)
  then have "morton_id high \<noteq> 0" by auto
  then have "pt_key low \<le> pt_key high" using m(1) by (simp add: pt_key_def word_gt_0 less_imp_le)
  then show ?thesis unfolding get_sorted_points_def low_def high_def Let_def by simp
qed

definition run2 :: mvq_state where
  "run2 = \<lparr>mheap = \<lparr>cells = [0 \<mapsto> HLeaf [low], 1 \<mapsto> HLeaf [high], 2 \<mapsto> HInte (Some 0) (Some 1) 2], nxt = 3\<rparr>,
           multi_version_roots = [None, Some 2]\<rparr>"

lemma run2_step: "vstep (\<lambda>_. 0) 1 init_state run2"
proof -
  have "hbuild 1 empty_heap [low, high] 64 = Some (mheap run2, Some 2)"
    by (simp add: hbuild.simps low_high_split num_points_of_def deref_def alloc_def empty_heap_def run2_def
        Let_def numeral_2_eq_2 numeral_3_eq_3)
  then have "vstep (\<lambda>_. 0) 1 init_state \<lparr>mheap = mheap run2, multi_version_roots = multi_version_roots init_state @ [Some 2]\<rparr>"
    by (intro build_step [where P = "[Point3 1 0 0, Point3 2 (2 ^ 31) (2 ^ 31)]"])
      (simp_all only: low_high_sorted, simp_all add: init_state_def)
  then show ?thesis by (simp add: run2_def init_state_def)
qed

lemma run2_reachable: "(vstep (\<lambda>_. 0) 1)\<^sup>*\<^sup>* init_state run2"
  using run2_step by blast

lemma run2_tree: "tree_of (mheap run2) (multi_version_roots run2 ! 1) 64 = Some (InteNode (LeafNode [low]) (LeafNode [high]) 2)"
  by (simp add: run2_def tree_of.simps)

lemma run2_collapses:
  "collapses 1 (InteNode (LeafNode [low]) (LeafNode [high]) 2) [low] 64"
  "\<not> collapses 1 (InteNode (LeafNode [low]) (LeafNode [high]) 2) [] 64"
  using get_delete_p_all_eq [of "[low]" "[low]"]
  by (simp_all add: low_high_split merges_at_def Let_def)

text \<open>A commit on it that inserts: its intermediate version is a copy of the interior node and shares both leaves.\<close>

lemma run2_insert:
  obtains s' where "vstep (\<lambda>_. 0) 1 run2 s'"
proof -
  have g: "good_state 1 run2" using steps_good [OF run2_reachable good_init] .
  have l: "1 < length (multi_version_roots run2)" by (simp add: run2_def)
  note v = read_version [OF g l run2_tree]
  let ?o = "take 1 (multi_version_roots run2) @ drop (Suc 1) (multi_version_roots run2)"
  have "\<not> commit_collapses (\<lambda>_. 0) 1 (InteNode (LeafNode [low]) (LeafNode [high]) 2) []"
    unfolding commit_collapses_def sorted_points_single using run2_collapses(2) by simp
  then obtain h' p' where "commit (\<lambda>_. 0) 1 ?o (mheap run2) (multi_version_roots run2 ! 1) [Point3 3 5 7] [] = Some (h', p')"
    using commit_correct [OF v, of "\<lambda>_. 0" "[]" ?o "[Point3 3 5 7]"] by auto
  from commit_step [OF l this] show ?thesis using that by blast
qed

text \<open>
  C2. Persistence. Once a version exists, no later build or commit on any
  version, in any order, changes what it contains, although every commit updates nodes in place and
  ends by collecting its intermediate version: reading it back gives the same tree in every later state.
\<close>

theorem versions_persist:
  assumes "(vstep ov leaf_size)\<^sup>*\<^sup>* init_state s" "(vstep ov leaf_size)\<^sup>*\<^sup>* s s'"
    and "i < length (multi_version_roots s)"
  shows "multi_version_roots s' ! i = multi_version_roots s ! i
    \<and> tree_of (mheap s') (multi_version_roots s' ! i) 64 = tree_of (mheap s) (multi_version_roots s ! i) 64
    \<and> tree_of (mheap s) (multi_version_roots s ! i) 64 \<noteq> None"
proof -
  have g: "good_state leaf_size s" using steps_good [OF assms(1) good_init] .
  obtain t where t: "version leaf_size (mheap s) (multi_version_roots s ! i) t"
    using good_version [OF g assms(3)] by blast
  note e = steps_extend [OF assms(2) g]
  then have r: "multi_version_roots s' ! i = multi_version_roots s ! i"
    using assms(3) by (auto simp: nth_append)
  have "version leaf_size (mheap s') (multi_version_roots s' ! i) t"
    unfolding r using version_extends [OF t] e by blast
  then show ?thesis using r t tree_of_reps unfolding version_def by force
qed

theorem versions_persist_witness:
  "\<exists>s'. vstep (\<lambda>_. 0) 1 run2 s'
    \<and> tree_of (mheap s') (multi_version_roots s' ! 1) 64 = Some (InteNode (LeafNode [low]) (LeafNode [high]) 2)"
proof -
  obtain s' where s': "vstep (\<lambda>_. 0) 1 run2 s'" using run2_insert by blast
  have l: "1 < length (multi_version_roots run2)" by (simp add: run2_def)
  have "(vstep (\<lambda>_. 0) 1)\<^sup>*\<^sup>* run2 s'" using s' by (rule r_into_rtranclp)
  from versions_persist [OF run2_reachable this l] show ?thesis using s' run2_tree by auto
qed

text \<open>
  C1. In every reachable state, and whatever other slots the program has, a commit on any
  version is undefined exactly when its deletions leave some visited interior node with at
  least one and at most \<open>leaf_size\<close> points; else it succeeds and the new version holds, by
  Morton code and id, the old one's points without the deleted and with the inserted ones,
  and its tree satisfies the invariant of the index.
\<close>

theorem commit_contents:
  assumes "(vstep ov leaf_size)\<^sup>*\<^sup>* init_state s" "i < length (multi_version_roots s)"
    and "tree_of (mheap s) (multi_version_roots s ! i) 64 = Some t"
  shows "if collapses leaf_size t (snd (get_sorted_points ov P_delete False)) 64
    then commit ov leaf_size others (mheap s) (multi_version_roots s ! i) P_insert P_delete = None
    else \<exists>h' p' t'. commit ov leaf_size others (mheap s) (multi_version_roots s ! i) P_insert P_delete = Some (h', p')
    \<and> tree_of h' p' 64 = Some t' \<and> mvq_ok 64 t' \<and> dense leaf_size t'
    \<and> keys_of pt_key (collect_records t') =
        keys_of pt_key (collect_records t) - coded_keys ov P_delete + coded_keys ov P_insert"
proof -
  have "version leaf_size (mheap s) (multi_version_roots s ! i) t"
    using read_version [OF steps_good [OF assms(1) good_init] assms(2,3)] .
  note c = commit_correct [OF this, of ov P_delete others P_insert, unfolded commit_collapses_def]
  show ?thesis
  proof (cases "collapses leaf_size t (snd (get_sorted_points ov P_delete False)) 64")
    case True
    then show ?thesis using c by simp
  next
    case False
    then obtain h' p' t' where "commit ov leaf_size others (mheap s) (multi_version_roots s ! i) P_insert P_delete = Some (h', p')"
      "version leaf_size h' p' t'" "keys_of pt_key (collect_records t') =
        keys_of pt_key (collect_records t) - coded_keys ov P_delete + coded_keys ov P_insert"
      using c by auto
    then show ?thesis using False tree_of_reps [of h' _ p' t' 64] by (auto simp: version_def)
  qed
qed

theorem commit_contents_witness:
  "(\<exists>h' p' t'. commit (\<lambda>_. 0) 2 [None] (mheap run1) (multi_version_roots run1 ! 1) [] [Point3 1 2 3] = Some (h', p')
     \<and> tree_of h' p' 64 = Some t' \<and> keys_of pt_key (collect_records t') = {#})
   \<and> commit (\<lambda>_. 0) 1 [None] (mheap run2) (multi_version_roots run2 ! 1) [] [Point3 1 0 0] = None"
proof
  have "1 < length (multi_version_roots run1)" by (simp add: run1_def)
  from commit_contents [OF run1_reachable this run1_tree, of "[Point3 1 2 3]" "[None]" "[]"]
  show "\<exists>h' p' t'. commit (\<lambda>_. 0) 2 [None] (mheap run1) (multi_version_roots run1 ! 1) [] [Point3 1 2 3] = Some (h', p')
     \<and> tree_of h' p' 64 = Some t' \<and> keys_of pt_key (collect_records t') = {#}"
    by (auto simp: coded_keys_def)
  have l: "1 < length (multi_version_roots run2)" by (simp add: run2_def)
  have "collapses 1 (InteNode (LeafNode [low]) (LeafNode [high]) 2) (snd (get_sorted_points (\<lambda>_. 0) [Point3 1 0 0] False)) 64"
    unfolding sorted_points_single using run2_collapses(1) by (simp add: low_def)
  with commit_contents [OF run2_reachable l run2_tree, of "[Point3 1 0 0]" "[None]" "[]"]
  show "commit (\<lambda>_. 0) 1 [None] (mheap run2) (multi_version_roots run2 ! 1) [] [Point3 1 0 0] = None" by simp
qed

end
