(* ===== verification/VersionMerge.thy ===== *)
theory VersionMerge
  imports PointIds "HOL-Library.Monad_Syntax"
begin

text \<open>
  The three-way merge of versions, which \<open>mvq.hpp\<close> and \<open>pacz.hpp\<close> both have, stated
  over what it uses of an index: a difference of two versions and a commit on top of one.
  The interface \<open>version_store\<close> says what the two have to promise.
\<close>

section \<open>Differences of sequences\<close>

definition list_diff :: "point list \<Rightarrow> point list \<Rightarrow> point list \<times> point list" where
  "list_diff P Q = (diff_by pt_key pt_key Q P, diff_by pt_key pt_key P Q)"

section \<open>Contents by key\<close>

definition keyset :: "point list \<Rightarrow> zkey set" where
  "keyset P = pt_key ` set P"

lemma image_filter_minus: "(\<And>q. q \<in> I \<longleftrightarrow> q \<in> A \<and> f q \<notin> K) \<Longrightarrow> f ` I = f ` A - K"
  by blast

lemma keyset_append [simp]: "keyset (P @ Q) = keyset P \<union> keyset Q"
  by (auto simp: keyset_def)

lemma strict_keys:
  assumes "distinct_ids P" "sorted_by pt_key P" shows "strict_by pt_key P"
proof -
  have "distinct (map pt_key P)"
    using assms(1) unfolding distinct_ids_def distinct_map inj_on_def by (auto simp: pt_key_def)
  then show ?thesis using assms(2) by (simp add: strict_by_def)
qed

lemma keyset_after_edit:
  assumes "distinct_ids P"
    and "keys_of pt_key Q = keys_of pt_key P - keys_of pt_key D + keys_of pt_key I"
  shows "keyset Q = (keyset P - keyset D) \<union> keyset I"
proof -
  have "distinct (map pt_key P)"
    using assms(1) unfolding distinct_ids_def distinct_map inj_on_def by (auto simp: pt_key_def)
  then have c: "count (keys_of pt_key P) k \<le> 1" for k
    by (metis distinct_count_atmost_1 keys_of_def le_less_linear mset_map nat_less_le zero_le_one order_refl)
  have "set_mset (keys_of pt_key P - keys_of pt_key D) = keyset P - keyset D"
  proof (rule set_eqI)
    fix k
    have "k \<in># keys_of pt_key P - keys_of pt_key D \<longleftrightarrow> count (keys_of pt_key D) k < count (keys_of pt_key P) k"
      by (simp add: in_diff_count)
    also have "\<dots> \<longleftrightarrow> k \<in># keys_of pt_key P \<and> k \<notin># keys_of pt_key D"
      using c [of k] by (auto simp: not_in_iff count_greater_zero_iff [symmetric] simp del: set_keys_of count_greater_zero_iff)
    finally show "k \<in># keys_of pt_key P - keys_of pt_key D \<longleftrightarrow> k \<in> keyset P - keyset D" by (simp add: keyset_def)
  qed
  then show ?thesis using arg_cong [OF assms(2), of set_mset] by (simp add: keyset_def)
qed

lemma conflict_walk_Nil2: "conflict_walk xs [] = (xs, [])"
  by (induction xs) simp_all

lemma conflict_walk_Nil1: "conflict_walk [] ys = (ys, [])"
  by (induction ys) simp_all

lemma merge_by_id_Nil:
  "merge_by_id_with_conflict P [] = (by_id P, [])" "merge_by_id_with_conflict [] Q = (by_id Q, [])"
  by (simp_all add: merge_by_id_with_conflict_def conflict_walk_Nil1 conflict_walk_Nil2)

text \<open>Insertions, deletions and updates of one side, in terms of its ids.\<close>

lemma side_edits:
  assumes d: "distinct_ids B" "distinct_ids A" and s: "sorted_by pt_key B" "sorted_by pt_key A"
    and l: "list_diff B A = (add, remove)" and f: "filter_diff_results add remove = (ins, del, upd)"
  shows "set ins = {q \<in> set A. pt_id q \<notin> pt_id ` set B}"
    "set del = {p \<in> set B. pt_id p \<notin> pt_id ` set A}"
    "set upd = {q \<in> set A. pt_id q \<in> pt_id ` set B \<and> pt_key q \<notin> keyset B}"
    "distinct_ids ins" "distinct_ids del" "distinct_ids upd"
proof -
  have a: "add = filter (\<lambda>q. pt_key q \<notin> pt_key ` set B) A" "remove = filter (\<lambda>p. pt_key p \<notin> pt_key ` set A) B"
    using l diff_by_filter [OF strict_keys s(1)] diff_by_filter [OF strict_keys s(2)] d s
    by (auto simp: list_diff_def)
  have da: "distinct_ids add" "distinct_ids remove"
    using d unfolding a distinct_ids_def by (auto simp: distinct_map_filter)
  note F = filter_diff_results_sets [OF da f]
  have rem: "pt_id q \<in> pt_id ` set remove \<longleftrightarrow> pt_id q \<in> pt_id ` set B" if q: "q \<in> set A" "pt_key q \<notin> keyset B" for q
  proof
    assume "pt_id q \<in> pt_id ` set B"
    then obtain p where p: "p \<in> set B" "pt_id p = pt_id q" by auto
    have "pt_key p \<noteq> pt_key q'" if "q' \<in> set A" for q'
    proof
      assume e: "pt_key p = pt_key q'"
      then have "pt_id q' = pt_id q" using p(2) by (simp add: pt_key_def)
      then have "q' = q" using distinct_idsD [OF d(2) that q(1)] by simp
      then show False using q(2) p(1) e by (metis keyset_def image_eqI)
    qed
    then have "p \<in> set remove" using p(1) unfolding a by auto
    then show "pt_id q \<in> pt_id ` set remove" using p(2) by (metis image_eqI)
  qed (auto simp: a)
  have add: "pt_id p \<in> pt_id ` set add \<longleftrightarrow> pt_id p \<in> pt_id ` set A" if p: "p \<in> set B" "pt_key p \<notin> keyset A" for p
  proof
    assume "pt_id p \<in> pt_id ` set A"
    then obtain q where q: "q \<in> set A" "pt_id q = pt_id p" by auto
    have "pt_key q \<noteq> pt_key p'" if "p' \<in> set B" for p'
    proof
      assume e: "pt_key q = pt_key p'"
      then have "pt_id p' = pt_id p" using q(2) by (simp add: pt_key_def)
      then have "p' = p" using distinct_idsD [OF d(1) that p(1)] by simp
      then show False using p(2) q(1) e by (metis keyset_def image_eqI)
    qed
    then have "q \<in> set add" using q(1) unfolding a by auto
    then show "pt_id p \<in> pt_id ` set add" using q(2) by (metis image_eqI)
  qed (auto simp: a)
  have key_id: "pt_key q \<in> keyset P \<Longrightarrow> pt_id q \<in> pt_id ` set P" for q P
    by (auto simp: keyset_def pt_key_def)
  have sa: "q \<in> set add \<longleftrightarrow> q \<in> set A \<and> pt_key q \<notin> keyset B" "p \<in> set remove \<longleftrightarrow> p \<in> set B \<and> pt_key p \<notin> keyset A"
    for p q by (simp_all add: a keyset_def)
  show "set ins = {q \<in> set A. pt_id q \<notin> pt_id ` set B}"
    unfolding F(1) using rem sa(1) key_id by blast
  show "set del = {p \<in> set B. pt_id p \<notin> pt_id ` set A}"
    unfolding F(2) using add sa(2) key_id by blast
  show "set upd = {q \<in> set A. pt_id q \<in> pt_id ` set B \<and> pt_key q \<notin> keyset B}"
    unfolding F(3) using rem sa(1) by blast
  show "distinct_ids ins" "distinct_ids del" "distinct_ids upd"
    using F(4-6) by (auto simp: distinct_ids_def strict_by_def)
qed

lemma merge_by_id_sets:
  assumes "distinct_ids a" "distinct_ids b" "merge_by_id_with_conflict a b = (nc, cf)"
  shows "set nc \<subseteq> set a \<union> set b" "set cf \<subseteq> set a \<union> set b"
    "pt_id ` set cf \<subseteq> pt_id ` set a \<inter> pt_id ` set b"
    "pt_id ` set a \<inter> pt_id ` set b = {} \<Longrightarrow> set nc = set a \<union> set b \<and> cf = []"
proof -
  have w: "set cf = conflicting a b \<union> conflicting b a"
    "set nc = (set a - conflicting a b) \<union> {q \<in> set b. pt_id q \<notin> pt_id ` set a}"
    using conflict_walk_sets [OF strict_by_id strict_by_id] assms
    by (fastforce simp: merge_by_id_with_conflict_def conflicting_def)+
  show "set nc \<subseteq> set a \<union> set b" "set cf \<subseteq> set a \<union> set b" unfolding w conflicting_def by auto
  have "pt_id p \<in> pt_id ` set a \<inter> pt_id ` set b" if "p \<in> conflicting a b \<union> conflicting b a" for p
    using that by (force simp: conflicting_def conflicts_def)
  then show "pt_id ` set cf \<subseteq> pt_id ` set a \<inter> pt_id ` set b" unfolding w by blast
  show "set nc = set a \<union> set b \<and> cf = []" if e: "pt_id ` set a \<inter> pt_id ` set b = {}"
  proof -
    have "conflicting a b = {}" "conflicting b a = {}" using e by (auto simp: conflicting_def conflicts_def)
    then show ?thesis using w e by auto
  qed
qed

lemma length_filter_diff_walk:
  "filter_diff_walk as rs = (i, d, u) \<Longrightarrow> length i \<le> length as"
  by (simp add: filter_diff_walk_eq length_diff_by) (metis length_diff_by)

lemma length_conflict_walk: "conflict_walk as bs = (nc, cf) \<Longrightarrow> length nc \<le> length as + length bs"
proof (induction as bs arbitrary: nc cf rule: conflict_walk.induct)
  case (4 a as b bs)
  then show ?case by (fastforce split: prod.splits if_splits)
qed (auto split: prod.splits)

section \<open>The edits of a merge\<close>

text \<open>Insertions and deletions to commit, and the conflicts on insertions, updates and deletions.\<close>

definition merge_edits ::
  "point list \<Rightarrow> point list \<Rightarrow> point list \<Rightarrow> point list \<times> point list \<times> point list \<times> point list \<times> point list" where
  "merge_edits B A1 A2 =
     (case list_diff B A1 of (add1, removed1) \<Rightarrow>
      case list_diff B A2 of (add2, removed2) \<Rightarrow>
      case filter_diff_results add1 removed1 of (insert1, delete1, update1) \<Rightarrow>
      case filter_diff_results add2 removed2 of (insert2, delete2, update2) \<Rightarrow>
      case merge_by_id_with_conflict insert1 insert2 of (nci, ci) \<Rightarrow>
      case merge_by_id_with_conflict update1 update2 of (ncu, cu) \<Rightarrow>
      case merge_by_id_with_conflict delete1 update2 of (ncd, cd) \<Rightarrow>
      case merge_by_id_with_conflict delete2 update1 of (ncd1, cd1) \<Rightarrow>
      (nci, ncd @ ncd1, ci, cu, cd @ cd1))"

definition merge_deletes :: "point list \<Rightarrow> point list \<Rightarrow> point list \<Rightarrow> point list" where
  "merge_deletes B A1 A2 = fst (snd (merge_edits B A1 A2))"

definition three_way ::
  "('s \<Rightarrow> 'v \<Rightarrow> 'v \<Rightarrow> (point list \<times> point list) option) \<Rightarrow>
   ('s \<Rightarrow> 'v \<Rightarrow> point list \<Rightarrow> point list \<Rightarrow> ('s \<times> 'v) option) \<Rightarrow>
   's \<Rightarrow> 'v \<Rightarrow> 'v \<Rightarrow> 'v \<Rightarrow> ('s \<times> 'v \<times> point list \<times> point list \<times> point list) option" where
  "three_way vdiff vcommit s base v1 v2 =
     do {
       (add1, remove1) \<leftarrow> vdiff s base v1;
       (add2, remove2) \<leftarrow> vdiff s base v2;
       let (insert1, delete1, update1) = filter_diff_results add1 remove1;
       let (insert2, delete2, update2) = filter_diff_results add2 remove2;
       let (no_conflict_insert, conflict_insert) = merge_by_id_with_conflict insert1 insert2;
       let (no_conflict_update, conflict_update) = merge_by_id_with_conflict update1 update2;
       let (no_conflict_delete, conflict_delete) = merge_by_id_with_conflict delete1 update2;
       let (no_conflict_delete1, conflict_delete1) = merge_by_id_with_conflict delete2 update1;
       (s', new_ver) \<leftarrow> vcommit s base no_conflict_insert (no_conflict_delete @ no_conflict_delete1);
       Some (s', new_ver, conflict_insert, conflict_update, conflict_delete @ conflict_delete1) }"

text \<open>Each part of the edits, under the names of the routine.\<close>

lemma merge_edits_parts:
  assumes d: "distinct_ids B" "distinct_ids A1" "distinct_ids A2"
    and s: "sorted_by pt_key B" "sorted_by pt_key A1" "sorted_by pt_key A2"
    and m: "merge_edits B A1 A2 = (I, D, ci, cu, cd)"
  obtains ins1 del1 upd1 ins2 del2 upd2 ncu ncd cd' ncd1 cd1 where
    "set ins1 = {q \<in> set A1. pt_id q \<notin> pt_id ` set B}" "set del1 = {p \<in> set B. pt_id p \<notin> pt_id ` set A1}"
    "set upd1 = {q \<in> set A1. pt_id q \<in> pt_id ` set B \<and> pt_key q \<notin> keyset B}"
    "set ins2 = {q \<in> set A2. pt_id q \<notin> pt_id ` set B}" "set del2 = {p \<in> set B. pt_id p \<notin> pt_id ` set A2}"
    "set upd2 = {q \<in> set A2. pt_id q \<in> pt_id ` set B \<and> pt_key q \<notin> keyset B}"
    "distinct_ids ins1" "distinct_ids del1" "distinct_ids upd1" "distinct_ids ins2" "distinct_ids del2" "distinct_ids upd2"
    "merge_by_id_with_conflict ins1 ins2 = (I, ci)" "merge_by_id_with_conflict upd1 upd2 = (ncu, cu)"
    "merge_by_id_with_conflict del1 upd2 = (ncd, cd')" "merge_by_id_with_conflict del2 upd1 = (ncd1, cd1)"
    "D = ncd @ ncd1" "cd = cd' @ cd1"
proof -
  obtain add1 rem1 where l1: "list_diff B A1 = (add1, rem1)" by fastforce
  obtain add2 rem2 where l2: "list_diff B A2 = (add2, rem2)" by fastforce
  obtain ins1 del1 upd1 where f1: "filter_diff_results add1 rem1 = (ins1, del1, upd1)" by (metis prod_cases3)
  obtain ins2 del2 upd2 where f2: "filter_diff_results add2 rem2 = (ins2, del2, upd2)" by (metis prod_cases3)
  note e1 = side_edits [OF d(1,2) s(1,2) l1 f1] and e2 = side_edits [OF d(1,3) s(1,3) l2 f2]
  obtain ncu cu' where m2: "merge_by_id_with_conflict upd1 upd2 = (ncu, cu')" by fastforce
  obtain ncd cd' where m3: "merge_by_id_with_conflict del1 upd2 = (ncd, cd')" by fastforce
  obtain ncd1 cd1 where m4: "merge_by_id_with_conflict del2 upd1 = (ncd1, cd1)" by fastforce
  have "merge_by_id_with_conflict ins1 ins2 = (I, ci)" "cu' = cu" "D = ncd @ ncd1" "cd = cd' @ cd1"
    using m by (auto simp: merge_edits_def l1 l2 f1 f2 m2 m3 m4 split: prod.splits)
  then show thesis using that [OF e1(1-3) e2(1-3) e1(4-6) e2(4-6) _ _ m3 m4] m2 by simp
qed

lemma merge_edits_length:
  assumes "merge_edits B A1 A2 = (I, D, ci, cu, cd)"
  shows "length I \<le> length A1 + length A2"
proof -
  obtain add1 rem1 where l1: "list_diff B A1 = (add1, rem1)" by fastforce
  obtain add2 rem2 where l2: "list_diff B A2 = (add2, rem2)" by fastforce
  obtain ins1 del1 upd1 where f1: "filter_diff_results add1 rem1 = (ins1, del1, upd1)" by (metis prod_cases3)
  obtain ins2 del2 upd2 where f2: "filter_diff_results add2 rem2 = (ins2, del2, upd2)" by (metis prod_cases3)
  have m: "merge_by_id_with_conflict ins1 ins2 = (I, ci)"
    using assms by (auto simp: merge_edits_def l1 l2 f1 f2 split: prod.splits)
  have "length I \<le> length ins1 + length ins2"
    using length_conflict_walk [OF m [unfolded merge_by_id_with_conflict_def]] by simp
  moreover have "length ins1 \<le> length add1" "length ins2 \<le> length add2"
    using length_filter_diff_walk [OF f1 [unfolded filter_diff_results_def]]
      length_filter_diff_walk [OF f2 [unfolded filter_diff_results_def]] by simp_all
  moreover have "length add1 \<le> length A1" "length add2 \<le> length A2"
    using l1 l2 length_diff_by [of pt_key pt_key A1 B] length_diff_by [of pt_key pt_key A2 B] by (auto simp: list_diff_def)
  ultimately show ?thesis by linarith
qed

lemma merge_edits_members:
  assumes "distinct_ids B" "distinct_ids A1" "distinct_ids A2"
    and "sorted_by pt_key B" "sorted_by pt_key A1" "sorted_by pt_key A2"
    and "merge_edits B A1 A2 = (I, D, ci, cu, cd)"
  shows "set I \<subseteq> set A1 \<union> set A2" "set D \<subseteq> set B \<union> set A1 \<union> set A2"
proof -
  obtain ins1 del1 upd1 ins2 del2 upd2 ncu ncd cd' ncd1 cd1 where
    P: "set ins1 = {q \<in> set A1. pt_id q \<notin> pt_id ` set B}" "set del1 = {p \<in> set B. pt_id p \<notin> pt_id ` set A1}"
      "set upd1 = {q \<in> set A1. pt_id q \<in> pt_id ` set B \<and> pt_key q \<notin> keyset B}"
      "set ins2 = {q \<in> set A2. pt_id q \<notin> pt_id ` set B}" "set del2 = {p \<in> set B. pt_id p \<notin> pt_id ` set A2}"
      "set upd2 = {q \<in> set A2. pt_id q \<in> pt_id ` set B \<and> pt_key q \<notin> keyset B}"
    and D: "distinct_ids ins1" "distinct_ids del1" "distinct_ids upd1" "distinct_ids ins2" "distinct_ids del2" "distinct_ids upd2"
    and M: "merge_by_id_with_conflict ins1 ins2 = (I, ci)" "merge_by_id_with_conflict upd1 upd2 = (ncu, cu)"
      "merge_by_id_with_conflict del1 upd2 = (ncd, cd')" "merge_by_id_with_conflict del2 upd1 = (ncd1, cd1)"
      "D = ncd @ ncd1" "cd = cd' @ cd1"
    by (rule merge_edits_parts [OF assms])
  have S: "set ins1 \<subseteq> set A1" "set del1 \<subseteq> set B" "set upd1 \<subseteq> set A1" "set ins2 \<subseteq> set A2" "set del2 \<subseteq> set B" "set upd2 \<subseteq> set A2"
    unfolding P by blast+
  have "set I \<subseteq> set ins1 \<union> set ins2" by (rule merge_by_id_sets(1) [OF D(1,4) M(1)])
  then show "set I \<subseteq> set A1 \<union> set A2" using S by blast
  have "set ncd \<subseteq> set del1 \<union> set upd2" "set ncd1 \<subseteq> set del2 \<union> set upd1"
    using merge_by_id_sets(1) [OF D(2,6) M(3)] merge_by_id_sets(1) [OF D(5,3) M(4)] by blast+
  then show "set D \<subseteq> set B \<union> set A1 \<union> set A2" using S unfolding M(5) by auto
qed

lemma in_keyset_id: "pt_key q \<in> keyset P \<Longrightarrow> pt_id q \<in> pt_id ` set P"
  by (auto simp: keyset_def pt_key_def)

lemma keyset_by_id:
  assumes "pt_id q \<in> pt_id ` set P" "\<forall>x\<in>set P. pt_id x = pt_id q \<longrightarrow> pt_key x = pt_key q"
  shows "pt_key q \<in> keyset P"
proof -
  from assms(1) obtain x where "x \<in> set P" "pt_id x = pt_id q" by auto
  moreover from this have "pt_key q = pt_key x" using assms(2) by simp
  ultimately show ?thesis by (simp add: keyset_def)
qed

text \<open>\<open>steady B A\<close>: no point of the base has another key in the version.\<close>

definition steady :: "point list \<Rightarrow> point list \<Rightarrow> bool" where
  "steady B A \<longleftrightarrow> (\<forall>x\<in>set B. \<forall>y\<in>set A. pt_id x = pt_id y \<longrightarrow> pt_key x = pt_key y)"

definition merged_keys :: "point list \<Rightarrow> point list \<Rightarrow> point list \<Rightarrow> zkey set" where
  "merged_keys B A1 A2 =
     (keyset B \<inter> keyset A1 \<inter> keyset A2) \<union> (keyset A1 - keyset B) \<union> (keyset A2 - keyset B)"

lemma merge_edits_without_updates:
  assumes d: "distinct_ids B" "distinct_ids A1" "distinct_ids A2"
    and s: "sorted_by pt_key B" "sorted_by pt_key A1" "sorted_by pt_key A2"
    and n: "steady B A1" "steady B A2"
    and i: "\<forall>x\<in>set A1. \<forall>y\<in>set A2. pt_id x = pt_id y \<longrightarrow> pt_id x \<in> pt_id ` set B"
    and m: "merge_edits B A1 A2 = (I, D, ci, cu, cd)"
  shows "ci = []" "cu = []" "cd = []" "(keyset B - keyset D) \<union> keyset I = merged_keys B A1 A2"
proof -
  obtain ins1 del1 upd1 ins2 del2 upd2 ncu ncd cd' ncd1 cd1 where
    S1: "set ins1 = {q \<in> set A1. pt_id q \<notin> pt_id ` set B}" "set del1 = {p \<in> set B. pt_id p \<notin> pt_id ` set A1}"
      "set upd1 = {q \<in> set A1. pt_id q \<in> pt_id ` set B \<and> pt_key q \<notin> keyset B}"
    and S2: "set ins2 = {q \<in> set A2. pt_id q \<notin> pt_id ` set B}" "set del2 = {p \<in> set B. pt_id p \<notin> pt_id ` set A2}"
      "set upd2 = {q \<in> set A2. pt_id q \<in> pt_id ` set B \<and> pt_key q \<notin> keyset B}"
    and D: "distinct_ids ins1" "distinct_ids del1" "distinct_ids upd1" "distinct_ids ins2" "distinct_ids del2" "distinct_ids upd2"
    and M: "merge_by_id_with_conflict ins1 ins2 = (I, ci)" "merge_by_id_with_conflict upd1 upd2 = (ncu, cu)"
      "merge_by_id_with_conflict del1 upd2 = (ncd, cd')" "merge_by_id_with_conflict del2 upd1 = (ncd1, cd1)"
      "D = ncd @ ncd1" "cd = cd' @ cd1"
    by (rule merge_edits_parts [OF d s m])
  have k1: "pt_key q \<in> keyset B" if "q \<in> set A1" "pt_id q \<in> pt_id ` set B" for q
    using n(1) that unfolding steady_def by (blast intro: keyset_by_id)
  have k2: "pt_key q \<in> keyset B" if "q \<in> set A2" "pt_id q \<in> pt_id ` set B" for q
    using n(2) that unfolding steady_def by (blast intro: keyset_by_id)
  have "set upd1 = {}" "set upd2 = {}" unfolding S1(3) S2(3) using k1 k2 by blast+
  then have "upd1 = []" "upd2 = []" by simp_all
  then have r: "cu = []" "ncd = by_id del1" "cd' = []" "ncd1 = by_id del2" "cd1 = []"
    using M(2-4) by (auto simp: merge_by_id_Nil)
  have "pt_id ` set ins1 \<inter> pt_id ` set ins2 = {}" using i unfolding S1 S2 by fastforce
  then have ni: "set I = set ins1 \<union> set ins2" "ci = []" using merge_by_id_sets(4) [OF D(1,4) M(1)] by auto
  have ins: "keyset ins1 = keyset A1 - keyset B" "keyset ins2 = keyset A2 - keyset B"
  proof -
    have "q \<in> set ins1 \<longleftrightarrow> q \<in> set A1 \<and> pt_key q \<notin> keyset B" for q unfolding S1(1) using k1 in_keyset_id by blast
    then show "keyset ins1 = keyset A1 - keyset B"
      unfolding keyset_def [of ins1] keyset_def [of A1] by (rule image_filter_minus)
    have "q \<in> set ins2 \<longleftrightarrow> q \<in> set A2 \<and> pt_key q \<notin> keyset B" for q unfolding S2(1) using k2 in_keyset_id by blast
    then show "keyset ins2 = keyset A2 - keyset B"
      unfolding keyset_def [of ins2] keyset_def [of A2] by (rule image_filter_minus)
  qed
  have del: "pt_key x \<in> keyset A \<longleftrightarrow> pt_id x \<in> pt_id ` set A" if "x \<in> set B" "steady B A" for x A
    using in_keyset_id keyset_by_id that unfolding steady_def by (metis (no_types, lifting))
  have dl: "keyset B - keyset del1 - keyset del2 = keyset B \<inter> keyset A1 \<inter> keyset A2"
  proof (rule set_eqI)
    fix k
    have "x = y" if "x \<in> set B" "y \<in> set B" "pt_key x = pt_key y" for x y
      using distinct_idsD [OF d(1) that(1,2)] that(3) by (simp add: pt_key_def)
    then show "k \<in> keyset B - keyset del1 - keyset del2 \<longleftrightarrow> k \<in> keyset B \<inter> keyset A1 \<inter> keyset A2"
      using del [OF _ n(1)] del [OF _ n(2)] unfolding keyset_def [of del1] keyset_def [of del2] S1 S2 keyset_def [of B]
      by blast
  qed
  have "keyset D = keyset del1 \<union> keyset del2" "keyset I = keyset ins1 \<union> keyset ins2"
    using r ni M(5) by (auto simp: keyset_def)
  then show "(keyset B - keyset D) \<union> keyset I = merged_keys B A1 A2"
    unfolding merged_keys_def using dl ins by blast
  show "ci = []" "cu = []" "cd = []" using r ni M(6) by simp_all
qed

lemma merge_edits_drop_update:
  assumes d: "distinct_ids B" "distinct_ids A1" "distinct_ids A2"
    and s: "sorted_by pt_key B" "sorted_by pt_key A1" "sorted_by pt_key A2"
    and x: "x \<in> set B" "y \<in> set A1" "pt_id x = pt_id y" "pt_key x \<noteq> pt_key y" "x \<in> set A2"
    and m: "merge_edits B A1 A2 = (I, D, ci, cu, cd)"
  shows "pt_key x \<in> keyset B - keyset D" "pt_key y \<notin> keyset B \<union> keyset I" "pt_id x \<notin> pt_id ` set (ci @ cu @ cd)"
proof -
  obtain ins1 del1 upd1 ins2 del2 upd2 ncu ncd cd' ncd1 cd1 where
    S1: "set ins1 = {q \<in> set A1. pt_id q \<notin> pt_id ` set B}" "set del1 = {p \<in> set B. pt_id p \<notin> pt_id ` set A1}"
      "set upd1 = {q \<in> set A1. pt_id q \<in> pt_id ` set B \<and> pt_key q \<notin> keyset B}"
    and S2: "set ins2 = {q \<in> set A2. pt_id q \<notin> pt_id ` set B}" "set del2 = {p \<in> set B. pt_id p \<notin> pt_id ` set A2}"
      "set upd2 = {q \<in> set A2. pt_id q \<in> pt_id ` set B \<and> pt_key q \<notin> keyset B}"
    and D: "distinct_ids ins1" "distinct_ids del1" "distinct_ids upd1" "distinct_ids ins2" "distinct_ids del2" "distinct_ids upd2"
    and M: "merge_by_id_with_conflict ins1 ins2 = (I, ci)" "merge_by_id_with_conflict upd1 upd2 = (ncu, cu)"
      "merge_by_id_with_conflict del1 upd2 = (ncd, cd')" "merge_by_id_with_conflict del2 upd1 = (ncd1, cd1)"
      "D = ncd @ ncd1" "cd = cd' @ cd1"
    by (rule merge_edits_parts [OF d s m])
  have xB: "pt_id x \<in> pt_id ` set B" "pt_id x \<in> pt_id ` set A1" "pt_id x \<in> pt_id ` set A2"
    using x by (metis image_eqI)+
  have yB: "pt_key y \<notin> keyset B"
  proof
    assume "pt_key y \<in> keyset B"
    then obtain z where z: "z \<in> set B" "pt_key z = pt_key y" by (auto simp: keyset_def)
    then have "z = x" using distinct_idsD [OF d(1) z(1) x(1)] x(3) by (simp add: pt_key_def)
    then show False using z(2) x(4) by simp
  qed
  have no: "pt_id x \<notin> pt_id ` set ins1" "pt_id x \<notin> pt_id ` set ins2" "pt_id x \<notin> pt_id ` set del1"
    "pt_id x \<notin> pt_id ` set del2" using xB unfolding S1 S2 by (metis (no_types, lifting) imageE mem_Collect_eq)+
  have u2: "pt_id x \<notin> pt_id ` set upd2"
  proof
    assume "pt_id x \<in> pt_id ` set upd2"
    then obtain z where z: "z \<in> set A2" "pt_key z \<notin> keyset B" "pt_id z = pt_id x" unfolding S2 by auto
    then have "z = x" using distinct_idsD [OF d(3) z(1) x(5)] by simp
    then show False using z(2) x(1) by (simp add: keyset_def)
  qed
  have "pt_id x \<notin> pt_id ` set ci" using merge_by_id_sets(3) [OF D(1,4) M(1)] no(1) by blast
  moreover have "pt_id x \<notin> pt_id ` set cu" using merge_by_id_sets(3) [OF D(3,6) M(2)] u2 by blast
  moreover have "pt_id x \<notin> pt_id ` set cd'" using merge_by_id_sets(3) [OF D(2,6) M(3)] u2 by blast
  moreover have "pt_id x \<notin> pt_id ` set cd1" using merge_by_id_sets(3) [OF D(5,3) M(4)] no(4) by blast
  ultimately show "pt_id x \<notin> pt_id ` set (ci @ cu @ cd)" using M(6) by auto
  have "pt_key x \<notin> keyset D"
  proof
    assume "pt_key x \<in> keyset D"
    then obtain z where z: "z \<in> set ncd \<union> set ncd1" "pt_key z = pt_key x"
      unfolding keyset_def M(5) set_append by (metis imageE)
    then have "z \<in> set del1 \<union> set upd2 \<union> (set del2 \<union> set upd1)"
      using merge_by_id_sets(1) [OF D(2,6) M(3)] merge_by_id_sets(1) [OF D(5,3) M(4)] by blast
    moreover have "pt_id z = pt_id x" using z(2) by (simp add: pt_key_def)
    moreover have "pt_key z \<in> keyset B" using z(2) x(1) by (simp add: keyset_def)
    ultimately show False using no u2 unfolding S1(3) by (metis (no_types, lifting) UnE image_eqI mem_Collect_eq)
  qed
  then show "pt_key x \<in> keyset B - keyset D" using x(1) by (simp add: keyset_def)
  have "pt_key y \<notin> keyset I"
  proof
    assume "pt_key y \<in> keyset I"
    then obtain z where z: "z \<in> set ins1 \<union> set ins2" "pt_key z = pt_key y"
      using merge_by_id_sets(1) [OF D(1,4) M(1)] unfolding keyset_def by (metis imageE subsetD)
    then have "pt_id z = pt_id x" using x(3) by (simp add: pt_key_def)
    then show False using z(1) no by (metis UnE image_eqI)
  qed
  then show "pt_key y \<notin> keyset B \<union> keyset I" using yB by simp
qed

section \<open>Merging on a store of versions\<close>

text \<open>
  \<open>holds s v t\<close>: in the state \<open>s\<close> the version named \<open>v\<close> is \<open>t\<close>. \<open>fails t D\<close>: the
  deletion of \<open>D\<close> from \<open>t\<close> is undefined. A commit that is defined needs distinct ids, coded
  points and a size that the index can count, and it keeps every version.
\<close>

locale version_store =
  fixes holds :: "'s \<Rightarrow> 'v \<Rightarrow> 't \<Rightarrow> bool"
    and contents :: "'t \<Rightarrow> point list"
    and vdiff :: "'s \<Rightarrow> 'v \<Rightarrow> 'v \<Rightarrow> (point list \<times> point list) option"
    and vcommit :: "'s \<Rightarrow> 'v \<Rightarrow> point list \<Rightarrow> point list \<Rightarrow> ('s \<times> 'v) option"
    and small :: "nat \<Rightarrow> bool"
    and fails :: "'t \<Rightarrow> point list \<Rightarrow> bool"
  assumes small_mono: "small n \<Longrightarrow> m \<le> n \<Longrightarrow> small m"
    and contents_sorted: "holds s v t \<Longrightarrow> sorted_by pt_key (contents t)"
    and contents_coded: "holds s v t \<Longrightarrow> \<forall>p\<in>set (contents t). zcoded p"
    and diff_exact: "holds s v t \<Longrightarrow> holds s w u \<Longrightarrow> vdiff s v w = Some (list_diff (contents t) (contents u))"
    and commit_fails: "holds s v t \<Longrightarrow> fails t D \<Longrightarrow> vcommit s v I D = None"
    and commit_exact: "holds s v t \<Longrightarrow> \<not> fails t D \<Longrightarrow> distinct_ids (contents t) \<Longrightarrow> small (length (contents t) + length I) \<Longrightarrow>
        \<forall>p\<in>set I \<union> set D. zcoded p \<Longrightarrow>
        \<exists>s' v' t'. vcommit s v I D = Some (s', v') \<and> holds s' v' t' \<and>
          keyset (contents t') = (keyset (contents t) - keyset D) \<union> keyset I \<and> (\<forall>w u. holds s w u \<longrightarrow> holds s' w u)"
begin

lemma three_way_fails:
  assumes h: "holds s v B" "holds s w1 A1" "holds s w2 A2"
    and f: "fails B (merge_deletes (contents B) (contents A1) (contents A2))"
  shows "three_way vdiff vcommit s v w1 w2 = None"
proof -
  obtain I D ci cu cd where m: "merge_edits (contents B) (contents A1) (contents A2) = (I, D, ci, cu, cd)" by (metis prod_cases5)
  then have "fails B D" using f by (simp add: merge_deletes_def)
  note c = commit_fails [OF h(1) this, of I]
  show ?thesis
    using m c by (auto simp: three_way_def merge_edits_def diff_exact [OF h(1,2)] diff_exact [OF h(1,3)] split: prod.splits)
qed

lemma three_way_edits:
  assumes h: "holds s v B" "holds s w1 A1" "holds s w2 A2"
    and d: "distinct_ids (contents B)" "distinct_ids (contents A1)" "distinct_ids (contents A2)"
    and sm: "small (length (contents B) + (length (contents A1) + length (contents A2)))"
    and m: "merge_edits (contents B) (contents A1) (contents A2) = (I, D, ci, cu, cd)" and f: "\<not> fails B D"
  shows "\<exists>s' v' T. three_way vdiff vcommit s v w1 w2 = Some (s', v', ci, cu, cd) \<and> holds s' v' T \<and>
    keyset (contents T) = (keyset (contents B) - keyset D) \<union> keyset I \<and> (\<forall>w u. holds s w u \<longrightarrow> holds s' w u)"
proof -
  note st = h [THEN contents_sorted] and z = h [THEN contents_coded]
  have "\<forall>p\<in>set I \<union> set D. zcoded p" using merge_edits_members [OF d st m] z by blast
  moreover have "small (length (contents B) + length I)"
    using small_mono [OF sm] merge_edits_length [OF m] by simp
  ultimately obtain s' v' T where c: "vcommit s v I D = Some (s', v')" "holds s' v' T"
    "keyset (contents T) = (keyset (contents B) - keyset D) \<union> keyset I" "\<forall>w u. holds s w u \<longrightarrow> holds s' w u"
    using commit_exact [OF h(1) f d(1)] by blast
  have "three_way vdiff vcommit s v w1 w2 = Some (s', v', ci, cu, cd)"
    using m c(1) by (auto simp: three_way_def merge_edits_def diff_exact [OF h(1,2)] diff_exact [OF h(1,3)] split: prod.splits)
  then show ?thesis using c(2-4) by blast
qed

lemma three_way_without_updates:
  assumes h: "holds s v B" "holds s w1 A1" "holds s w2 A2"
    and d: "distinct_ids (contents B)" "distinct_ids (contents A1)" "distinct_ids (contents A2)"
    and sm: "small (length (contents B) + (length (contents A1) + length (contents A2)))"
    and n: "steady (contents B) (contents A1)" "steady (contents B) (contents A2)"
    and i: "\<forall>x\<in>set (contents A1). \<forall>y\<in>set (contents A2). pt_id x = pt_id y \<longrightarrow> pt_id x \<in> pt_id ` set (contents B)"
    and f: "\<not> fails B (merge_deletes (contents B) (contents A1) (contents A2))"
  shows "\<exists>s' v' T. three_way vdiff vcommit s v w1 w2 = Some (s', v', [], [], []) \<and> holds s' v' T \<and>
    keyset (contents T) = merged_keys (contents B) (contents A1) (contents A2) \<and> (\<forall>w u. holds s w u \<longrightarrow> holds s' w u)"
proof -
  obtain I D ci cu cd where m: "merge_edits (contents B) (contents A1) (contents A2) = (I, D, ci, cu, cd)" by (metis prod_cases5)
  then have "\<not> fails B D" using f by (simp add: merge_deletes_def)
  then show ?thesis
    using three_way_edits [OF h d sm m] merge_edits_without_updates [OF d h [THEN contents_sorted] n i m] by simp
qed

lemma three_way_drops_update:
  assumes h: "holds s v B" "holds s w1 A1" "holds s w2 A2"
    and d: "distinct_ids (contents B)" "distinct_ids (contents A1)" "distinct_ids (contents A2)"
    and sm: "small (length (contents B) + (length (contents A1) + length (contents A2)))"
    and x: "x \<in> set (contents B)" "y \<in> set (contents A1)" "pt_id x = pt_id y" "pt_key x \<noteq> pt_key y" "x \<in> set (contents A2)"
    and f: "\<not> fails B (merge_deletes (contents B) (contents A1) (contents A2))"
  shows "\<exists>s' v' ci cu cd T. three_way vdiff vcommit s v w1 w2 = Some (s', v', ci, cu, cd) \<and> holds s' v' T \<and>
    pt_key x \<in> keyset (contents T) \<and> pt_key y \<notin> keyset (contents T) \<and> pt_id x \<notin> pt_id ` set (ci @ cu @ cd)"
proof -
  obtain I D ci cu cd where m: "merge_edits (contents B) (contents A1) (contents A2) = (I, D, ci, cu, cd)" by (metis prod_cases5)
  note e = merge_edits_drop_update [OF d h [THEN contents_sorted] x m]
  have "\<not> fails B D" using f m by (simp add: merge_deletes_def)
  from three_way_edits [OF h d sm m this] obtain s' v' T where t: "three_way vdiff vcommit s v w1 w2 = Some (s', v', ci, cu, cd)"
    "holds s' v' T" "keyset (contents T) = (keyset (contents B) - keyset D) \<union> keyset I" by blast
  have "pt_key x \<in> keyset (contents T)" "pt_key y \<notin> keyset (contents T)" using e(1,2) unfolding t(3) by blast+
  then show ?thesis using t(1,2) e(3) by blast
qed

end

end
