(* ===== verification/MvqDiff.thy ===== *)
theory MvqDiff
  imports MvqCommit VersionMerge
begin

text \<open>
  The difference of two versions (\<open>diff\<close>, \<open>leaf_inte_diff\<close>,
  \<open>two_version_diff\<close> of \<open>mvq.hpp\<close>), on the store: nodes two versions
  share are recognised by their address and skipped. The results are pairs of the
  added and the removed points. \<open>None\<close> is a null dereference or a visit of an
  interior node at level 0.
\<close>

section \<open>The routines\<close>

fun hcollect :: "heap \<Rightarrow> addr option \<Rightarrow> nat \<Rightarrow> point list option" where
  "hcollect h x b =
     (case x of
        None \<Rightarrow> Some []
      | Some a \<Rightarrow>
        (case cells h a of
           None \<Rightarrow> None
         | Some (HLeaf records) \<Rightarrow> Some records
         | Some (HInte l_son r_son num_pts) \<Rightarrow>
             (if b = 0 then None
              else do {
                ret \<leftarrow> hcollect h l_son (b - 1);
                R \<leftarrow> hcollect h r_son (b - 1);
                Some (ret @ R) })))"

declare hcollect.simps [simp del]

definition leaf_leaf_diff :: "point list \<Rightarrow> point list \<Rightarrow> (point list \<times> point list) option" where
  "leaf_leaf_diff records1 records2 = merge_pts_pair records1 records2"

fun leaf_inte_diff :: "heap \<Rightarrow> point list \<Rightarrow> addr option \<Rightarrow> nat \<Rightarrow> (point list \<times> point list) option" where
  "leaf_inte_diff h P x b =
     (case x of
        None \<Rightarrow> Some ([], P)
      | Some a \<Rightarrow>
        (case cells h a of
           None \<Rightarrow> None
         | Some (HLeaf records) \<Rightarrow> merge_pts_pair P records
         | Some (HInte l_son r_son num_pts) \<Rightarrow>
             (if b = 0 then None
              else
                let splitter = split_by_bit P 0 (length P) b in
                do {
                  (L_add, L_remove) \<leftarrow> leaf_inte_diff h (take splitter P) l_son (b - 1);
                  (R_add, R_remove) \<leftarrow> leaf_inte_diff h (drop splitter P) r_son (b - 1);
                  Some (L_add @ R_add, L_remove @ R_remove) })))"

declare leaf_inte_diff.simps [simp del]

fun diff :: "heap \<Rightarrow> addr option \<Rightarrow> addr option \<Rightarrow> nat \<Rightarrow> (point list \<times> point list) option" where
  "diff h node1 node2 b =
     (if node1 = node2 then Some ([], [])
      else if node1 = None then do { add \<leftarrow> hcollect h node2 b; Some (add, []) }
      else if node2 = None then do { remove \<leftarrow> hcollect h node1 b; Some ([], remove) }
      else
        (case (deref h node1, deref h node2) of
           (Some (HLeaf records1), Some (HLeaf records2)) \<Rightarrow> leaf_leaf_diff records1 records2
         | (Some (HLeaf P), Some (HInte l2 r2 n2)) \<Rightarrow> leaf_inte_diff h P node2 b
         | (Some (HInte l1 r1 n1), Some (HLeaf P)) \<Rightarrow>
             do { (remove, add) \<leftarrow> leaf_inte_diff h P node1 b; Some (add, remove) }
         | (Some (HInte l1 r1 n1), Some (HInte l2 r2 n2)) \<Rightarrow>
             (if b = 0 then None
              else do {
                (L_add, L_remove) \<leftarrow> diff h l1 l2 (b - 1);
                (R_add, R_remove) \<leftarrow> diff h r1 r2 (b - 1);
                Some (L_add @ R_add, L_remove @ R_remove) })
         | _ \<Rightarrow> None))"

declare diff.simps [simp del]

definition two_version_diff :: "heap \<Rightarrow> addr option \<Rightarrow> addr option \<Rightarrow> (point list \<times> point list) option" where
  "two_version_diff h node1 node2 = diff h node1 node2 64"

section \<open>Exactness\<close>

lemma reps_unique: "reps h S p t \<Longrightarrow> reps h T p u \<Longrightarrow> t = u"
proof (induction t arbitrary: p u)
  case (InteNode l r n)
  then show ?case by (cases u) auto
qed (case_tac u; auto)+

lemma hcollect_reps: "reps h S p t \<Longrightarrow> mvq_ok b t \<Longrightarrow> hcollect h p b = Some (collect_records t)"
proof (induction t arbitrary: p b)
  case (InteNode l r n)
  then obtain a pl pr where "p = Some a" "cells h a = Some (HInte pl pr n)" "reps h S pl l" "reps h S pr r"
    by auto
  with InteNode show ?case by (subst hcollect.simps) auto
qed (auto simp: hcollect.simps)

text \<open>
  The reference: the two-pointer difference of the traversals. On the two halves of a
  cell it works side by side.
\<close>

lemma diff_by_skip: "\<forall>c\<in>set C. \<forall>b\<in>set B. ky c < kx b \<Longrightarrow> diff_by kx ky B (C @ D) = diff_by kx ky B D"
proof (induction C)
  case (Cons c C)
  then show ?case by (cases B) auto
qed simp

lemma diff_by_keep: "\<forall>a\<in>set A. \<forall>d\<in>set D. kx a < ky d \<Longrightarrow> diff_by kx ky (A @ B) D = A @ diff_by kx ky B D"
proof (induction A)
  case (Cons a A)
  then show ?case by (cases D) auto
qed simp

lemma diff_by_append:
  "\<forall>a\<in>set A. \<forall>d\<in>set D. kx a < ky d \<Longrightarrow> \<forall>c\<in>set C. \<forall>b\<in>set B. ky c < kx b \<Longrightarrow>
   diff_by kx ky (A @ B) (C @ D) = diff_by kx ky A C @ diff_by kx ky B D"
proof (induction kx ky A C rule: diff_by.induct)
  case (1 kx ky C)
  then show ?case by (simp add: diff_by_skip)
next
  case (2 kx ky x xs)
  then show ?case using diff_by_keep [of "x # xs" D kx ky B] by simp
next
  case (3 kx ky x xs y ys)
  then show ?case by simp
qed

lemma diff_by_self: "diff_by k k xs xs = []"
  by (induction xs) auto

lemma list_diff_self [simp]: "list_diff P P = ([], [])"
  by (simp add: list_diff_def diff_by_self)

lemma list_diff_Nil [simp]: "list_diff [] Q = (Q, [])" "list_diff P [] = ([], P)"
  by (simp_all add: list_diff_def)

lemma merge_pts_pair_list_diff: "merge_pts_pair P Q = Some (list_diff P Q)"
  by (simp add: merge_pts_pair_eq list_diff_def)

text \<open>Points of one cell, separated by the bit below its level.\<close>

definition separated :: "point list \<Rightarrow> point list \<Rightarrow> point list \<Rightarrow> point list \<Rightarrow> bool" where
  "separated A B C D \<longleftrightarrow>
     (\<forall>a\<in>set A. \<forall>d\<in>set D. pt_key a < pt_key d) \<and> (\<forall>c\<in>set C. \<forall>b\<in>set B. pt_key c < pt_key b)"

lemma separatedI:
  assumes "same_cell b (set (A @ B) \<union> set (C @ D))" "1 \<le> b" "b \<le> 64"
    "\<forall>p\<in>set (A @ B) \<union> set (C @ D). zcoded p"
    "\<forall>p\<in>set A \<union> set C. bit_clear b p" "\<forall>p\<in>set B \<union> set D. \<not> bit_clear b p"
  shows "separated A B C D"
  unfolding separated_def using half_less [OF assms(1,4,2,3)] assms(5,6) by simp

lemma list_diff_append:
  assumes "separated A B C D" "list_diff A C = (a1, r1)" "list_diff B D = (a2, r2)"
  shows "list_diff (A @ B) (C @ D) = (a1 @ a2, r1 @ r2)"
  using assms by (simp add: list_diff_def separated_def diff_by_append)

lemma leaf_inte_diff_reps:
  "reps h S p t \<Longrightarrow> mvq_ok b t \<Longrightarrow> batch b P \<Longrightarrow> same_cell b (set P \<union> set (collect_records t)) \<Longrightarrow> b \<le> 64 \<Longrightarrow>
   leaf_inte_diff h P p b = Some (list_diff P (collect_records t))"
proof (induction t arbitrary: p P b)
  case Null
  then show ?case by (simp add: leaf_inte_diff.simps)
next
  case (LeafNode rs)
  then show ?case by (auto simp: leaf_inte_diff.simps merge_pts_pair_list_diff)
next
  case (InteNode l r n)
  obtain a pl pr where x: "p = Some a" "cells h a = Some (HInte pl pr n)" "reps h S pl l" "reps h S pr r"
    using InteNode.prems(1) by auto
  define s where "s = split_by_bit P 0 (length P) b"
  have b: "1 \<le> b" "b \<le> 64" "b - 1 \<le> 64" "b \<noteq> 0" using InteNode.prems by auto
  note sp = batch_split [OF InteNode.prems(3) b(1,2) s_def]
  note cells = descend [OF InteNode.prems(2,3) s_def InteNode.prems(4)]
  have ok: "mvq_ok (b - 1) l" "mvq_ok (b - 1) r" using InteNode.prems(2) by auto
  have L: "leaf_inte_diff h (take s P) pl (b - 1) = Some (list_diff (take s P) (collect_records l))"
    by (rule InteNode.IH(1) [OF x(3) ok(1) sp(1) cells(1) b(3)])
  have R: "leaf_inte_diff h (drop s P) pr (b - 1) = Some (list_diff (drop s P) (collect_records r))"
    by (rule InteNode.IH(2) [OF x(4) ok(2) sp(2) cells(2) b(3)])
  obtain a1 r1 a2 r2 where d: "list_diff (take s P) (collect_records l) = (a1, r1)"
    "list_diff (drop s P) (collect_records r) = (a2, r2)" by fastforce
  have "separated (take s P) (drop s P) (collect_records l) (collect_records r)"
  proof (rule separatedI [OF _ b(1,2)])
    show "same_cell b (set (take s P @ drop s P) \<union> set (collect_records l @ collect_records r))"
      using InteNode.prems(4) by simp
    show "\<forall>p\<in>set (take s P @ drop s P) \<union> set (collect_records l @ collect_records r). zcoded p"
      using InteNode.prems(2,3) mvq_ok_zcoded [OF InteNode.prems(2)] by (auto simp: batch_def)
  qed (use sp InteNode.prems(2) in auto)
  from list_diff_append [OF this d] have "list_diff P (collect_records (InteNode l r n)) = (a1 @ a2, r1 @ r2)" by simp
  moreover have "leaf_inte_diff h P p b = Some (a1 @ a2, r1 @ r2)"
    using L R d b(4) by (subst leaf_inte_diff.simps) (simp add: x s_def [symmetric] Let_def)
  ultimately show ?case by simp
qed

lemma list_diff_swap: "list_diff P Q = (a, r) \<Longrightarrow> list_diff Q P = (r, a)"
  by (simp add: list_diff_def)

lemma diff_reps:
  "reps h S p t \<Longrightarrow> reps h T q u \<Longrightarrow> mvq_ok b t \<Longrightarrow> mvq_ok b u \<Longrightarrow>
   same_cell b (set (collect_records t) \<union> set (collect_records u)) \<Longrightarrow> b \<le> 64 \<Longrightarrow>
   diff h p q b = Some (list_diff (collect_records t) (collect_records u))"
proof (induction t arbitrary: p q u b)
  case Null
  then show ?case using hcollect_reps [OF Null.prems(2,4)] reps_None_iff [OF Null.prems(2)]
    by (subst diff.simps) auto
next
  case (LeafNode P)
  obtain a where a: "p = Some a" "cells h a = Some (HLeaf P)" using LeafNode.prems(1) by auto
  have P: "batch b P" using LeafNode.prems(3) by simp
  show ?case
  proof (cases "p = q")
    case True
    then have "LeafNode P = u" using reps_unique [OF LeafNode.prems(1)] LeafNode.prems(2) by blast
    then show ?thesis using True by (subst diff.simps) auto
  next
    case False
    show ?thesis
    proof (cases u)
      case Null
      then show ?thesis using False LeafNode.prems(2) hcollect_reps [OF LeafNode.prems(1,3)] a
        by (subst diff.simps) auto
    next
      case (LeafNode Q)
      then show ?thesis using False \<open>reps h T q u\<close> a
        by (subst diff.simps) (auto simp: deref_def leaf_leaf_diff_def merge_pts_pair_list_diff)
    next
      case (InteNode l r n)
      then show ?thesis using False LeafNode.prems a leaf_inte_diff_reps [OF LeafNode.prems(2,4) P]
        by (subst diff.simps) (auto simp: deref_def)
    qed
  qed
next
  case (InteNode l r n)
  obtain a pl pr where x: "p = Some a" "cells h a = Some (HInte pl pr n)" "reps h S pl l" "reps h S pr r"
    using InteNode.prems(1) by auto
  have b: "1 \<le> b" "b \<le> 64" "b - 1 \<le> 64" "b \<noteq> 0" using InteNode.prems by auto
  have ok: "mvq_ok (b - 1) l" "mvq_ok (b - 1) r" using InteNode.prems(3) by auto
  show ?case
  proof (cases "p = q")
    case True
    then have "InteNode l r n = u" using reps_unique [OF InteNode.prems(1)] InteNode.prems(2) by blast
    then show ?thesis using True by (subst diff.simps) auto
  next
    case False
    show ?thesis
    proof (cases u)
      case Null
      then show ?thesis using False InteNode.prems(2) hcollect_reps [OF InteNode.prems(1,3)] x
        by (subst diff.simps) auto
    next
      case (LeafNode P)
      then obtain c where c: "q = Some c" "cells h c = Some (HLeaf P)" using InteNode.prems(2) by auto
      obtain ad rm where d: "list_diff P (collect_records (InteNode l r n)) = (ad, rm)" by fastforce
      have "leaf_inte_diff h P p b = Some (ad, rm)"
        using leaf_inte_diff_reps [OF InteNode.prems(1,3), of P] InteNode.prems(4,5,6) LeafNode d
        by (simp add: Un_commute)
      then show ?thesis using False c x list_diff_swap [OF d] LeafNode
        by (subst diff.simps) (auto simp: deref_def)
    next
      case u: (InteNode l2 r2 n2)
      then obtain c ql qr where c: "q = Some c" "cells h c = Some (HInte ql qr n2)" "reps h T ql l2" "reps h T qr r2"
        using InteNode.prems(2) by auto
      have ok2: "mvq_ok (b - 1) l2" "mvq_ok (b - 1) r2" using InteNode.prems(4) u by auto
      let ?L = "collect_records l" and ?R = "collect_records r"
      let ?L2 = "collect_records l2" and ?R2 = "collect_records r2"
      have z: "\<forall>p\<in>set (?L @ ?R) \<union> set (?L2 @ ?R2). zcoded p"
        using mvq_ok_zcoded [OF InteNode.prems(3)] mvq_ok_zcoded [OF InteNode.prems(4)] u by auto
      have bits: "\<forall>p\<in>set ?L \<union> set ?L2. bit_clear b p" "\<forall>p\<in>set ?R \<union> set ?R2. \<not> bit_clear b p"
        using InteNode.prems(3,4) u by auto
      have cell: "same_cell b (set (?L @ ?R) \<union> set (?L2 @ ?R2))" using InteNode.prems(5) u by simp
      have cL: "same_cell (b - 1) (set ?L \<union> set ?L2)"
        by (rule cell_half(1) [OF same_cell_subset [OF cell] b(1,2)]) (use z bits in auto)
      have cR: "same_cell (b - 1) (set ?R \<union> set ?R2)"
        by (rule cell_half(2) [OF same_cell_subset [OF cell] b(1,2)]) (use z bits in auto)
      obtain a1 r1 a2 r2' where d: "list_diff ?L ?L2 = (a1, r1)" "list_diff ?R ?R2 = (a2, r2')" by fastforce
      have "diff h pl ql (b - 1) = Some (a1, r1)"
        using InteNode.IH(1) [OF x(3) c(3) ok(1) ok2(1) cL b(3)] d by simp
      moreover have "diff h pr qr (b - 1) = Some (a2, r2')"
        using InteNode.IH(2) [OF x(4) c(4) ok(2) ok2(2) cR b(3)] d by simp
      moreover have "list_diff (?L @ ?R) (?L2 @ ?R2) = (a1 @ a2, r1 @ r2')"
        by (rule list_diff_append [OF separatedI [OF cell b(1,2) z bits] d])
      ultimately show ?thesis using False b(4) u by (subst diff.simps) (simp add: x(1,2) c(1,2) deref_def)
    qed
  qed
qed

section \<open>Differences of versions\<close>

lemma two_version_diff_version:
  assumes "version leaf_size h p t" "version leaf_size h q u"
  shows "two_version_diff h p q = Some (list_diff (collect_records t) (collect_records u))"
  using diff_reps [of h "{..<nxt h}" p t "{..<nxt h}" q u 64] assms
  by (simp add: two_version_diff_def version_def)

lemma list_diff_facts:
  assumes "list_diff P Q = (add, remove)" "sorted_by pt_key P" "sorted_by pt_key Q"
  shows "keys_of pt_key add = keys_of pt_key Q - keys_of pt_key P"
    "keys_of pt_key remove = keys_of pt_key P - keys_of pt_key Q"
    "set add \<subseteq> set Q" "set remove \<subseteq> set P" "sorted_by pt_key add" "sorted_by pt_key remove"
  using assms set_diff_by [of pt_key pt_key] by (auto simp: list_diff_def keys_diff_by sorted_diff_by)

text \<open>
  C3. The difference of any two versions of a reachable store, computed with the
  shortcut over shared nodes, is exact: it always succeeds, adds what the second
  version has beyond the first and removes the converse, so that applying it to the first
  version's contents gives the second's.
\<close>

theorem two_version_diff_exact:
  assumes "(vstep ov leaf_size)\<^sup>*\<^sup>* init_state s"
    and "i < length (multi_version_roots s)" "j < length (multi_version_roots s)"
    and "tree_of (mheap s) (multi_version_roots s ! i) 64 = Some t"
    and "tree_of (mheap s) (multi_version_roots s ! j) 64 = Some u"
  shows "\<exists>add remove. two_version_diff (mheap s) (multi_version_roots s ! i) (multi_version_roots s ! j) = Some (add, remove)
    \<and> keys_of pt_key add = keys_of pt_key (collect_records u) - keys_of pt_key (collect_records t)
    \<and> keys_of pt_key remove = keys_of pt_key (collect_records t) - keys_of pt_key (collect_records u)
    \<and> keys_of pt_key (collect_records t) - keys_of pt_key remove + keys_of pt_key add = keys_of pt_key (collect_records u)
    \<and> set add \<subseteq> set (collect_records u) \<and> set remove \<subseteq> set (collect_records t)"
proof -
  note g = steps_good [OF assms(1) good_init]
  have v: "version leaf_size (mheap s) (multi_version_roots s ! i) t"
    "version leaf_size (mheap s) (multi_version_roots s ! j) u"
    using read_version [OF g] assms by blast+
  obtain add remove where d: "list_diff (collect_records t) (collect_records u) = (add, remove)" by fastforce
  have "sorted_by pt_key (collect_records t)" "sorted_by pt_key (collect_records u)"
    using v mvq_ok_sorted by (auto simp: version_def)
  note f = list_diff_facts [OF d this]
  have "A - (A - B) + (B - A) = (B :: zkey multiset)" for A B
    by (rule multiset_eqI) auto
  then show ?thesis using two_version_diff_version [OF v] d f by simp
qed

theorem two_version_diff_exact_witness:
  "\<exists>add remove. two_version_diff (mheap run1) (multi_version_roots run1 ! 0) (multi_version_roots run1 ! 1) = Some (add, remove)
    \<and> keys_of pt_key add = {#pt_key (set_code (\<lambda>_. 0) False (Point3 1 2 3))#}"
proof -
  have l: "0 < length (multi_version_roots run1)" "1 < length (multi_version_roots run1)" by (simp_all add: run1_def)
  have t: "tree_of (mheap run1) (multi_version_roots run1 ! 0) 64 = Some Null"
    by (simp add: run1_def tree_of.simps)
  from two_version_diff_exact [OF run1_reachable l t run1_tree] show ?thesis by auto
qed

end
