(* ===== verification/MvqMerge.thy ===== *)
theory MvqMerge
  imports MvqDiff
begin

text \<open>
  The three-way merge of versions (\<open>merge\<close> of \<open>mvq.hpp\<close>): the two differences
  to the base are classified by id, conflicts are collected, and what remains is
  committed on top of the base.
\<close>

section \<open>The routine\<close>

definition merge_versions ::
  "(point \<Rightarrow> 64 word) \<Rightarrow> nat \<Rightarrow> addr option list \<Rightarrow> heap \<Rightarrow> addr option \<Rightarrow> addr option \<Rightarrow> addr option \<Rightarrow>
   (heap \<times> addr option \<times> point list \<times> point list \<times> point list) option" where
  "merge_versions ov leaf_size others h base node1 node2 =
     do {
       (add1, remove1) \<leftarrow> two_version_diff h base node1;
       (add2, remove2) \<leftarrow> two_version_diff h base node2;
       let (insert1, delete1, update1) = filter_diff_results add1 remove1;
       let (insert2, delete2, update2) = filter_diff_results add2 remove2;
       let (no_conflict_insert, conflict_insert) = merge_by_id_with_conflict insert1 insert2;
       let (no_conflict_update, conflict_update) = merge_by_id_with_conflict update1 update2;
       let (no_conflict_delete, conflict_delete) = merge_by_id_with_conflict delete1 update2;
       let (no_conflict_delete1, conflict_delete1) = merge_by_id_with_conflict delete2 update1;
       (h', new_ver) \<leftarrow> commit ov leaf_size others h base no_conflict_insert (no_conflict_delete @ no_conflict_delete1);
       Some (h', new_ver, conflict_insert, conflict_update, conflict_delete @ conflict_delete1) }"

section \<open>The store of versions\<close>

lemma coded_keys_zcoded:
  assumes "\<forall>p\<in>set P. zcoded p" shows "coded_keys ov P = keys_of pt_key P"
proof -
  have "set_code ov False p = p" if "zcoded p" for p using that by (simp add: set_code_def zcoded_def)
  then have "map (set_code ov False) P = P" using assms by (simp add: map_idI)
  then show ?thesis by (simp add: coded_keys_def)
qed

lemma merge_versions_three_way: "merge_versions ov leaf_size others = three_way two_version_diff (commit ov leaf_size others)"
  by (intro ext) (simp add: merge_versions_def three_way_def)

interpretation mvq: version_store "version leaf_size" collect_records two_version_diff "commit ov leaf_size others" "\<lambda>_. True"
    "commit_collapses ov leaf_size"
  for leaf_size ov others
proof unfold_locales
  fix h p t assume "version leaf_size h p t"
  then show "sorted_by pt_key (collect_records t)" "\<forall>x\<in>set (collect_records t). zcoded x"
    using mvq_ok_sorted mvq_ok_zcoded by (auto simp: version_def)
next
  fix h p t q u assume "version leaf_size h p t" "version leaf_size h q u"
  then show "two_version_diff h p q = Some (list_diff (collect_records t) (collect_records u))"
    by (rule two_version_diff_version)
next
  fix h p t and I D :: "point list"
  assume "version leaf_size h p t" "commit_collapses ov leaf_size t D"
  then show "commit ov leaf_size others h p I D = None"
    using commit_correct [of leaf_size h p t ov D others I] by simp
next
  fix h p t and I D :: "point list"
  assume v: "version leaf_size h p t" and n: "\<not> commit_collapses ov leaf_size t D"
    and d: "distinct_ids (collect_records t)" and z: "\<forall>x\<in>set I \<union> set D. zcoded x"
  obtain h' p' T where c: "commit ov leaf_size others h p I D = Some (h', p')" "version leaf_size h' p' T" "extends_heap h h'"
    "keys_of pt_key (collect_records T) = keys_of pt_key (collect_records t) - coded_keys ov D + coded_keys ov I"
    using commit_correct [OF v, of ov D others I] n by auto
  have "keyset (collect_records T) = (keyset (collect_records t) - keyset D) \<union> keyset I"
    using keyset_after_edit [OF d] c(4) coded_keys_zcoded [of I ov] coded_keys_zcoded [of D ov] z by simp
  then show "\<exists>h' p' T. commit ov leaf_size others h p I D = Some (h', p') \<and> version leaf_size h' p' T \<and>
      keyset (collect_records T) = (keyset (collect_records t) - keyset D) \<union> keyset I \<and>
      (\<forall>q u. version leaf_size h q u \<longrightarrow> version leaf_size h' q u)"
    using c(1-3) version_extends by blast
qed simp_all

text \<open>The deletions of a merge replace a node of the base.\<close>

definition merge_collapses :: "(point \<Rightarrow> 64 word) \<Rightarrow> nat \<Rightarrow> qtree \<Rightarrow> qtree \<Rightarrow> qtree \<Rightarrow> bool" where
  "merge_collapses ov leaf_size B A1 A2 =
     commit_collapses ov leaf_size B (merge_deletes (collect_records B) (collect_records A1) (collect_records A2))"

lemma merge_fails:
  assumes "version leaf_size h p B" "version leaf_size h q1 A1" "version leaf_size h q2 A2" "merge_collapses ov leaf_size B A1 A2"
  shows "merge_versions ov leaf_size others h p q1 q2 = None"
  unfolding merge_versions_three_way
  by (rule mvq.three_way_fails [OF assms(1-3) assms(4) [unfolded merge_collapses_def]])

text \<open>
  C7. When both sides only insert and delete, and do not insert the same id, a
  merge reports no conflict and produces the three-way merge of the contents: what all
  three versions have, plus what either side added. All three versions survive it. It is
  undefined exactly when the deletions to commit make a node of the base collapse.
\<close>

theorem merge_without_updates:
  assumes v: "version leaf_size h p B" "version leaf_size h q1 A1" "version leaf_size h q2 A2"
    and d: "distinct_ids (collect_records B)" "distinct_ids (collect_records A1)" "distinct_ids (collect_records A2)"
    and n1: "\<forall>x\<in>set (collect_records B). \<forall>y\<in>set (collect_records A1). pt_id x = pt_id y \<longrightarrow> pt_key x = pt_key y"
    and n2: "\<forall>x\<in>set (collect_records B). \<forall>y\<in>set (collect_records A2). pt_id x = pt_id y \<longrightarrow> pt_key x = pt_key y"
    and i: "\<forall>x\<in>set (collect_records A1). \<forall>y\<in>set (collect_records A2).
        pt_id x = pt_id y \<longrightarrow> pt_id x \<in> pt_id ` set (collect_records B)"
  shows "if merge_collapses ov leaf_size B A1 A2 then merge_versions ov leaf_size others h p q1 q2 = None
    else \<exists>h' p' T. merge_versions ov leaf_size others h p q1 q2 = Some (h', p', [], [], [])
    \<and> version leaf_size h' p' T \<and> version leaf_size h' p B \<and> version leaf_size h' q1 A1 \<and> version leaf_size h' q2 A2
    \<and> keyset (collect_records T) =
        (keyset (collect_records B) \<inter> keyset (collect_records A1) \<inter> keyset (collect_records A2))
        \<union> (keyset (collect_records A1) - keyset (collect_records B))
        \<union> (keyset (collect_records A2) - keyset (collect_records B))"
proof (cases "merge_collapses ov leaf_size B A1 A2")
  case True
  then show ?thesis using merge_fails [OF v] by simp
next
  case False
  have "steady (collect_records B) (collect_records A1)" "steady (collect_records B) (collect_records A2)"
    using n1 n2 by (auto simp: steady_def)
  from mvq.three_way_without_updates [OF v d TrueI this i False [unfolded merge_collapses_def], of others] obtain h' p' T where
    m: "merge_versions ov leaf_size others h p q1 q2 = Some (h', p', [], [], [])" "version leaf_size h' p' T"
    "keyset (collect_records T) = merged_keys (collect_records B) (collect_records A1) (collect_records A2)"
    and keep: "\<forall>w u. version leaf_size h w u \<longrightarrow> version leaf_size h' w u"
    unfolding merge_versions_three_way by metis
  have "version leaf_size h' p B" "version leaf_size h' q1 A1" "version leaf_size h' q2 A2"
    using keep v by simp_all
  then show ?thesis using False m unfolding merged_keys_def by (simp only: if_False) blast
qed

text \<open>
  C22. An update made by one side only is lost. If one side moved a point of the
  base to another cell and the other side kept it, the merge mentions the id in none
  of its conflict lists, and the new version still has the old position and not the new
  one, unless the deletions to commit make a node of the base collapse and the merge is undefined.
\<close>

theorem merge_drops_updates:
  assumes v: "version leaf_size h p B" "version leaf_size h q1 A1" "version leaf_size h q2 A2"
    and d: "distinct_ids (collect_records B)" "distinct_ids (collect_records A1)" "distinct_ids (collect_records A2)"
    and x: "x \<in> set (collect_records B)" "y \<in> set (collect_records A1)" "pt_id x = pt_id y" "pt_key x \<noteq> pt_key y"
    and k: "x \<in> set (collect_records A2)"
  shows "if merge_collapses ov leaf_size B A1 A2 then merge_versions ov leaf_size others h p q1 q2 = None
    else \<exists>h' p' ci cu cd T. merge_versions ov leaf_size others h p q1 q2 = Some (h', p', ci, cu, cd)
    \<and> version leaf_size h' p' T
    \<and> pt_key x \<in> keyset (collect_records T) \<and> pt_key y \<notin> keyset (collect_records T)
    \<and> pt_id x \<notin> pt_id ` set (ci @ cu @ cd)"
proof (cases "merge_collapses ov leaf_size B A1 A2")
  case True
  then show ?thesis using merge_fails [OF v] by simp
next
  case False
  show ?thesis
    using mvq.three_way_drops_update [OF v d TrueI x k False [unfolded merge_collapses_def], of others] False
    unfolding merge_versions_three_way by (simp only: if_False)
qed

section \<open>Concrete merges\<close>

definition wp :: "64 word \<Rightarrow> FT \<Rightarrow> FT \<Rightarrow> point" where
  "wp i x y = set_code (\<lambda>_. 0) False (Point3 i x y)"

lemma wp_simps [simp]: "pt_id (wp i x y) = i" "zcoded (wp i x y)"
  by (simp_all add: wp_def)

definition two_leaves :: heap where
  "two_leaves = fst (alloc (fst (alloc empty_heap (HLeaf [wp 1 0 1]))) (HLeaf [wp 1 1 0]))"

lemma two_leaves_versions:
  "version 2 two_leaves None Null"
  "version 2 two_leaves (Some 0) (LeafNode [wp 1 0 1])"
  "version 2 two_leaves (Some 1) (LeafNode [wp 1 1 0])"
  by (simp_all add: version_def two_leaves_def alloc_def empty_heap_def batch_def sorted_by_Cons)

theorem merge_without_updates_witness:
  "\<exists>h' p' T. merge_versions (\<lambda>_. 0) 2 [] two_leaves None (Some 0) None = Some (h', p', [], [], [])
    \<and> version 2 h' p' T \<and> keyset (collect_records T) = {pt_key (wp 1 0 1)}"
proof -
  have d: "distinct_ids (collect_records Null)" "distinct_ids (collect_records (LeafNode [wp 1 0 1]))"
    by (simp_all add: distinct_ids_def)
  have h: "\<forall>x\<in>set (collect_records Null). \<forall>y\<in>set (collect_records (LeafNode [wp 1 0 1])). pt_id x = pt_id y \<longrightarrow> pt_key x = pt_key y"
    "\<forall>x\<in>set (collect_records Null). \<forall>y\<in>set (collect_records Null). pt_id x = pt_id y \<longrightarrow> pt_key x = pt_key y"
    "\<forall>x\<in>set (collect_records (LeafNode [wp 1 0 1])). \<forall>y\<in>set (collect_records Null).
        pt_id x = pt_id y \<longrightarrow> pt_id x \<in> pt_id ` set (collect_records Null)" by simp_all
  from merge_without_updates [OF two_leaves_versions(1,2,1) d(1,2,1) h, of "\<lambda>_. 0" "[]"]
  show ?thesis by (auto simp: keyset_def merge_collapses_def commit_collapses_def)
qed

theorem merge_drops_updates_witness:
  "\<exists>h' p' ci cu cd T. merge_versions (\<lambda>_. 0) 2 [] two_leaves (Some 0) (Some 1) (Some 0) = Some (h', p', ci, cu, cd)
    \<and> version 2 h' p' T \<and> pt_key (wp 1 0 1) \<in> keyset (collect_records T) \<and> pt_key (wp 1 1 0) \<notin> keyset (collect_records T)
    \<and> 1 \<notin> pt_id ` set (ci @ cu @ cd)"
proof -
  have d: "distinct_ids (collect_records (LeafNode [wp 1 0 1]))" "distinct_ids (collect_records (LeafNode [wp 1 1 0]))"
    by (simp_all add: distinct_ids_def)
  have "interleave_bits (Point3 1 0 1) = 1" "interleave_bits (Point3 1 1 0) = 2"
    by (simp_all add: interleave_bits_def interleave_words_def interleave_step_def cast_u32_def ftrunc_def upt_conv_Cons)
  then have k: "pt_key (wp 1 0 1) \<noteq> pt_key (wp 1 1 0)" by (simp add: wp_def set_code_def pt_key_def)
  from merge_drops_updates [OF two_leaves_versions(2,3,2) d(1,2,1), of "wp 1 0 1" "wp 1 1 0" "\<lambda>_. 0" "[]"] k
  show ?thesis by (simp add: merge_collapses_def commit_collapses_def)
qed

end
