(* ===== verification/MvqSpatial.thy ===== *)
theory MvqSpatial
  imports MvqDiff MvqQuery
begin

text \<open>
  The difference of two versions inside a query box (\<open>spatial_diff\<close>,
  \<open>spatial_two_version_diff\<close> of \<open>mvq.hpp\<close>) on the store, collected in a
  \<open>diff_type\<close>.
\<close>

section \<open>The routines\<close>

fun hrange_report_node ::
  "nat \<Rightarrow> heap \<Rightarrow> addr option \<Rightarrow> Bounding_Box \<Rightarrow> Bounding_Box \<Rightarrow> FT \<Rightarrow> FT \<Rightarrow> nat \<Rightarrow> bool \<Rightarrow> point list \<Rightarrow> point list option" where
  "hrange_report_node cap h x query cur x_prefix y_prefix b x_splitter out =
     (case x of
        None \<Rightarrow> Some out
      | Some a \<Rightarrow>
        if mbr_mbr_relation cur query < 0 then Some out
        else
        (case cells h a of
           None \<Rightarrow> None
         | Some (HLeaf records) \<Rightarrow> scan_leaf cap records query out
         | Some (HInte l_son r_son num_pts) \<Rightarrow>
             (if b = 0 then None
              else
                (case compute_cur_box cur x_prefix y_prefix b x_splitter of (L_box, R_box, rx_prefix, ry_prefix) \<Rightarrow>
                  do {
                    out1 \<leftarrow> hrange_report_node cap h l_son query L_box x_prefix y_prefix (b - 1) (\<not> x_splitter) out;
                    hrange_report_node cap h r_son query R_box rx_prefix ry_prefix (b - 1) (\<not> x_splitter) out1 }))))"

declare hrange_report_node.simps [simp del]

definition leaf_leaf_diff_in :: "point list \<Rightarrow> point list \<Rightarrow> Bounding_Box \<Rightarrow> diff_type \<Rightarrow> diff_type option" where
  "leaf_leaf_diff_in records1 records2 query ret_diff =
     merge_pts (\<lambda>pt. point_in_mbr pt query) records1 records2 ret_diff False"

text \<open>The loop of \<open>leaf_inte_diff\<close> over the points of the leaf when the other side is empty.\<close>

fun remove_points_in :: "Bounding_Box \<Rightarrow> bool \<Rightarrow> point list \<Rightarrow> diff_type \<Rightarrow> diff_type option" where
  "remove_points_in query reverse [] ret_diff = Some ret_diff"
| "remove_points_in query reverse (pt # P) ret_diff =
     do {
       ret_diff \<leftarrow> (if point_in_mbr pt query then remove_point ret_diff pt reverse else Some ret_diff);
       remove_points_in query reverse P ret_diff }"

fun leaf_inte_diff_in ::
  "heap \<Rightarrow> point list \<Rightarrow> addr option \<Rightarrow> Bounding_Box \<Rightarrow> Bounding_Box \<Rightarrow> FT \<Rightarrow> FT \<Rightarrow> nat \<Rightarrow> bool \<Rightarrow> diff_type \<Rightarrow> bool \<Rightarrow> diff_type option" where
  "leaf_inte_diff_in h P x query cur x_prefix y_prefix b x_splitter ret_diff reverse =
     (if mbr_mbr_relation cur query < 0 then Some ret_diff
      else
        (case x of
           None \<Rightarrow> remove_points_in query reverse P ret_diff
         | Some a \<Rightarrow>
           (case cells h a of
              None \<Rightarrow> None
            | Some (HLeaf records) \<Rightarrow> merge_pts (\<lambda>pt. point_in_mbr pt query) P records ret_diff reverse
            | Some (HInte l_son r_son num_pts) \<Rightarrow>
                (if b = 0 then None
                 else
                   let splitter = split_by_bit P 0 (length P) b in
                   (case compute_cur_box cur x_prefix y_prefix b x_splitter of (L_box, R_box, rx_prefix, ry_prefix) \<Rightarrow>
                     do {
                       d1 \<leftarrow> leaf_inte_diff_in h (take splitter P) l_son query L_box x_prefix y_prefix (b - 1) (\<not> x_splitter) ret_diff reverse;
                       leaf_inte_diff_in h (drop splitter P) r_son query R_box rx_prefix ry_prefix (b - 1) (\<not> x_splitter) d1 reverse })))))"

declare leaf_inte_diff_in.simps [simp del]

fun spatial_diff ::
  "heap \<Rightarrow> addr option \<Rightarrow> addr option \<Rightarrow> Bounding_Box \<Rightarrow> Bounding_Box \<Rightarrow> FT \<Rightarrow> FT \<Rightarrow> nat \<Rightarrow> bool \<Rightarrow> diff_type \<Rightarrow> diff_type option" where
  "spatial_diff h node1 node2 query cur x_prefix y_prefix b x_splitter ret_diff =
     (if mbr_mbr_relation cur query < 0 then Some ret_diff
      else if node1 = node2 then Some ret_diff
      else if node1 = None then
        do { out \<leftarrow> hrange_report_node (add_cap ret_diff) h node2 query cur x_prefix y_prefix b x_splitter (d_add ret_diff);
             Some (ret_diff\<lparr>d_add := out\<rparr>) }
      else if node2 = None then
        do { out \<leftarrow> hrange_report_node (remove_cap ret_diff) h node1 query cur x_prefix y_prefix b x_splitter (d_remove ret_diff);
             Some (ret_diff\<lparr>d_remove := out\<rparr>) }
      else
        (case (deref h node1, deref h node2) of
           (Some (HLeaf records1), Some (HLeaf records2)) \<Rightarrow> leaf_leaf_diff_in records1 records2 query ret_diff
         | (Some (HLeaf P), Some (HInte l2 r2 n2)) \<Rightarrow>
             leaf_inte_diff_in h P node2 query cur x_prefix y_prefix b x_splitter ret_diff False
         | (Some (HInte l1 r1 n1), Some (HLeaf P)) \<Rightarrow>
             leaf_inte_diff_in h P node1 query cur x_prefix y_prefix b x_splitter ret_diff True
         | (Some (HInte l1 r1 n1), Some (HInte l2 r2 n2)) \<Rightarrow>
             (if b = 0 then None
              else
                (case compute_cur_box cur x_prefix y_prefix b x_splitter of (L_box, R_box, rx_prefix, ry_prefix) \<Rightarrow>
                  do {
                    d1 \<leftarrow> spatial_diff h l1 l2 query L_box x_prefix y_prefix (b - 1) (\<not> x_splitter) ret_diff;
                    spatial_diff h r1 r2 query R_box rx_prefix ry_prefix (b - 1) (\<not> x_splitter) d1 }))
         | _ \<Rightarrow> None))"

declare spatial_diff.simps [simp del]

definition spatial_two_version_diff ::
  "heap \<Rightarrow> addr option \<Rightarrow> addr option \<Rightarrow> Bounding_Box \<Rightarrow> Bounding_Box \<Rightarrow> diff_type \<Rightarrow> diff_type option" where
  "spatial_two_version_diff h node1 node2 query cur ret_diff =
     spatial_diff h node1 node2 query cur 0 0 64 True ret_diff"

section \<open>It is the full difference, filtered\<close>

lemma hrange_report_node_reps:
  "reps h S p t \<Longrightarrow> mvq_ok b t \<Longrightarrow>
   hrange_report_node cap h p q cur xp yp b xs out = range_report_node cap t q cur xp yp b xs out"
proof (induction t arbitrary: p cur xp yp b xs out)
  case (InteNode l r n)
  then obtain a pl pr where x: "p = Some a" "cells h a = Some (HInte pl pr n)" "reps h S pl l" "reps h S pr r"
    by auto
  have b: "b \<noteq> 0" "mvq_ok (b - 1) l" "mvq_ok (b - 1) r" using InteNode.prems(2) by auto
  obtain LB RB rx ry where c: "compute_cur_box cur xp yp b xs = (LB, RB, rx, ry)" by (metis prod_cases4)
  have "hrange_report_node cap h pr q RB rx ry (b - 1) (\<not> xs) = range_report_node cap r q RB rx ry (b - 1) (\<not> xs)"
    by (rule ext) (rule InteNode.IH(2) [OF x(4) b(3)])
  with InteNode.IH(1) [OF x(3) b(2)] show ?case
    by (subst hrange_report_node.simps) (simp add: x(1,2) b(1) c)
qed (auto simp: hrange_report_node.simps)

lemma remove_points_append: "remove_points_in q rv P d = append_diff d rv [] (in_query q P)"
proof (induction P arbitrary: d)
  case (Cons p P)
  then have "remove_points_in q rv P = (\<lambda>d. append_diff d rv [] (in_query q P))" by (rule ext)
  then show ?case by (simp add: in_query_def remove_point_append append_diff_append)
qed simp

definition append_list_diff :: "Bounding_Box \<Rightarrow> diff_type \<Rightarrow> bool \<Rightarrow> point list \<times> point list \<Rightarrow> diff_type option" where
  "append_list_diff q d rv ar = append_diff d rv (in_query q (fst ar)) (in_query q (snd ar))"

lemma append_list_diff_append:
  "Option.bind (append_list_diff q d rv (a1, r1)) (\<lambda>d. append_list_diff q d rv (a2, r2)) =
   append_list_diff q d rv (a1 @ a2, r1 @ r2)"
  by (simp add: append_list_diff_def append_diff_append)

lemma append_list_diff_excluded:
  assumes "frame b xs xp yp cur (set P \<union> set Q)" "mbr_mbr_relation cur q < 0"
  shows "append_list_diff q d rv (list_diff P Q) = Some d"
proof -
  have "in_query q X = []" if "set X \<subseteq> set P \<union> set Q" for X
    by (rule in_query_excluded [OF frame_subset [OF assms(1) that] assms(2)])
  then have "in_query q (diff_by pt_key pt_key Q P) = []" "in_query q (diff_by pt_key pt_key P Q) = []"
    using set_diff_by [of pt_key pt_key] by (meson le_supI1 le_supI2)+
  then show ?thesis by (simp add: append_list_diff_def list_diff_def)
qed

lemma merge_pts_append: "merge_pts (\<lambda>pt. point_in_mbr pt q) P Q d rv = append_list_diff q d rv (list_diff P Q)"
  by (simp add: merge_pts_eq append_list_diff_def list_diff_def in_query_def)

lemma append_list_diff_swap:
  "append_list_diff q d True (a, r) = append_list_diff q d False (r, a)"
  by (simp add: append_list_diff_def append_diff_swap)

lemma leaf_inte_diff_in_reps:
  "reps h S p t \<Longrightarrow> mvq_ok b t \<Longrightarrow> batch b P \<Longrightarrow> same_cell b (set P \<union> set (collect_records t)) \<Longrightarrow> b \<le> 64 \<Longrightarrow>
   frame b xs xp yp cur (set P \<union> set (collect_records t)) \<Longrightarrow>
   leaf_inte_diff_in h P p q cur xp yp b xs d rv = append_list_diff q d rv (list_diff P (collect_records t))"
proof (induction t arbitrary: p P b cur xp yp xs d)
  case Null
  then show ?case using append_list_diff_excluded [OF Null.prems(6)]
    by (subst leaf_inte_diff_in.simps) (simp add: remove_points_append append_list_diff_def)
next
  case (LeafNode rs)
  then show ?case using append_list_diff_excluded [OF LeafNode.prems(6)]
    by (subst leaf_inte_diff_in.simps) (auto simp: merge_pts_append)
next
  case (InteNode l r n)
  obtain a pl pr where x: "p = Some a" "cells h a = Some (HInte pl pr n)" "reps h S pl l" "reps h S pr r"
    using InteNode.prems(1) by auto
  show ?case
  proof (cases "mbr_mbr_relation cur q < 0")
    case True
    then show ?thesis using append_list_diff_excluded [OF InteNode.prems(6)]
      by (subst leaf_inte_diff_in.simps) simp
  next
    case False
    define s where "s = split_by_bit P 0 (length P) b"
    have b: "1 \<le> b" "b \<le> 64" "b - 1 \<le> 64" "b \<noteq> 0" using InteNode.prems by auto
    note sp = batch_split [OF InteNode.prems(3) b(1,2) s_def]
    note cells = descend [OF InteNode.prems(2,3) s_def InteNode.prems(4)]
    have ok: "mvq_ok (b - 1) l" "mvq_ok (b - 1) r" using InteNode.prems(2) by auto
    obtain LB RB rx ry where c: "compute_cur_box cur xp yp b xs = (LB, RB, rx, ry)" by (metis prod_cases4)
    have fr: "frame b xs xp yp cur ((set (take s P) \<union> set (collect_records l)) \<union> (set (drop s P) \<union> set (collect_records r)))"
      by (rule frame_subset [OF InteNode.prems(6)]) (use sp(5,6) in auto)
    have bits: "\<forall>p\<in>set (take s P) \<union> set (collect_records l). bit_clear b p"
      "\<forall>p\<in>set (drop s P) \<union> set (collect_records r). \<not> bit_clear b p"
      using sp(3,4) InteNode.prems(2) by auto
    note fs = frame_sons [OF fr b(1,2) bits c]
    obtain a1 r1 a2 r2 where d: "list_diff (take s P) (collect_records l) = (a1, r1)"
      "list_diff (drop s P) (collect_records r) = (a2, r2)" by fastforce
    have L: "leaf_inte_diff_in h (take s P) pl q LB xp yp (b - 1) (\<not> xs) d rv = append_list_diff q d rv (a1, r1)"
      using InteNode.IH(1) [OF x(3) ok(1) sp(1) cells(1) b(3) fs(1)] d by simp
    have R: "leaf_inte_diff_in h (drop s P) pr q RB rx ry (b - 1) (\<not> xs) d' rv = append_list_diff q d' rv (a2, r2)" for d'
      using InteNode.IH(2) [OF x(4) ok(2) sp(2) cells(2) b(3) fs(2)] d by simp
    have "separated (take s P) (drop s P) (collect_records l) (collect_records r)"
    proof (rule separatedI [OF _ b(1,2)])
      show "same_cell b (set (take s P @ drop s P) \<union> set (collect_records l @ collect_records r))"
        using InteNode.prems(4) by simp
      show "\<forall>p\<in>set (take s P @ drop s P) \<union> set (collect_records l @ collect_records r). zcoded p"
        using InteNode.prems(3) mvq_ok_zcoded [OF InteNode.prems(2)] by (auto simp: batch_def)
    qed (use bits in auto)
    from list_diff_append [OF this d] have "list_diff P (collect_records (InteNode l r n)) = (a1 @ a2, r1 @ r2)" by simp
    then show ?thesis using L R False b(4)
      by (subst leaf_inte_diff_in.simps)
         (simp add: x s_def [symmetric] Let_def c append_list_diff_append)
  qed
qed

lemma append_list_diff_Nil [simp]: "append_list_diff q d rv ([], []) = Some d"
  by (simp add: append_list_diff_def)

lemma append_list_diff_sides:
  "append_list_diff q d False (Q, []) =
     Option.bind (put_points (add_cap d) (in_query q Q) (d_add d)) (\<lambda>out. Some (d\<lparr>d_add := out\<rparr>))"
  "append_list_diff q d False ([], P) =
     Option.bind (put_points (remove_cap d) (in_query q P) (d_remove d)) (\<lambda>out. Some (d\<lparr>d_remove := out\<rparr>))"
  by (simp_all add: append_list_diff_def append_diff_def)

lemma spatial_diff_reps:
  "reps h S p t \<Longrightarrow> reps h T p2 u \<Longrightarrow> mvq_ok b t \<Longrightarrow> mvq_ok b u \<Longrightarrow>
   same_cell b (set (collect_records t) \<union> set (collect_records u)) \<Longrightarrow> b \<le> 64 \<Longrightarrow>
   frame b xs xp yp cur (set (collect_records t) \<union> set (collect_records u)) \<Longrightarrow>
   spatial_diff h p p2 q cur xp yp b xs d =
     append_list_diff q d False (list_diff (collect_records t) (collect_records u))"
proof (induction t arbitrary: p p2 u b cur xp yp xs d)
  case (Null)
  note fr = frame_subset [OF Null.prems(7)]
  show ?case
  proof (cases "mbr_mbr_relation cur q < 0")
    case True
    then show ?thesis using append_list_diff_excluded [OF Null.prems(7)] by (subst spatial_diff.simps) simp
  next
    case False
    then show ?thesis
      using hrange_report_node_reps [OF Null.prems(2,4)] range_report_node_eq [OF Null.prems(4) fr]
        reps_None_iff [OF Null.prems(2)] Null.prems(1)
      by (subst spatial_diff.simps) (auto simp: append_list_diff_sides)
  qed
next
  case (LeafNode P)
  obtain a where a: "p = Some a" "cells h a = Some (HLeaf P)" using LeafNode.prems(1) by auto
  have P: "batch b P" using LeafNode.prems(3) by simp
  note fr = frame_subset [OF LeafNode.prems(7)]
  consider (ex) "mbr_mbr_relation cur q < 0" | (eq) "\<not> mbr_mbr_relation cur q < 0" "p = p2"
    | (ne) "\<not> mbr_mbr_relation cur q < 0" "p \<noteq> p2" by blast
  then show ?case
  proof cases
    case ex
    then show ?thesis using append_list_diff_excluded [OF LeafNode.prems(7)] by (subst spatial_diff.simps) simp
  next
    case eq
    then have "LeafNode P = u" using reps_unique [OF LeafNode.prems(1)] LeafNode.prems(2) by blast
    then show ?thesis using eq by (subst spatial_diff.simps) auto
  next
    case ne
    show ?thesis
    proof (cases u)
      case Null
      have "range_report_node cap (LeafNode P) q cur xp yp b xs out = put_points cap (in_query q P) out" for cap out
        using range_report_node_eq [OF LeafNode.prems(3) fr] by simp
      then show ?thesis using Null ne LeafNode.prems(2) hrange_report_node_reps [OF LeafNode.prems(1,3)] a
        by (subst spatial_diff.simps) (simp add: append_list_diff_sides)
    next
      case (LeafNode Q)
      then show ?thesis using ne \<open>reps h T p2 u\<close> a
        by (subst spatial_diff.simps) (auto simp: deref_def leaf_leaf_diff_in_def merge_pts_append)
    next
      case (InteNode l r n)
      then obtain c pl pr where "p2 = Some c" "cells h c = Some (HInte pl pr n)" using LeafNode.prems(2) by auto
      then show ?thesis
        using ne a leaf_inte_diff_in_reps [OF LeafNode.prems(2,4) P] LeafNode.prems(5-7)
        by (subst spatial_diff.simps) (simp add: deref_def)
    qed
  qed
next
  case (InteNode l r n)
  obtain a pl pr where x: "p = Some a" "cells h a = Some (HInte pl pr n)" "reps h S pl l" "reps h S pr r"
    using InteNode.prems(1) by auto
  have b: "1 \<le> b" "b \<le> 64" "b - 1 \<le> 64" "b \<noteq> 0" using InteNode.prems by auto
  have ok: "mvq_ok (b - 1) l" "mvq_ok (b - 1) r" using InteNode.prems(3) by auto
  consider (ex) "mbr_mbr_relation cur q < 0" | (eq) "\<not> mbr_mbr_relation cur q < 0" "p = p2"
    | (ne) "\<not> mbr_mbr_relation cur q < 0" "p \<noteq> p2" by blast
  then show ?case
  proof cases
    case ex
    then show ?thesis using append_list_diff_excluded [OF InteNode.prems(7)] by (subst spatial_diff.simps) simp
  next
    case eq
    then have "InteNode l r n = u" using reps_unique [OF InteNode.prems(1)] InteNode.prems(2) by blast
    then show ?thesis using eq by (subst spatial_diff.simps) auto
  next
    case ne
    show ?thesis
    proof (cases u)
      case Null
      have "range_report_node cap (InteNode l r n) q cur xp yp b xs out =
          put_points cap (in_query q (collect_records (InteNode l r n))) out" for cap out
        by (rule range_report_node_eq [OF InteNode.prems(3) frame_subset [OF InteNode.prems(7)]]) simp
      then show ?thesis using Null ne InteNode.prems(2) hrange_report_node_reps [OF InteNode.prems(1,3)] x(1)
        by (subst spatial_diff.simps) (simp add: append_list_diff_sides del: range_report_node.simps)
    next
      case (LeafNode P)
      then obtain c where c: "p2 = Some c" "cells h c = Some (HLeaf P)" using InteNode.prems(2) by auto
      obtain ad rm where dd: "list_diff P (collect_records (InteNode l r n)) = (ad, rm)" by fastforce
      have "leaf_inte_diff_in h P p q cur xp yp b xs d True = append_list_diff q d True (ad, rm)"
        using leaf_inte_diff_in_reps [OF InteNode.prems(1,3), of P] InteNode.prems(4-7) LeafNode dd
        by (simp add: Un_commute)
      then show ?thesis using ne c x list_diff_swap [OF dd] LeafNode
        by (subst spatial_diff.simps) (simp add: deref_def append_list_diff_swap)
    next
      case u: (InteNode l2 r2 n2)
      then obtain c ql qr where c: "p2 = Some c" "cells h c = Some (HInte ql qr n2)" "reps h T ql l2" "reps h T qr r2"
        using InteNode.prems(2) by auto
      have ok2: "mvq_ok (b - 1) l2" "mvq_ok (b - 1) r2" using InteNode.prems(4) u by auto
      let ?L = "collect_records l" and ?R = "collect_records r"
      let ?L2 = "collect_records l2" and ?R2 = "collect_records r2"
      have z: "\<forall>p\<in>set (?L @ ?R) \<union> set (?L2 @ ?R2). zcoded p"
        using mvq_ok_zcoded [OF InteNode.prems(3)] mvq_ok_zcoded [OF InteNode.prems(4)] u by auto
      have bits: "\<forall>p\<in>set ?L \<union> set ?L2. bit_clear b p" "\<forall>p\<in>set ?R \<union> set ?R2. \<not> bit_clear b p"
        using InteNode.prems(3,4) u by auto
      have cell: "same_cell b (set (?L @ ?R) \<union> set (?L2 @ ?R2))" using InteNode.prems(5) u by simp
      have cL: "same_cell (b - 1) (set ?L \<union> set ?L2)"
        by (rule cell_half(1) [OF same_cell_subset [OF cell] b(1,2)]) (use z bits in auto)
      have cR: "same_cell (b - 1) (set ?R \<union> set ?R2)"
        by (rule cell_half(2) [OF same_cell_subset [OF cell] b(1,2)]) (use z bits in auto)
      obtain LB RB rx ry where cc: "compute_cur_box cur xp yp b xs = (LB, RB, rx, ry)" by (metis prod_cases4)
      have fr: "frame b xs xp yp cur ((set ?L \<union> set ?L2) \<union> (set ?R \<union> set ?R2))"
        by (rule frame_subset [OF InteNode.prems(7)]) (use u in auto)
      note fs = frame_sons [OF fr b(1,2) bits cc]
      obtain a1 r1 a2 r2' where dd: "list_diff ?L ?L2 = (a1, r1)" "list_diff ?R ?R2 = (a2, r2')" by fastforce
      have "spatial_diff h pl ql q LB xp yp (b - 1) (\<not> xs) d = append_list_diff q d False (a1, r1)"
        using InteNode.IH(1) [OF x(3) c(3) ok(1) ok2(1) cL b(3) fs(1)] dd by simp
      moreover have "spatial_diff h pr qr q RB rx ry (b - 1) (\<not> xs) = (\<lambda>d'. append_list_diff q d' False (a2, r2'))"
        by (rule ext) (use InteNode.IH(2) [OF x(4) c(4) ok(2) ok2(2) cR b(3) fs(2)] dd in simp)
      moreover have "list_diff (?L @ ?R) (?L2 @ ?R2) = (a1 @ a2, r1 @ r2')"
        by (rule list_diff_append [OF separatedI [OF cell b(1,2) z bits] dd])
      ultimately show ?thesis using ne b(4) u
        by (subst spatial_diff.simps) (simp add: x(1,2) c(1,2) deref_def cc append_list_diff_append)
    qed
  qed
qed

text \<open>
  C6. The difference of two versions inside a query box is the full difference
  restricted to the box: the search that skips shared nodes and excluded boxes appends to
  each buffer exactly those added and removed points that lie in the query box, in
  Morton order. It overruns a buffer exactly when they do not fit.
\<close>

theorem spatial_diff_filters_diff:
  assumes v: "version leaf_size h p t" "version leaf_size h q u"
    and s: "\<forall>x\<in>set (collect_records t) \<union> set (collect_records u). safe_point x \<and> point_in_mbr x cur"
    and d: "two_version_diff h p q = Some (add, remove)"
    and c: "length (d_add d0) \<le> add_cap d0" "length (d_remove d0) \<le> remove_cap d0"
  shows "spatial_two_version_diff h p q query cur d0 =
    (let A = filter (\<lambda>x. point_in_mbr x query) add; R = filter (\<lambda>x. point_in_mbr x query) remove in
     if length (d_add d0) + length A \<le> add_cap d0 \<and> length (d_remove d0) + length R \<le> remove_cap d0
     then Some (d0\<lparr>d_add := d_add d0 @ A, d_remove := d_remove d0 @ R\<rparr>) else None)"
proof -
  have l: "list_diff (collect_records t) (collect_records u) = (add, remove)"
    using two_version_diff_version [OF v] d by simp
  have "spatial_diff h p q query cur 0 0 64 True d0 = append_list_diff query d0 False (add, remove)"
    using spatial_diff_reps [of h "{..<nxt h}" p t "{..<nxt h}" q u 64, OF _ _ _ _ _ _ frame_root [OF s]] v l
    by (simp add: version_def)
  moreover have "in_capacity d0" using c by (simp add: in_capacity_def)
  ultimately show ?thesis
    by (simp add: spatial_two_version_diff_def append_list_diff_def append_diff_fits in_query_def Let_def)
qed

theorem spatial_diff_filters_diff_witness:
  "spatial_two_version_diff (mheap run1) None (Some 0) (Point2 2 2, Point2 4 4) (Point2 0 0, Point2 8 8) (new_diff 1 0) =
     Some ((new_diff 1 0)\<lparr>d_add := [set_code (\<lambda>_. 0) False (Point3 1 2 3)], d_remove := []\<rparr>)
   \<and> spatial_two_version_diff (mheap run1) None (Some 0) (Point2 2 2, Point2 4 4) (Point2 0 0, Point2 8 8) (new_diff 0 0) = None"
proof -
  let ?p = "set_code (\<lambda>_. 0) False (Point3 1 2 3)"
  have v: "version 2 (mheap run1) None Null" "version 2 (mheap run1) (Some 0) (LeafNode [?p])"
    by (simp_all add: version_def run1_def alloc_def empty_heap_def batch_def sorted_by_Cons)
  have s: "\<forall>x\<in>set (collect_records Null) \<union> set (collect_records (LeafNode [?p])).
      safe_point x \<and> point_in_mbr x (Point2 0 0, Point2 8 8)"
    by (simp add: safe_point_def point_in_mbr_def)
  have d: "two_version_diff (mheap run1) None (Some 0) = Some ([?p], [])"
    unfolding two_version_diff_version [OF v] by simp
  have c: "length (d_add (new_diff n m)) \<le> add_cap (new_diff n m)" "length (d_remove (new_diff n m)) \<le> remove_cap (new_diff n m)" for n m
    by (simp_all add: new_diff_def)
  show ?thesis
    using spatial_diff_filters_diff [OF v s d c, of "(Point2 2 2, Point2 4 4)" 1 0]
      spatial_diff_filters_diff [OF v s d c, of "(Point2 2 2, Point2 4 4)" 0 0]
    by (simp add: new_diff_def point_in_mbr_def Let_def)
qed

end
