(* ===== verification/MvqJoin.thy ===== *)
theory MvqJoin
  imports MvqQuery
begin

text \<open>
  The distance join of two versions (\<open>mvq.hpp\<close>): two descents with boxes, cut off
  when the boxes are further apart than the distance, and the pairs of close points of
  two leaves. A version is its tree, as in the other searches.
\<close>

section \<open>The join\<close>

definition join_test :: "FT \<Rightarrow> point \<Rightarrow> point \<Rightarrow> bool" where
  "join_test point_dis pt1 pt2 \<longleftrightarrow> pt_id pt1 \<noteq> pt_id pt2 \<and> within_dis point_dis pt1 pt2"

definition join_leaves ::
  "FT \<Rightarrow> point list \<Rightarrow> point list \<Rightarrow> (point \<times> point) list \<Rightarrow> (point \<times> point) list" where
  "join_leaves point_dis leaf1 leaf2 join_res =
     foldl (\<lambda>join_res pt1.
        foldl (\<lambda>join_res pt2. if join_test point_dis pt1 pt2 then join_res @ [(pt1, pt2)] else join_res)
          join_res leaf2)
       join_res leaf1"

fun spatial_join ::
  "qtree \<Rightarrow> qtree \<Rightarrow> FT \<Rightarrow> (point \<times> point) list \<Rightarrow>
   Bounding_Box \<Rightarrow> FT \<Rightarrow> FT \<Rightarrow> nat \<Rightarrow> bool \<Rightarrow> Bounding_Box \<Rightarrow> FT \<Rightarrow> FT \<Rightarrow> nat \<Rightarrow> bool \<Rightarrow> (point \<times> point) list"
where
  "spatial_join Null node2 d res mbr1 x1 y1 b1 s1 mbr2 x2 y2 b2 s2 = res"
| "spatial_join node1 Null d res mbr1 x1 y1 b1 s1 mbr2 x2 y2 b2 s2 = res"
| "spatial_join (LeafNode leaf1) (LeafNode leaf2) d res mbr1 x1 y1 b1 s1 mbr2 x2 y2 b2 s2 =
     (if \<not> mbr_mbr_within_dis mbr1 mbr2 d then res else join_leaves d leaf1 leaf2 res)"
| "spatial_join (InteNode l1 r1 n1) (InteNode l2 r2 n2) d res mbr1 x1 y1 b1 s1 mbr2 x2 y2 b2 s2 =
     (if \<not> mbr_mbr_within_dis mbr1 mbr2 d then res
      else
        (case compute_cur_box mbr1 x1 y1 b1 s1 of (L_box1, R_box1, rx1, ry1) \<Rightarrow>
         case compute_cur_box mbr2 x2 y2 b2 s2 of (L_box2, R_box2, rx2, ry2) \<Rightarrow>
           let res = spatial_join l1 l2 d res L_box1 x1 y1 (b1 - 1) (\<not> s1) L_box2 x2 y2 (b2 - 1) (\<not> s2);
               res = spatial_join l1 r2 d res L_box1 x1 y1 (b1 - 1) (\<not> s1) R_box2 rx2 ry2 (b2 - 1) (\<not> s2);
               res = spatial_join r1 l2 d res R_box1 rx1 ry1 (b1 - 1) (\<not> s1) L_box2 x2 y2 (b2 - 1) (\<not> s2)
            in spatial_join r1 r2 d res R_box1 rx1 ry1 (b1 - 1) (\<not> s1) R_box2 rx2 ry2 (b2 - 1) (\<not> s2)))"
| "spatial_join (InteNode l1 r1 n1) (LeafNode leaf2) d res mbr1 x1 y1 b1 s1 mbr2 x2 y2 b2 s2 =
     (if \<not> mbr_mbr_within_dis mbr1 mbr2 d then res
      else
        (case compute_cur_box mbr1 x1 y1 b1 s1 of (L_box1, R_box1, rx1, ry1) \<Rightarrow>
           let res = spatial_join l1 (LeafNode leaf2) d res L_box1 x1 y1 (b1 - 1) (\<not> s1) mbr2 x2 y2 b2 s2
            in spatial_join r1 (LeafNode leaf2) d res R_box1 rx1 ry1 (b1 - 1) (\<not> s1) mbr2 x2 y2 b2 s2))"
| "spatial_join (LeafNode leaf1) (InteNode l2 r2 n2) d res mbr1 x1 y1 b1 s1 mbr2 x2 y2 b2 s2 =
     (if \<not> mbr_mbr_within_dis mbr1 mbr2 d then res
      else
        (case compute_cur_box mbr2 x2 y2 b2 s2 of (L_box2, R_box2, rx2, ry2) \<Rightarrow>
           let res = spatial_join (LeafNode leaf1) l2 d res mbr1 x1 y1 b1 s1 L_box2 x2 y2 (b2 - 1) (\<not> s2)
            in spatial_join (LeafNode leaf1) r2 d res mbr1 x1 y1 b1 s1 R_box2 rx2 ry2 (b2 - 1) (\<not> s2)))"

definition two_version_spatial_join ::
  "qtree \<Rightarrow> qtree \<Rightarrow> FT \<Rightarrow> (point \<times> point) list \<Rightarrow> Bounding_Box \<Rightarrow> Bounding_Box \<Rightarrow> (point \<times> point) list" where
  "two_version_spatial_join node1 node2 point_dis join_res mbr1 mbr2 =
     spatial_join node1 node2 point_dis join_res mbr1 0 0 64 True mbr2 0 0 64 True"

section \<open>When the boxes may cut off\<close>

text \<open>
  The box test compares sides, the leaf test squares. Both use the tolerance
  \<open>FT_EPS\<close>, so for arbitrary doubles the first can reject what the second
  accepts; on integral coordinates and an integral distance it cannot.
\<close>

definition int_coord :: "FT \<Rightarrow> bool" where
  "int_coord x \<longleftrightarrow> (\<exists>n. x = of_int n \<and> 0 \<le> n \<and> n < 2 ^ 32)"

definition int_point :: "point \<Rightarrow> bool" where
  "int_point p \<longleftrightarrow> int_coord (pt_x p) \<and> int_coord (pt_y p)"

lemma rnd64_error:
  assumes "0 < x" "x < 2 ^ 66" shows "\<bar>rnd64 x - x\<bar> \<le> 2 ^ 14"
proof -
  have "expo x \<le> 65"
  proof (rule ccontr)
    assume "\<not> expo x \<le> 65"
    then have "pow2 66 \<le> pow2 (expo x)" by simp
    also have "\<dots> \<le> x" using expo_bounds [OF assms(1)] by simp
    finally show False using assms(2) pow2_nat [of 66] by simp
  qed
  then have e: "ulp_exp x \<le> 14" using assms by (simp add: ulp_exp_def)
  define u where "u = pow2 (ulp_exp x)"
  have u: "0 < u" "u \<le> 2 ^ 14" using e pow2_le_iff [of "ulp_exp x" 14] pow2_nat [of 14] by (simp_all add: u_def del: pow2_le_iff)
  have r: "rnd64 x = of_int (rhe (x / u)) * u" using assms(1) by (simp add: rnd64_def u_def)
  have "\<bar>of_int (rhe (x / u)) - x / u\<bar> \<le> 1" using rhe_floor [of "x / u"] by linarith
  then have "\<bar>of_int (rhe (x / u)) - x / u\<bar> * u \<le> 1 * u" using u by (intro mult_right_mono) auto
  moreover have "(of_int (rhe (x / u)) - x / u) * u = rnd64 x - x"
    using u(1) unfolding r by (simp add: left_diff_distrib)
  then have "\<bar>of_int (rhe (x / u)) - x / u\<bar> * u = \<bar>rnd64 x - x\<bar>"
    using u(1) by (metis abs_mult abs_of_pos)
  ultimately show ?thesis using u by linarith
qed

text \<open>Squares of different integers stay at least one apart after rounding.\<close>

lemma square_gap:
  fixes d :: int
  assumes "0 \<le> d" "d < 2 ^ 32"
  shows "rnd64 (of_int d * of_int d) + 1 \<le> rnd64 (of_int (d + 1) * of_int (d + 1))"
proof (cases "d < 2 ^ 26")
  case True
  then have "(d + 1) * (d + 1) \<le> 2 ^ 26 * 2 ^ 26" "d * d \<le> 2 ^ 26 * 2 ^ 26"
    using assms by (intro mult_mono; simp)+
  then have "rnd64 (of_int (d * d)) = of_int (d * d)" "rnd64 (of_int ((d + 1) * (d + 1))) = of_int ((d + 1) * (d + 1))"
    using assms by (intro rnd64_of_int; simp)+
  then show ?thesis using assms by (simp add: algebra_simps)
next
  case False
  have m: "m * m < 2 ^ 66" if "0 \<le> m" "m \<le> 2 ^ 32" for m :: int
  proof -
    have "m * m \<le> 2 ^ 32 * 2 ^ 32" using that by (intro mult_mono) auto
    also have "(2 :: int) ^ 32 * 2 ^ 32 < 2 ^ 66" by simp
    finally show ?thesis .
  qed
  define a c where "a = (of_int (d * d) :: rat)" and "c = (of_int ((d + 1) * (d + 1)) :: rat)"
  have pos: "0 < a" "0 < c" using False assms by (simp_all add: a_def c_def)
  have "a < of_int (2 ^ 66)" "c < of_int (2 ^ 66)"
    unfolding a_def c_def of_int_less_iff using m [of d] m [of "d + 1"] assms by auto
  then have "a < 2 ^ 66" "c < 2 ^ 66" by (simp_all only: of_int_power of_int_numeral)
  with pos have e: "\<bar>rnd64 a - a\<bar> \<le> 2 ^ 14" "\<bar>rnd64 c - c\<bar> \<le> 2 ^ 14" by (blast intro: rnd64_error)+
  have "c = a + (2 * of_int d + 1)" by (simp add: a_def c_def algebra_simps)
  moreover have "(2 :: rat) ^ 26 \<le> of_int d" using False by (metis not_less of_int_le_iff of_int_numeral of_int_power)
  ultimately have "rnd64 a + 1 \<le> rnd64 c" using e by simp
  then show ?thesis by (simp only: a_def c_def of_int_mult)
qed

lemma side_gap:
  assumes "int_coord x" "int_coord y" "int_coord d" "x \<le> X" "Y \<le> y"
    and "dcmp (fsub (fadd X d) Y) < 0"
  shows "x + d + 1 \<le> y"
proof -
  obtain i j k where i: "x = of_int i" "y = of_int j" "d = of_int k"
    "0 \<le> i" "i < 2 ^ 32" "0 \<le> j" "j < 2 ^ 32" "0 \<le> k" "k < 2 ^ 32"
    using assms(1-3) by (auto simp: int_coord_def)
  have "fsub (fadd x d) y = of_int (i + k - j)"
    using i fadd_of_int [of i k] fsub_of_int [of "i + k" j] by simp
  moreover have "fsub (fadd x d) y \<le> fsub (fadd X d) Y"
    unfolding fsub_def fadd_def using assms(4,5) by (intro rnd64_mono diff_mono) auto
  ultimately have "of_int (i + k - j) < (0 :: rat)" using assms(6) FT_EPS_pos unfolding dcmp_less_0_iff by linarith
  then have "i + k - j < 0" by (simp only: of_int_less_0_iff)
  then have "of_int (i + k + 1) \<le> (of_int j :: rat)" by (simp only: of_int_le_iff)
  then show ?thesis by (simp add: i)
qed

lemma gap_square:
  assumes "int_coord x" "int_coord y" "int_coord d" "d + 1 \<le> \<bar>x - y\<bar>"
  shows "fmul d d + 1 \<le> fmul (fsub x y) (fsub x y)"
proof -
  obtain i j k where i: "x = of_int i" "y = of_int j" "d = of_int k"
    "0 \<le> i" "i < 2 ^ 32" "0 \<le> j" "j < 2 ^ 32" "0 \<le> k" "k < 2 ^ 32"
    using assms(1-3) by (auto simp: int_coord_def)
  have f: "fsub x y = of_int (i - j)" using i fsub_of_int [of i j] by simp
  have "of_int (k + 1) \<le> (of_int \<bar>i - j\<bar> :: rat)" using assms(4) by (simp add: i)
  then have "k + 1 \<le> \<bar>i - j\<bar>" by (simp only: of_int_le_iff)
  then have "rnd64 (of_int (k + 1) * of_int (k + 1)) \<le> rnd64 (of_int (i - j) * of_int (i - j))"
    using i by (intro b64.square_mono) (simp_all flip: of_int_abs of_int_diff)
  then show ?thesis using square_gap [of k] i unfolding fmul_def f i(3) by linarith
qed

lemma far_not_within:
  assumes "int_point p" "int_point q" "int_coord d"
    and "d + 1 \<le> \<bar>pt_x p - pt_x q\<bar> \<or> d + 1 \<le> \<bar>pt_y p - pt_y q\<bar>"
  shows "\<not> within_dis d p q"
proof -
  let ?a = "fmul (fsub (pt_x p) (pt_x q)) (fsub (pt_x p) (pt_x q))"
  let ?b = "fmul (fsub (pt_y p) (pt_y q)) (fsub (pt_y p) (pt_y q))"
  have n: "0 \<le> ?a" "0 \<le> ?b" by (simp_all add: fmul_def b64.nonneg)
  have le: "?a \<le> fadd ?a ?b" "?b \<le> fadd ?a ?b"
    unfolding fadd_def using n by (intro b64.ge_exact; simp add: fmul_def b64.idem)+
  have "fmul d d + 1 \<le> ?a \<or> fmul d d + 1 \<le> ?b"
    using assms gap_square unfolding int_point_def by blast
  then have "fmul d d + 1 \<le> point_point_sqrdis p q" using le by (auto simp: point_point_sqrdis_def)
  then have "1 \<le> fsub (point_point_sqrdis p q) (fmul d d)"
    unfolding fsub_def by (intro b64.ge_exact) (simp_all add: rnd64_numeral)
  then show ?thesis using FT_EPS_less_1 by (simp add: within_dis_def dcmp_le_0_iff)
qed

lemma within_boxes:
  assumes "int_point p" "int_point q" "int_coord d" "point_in_mbr p m1" "point_in_mbr q m2" "within_dis d p q"
  shows "mbr_mbr_within_dis m1 m2 d"
proof (rule ccontr)
  assume "\<not> ?thesis"
  then consider
      "dcmp (fsub (fadd (pt_x (snd m1)) d) (pt_x (fst m2))) < 0"
    | "dcmp (fsub (fadd (pt_y (snd m1)) d) (pt_y (fst m2))) < 0"
    | "dcmp (fsub (fadd (pt_x (snd m2)) d) (pt_x (fst m1))) < 0"
    | "dcmp (fsub (fadd (pt_y (snd m2)) d) (pt_y (fst m1))) < 0"
    unfolding mbr_mbr_within_dis_def by blast
  then have "d + 1 \<le> \<bar>pt_x p - pt_x q\<bar> \<or> d + 1 \<le> \<bar>pt_y p - pt_y q\<bar>"
  proof cases
    case 1
    then have "pt_x p + d + 1 \<le> pt_x q" by (intro side_gap) (use assms in \<open>auto simp: int_point_def point_in_mbr_def\<close>)
    then show ?thesis by linarith
  next
    case 2
    then have "pt_y p + d + 1 \<le> pt_y q" by (intro side_gap) (use assms in \<open>auto simp: int_point_def point_in_mbr_def\<close>)
    then show ?thesis by linarith
  next
    case 3
    then have "pt_x q + d + 1 \<le> pt_x p" by (intro side_gap) (use assms in \<open>auto simp: int_point_def point_in_mbr_def\<close>)
    then show ?thesis by linarith
  next
    case 4
    then have "pt_y q + d + 1 \<le> pt_y p" by (intro side_gap) (use assms in \<open>auto simp: int_point_def point_in_mbr_def\<close>)
    then show ?thesis by linarith
  qed
  then show False using far_not_within assms by blast
qed

section \<open>The pairs found\<close>

definition join_pairs :: "FT \<Rightarrow> point list \<Rightarrow> point list \<Rightarrow> (point \<times> point) multiset" where
  "join_pairs d P Q = {#pq \<in># mset (List.product P Q). join_test d (fst pq) (snd pq)#}"

lemma mset_product_append:
  "mset (List.product (P @ P') Q) = mset (List.product P Q) + mset (List.product P' Q)"
  "mset (List.product P (Q @ Q')) = mset (List.product P Q) + mset (List.product P Q')"
  by (induction P) simp_all

lemma join_pairs_Nil [simp]: "join_pairs d [] Q = {#}" "join_pairs d P [] = {#}"
  by (simp_all add: join_pairs_def product_concat_map)

lemma join_pairs_append [simp]:
  "join_pairs d (P @ P') Q = join_pairs d P Q + join_pairs d P' Q"
  "join_pairs d P (Q @ Q') = join_pairs d P Q + join_pairs d P Q'"
  by (simp_all add: join_pairs_def mset_product_append)

lemma filter_row:
  "filter_mset f (image_mset (Pair a) (mset Q)) = image_mset (Pair a) (filter_mset (\<lambda>b. f (a, b)) (mset Q))"
  by (induction Q) simp_all

lemma join_row:
  "foldl (\<lambda>res pt2. if join_test d pt1 pt2 then res @ [(pt1, pt2)] else res) res leaf2 =
     res @ map (Pair pt1) (filter (join_test d pt1) leaf2)"
  by (induction leaf2 arbitrary: res) simp_all

lemma mset_join_leaves: "mset (join_leaves d leaf1 leaf2 res) = mset res + join_pairs d leaf1 leaf2"
  unfolding join_leaves_def join_row
  by (induction leaf1 arbitrary: res)
     (simp_all add: join_pairs_def filter_row)

definition join_side :: "qtree \<Rightarrow> Bounding_Box \<Rightarrow> FT \<Rightarrow> FT \<Rightarrow> nat \<Rightarrow> bool \<Rightarrow> bool" where
  "join_side t m x y b s \<longleftrightarrow> mvq_ok b t \<and> frame b s x y m (set (collect_records t)) \<and>
     (\<forall>p\<in>set (collect_records t). int_point p)"

lemma join_side_sons:
  assumes "join_side (InteNode l r n) m x y b s" "compute_cur_box m x y b s = (LB, RB, rx, ry)"
  shows "join_side l LB x y (b - 1) (\<not> s)" "join_side r RB rx ry (b - 1) (\<not> s)"
  using assms frame_sons [OF _ _ _ _ _ assms(2), of "set (collect_records l)" "set (collect_records r)"]
  by (auto simp: join_side_def)

lemma join_cut_off:
  assumes "join_side t1 m1 x1 y1 b1 s1" "join_side t2 m2 x2 y2 b2 s2" "int_coord d"
    and "\<not> mbr_mbr_within_dis m1 m2 d"
  shows "join_pairs d (collect_records t1) (collect_records t2) = {#}"
proof -
  have "\<not> join_test d p q" if "p \<in> set (collect_records t1)" "q \<in> set (collect_records t2)" for p q
    using within_boxes [of p q d m1 m2] assms that frame_in_box unfolding join_side_def join_test_def by blast
  then show ?thesis by (auto simp: join_pairs_def filter_mset_eq_conv)
qed

lemma spatial_join_pairs:
  assumes "int_coord d"
  shows "join_side t1 m1 x1 y1 b1 s1 \<Longrightarrow> join_side t2 m2 x2 y2 b2 s2 \<Longrightarrow>
    mset (spatial_join t1 t2 d res m1 x1 y1 b1 s1 m2 x2 y2 b2 s2) =
      mset res + join_pairs d (collect_records t1) (collect_records t2)"
proof (induction "size t1 + size t2" arbitrary: t1 t2 res m1 x1 y1 b1 s1 m2 x2 y2 b2 s2 rule: less_induct)
  case less
  note cut = join_cut_off [OF less.prems assms]
  obtain L1 R1 rx1 ry1 where c1: "compute_cur_box m1 x1 y1 b1 s1 = (L1, R1, rx1, ry1)" by (metis prod_cases4)
  obtain L2 R2 rx2 ry2 where c2: "compute_cur_box m2 x2 y2 b2 s2 = (L2, R2, rx2, ry2)" by (metis prod_cases4)
  show ?case
  proof (cases t1; cases t2)
    fix l1 r1 n1 l2 r2 n2 assume [simp]: "t1 = InteNode l1 r1 n1" "t2 = InteNode l2 r2 n2"
    show ?thesis
      using cut less.hyps [OF _ join_side_sons(1) [OF less.prems(1) [simplified] c1] join_side_sons(1) [OF less.prems(2) [simplified] c2]]
        less.hyps [OF _ join_side_sons(1) [OF less.prems(1) [simplified] c1] join_side_sons(2) [OF less.prems(2) [simplified] c2]]
        less.hyps [OF _ join_side_sons(2) [OF less.prems(1) [simplified] c1] join_side_sons(1) [OF less.prems(2) [simplified] c2]]
        less.hyps [OF _ join_side_sons(2) [OF less.prems(1) [simplified] c1] join_side_sons(2) [OF less.prems(2) [simplified] c2]]
      by (simp add: c1 c2 Let_def)
  next
    fix l1 r1 n1 leaf2 assume [simp]: "t1 = InteNode l1 r1 n1" "t2 = LeafNode leaf2"
    show ?thesis
      using cut less.hyps [OF _ join_side_sons(1) [OF less.prems(1) [simplified] c1] less.prems(2)]
        less.hyps [OF _ join_side_sons(2) [OF less.prems(1) [simplified] c1] less.prems(2)]
      by (simp add: c1 Let_def)
  next
    fix leaf1 l2 r2 n2 assume [simp]: "t1 = LeafNode leaf1" "t2 = InteNode l2 r2 n2"
    show ?thesis
      using cut less.hyps [OF _ less.prems(1) join_side_sons(1) [OF less.prems(2) [simplified] c2]]
        less.hyps [OF _ less.prems(1) join_side_sons(2) [OF less.prems(2) [simplified] c2]]
      by (simp add: c2 Let_def)
  next
    fix leaf1 leaf2 assume "t1 = LeafNode leaf1" "t2 = LeafNode leaf2"
    then show ?thesis using cut by (simp add: mset_join_leaves)
  qed simp_all
qed

lemma int_coord_safe: "int_coord x \<Longrightarrow> safe_coord x"
  unfolding int_coord_def using safe_coord_of_int by blast

lemma int_point_safe: "int_point p \<Longrightarrow> safe_point p"
  by (simp add: int_point_def safe_point_def int_coord_safe)

text \<open>
  C9. The distance join of two versions is exact: for trees that satisfy the invariant,
  with integral coordinates below \<open>2 ^ 32\<close> inside the two boxes handed to the
  join, and an integral distance, the result gets exactly the pairs with different ids
  whose computed distance is within \<open>point_dis\<close>, every pair as often as it occurs.
  The boxes cut off no pair.
\<close>

theorem spatial_join_exact:
  assumes "mvq_ok 64 t1" "mvq_ok 64 t2" "int_coord d"
    and "\<forall>p\<in>set (collect_records t1). int_point p \<and> point_in_mbr p mbr1"
    and "\<forall>p\<in>set (collect_records t2). int_point p \<and> point_in_mbr p mbr2"
  shows "mset (two_version_spatial_join t1 t2 d res mbr1 mbr2) =
    mset res + mset (filter (\<lambda>pq. pt_id (fst pq) \<noteq> pt_id (snd pq) \<and> within_dis d (fst pq) (snd pq))
      (List.product (collect_records t1) (collect_records t2)))"
proof -
  have side: "join_side t m 0 0 64 True"
    if "mvq_ok 64 t" "\<forall>p\<in>set (collect_records t). int_point p \<and> point_in_mbr p m" for t m
    using that frame_root [of "set (collect_records t)" m] int_point_safe by (auto simp: join_side_def)
  show ?thesis
    unfolding two_version_spatial_join_def
      spatial_join_pairs [OF assms(3) side [OF assms(1,4)] side [OF assms(2,5)]]
    by (simp add: join_pairs_def join_test_def)
qed

lemma int_coord_numeral [simp]: "int_coord 0" "int_coord 1"
  "numeral n < (2 ^ 32 :: int) \<Longrightarrow> int_coord (numeral n)"
  unfolding int_coord_def
  by (rule exI [of _ 0], simp) (rule exI [of _ 1], simp, rule exI [of _ "numeral n"], simp)

theorem spatial_join_exact_witness:
  "mset (two_version_spatial_join (LeafNode [set_code (\<lambda>_. 0) False (Point3 1 2 3)])
       (LeafNode [set_code (\<lambda>_. 0) False (Point3 2 2 5)]) 2 [] (Point2 0 0, Point2 8 8) (Point2 0 0, Point2 8 8))
     = {#(set_code (\<lambda>_. 0) False (Point3 1 2 3), set_code (\<lambda>_. 0) False (Point3 2 2 5))#}"
proof -
  let ?p = "set_code (\<lambda>_. 0) False (Point3 1 2 3)" and ?q = "set_code (\<lambda>_. 0) False (Point3 2 2 5)"
  have ok: "mvq_ok 64 (LeafNode [p])" if "zcoded p" for p using that by (simp add: batch_def sorted_by_Cons)
  have "within_dis 2 ?p ?q"
    by (simp add: within_dis_def point_point_sqrdis_def fl_simps fadd_def fsub_def fmul_def)
  then show ?thesis
    using spatial_join_exact [of "LeafNode [?p]" "LeafNode [?q]" 2 "(Point2 0 0, Point2 8 8)" "(Point2 0 0, Point2 8 8)" "[]"] ok
    by (simp add: int_point_def point_in_mbr_def)
qed

text \<open>
  Without integral coordinates the boxes do cut off pairs: at distance 0 the leaf test
  accepts a gap of \<open>2 ^ -27\<close>, whose square is below the tolerance, and the box
  test does not.
\<close>

lemma join_cuts_off_accepted_pair:
  "let p = Point3 1 1 1; q = Point3 2 (1 + pow2 (- 27)) 1 in
     is_double (pt_x q) \<and> join_test 0 p q \<and>
     two_version_spatial_join (LeafNode [p]) (LeafNode [q]) 0 [] (p, p) (q, q) = []"
proof -
  have d: "is_double (pow2 (- 27))" "is_double (pow2 (- 54))"
    using is_double_pow2_mult [of 1 "- 27"] is_double_pow2_mult [of 1 "- 54"] by simp_all
  have e: "(1 :: rat) + pow2 (- 27) = of_int (2 ^ 27 + 1) * pow2 (- 27)"
    using pow2_of_nat [of 27] pow2_add [of 27 "- 27"] by (simp add: algebra_simps)
  have q: "is_double (1 + pow2 (- 27))" unfolding e by (rule is_double_pow2_mult) simp_all
  have sq: "pow2 (- 27) * pow2 (- 27) = pow2 (- 54)" by (simp flip: pow2_add)
  have lt: "pow2 (- 54) < FT_EPS" "FT_EPS \<le> pow2 (- 27)" by (simp_all add: FT_EPS_def)
  show ?thesis
    using d q lt
    by (simp add: Let_def join_test_def within_dis_def point_point_sqrdis_def mbr_mbr_within_dis_def
        two_version_spatial_join_def fadd_def fsub_def fmul_def is_double_def rnd64_minus sq fl_simps dcmp_le_0_iff dcmp_less_0_iff)
qed

end
