(* ===== verification/MvqStats.thy ===== *)
theory MvqStats
  imports MvqCommit "HOL-Library.Multiset"
begin

text \<open>
  The statistics of \<open>mvq.hpp\<close>: the nodes of all versions, each counted once however
  many versions share it, their sizes in memory, the sizes of the leaves, and the two
  hashes of a tree.
\<close>

unbundle bit_operations_syntax

section \<open>Counting the nodes of all versions\<close>

text \<open>
  The node maps of the code have addresses as keys and only say which were seen: the
  list of the keys. Tree depth is at most 64 (\<open>d\<close>); a dangling pointer is
  \<open>None\<close>.
\<close>

fun node_traverse :: "heap \<Rightarrow> addr \<Rightarrow> addr list \<Rightarrow> nat \<Rightarrow> addr list option" where
  "node_traverse h a mmp d =
     (case cells h a of
        None \<Rightarrow> None
      | Some (HLeaf records) \<Rightarrow> Some (List.insert a mmp)
      | Some (HInte l_son r_son num_pts) \<Rightarrow>
          (if d = 0 then None
           else do {
             let mmp = List.insert a mmp;
             mmp \<leftarrow> (case l_son of None \<Rightarrow> Some mmp | Some l \<Rightarrow> node_traverse h l mmp (d - 1));
             (case r_son of None \<Rightarrow> Some mmp | Some r \<Rightarrow> node_traverse h r mmp (d - 1)) }))"

declare node_traverse.simps [simp del]

fun traverse_roots :: "heap \<Rightarrow> addr option list \<Rightarrow> addr list \<Rightarrow> addr list option" where
  "traverse_roots h [] node_map = Some node_map"
| "traverse_roots h (None # roots) node_map = traverse_roots h roots node_map"
| "traverse_roots h (Some rt # roots) node_map =
     Option.bind (node_traverse h rt node_map 64) (traverse_roots h roots)"

definition num_of_nodes :: "mvq_state \<Rightarrow> nat option" where
  "num_of_nodes s = map_option length (traverse_roots (mheap s) (multi_version_roots s) [])"

text \<open>
  \<open>sizeof\<close> and the capacity of a leaf's vector depend on the compiler and the
  allocator: parameters.
\<close>

record tree_stat =
  num_inte_nodes :: nat
  num_leaf_nodes :: nat
  mem_inte_nodes :: nat
  mem_leaf_nodes :: nat

record node_sizes =
  sizeof_inte :: nat
  sizeof_leaf :: nat
  sizeof_point :: nat
  leaf_capacity :: "addr \<Rightarrow> nat"

definition count_leaf :: "node_sizes \<Rightarrow> addr \<Rightarrow> tree_stat \<times> addr list \<Rightarrow> tree_stat \<times> addr list" where
  "count_leaf sz a res =
     (case res of (stat, mmp) \<Rightarrow>
        if a \<notin> set mmp
        then (stat\<lparr>num_leaf_nodes := num_leaf_nodes stat + 1,
                   mem_leaf_nodes := mem_leaf_nodes stat + (sizeof_leaf sz + leaf_capacity sz a * sizeof_point sz)\<rparr>,
              a # mmp)
        else res)"

definition count_inte :: "node_sizes \<Rightarrow> addr \<Rightarrow> tree_stat \<times> addr list \<Rightarrow> tree_stat \<times> addr list" where
  "count_inte sz a res =
     (case res of (stat, mmp) \<Rightarrow>
        if a \<notin> set mmp
        then (stat\<lparr>num_inte_nodes := num_inte_nodes stat + 1,
                   mem_inte_nodes := mem_inte_nodes stat + sizeof_inte sz\<rparr>, a # mmp)
        else res)"

fun tree_statistics_node ::
  "node_sizes \<Rightarrow> heap \<Rightarrow> addr \<Rightarrow> tree_stat \<times> addr list \<Rightarrow> nat \<Rightarrow> (tree_stat \<times> addr list) option" where
  "tree_statistics_node sz h a res d =
     (case cells h a of
        None \<Rightarrow> None
      | Some (HLeaf records) \<Rightarrow> Some (count_leaf sz a res)
      | Some (HInte l_son r_son num_pts) \<Rightarrow>
          (if d = 0 then None
           else do {
             let res = count_inte sz a res;
             res \<leftarrow> (case l_son of None \<Rightarrow> Some res | Some l \<Rightarrow> tree_statistics_node sz h l res (d - 1));
             (case r_son of None \<Rightarrow> Some res | Some r \<Rightarrow> tree_statistics_node sz h r res (d - 1)) }))"

declare tree_statistics_node.simps [simp del]

fun statistics_roots ::
  "node_sizes \<Rightarrow> heap \<Rightarrow> addr option list \<Rightarrow> tree_stat \<times> addr list \<Rightarrow> (tree_stat \<times> addr list) option" where
  "statistics_roots sz h [] res = Some res"
| "statistics_roots sz h (None # roots) res = statistics_roots sz h roots res"
| "statistics_roots sz h (Some rt # roots) res =
     Option.bind (tree_statistics_node sz h rt res 64) (statistics_roots sz h roots)"

definition get_tree_statistics :: "node_sizes \<Rightarrow> mvq_state \<Rightarrow> tree_stat option" where
  "get_tree_statistics sz s =
     map_option fst (statistics_roots sz (mheap s) (multi_version_roots s)
       (\<lparr>num_inte_nodes = 0, num_leaf_nodes = 0, mem_inte_nodes = 0, mem_leaf_nodes = 0\<rparr>, []))"

section \<open>What the walks count\<close>

lemma node_traverse_reaches:
  "reps h S (Some a) t \<Longrightarrow> mvq_ok d t \<Longrightarrow> distinct mmp \<Longrightarrow>
   \<exists>mmp'. node_traverse h a mmp d = Some mmp' \<and> set mmp' = set mmp \<union> reach_set h (Some a) \<and> distinct mmp'"
proof (induction t arbitrary: a mmp d)
  case (LeafNode records)
  then show ?case by (subst node_traverse.simps) (auto simp: reach_set_leaf)
next
  case (InteNode l r n)
  then obtain pl pr where c: "cells h a = Some (HInte pl pr n)" "reps h S pl l" "reps h S pr r" by auto
  have ok: "mvq_ok (d - 1) l" "mvq_ok (d - 1) r" "d \<noteq> 0" using InteNode.prems by auto
  have go: "\<exists>mmp'. (case p of None \<Rightarrow> Some m | Some a \<Rightarrow> node_traverse h a m (d - 1)) = Some mmp'
      \<and> set mmp' = set m \<union> reach_set h p \<and> distinct mmp'"
    if "reps h S p t" "distinct m"
      "\<And>a m. reps h S (Some a) t \<Longrightarrow> distinct m \<Longrightarrow> \<exists>mmp'. node_traverse h a m (d - 1) = Some mmp'
        \<and> set mmp' = set m \<union> reach_set h (Some a) \<and> distinct mmp'" for p t m
    using that by (cases p) auto
  obtain m1 where m1: "(case pl of None \<Rightarrow> Some (List.insert a mmp) | Some l \<Rightarrow> node_traverse h l (List.insert a mmp) (d - 1)) = Some m1"
      "set m1 = set (List.insert a mmp) \<union> reach_set h pl" "distinct m1"
    using go [OF c(2) _ InteNode.IH(1) [OF _ ok(1)], of "List.insert a mmp"] InteNode.prems(3) by auto
  obtain m2 where m2: "(case pr of None \<Rightarrow> Some m1 | Some r \<Rightarrow> node_traverse h r m1 (d - 1)) = Some m2"
      "set m2 = set m1 \<union> reach_set h pr" "distinct m2"
    using go [OF c(3) m1(3) InteNode.IH(2) [OF _ ok(2)]] by auto
  show ?case
    using m1 m2 ok(3) c(1) by (subst node_traverse.simps) (auto simp: reach_set_inte)
qed simp

definition is_hleaf :: "heap \<Rightarrow> addr \<Rightarrow> bool" where
  "is_hleaf h a \<longleftrightarrow> (\<exists>records. cells h a = Some (HLeaf records))"

text \<open>What the statistics say of a set of nodes, and the invariant of the walk.\<close>

definition stat_of :: "node_sizes \<Rightarrow> heap \<Rightarrow> addr set \<Rightarrow> tree_stat" where
  "stat_of sz h A = \<lparr>num_inte_nodes = card {a \<in> A. \<not> is_hleaf h a}, num_leaf_nodes = card {a \<in> A. is_hleaf h a},
     mem_inte_nodes = card {a \<in> A. \<not> is_hleaf h a} * sizeof_inte sz,
     mem_leaf_nodes = (\<Sum>a\<in>{a \<in> A. is_hleaf h a}. sizeof_leaf sz + leaf_capacity sz a * sizeof_point sz)\<rparr>"

definition stat_inv :: "node_sizes \<Rightarrow> heap \<Rightarrow> tree_stat \<times> addr list \<Rightarrow> addr set \<Rightarrow> bool" where
  "stat_inv sz h res A \<longleftrightarrow> set (snd res) = A \<and> fst res = stat_of sz h A"

lemma filter_insert:
  "{x \<in> insert a A. P x} = (if P a then insert a {x \<in> A. P x} else {x \<in> A. P x})"
  by auto

lemma stat_of_insert:
  assumes "finite A" "a \<notin> A"
  shows "is_hleaf h a \<Longrightarrow> stat_of sz h (insert a A) = (stat_of sz h A)
      \<lparr>num_leaf_nodes := num_leaf_nodes (stat_of sz h A) + 1,
       mem_leaf_nodes := mem_leaf_nodes (stat_of sz h A) + (sizeof_leaf sz + leaf_capacity sz a * sizeof_point sz)\<rparr>"
    and "\<not> is_hleaf h a \<Longrightarrow> stat_of sz h (insert a A) = (stat_of sz h A)
      \<lparr>num_inte_nodes := num_inte_nodes (stat_of sz h A) + 1,
       mem_inte_nodes := mem_inte_nodes (stat_of sz h A) + sizeof_inte sz\<rparr>"
  unfolding stat_of_def filter_insert using assms by simp_all

lemma count_inv:
  assumes "stat_inv sz h res A"
  shows "is_hleaf h a \<Longrightarrow> stat_inv sz h (count_leaf sz a res) (insert a A)"
    and "\<not> is_hleaf h a \<Longrightarrow> stat_inv sz h (count_inte sz a res) (insert a A)"
proof -
  obtain st m where [simp]: "res = (st, m)" by (cases res)
  have a: "A = set m" "st = stat_of sz h (set m)" using assms by (simp_all add: stat_inv_def)
  show "is_hleaf h a \<Longrightarrow> stat_inv sz h (count_leaf sz a res) (insert a A)"
    "\<not> is_hleaf h a \<Longrightarrow> stat_inv sz h (count_inte sz a res) (insert a A)"
    unfolding a(1) by (auto simp: a(2) stat_inv_def count_leaf_def count_inte_def stat_of_insert insert_absorb)
qed

lemma tree_statistics_reaches:
  "reps h S (Some a) t \<Longrightarrow> mvq_ok d t \<Longrightarrow> stat_inv sz h res A \<Longrightarrow>
   \<exists>res'. tree_statistics_node sz h a res d = Some res' \<and> stat_inv sz h res' (A \<union> reach_set h (Some a))"
proof (induction t arbitrary: a res A d)
  case (LeafNode records)
  then have c: "cells h a = Some (HLeaf records)" by simp
  with LeafNode.prems(3) have "stat_inv sz h (count_leaf sz a res) (insert a A)"
    by (intro count_inv) (auto simp: is_hleaf_def)
  with c show ?case by (subst tree_statistics_node.simps) (simp add: reach_set_leaf)
next
  case (InteNode l r n)
  then obtain pl pr where c: "cells h a = Some (HInte pl pr n)" "reps h S pl l" "reps h S pr r" by auto
  have ok: "mvq_ok (d - 1) l" "mvq_ok (d - 1) r" "d \<noteq> 0" using InteNode.prems by auto
  have go: "\<exists>m'. (case p of None \<Rightarrow> Some m | Some a \<Rightarrow> tree_statistics_node sz h a m (d - 1)) = Some m'
      \<and> stat_inv sz h m' (B \<union> reach_set h p)"
    if "reps h S p t" "stat_inv sz h m B"
      "\<And>a m B. reps h S (Some a) t \<Longrightarrow> stat_inv sz h m B \<Longrightarrow> \<exists>m'. tree_statistics_node sz h a m (d - 1) = Some m'
        \<and> stat_inv sz h m' (B \<union> reach_set h (Some a))" for p t m B
    using that by (cases p) auto
  have i: "stat_inv sz h (count_inte sz a res) (insert a A)"
    using InteNode.prems(3) c(1) by (intro count_inv) (auto simp: is_hleaf_def)
  obtain m1 where m1: "(case pl of None \<Rightarrow> Some (count_inte sz a res) | Some l \<Rightarrow> tree_statistics_node sz h l (count_inte sz a res) (d - 1)) = Some m1"
      "stat_inv sz h m1 (insert a A \<union> reach_set h pl)"
    using go [OF c(2) i InteNode.IH(1) [OF _ ok(1)]] by auto
  obtain m2 where m2: "(case pr of None \<Rightarrow> Some m1 | Some r \<Rightarrow> tree_statistics_node sz h r m1 (d - 1)) = Some m2"
      "stat_inv sz h m2 (insert a A \<union> reach_set h pl \<union> reach_set h pr)"
    using go [OF c(3) m1(2) InteNode.IH(2) [OF _ ok(2)]] by auto
  have "A \<union> reach_set h (Some a) = insert a A \<union> reach_set h pl \<union> reach_set h pr"
    using c(1) by (auto simp: reach_set_inte)
  with m1 m2 ok(3) c(1) show ?case by (subst tree_statistics_node.simps) auto
qed simp

lemma traverse_roots_reaches:
  assumes "\<forall>p\<in>set roots. \<exists>t. version leaf_size h p t" "distinct mmp"
  shows "\<exists>mmp'. traverse_roots h roots mmp = Some mmp' \<and> set mmp' = set mmp \<union> (\<Union>p\<in>set roots. reach_set h p)
    \<and> distinct mmp'"
  using assms
proof (induction h roots mmp rule: traverse_roots.induct)
  case (3 h rt roots mmp)
  then obtain t where "reps h {..<nxt h} (Some rt) t" "mvq_ok 64 t" by (auto simp: version_def)
  from node_traverse_reaches [OF this 3(3)] obtain m where
    "node_traverse h rt mmp 64 = Some m" "set m = set mmp \<union> reach_set h (Some rt)" "distinct m" by blast
  with 3(1) [of m] 3(2) show ?case by auto
qed auto

lemma statistics_roots_reaches:
  assumes "\<forall>p\<in>set roots. \<exists>t. version leaf_size h p t" "stat_inv sz h res A"
  shows "\<exists>res'. statistics_roots sz h roots res = Some res' \<and>
    stat_inv sz h res' (A \<union> (\<Union>p\<in>set roots. reach_set h p))"
  using assms
proof (induction sz h roots res arbitrary: A rule: statistics_roots.induct)
  case (3 sz h rt roots res)
  then obtain t where "reps h {..<nxt h} (Some rt) t" "mvq_ok 64 t" by (auto simp: version_def)
  from tree_statistics_reaches [OF this 3(3)] obtain m where
    "tree_statistics_node sz h rt res 64 = Some m" "stat_inv sz h m (A \<union> reach_set h (Some rt))" by blast
  with 3(1) [of m "A \<union> reach_set h (Some rt)"] 3(2) show ?case by (auto simp: Un_assoc)
qed auto

text \<open>
  C10. The statistics count every node of the versions once: in every reachable state
  \<open>num_of_nodes\<close> is the number of nodes reachable from the version roots,
  however many versions share them, \<open>get_tree_statistics\<close> splits this number
  into leaves and interior nodes and adds up their sizes.
\<close>

theorem statistics_exact:
  assumes "(vstep ov leaf_size)\<^sup>*\<^sup>* init_state s"
  shows "num_of_nodes s = Some (card (all_nodes s)) \<and>
    get_tree_statistics sz s = Some (stat_of sz (mheap s) (all_nodes s)) \<and>
    card (all_nodes s) = num_leaf_nodes (stat_of sz (mheap s) (all_nodes s)) +
      num_inte_nodes (stat_of sz (mheap s) (all_nodes s))"
proof -
  have v: "\<forall>p\<in>set (multi_version_roots s). \<exists>t. version leaf_size (mheap s) p t"
    using steps_good [OF assms good_init] by (simp add: good_state_def)
  obtain m where m: "traverse_roots (mheap s) (multi_version_roots s) [] = Some m" "set m = all_nodes s" "distinct m"
    using traverse_roots_reaches [OF v, of "[]"] by (auto simp: all_nodes_def)
  let ?z = "(\<lparr>num_inte_nodes = 0, num_leaf_nodes = 0, mem_inte_nodes = 0, mem_leaf_nodes = 0\<rparr>, [])"
  have "stat_inv sz (mheap s) ?z {}" by (simp add: stat_inv_def stat_of_def)
  then obtain r where r: "statistics_roots sz (mheap s) (multi_version_roots s) ?z = Some r"
    "stat_inv sz (mheap s) r (all_nodes s)"
    using statistics_roots_reaches [OF v] unfolding all_nodes_def by fastforce
  have fin: "finite (all_nodes s)" using m(2) by (metis List.finite_set)
  have "{a \<in> all_nodes s. is_hleaf (mheap s) a} \<union> {a \<in> all_nodes s. \<not> is_hleaf (mheap s) a} = all_nodes s" by blast
  then have "card (all_nodes s) = card {a \<in> all_nodes s. is_hleaf (mheap s) a} +
      card {a \<in> all_nodes s. \<not> is_hleaf (mheap s) a}"
    using fin by (subst card_Un_disjoint [symmetric]) auto
  moreover have "length m = card (all_nodes s)" using m(2,3) distinct_card by fastforce
  ultimately show ?thesis
    using m r by (simp add: num_of_nodes_def get_tree_statistics_def stat_inv_def) (simp add: stat_of_def)
qed

theorem statistics_exact_witness:
  "num_of_nodes run1 = Some (card (all_nodes run1)) \<and> card (all_nodes run1) = 1"
proof -
  have c: "cells (mheap run1) 0 = Some (HLeaf [set_code (\<lambda>_. 0) False (Point3 1 2 3)])"
    by (simp add: run1_def alloc_def empty_heap_def)
  have "all_nodes run1 = {0}"
    using reach_set_leaf [OF c] by (simp add: all_nodes_def) (simp add: run1_def)
  then show ?thesis using statistics_exact [OF run1_reachable, of undefined] by simp
qed

section \<open>The sizes of the leaves\<close>

text \<open>A version is its tree; the counting map is total with default 0.\<close>

fun collect_leaf_size :: "qtree \<Rightarrow> (nat \<Rightarrow> nat) \<Rightarrow> (nat \<Rightarrow> nat) option" where
  "collect_leaf_size Null mmp = None"
| "collect_leaf_size (LeafNode records) mmp = Some (mmp(length records := mmp (length records) + 1))"
| "collect_leaf_size (InteNode l r n) mmp =
     do {
       mmp \<leftarrow> (if l \<noteq> Null then collect_leaf_size l mmp else Some mmp);
       (if r \<noteq> Null then collect_leaf_size r mmp else Some mmp) }"

fun leaf_size_roots :: "qtree list \<Rightarrow> (nat \<Rightarrow> nat) \<Rightarrow> (nat \<Rightarrow> nat) option" where
  "leaf_size_roots [] leaf_map = Some leaf_map"
| "leaf_size_roots (rt # roots) leaf_map =
     (if rt = Null then leaf_size_roots roots leaf_map
      else Option.bind (collect_leaf_size rt leaf_map) (leaf_size_roots roots))"

definition leaf_size_status_all :: "qtree list \<Rightarrow> (nat \<Rightarrow> nat) option" where
  "leaf_size_status_all roots = leaf_size_roots roots (\<lambda>_. 0)"

definition leaf_size_status :: "qtree \<Rightarrow> (nat \<Rightarrow> nat) option" where
  "leaf_size_status rt = (if rt = Null then Some (\<lambda>_. 0) else collect_leaf_size rt (\<lambda>_. 0))"

fun leaves_of :: "qtree \<Rightarrow> point list list" where
  "leaves_of Null = []"
| "leaves_of (LeafNode records) = [records]"
| "leaves_of (InteNode l r n) = leaves_of l @ leaves_of r"

lemma collect_leaf_size_eq:
  "t \<noteq> Null \<Longrightarrow> collect_leaf_size t mmp = Some (\<lambda>k. mmp k + length (filter (\<lambda>P. length P = k) (leaves_of t)))"
proof (induction t arbitrary: mmp)
  case (InteNode l r n)
  then show ?case by (cases "l = Null"; cases "r = Null") (auto simp: add.assoc)
qed (auto simp: fun_eq_iff)

lemma leaf_size_status_all_eq:
  "leaf_size_status_all roots = Some (\<lambda>k. length (filter (\<lambda>P. length P = k) (concat (map leaves_of roots))))"
proof -
  have "leaf_size_roots roots m =
      Some (\<lambda>k. m k + length (filter (\<lambda>P. length P = k) (concat (map leaves_of roots))))" for m
    by (induction roots arbitrary: m) (auto simp: collect_leaf_size_eq add.assoc)
  then show ?thesis by (simp add: leaf_size_status_all_def)
qed

lemma leaf_size_status_eq:
  "leaf_size_status t = Some (\<lambda>k. length (filter (\<lambda>P. length P = k) (leaves_of t)))"
  by (cases "t = Null") (simp_all add: leaf_size_status_def collect_leaf_size_eq)

lemma collect_records_leaves: "collect_records t = concat (leaves_of t)"
  by (induction t) simp_all

section \<open>Hashes of a tree\<close>

text \<open>
  \<open>parlay::hash64\<close> is a parameter. An \<open>int\<close> goes to it sign-extended
  and its result is cut to 32 bits; \<open>static_cast<int>\<close> of a coordinate has the
  bits of the cast to \<open>unsigned int\<close>. The products of the second hash wrap here,
  where C++ leaves an overflow undefined. A null root is dereferenced: \<open>None\<close>.
\<close>

record hash_counts =
  node_cnt :: nat
  leaf_cnt :: nat
  record_cnt :: nat

definition count_leaf_visit :: "point list \<Rightarrow> hash_counts \<Rightarrow> hash_counts" where
  "count_leaf_visit records c =
     c\<lparr>node_cnt := node_cnt c + 1, leaf_cnt := leaf_cnt c + 1, record_cnt := record_cnt c + length records\<rparr>"

definition hash_int :: "(64 word \<Rightarrow> 64 word) \<Rightarrow> 32 word \<Rightarrow> 32 word" where
  "hash_int hash64 w = ucast (hash64 (scast w))"

definition leaf_hash :: "(64 word \<Rightarrow> 64 word) \<Rightarrow> point list \<Rightarrow> 32 word" where
  "leaf_hash hash64 records =
     foldl (\<lambda>ret pt. ret XOR hash_int hash64 (cast_u32 (pt_x pt) XOR cast_u32 (pt_y pt))) 0 records"

fun tree_hash :: "(64 word \<Rightarrow> 64 word) \<Rightarrow> qtree \<Rightarrow> hash_counts \<Rightarrow> (32 word \<times> hash_counts) option" where
  "tree_hash hash64 Null c = None"
| "tree_hash hash64 (LeafNode records) c =
     Some (hash_int hash64 (leaf_hash hash64 records), count_leaf_visit records c)"
| "tree_hash hash64 (InteNode l r n) c =
     do {
       let c = c\<lparr>node_cnt := node_cnt c + 1\<rparr>;
       (L, c) \<leftarrow> (if l \<noteq> Null then tree_hash hash64 l c else Some (0, c));
       (R, c) \<leftarrow> (if r \<noteq> Null then tree_hash hash64 r c else Some (0, c));
       Some (hash_int hash64 (L XOR R), c) }"

definition MOD :: "64 word" where
  "MOD = 1000000007"

definition leaf_hash_step :: "32 word \<times> 32 word \<Rightarrow> point \<Rightarrow> 32 word \<times> 32 word" where
  "leaf_hash_step s pt =
     (case s of (ret, cur) \<Rightarrow>
        (ucast ((scast ret + (scast (cur * cast_u32 (pt_x pt)) mod MOD) +
                 (scast (cur * cast_u32 (pt_y pt)) mod MOD)) mod MOD), cur + 1))"

fun tree_hash_non_associative ::
  "(64 word \<Rightarrow> 64 word) \<Rightarrow> qtree \<Rightarrow> hash_counts \<Rightarrow> (32 word \<times> hash_counts) option" where
  "tree_hash_non_associative hash64 Null c = None"
| "tree_hash_non_associative hash64 (LeafNode records) c =
     Some (hash_int hash64 (fst (foldl leaf_hash_step (0, 1) records)), count_leaf_visit records c)"
| "tree_hash_non_associative hash64 (InteNode l r n) c =
     do {
       let c = c\<lparr>node_cnt := node_cnt c + 1\<rparr>;
       (L, c) \<leftarrow> (if l \<noteq> Null then tree_hash_non_associative hash64 l c else Some (0, c));
       (R, c) \<leftarrow> (if r \<noteq> Null then tree_hash_non_associative hash64 r c else Some (0, c));
       let R = ucast (scast (2 * R) mod MOD);
       Some (hash_int hash64 (L XOR R), c) }"

fun inte_count :: "qtree \<Rightarrow> nat" where
  "inte_count (InteNode l r n) = 1 + inte_count l + inte_count r"
| "inte_count t = 0"

definition counted :: "qtree \<Rightarrow> hash_counts \<Rightarrow> hash_counts" where
  "counted t c =
     c\<lparr>node_cnt := node_cnt c + inte_count t + length (leaves_of t), leaf_cnt := leaf_cnt c + length (leaves_of t),
       record_cnt := record_cnt c + length (collect_records t)\<rparr>"

lemma leaf_hash_perm: "mset P = mset Q \<Longrightarrow> leaf_hash h64 P = leaf_hash h64 Q"
proof -
  let ?f = "\<lambda>pt ret. ret XOR hash_int h64 (cast_u32 (pt_x pt) XOR cast_u32 (pt_y pt))"
  assume "mset P = mset Q"
  then have "fold ?f P = fold ?f Q"
    by (intro fold_multiset_equiv) (simp add: fun_eq_iff xor.assoc xor.commute xor.left_commute)
  then show "leaf_hash h64 P = leaf_hash h64 Q" by (simp add: leaf_hash_def foldl_conv_fold)
qed

lemma tree_hash_counts: "t \<noteq> Null \<Longrightarrow> \<exists>w. tree_hash h64 t c = Some (w, counted t c)"
proof (induction t arbitrary: c)
  case (InteNode l r n)
  have sub: "\<exists>w. (if t \<noteq> Null then tree_hash h64 t c else Some (0, c)) = Some (w, counted t c)"
    if "\<And>c. t \<noteq> Null \<Longrightarrow> \<exists>w. tree_hash h64 t c = Some (w, counted t c)" for t c
    using that by (cases "t = Null") (auto simp: counted_def)
  let ?c = "c\<lparr>node_cnt := node_cnt c + 1\<rparr>"
  obtain w1 where w1: "(if l \<noteq> Null then tree_hash h64 l ?c else Some (0, ?c)) = Some (w1, counted l ?c)"
    using sub InteNode.IH(1) by blast
  obtain w2 where w2: "(if r \<noteq> Null then tree_hash h64 r (counted l ?c) else Some (0, counted l ?c)) =
      Some (w2, counted r (counted l ?c))"
    using sub InteNode.IH(2) by blast
  have "counted r (counted l ?c) = counted (InteNode l r n) c" by (simp add: counted_def)
  then show ?case
    unfolding tree_hash.simps Let_def w1 Option.bind.simps prod.case w2 by blast
qed (simp_all add: counted_def count_leaf_visit_def)

end
