(* ===== verification/MvqRelease.thy ===== *)
theory MvqRelease
  imports MvqCommit
begin

text \<open>
  \<open>gc_nocheck\<close> on a version root: it returns, it frees every node that no other version
  uses, and it leaves the other versions alone. Versions are created and released in any order.
\<close>

section \<open>The whole store\<close>

text \<open>
  The store with the nodes that some version reaches: what the reference counts leave.
\<close>

definition swept :: "mvq_state \<Rightarrow> mvq_state" where
  "swept s = s\<lparr>mheap := (mheap s)\<lparr>cells := (\<lambda>a. if a \<in> all_nodes s then cells (mheap s) a else None)\<rparr>\<rparr>"

text \<open>
  Versions come (built, or committed on any version) and go. After every update the nodes
  that lost their last reference are gone.
\<close>

inductive life_step :: "(point \<Rightarrow> 64 word) \<Rightarrow> nat \<Rightarrow> mvq_state \<Rightarrow> mvq_state \<Rightarrow> bool" for ov leaf_size where
  update: "vstep ov leaf_size s s' \<Longrightarrow> life_step ov leaf_size s (swept s')"
| release_root: "i < length (multi_version_roots s) \<Longrightarrow> gc_nocheck 65 s (Root i) = Some s' \<Longrightarrow> life_step ov leaf_size s s'"

inductive_cases life_stepE: "life_step ov leaf_size s s'"

definition no_garbage :: "mvq_state \<Rightarrow> bool" where
  "no_garbage s \<longleftrightarrow> (\<forall>a. cell_at s a \<noteq> None \<longleftrightarrow> a \<in> all_nodes s)"

section \<open>Living nodes are held\<close>

lemma part_UNIV: "part s UNIV = all_nodes s"
proof -
  have "set xs = (\<lambda>j. xs ! j) ` {j \<in> UNIV. j < length xs}" for xs :: "addr option list" by (auto simp: in_set_conv_nth)
  then show ?thesis unfolding part_def all_nodes_def by (metis image_image)
qed

lemma use_count_holder:
  assumes "use_count s b > 0"
  shows "(\<exists>j < length (multi_version_roots s). multi_version_roots s ! j = Some b) \<or> (\<exists>c < nxt (mheap s). node_refs (cell_at s c) b > 0)"
proof (rule ccontr)
  assume n: "\<not> ?thesis"
  then have "{i. i < length (multi_version_roots s) \<and> multi_version_roots s ! i = Some b} = {}" by auto
  then have "use_count s b = 0" using n unfolding use_count_sum by (simp only: card.empty) simp
  with assms show False by simp
qed

lemma node_refs_pos: "node_refs nd b > 0 \<Longrightarrow> \<exists>l r n. nd = Some (HInte l r n) \<and> (l = Some b \<or> r = Some b)"
  by (cases "(nd, b)" rule: node_refs.cases) (auto split: if_splits)

text \<open>Without garbage the region of all versions is the whole store.\<close>

lemma good_store_ok:
  assumes g: "good_state leaf_size s" and ng: "no_garbage s"
  obtains rank where "store_ok rank UNIV s" "\<And>a. cell_at s a \<noteq> None \<Longrightarrow> rank a < 65" "orphans s = {}"
proof -
  have "\<exists>t. version leaf_size (mheap s) p t" if "p \<in> set (multi_version_roots s)" for p
    using g that by (auto simp: good_state_def)
  then obtain rank where ok: "store_ok rank (all_nodes s) s" "\<And>a. a \<in> all_nodes s \<Longrightarrow> rank a < 65"
    using region_ok [of "set (multi_version_roots s)" leaf_size s] unfolding all_nodes_def by blast
  have live: "cell_at s a \<noteq> None \<longleftrightarrow> a \<in> all_nodes s" for a using ng by (simp add: no_garbage_def)
  have b: "bounded UNIV s" using ok(1) live unfolding store_ok_def bounded_def by blast
  have son: "b \<in> all_nodes s \<and> rank b < rank c" if "cell_at s c = Some (HInte l r n)" "l = Some b \<or> r = Some b" for b c l r n
    using ok(1) live [of c] that unfolding store_ok_def by blast
  have "cell_at s b \<noteq> None" if "use_count s b > 0" for b
    using use_count_holder [OF that]
  proof
    assume "\<exists>j < length (multi_version_roots s). multi_version_roots s ! j = Some b"
    then obtain j t where j: "j < length (multi_version_roots s)" "version leaf_size (mheap s) (Some b) t"
      using good_version [OF g] by metis
    then show ?thesis by (cases t) (auto simp: version_def cell_at_def)
  next
    assume "\<exists>c < nxt (mheap s). node_refs (cell_at s c) b > 0"
    then show ?thesis using node_refs_pos son live by metis
  qed
  then have "store_ok rank UNIV s" unfolding store_ok_def using b son by blast
  moreover have "use_count s a > 0" if "cell_at s a \<noteq> None" for a
    using held_count [OF part_held subset_UNIV b, of a UNIV] that live by (simp add: part_UNIV)
  then have "orphans s = {}" unfolding orphans_def by (metis (mono_tags, lifting) empty_Collect_eq gr_implies_not0)
  ultimately show thesis using that ok(2) live by blast
qed


section \<open>Releasing a version\<close>

text \<open>Without orphans every living node is reached from a root.\<close>

lemma orphan_free_reached:
  assumes ok: "store_ok rank UNIV s" and free: "orphans s = {}"
  shows "no_garbage s"
  unfolding no_garbage_def
proof
  fix a
  have b: "bounded UNIV s" using ok by (simp add: store_ok_def)
  have used: "use_count s a > 0" if "cell_at s a \<noteq> None" for a
    using that free unfolding orphans_def by (metis (mono_tags, lifting) empty_Collect_eq gr0I)
  define M where "M = (\<Sum>c<nxt (mheap s). rank c)"
  have le: "rank c \<le> M" if "cell_at s c \<noteq> None" for c
    unfolding M_def using that b by (intro member_le_sum) (auto simp: bounded_def)
  have "cell_at s a \<noteq> None \<Longrightarrow> a \<in> all_nodes s"
  proof (induction "M - rank a" arbitrary: a rule: less_induct)
    case less
    from use_count_holder [OF used [OF less.prems]] show ?case
    proof
      assume "\<exists>j < length (multi_version_roots s). multi_version_roots s ! j = Some a"
      then have "Some a \<in> set (multi_version_roots s)" by (metis nth_mem)
      then show ?thesis using less.prems by (auto simp: all_nodes_def reach_set_def cell_at_def intro: reaches.here)
    next
      assume "\<exists>c < nxt (mheap s). node_refs (cell_at s c) a > 0"
      then obtain c l r n where c: "cell_at s c = Some (HInte l r n)" "l = Some a \<or> r = Some a"
        using node_refs_pos by blast
      have "rank a < rank c" using son_rank [OF ok UNIV_I c] by simp
      moreover have "rank c \<le> M" using le c(1) by simp
      ultimately have "c \<in> all_nodes s" using less.hyps [of c] c(1) by simp
      then obtain p where p: "p \<in> set (multi_version_roots s)" "reaches (mheap s) p c" by (auto simp: all_nodes_def reach_set_def)
      have "reaches (mheap s) (Some a) a" using less.prems by (auto simp: cell_at_def intro: reaches.here)
      then have "reaches (mheap s) p a" using reaches_trans [OF p(2)] c by (auto simp: cell_at_def)
      then show ?thesis using p(1) by (auto simp: all_nodes_def reach_set_def)
    qed
  qed
  moreover have "cell_at s a \<noteq> None" if "a \<in> all_nodes s"
    using that reaches_cell by (auto simp: all_nodes_def reach_set_def cell_at_def)
  ultimately show "cell_at s a \<noteq> None \<longleftrightarrow> a \<in> all_nodes s" by blast
qed

lemma release_main:
  assumes g: "good_state leaf_size s" and ng: "no_garbage s" and i: "i < length (multi_version_roots s)"
  shows "\<exists>s'. gc_nocheck 65 s (Root i) = Some s' \<and> multi_version_roots s' = (multi_version_roots s)[i := None] \<and>
    (\<forall>j t. j < length (multi_version_roots s) \<and> j \<noteq> i \<and> version leaf_size (mheap s) (multi_version_roots s ! j) t \<longrightarrow>
       version leaf_size (mheap s') (multi_version_roots s ! j) t) \<and> no_garbage s'"
proof -
  obtain rank where rank: "store_ok rank UNIV s" "\<And>a. cell_at s a \<noteq> None \<Longrightarrow> rank a < 65" "orphans s = {}"
    using good_store_ok [OF g ng] by blast
  have v: "valid_slot UNIV s (Root i)" using i by (simp add: valid_slot_def)
  have "a \<in> UNIV \<and> rank a < 65" if "read_slot s (Root i) = Some a" for a
    using rank(2) [OF read_alive [OF rank(1) v that UNIV_I]] by simp
  then obtain s' where s': "gc_nocheck 65 s (Root i) = Some s'" "dropped rank UNIV 65 (Root i) s s'"
    using gc_nocheck_spec [OF rank(1) v _ order_refl] by blast
  have "version leaf_size (mheap s') (multi_version_roots s ! j) t"
    if j: "j < length (multi_version_roots s)" "j \<noteq> i" and t: "version leaf_size (mheap s) (multi_version_roots s ! j) t" for j t
  proof (rule version_frame [OF t _ droppedD(4) [OF s'(2)]])
    have "slot_outside (part s {j}) {j} (Root i)" using j(2) by (simp add: slot_outside_def)
    moreover have "reach_set (mheap s) (multi_version_roots s ! j) \<subseteq> part s {j}" using j(1) by (auto simp: part_def)
    ultimately show "unchanged (reach_set (mheap s) (multi_version_roots s ! j)) (mheap s) (mheap s')"
      using droppedD(6) [OF s'(2) part_held subset_UNIV] unfolding unchanged_def cell_at_def by blast
  qed
  moreover have "no_garbage s'" using orphan_free_reached [OF droppedD(1) [OF s'(2)]] droppedD(2) [OF s'(2)] rank(3) by simp
  moreover have "multi_version_roots s' = (multi_version_roots s)[i := None]"
    using droppedD(3) [OF s'(2)] by (simp add: clear_slot_def)
  ultimately show ?thesis using s'(1) by blast
qed


section \<open>The life of the versions\<close>

lemma reaches_sub:
  "reaches h' p a \<Longrightarrow> (\<And>c nd. cells h' c = Some nd \<Longrightarrow> cells h c = Some nd) \<Longrightarrow> reaches h p a"
  by (induction rule: reaches.induct) (auto intro: reaches.intros)

lemma swept_sel [simp]:
  "multi_version_roots (swept s) = multi_version_roots s" "nxt (mheap (swept s)) = nxt (mheap s)"
  "cells (mheap (swept s)) a = (if a \<in> all_nodes s then cells (mheap s) a else None)"
  by (simp_all add: swept_def)

lemma swept_reach:
  assumes "p \<in> set (multi_version_roots s)"
  shows "unchanged (reach_set (mheap s) p) (mheap s) (mheap (swept s))"
    "reach_set (mheap (swept s)) p = reach_set (mheap s) p"
proof -
  show u: "unchanged (reach_set (mheap s) p) (mheap s) (mheap (swept s))"
    using assms by (auto simp: unchanged_def all_nodes_def)
  have "reaches (mheap s) p a" if "reaches (mheap (swept s)) p a" for a
    by (rule reaches_sub [OF that]) (simp split: if_splits)
  then show "reach_set (mheap (swept s)) p = reach_set (mheap s) p"
    using reaches_frame [OF _ u] by (auto simp: reach_set_def)
qed

lemma swept_nodes: "all_nodes (swept s) = all_nodes s"
  by (simp add: all_nodes_def swept_reach)

lemma swept_good:
  assumes "good_state leaf_size s"
  shows "good_state leaf_size (swept s)" "no_garbage (swept s)"
proof -
  show "good_state leaf_size (swept s)"
    using assms version_frame [OF _ swept_reach(1)] unfolding good_state_def by fastforce
  have "cells (mheap s) a \<noteq> None" if "a \<in> all_nodes s" for a
    using that reaches_cell by (fastforce simp: all_nodes_def reach_set_def)
  then show "no_garbage (swept s)" by (simp add: no_garbage_def swept_nodes cell_at_def)
qed

lemma release_good:
  assumes "good_state leaf_size s" "no_garbage s" "i < length (multi_version_roots s)" "gc_nocheck 65 s (Root i) = Some s'"
  shows "good_state leaf_size s'" "no_garbage s'"
proof -
  from release_main [OF assms(1-3)] assms(4) have s': "multi_version_roots s' = (multi_version_roots s)[i := None]" "no_garbage s'"
    "\<And>j t. j < length (multi_version_roots s) \<Longrightarrow> j \<noteq> i \<Longrightarrow> version leaf_size (mheap s) (multi_version_roots s ! j) t \<Longrightarrow>
       version leaf_size (mheap s') (multi_version_roots s ! j) t" by auto
  show "no_garbage s'" by (rule s'(2))
  have "\<exists>t. version leaf_size (mheap s') ((multi_version_roots s)[i := None] ! j) t" if j: "j < length (multi_version_roots s)" for j
  proof (cases "j = i")
    case True then show ?thesis using j by (auto simp: version_def)
  next
    case False
    from good_version [OF assms(1) j] obtain t where "version leaf_size (mheap s) (multi_version_roots s ! j) t" .
    then show ?thesis using s'(3) [OF j False] False by auto
  qed
  then show "good_state leaf_size s'" unfolding good_state_def s'(1) by (metis in_set_conv_nth length_list_update)
qed

lemma life_good:
  "(life_step ov leaf_size)\<^sup>*\<^sup>* init_state s \<Longrightarrow> good_state leaf_size s \<and> no_garbage s"
proof (induction rule: rtranclp_induct)
  case base
  have "all_nodes init_state = {}" by (auto simp: all_nodes_def init_state_def)
  then show ?case using good_init by (simp add: no_garbage_def cell_at_def) (simp add: init_state_def empty_heap_def)
next
  case (step y z)
  from step.hyps(2) show ?case
  proof (rule life_stepE)
    fix s' assume "z = swept s'" "vstep ov leaf_size y s'"
    then show ?thesis using swept_good vstep_good step.IH by blast
  next
    fix i assume "i < length (multi_version_roots y)" "gc_nocheck 65 y (Root i) = Some z"
    then show ?thesis using release_good step.IH by blast
  qed
qed

text \<open>
  C8. Releasing a version: in every state reached by building, committing and releasing
  versions in any order, \<open>gc_nocheck\<close> on a version root returns, it empties that root only,
  every other version reads the same tree, and the nodes left in memory are exactly those that
  the remaining versions reach: nothing leaks and nothing dangles.
\<close>

theorem release_version:
  assumes "(life_step ov leaf_size)\<^sup>*\<^sup>* init_state s" "i < length (multi_version_roots s)"
  shows "\<exists>s'. gc_nocheck 65 s (Root i) = Some s' \<and> multi_version_roots s' = (multi_version_roots s)[i := None] \<and>
    (\<forall>j. j < length (multi_version_roots s) \<and> j \<noteq> i \<longrightarrow>
       tree_of (mheap s') (multi_version_roots s ! j) 64 = tree_of (mheap s) (multi_version_roots s ! j) 64) \<and>
    (\<forall>a. cell_at s' a \<noteq> None \<longleftrightarrow> a \<in> all_nodes s')"
proof -
  note g = life_good [OF assms(1)]
  from release_main [OF g [THEN conjunct1] g [THEN conjunct2] assms(2)] obtain s' where
    s': "gc_nocheck 65 s (Root i) = Some s'" "multi_version_roots s' = (multi_version_roots s)[i := None]" "no_garbage s'"
    "\<And>j t. j < length (multi_version_roots s) \<Longrightarrow> j \<noteq> i \<Longrightarrow> version leaf_size (mheap s) (multi_version_roots s ! j) t \<Longrightarrow>
       version leaf_size (mheap s') (multi_version_roots s ! j) t" by blast
  have "tree_of (mheap s') (multi_version_roots s ! j) 64 = tree_of (mheap s) (multi_version_roots s ! j) 64"
    if j: "j < length (multi_version_roots s)" "j \<noteq> i" for j
  proof -
    from good_version [OF g [THEN conjunct1] j(1)] obtain t where "version leaf_size (mheap s) (multi_version_roots s ! j) t" .
    with s'(4) [OF j this] show ?thesis using tree_of_reps unfolding version_def by metis
  qed
  then show ?thesis using s'(1-3) unfolding no_garbage_def by blast
qed

theorem release_version_witness:
  "\<exists>s'. gc_nocheck 65 (swept run1) (Root 1) = Some s' \<and> multi_version_roots s' = [None, None] \<and>
     cell_at (swept run1) 0 \<noteq> None \<and> (\<forall>a. cell_at s' a = None)"
proof -
  have st: "(life_step (\<lambda>_. 0) 2)\<^sup>*\<^sup>* init_state (swept run1)"
    using life_step.update [OF run1_step] by blast
  have r: "multi_version_roots (swept run1) = [None, Some 0]" by (simp add: run1_def)
  have c: "cells (mheap run1) 0 = Some (HLeaf [set_code (\<lambda>_. 0) False (Point3 1 2 3)])"
    by (simp add: run1_def alloc_def empty_heap_def)
  have "cell_at (swept run1) 0 \<noteq> None"
    using c reaches.here [OF c] by (simp add: cell_at_def all_nodes_def reach_set_def) (simp add: run1_def)
  moreover have "all_nodes s' = {}" if "multi_version_roots s' = [None, None]" for s'
    using that by (simp add: all_nodes_def)
  ultimately show ?thesis using release_version [OF st, of 1] unfolding r by fastforce
qed


section \<open>\<open>garbage_collect\<close> on three versions\<close>

text \<open>
  Three versions of two leaves each, the second and the third with a common root node as
  after a commit without changes. Neither \<open>garbage_collect\<close> asks whether the node of
  \<open>x\<close> has other holders before it clears its sons; and the variant with three versions
  recurses with the sons of \<open>x\<close> and \<open>new_ver\<close> exchanged, so it frees those of the version to keep.
\<close>

definition leaf_at :: "int \<Rightarrow> hnode" where
  "leaf_at i = HLeaf [Point3 (of_int i) 0 0]"

definition three_versions :: "addr \<Rightarrow> mvq_state" where
  "three_versions third =
     \<lparr>mheap = \<lparr>cells = [0 \<mapsto> HInte (Some 1) (Some 2) 2, 1 \<mapsto> leaf_at 1, 2 \<mapsto> leaf_at 2,
        3 \<mapsto> HInte (Some 4) (Some 5) 2, 4 \<mapsto> leaf_at 3, 5 \<mapsto> leaf_at 4,
        6 \<mapsto> HInte (Some 7) (Some 8) 2, 7 \<mapsto> leaf_at 5, 8 \<mapsto> leaf_at 6], nxt = 9\<rparr>,
      multi_version_roots = [Some 0, Some 3, Some third]\<rparr>"

definition version_leaves :: "mvq_state \<Rightarrow> nat \<Rightarrow> (addr option \<times> addr option) option" where
  "version_leaves s j =
     (case read_slot s (Root j) of
        None \<Rightarrow> None
      | Some a \<Rightarrow> Some (read_slot s (LSon a), read_slot s (RSon a)))"

lemma garbage_collect_shared:
  "version_leaves (three_versions 3) 1 = Some (Some 4, Some 5) \<and>
   map_option (\<lambda>s. version_leaves s 1) (garbage_collect 5 0 (three_versions 3) (Root 0) (Root 2)) = Some (Some (None, None))"
  by code_simp

lemma gc_nocheck_shared:
  "map_option (\<lambda>s. version_leaves s 1) (gc_nocheck 5 (three_versions 3) (Root 2)) = Some (Some (Some 4, Some 5))"
  by code_simp

lemma garbage_collect3_swapped:
  "version_leaves (three_versions 6) 1 = Some (Some 4, Some 5) \<and>
   map_option (\<lambda>s. version_leaves s 1) (garbage_collect3 5 0 (three_versions 6) (Root 0) (Root 1) (Root 2)) =
     Some (Some (None, None)) \<and>
   map_option (\<lambda>s. cell_at s 4 = None \<and> cell_at s 7 = None) (garbage_collect3 5 0 (three_versions 6) (Root 0) (Root 1) (Root 2)) = Some True"
  by code_simp

end
