(* ===== verification/CpamNode.thy ===== *)
theory CpamNode
  imports PointSeqs GeoBox "HOL-Library.Monad_Syntax"
begin

text \<open>
  The nodes of the compressed-leaf tree (\<open>third_party/cpam\<close>: \<open>basic_node.h\<close>,
  \<open>basic_node_helpers.h\<close>, \<open>augmented_node.h\<close>) at the instance
  \<open>aug_map<entry, 40>\<close> of \<open>index/pacz.hpp\<close>. A node is absent, regular (one
  entry, two sons) or compressed (a block of entries). Sizes are 32-bit counters.
  Reference counts and memory are not part of the model: a node is changed in place
  only when it has one owner, so every operation is a function on trees. A cast of the
  wrong kind of node, a null dereference, a read of an unset slot and an overflow of
  a stack buffer are the value \<open>None\<close>. Assertions are off, as in the
  build (\<open>CMakeLists.txt\<close> sets \<open>NDEBUG\<close>).
\<close>

section \<open>Entries and augmented values\<close>

type_synonym entry = "zkey \<times> point"

type_synonym aug = "Bounding_Box \<times> nat"

definition aug_empty :: aug where
  "aug_empty = ((Point2 (rnd64 (10 ^ 60)) (rnd64 (10 ^ 60)), Point2 (- 1) (- 1)), 0)"

definition from_entry :: "entry \<Rightarrow> aug" where
  "from_entry e = ((snd e, snd e), 1)"

definition aug_combine :: "aug \<Rightarrow> aug \<Rightarrow> aug" where
  "aug_combine a b = (merge_mbr (fst a) (fst b), snd a + snd b)"

text \<open>The augmented value of a block, computed while the block is encoded.\<close>

definition encode :: "entry list \<Rightarrow> aug" where
  "encode data = foldl (\<lambda>av e. aug_combine av (from_entry e)) (from_entry (hd data)) (tl data)"

section \<open>Nodes\<close>

datatype ctree =
  Nil_node
| Regular ctree entry nat aug ctree
| Compressed "entry list" nat aug

definition kBlockSize :: nat where
  "kBlockSize = 40"

definition kBaseCaseSize :: nat where
  "kBaseCaseSize = 8 * kBlockSize + 2"

definition u32 :: "nat \<Rightarrow> nat" where
  "u32 n = n mod 2 ^ 32"

fun csize :: "ctree \<Rightarrow> nat" where
  "csize Nil_node = 0"
| "csize (Regular l e s a r) = s"
| "csize (Compressed es s a) = s"

fun is_compressed :: "ctree \<Rightarrow> bool" where
  "is_compressed (Compressed es s a) = True"
| "is_compressed _ = False"

fun aug_val :: "ctree \<Rightarrow> aug" where
  "aug_val Nil_node = aug_empty"
| "aug_val (Regular l e s a r) = a"
| "aug_val (Compressed es s a) = a"

text \<open>\<open>update\<close> of a regular node with these sons and this entry: its augmented
  value and its size are computed from the sons.\<close>

definition node_aug :: "ctree \<Rightarrow> entry \<Rightarrow> ctree \<Rightarrow> aug" where
  "node_aug l e r =
     (let av = from_entry e;
          av = (if l \<noteq> Nil_node then aug_combine (aug_val l) av else av)
      in if r \<noteq> Nil_node then aug_combine av (aug_val r) else av)"

definition update :: "ctree \<Rightarrow> entry \<Rightarrow> ctree \<Rightarrow> ctree" where
  "update l e r = Regular l e (u32 (csize l + csize r + 1)) (node_aug l e r) r"

definition single :: "entry \<Rightarrow> ctree" where
  "single e = Regular Nil_node e 1 (from_entry e) Nil_node"

text \<open>The entries in order, as \<open>iterate_seq\<close> visits them.\<close>

fun iterate_seq :: "ctree \<Rightarrow> entry list" where
  "iterate_seq Nil_node = []"
| "iterate_seq (Regular l e s a r) = iterate_seq l @ e # iterate_seq r"
| "iterate_seq (Compressed es s a) = es"

text \<open>Root first, then the sons in order.\<close>

fun iterate_seq_mid :: "ctree \<Rightarrow> entry list" where
  "iterate_seq_mid Nil_node = []"
| "iterate_seq_mid (Regular l e s a r) = e # iterate_seq l @ iterate_seq r"
| "iterate_seq_mid (Compressed es s a) = es"

text \<open>
  \<open>iterate_cond\<close> stops at the first entry for which \<open>f\<close> is false: the result is
  whether it ran through, and what a fold over the visited entries gives.
\<close>

fun decode_cond :: "(entry \<Rightarrow> 's \<Rightarrow> bool \<times> 's) \<Rightarrow> entry list \<Rightarrow> 's \<Rightarrow> bool \<times> 's" where
  "decode_cond f [] st = (True, st)"
| "decode_cond f (e # es) st = (case f e st of (go, st') \<Rightarrow> if \<not> go then (False, st') else decode_cond f es st')"

fun iterate_cond :: "(entry \<Rightarrow> 's \<Rightarrow> bool \<times> 's) \<Rightarrow> ctree \<Rightarrow> 's \<Rightarrow> bool \<times> 's" where
  "iterate_cond f Nil_node st = (True, st)"
| "iterate_cond f (Regular l e s a r) st =
     (case iterate_cond f l st of (ret, st1) \<Rightarrow>
        if \<not> ret then (ret, st1)
        else (case f e st1 of (ret, st2) \<Rightarrow> if \<not> ret then (ret, st2) else iterate_cond f r st2))"
| "iterate_cond f (Compressed es s a) st = decode_cond f es st"

definition will_be_compressed :: "nat \<Rightarrow> bool" where
  "will_be_compressed sz \<longleftrightarrow> sz \<ge> kBlockSize \<and> sz \<le> 2 * kBlockSize"

section \<open>Making compressed nodes\<close>

definition make_single_compressed_node :: "entry list \<Rightarrow> ctree option" where
  "make_single_compressed_node es =
     (if es = [] then None else Some (Compressed es (u32 (length es)) (encode es)))"

definition two_compressed_nodes :: "entry list \<Rightarrow> ctree option" where
  "two_compressed_nodes stk =
     (let tot = length stk;
          left_size = tot div 2;
          right_size = tot div 2 - (if odd tot then 0 else 1)
      in do {
        c_l \<leftarrow> make_single_compressed_node (take left_size stk);
        c_r \<leftarrow> make_single_compressed_node (take right_size (drop (left_size + 1) stk));
        Some (update c_l (stk ! left_size) c_r) })"

definition make_two_nodes :: "entry list \<Rightarrow> ctree option" where
  "make_two_nodes start =
     (let tot = length start in
      if tot = 2 * kBlockSize then make_single_compressed_node start
      else
        let lc_size = (if even tot then tot div 2 - 1 else tot div 2);
            rc_size = tot div 2
        in do {
          c_l \<leftarrow> make_single_compressed_node (take lc_size start);
          c_r \<leftarrow> make_single_compressed_node (take rc_size (drop (lc_size + 1) start));
          Some (update c_l (start ! lc_size) c_r) })"

definition four_compressed_nodes :: "entry list \<Rightarrow> ctree option" where
  "four_compressed_nodes stk =
     (let tot = length stk;
          lc_size = (if even tot then tot div 2 - 1 else tot div 2);
          rc_size = tot div 2
      in do {
        lc \<leftarrow> make_two_nodes (take lc_size stk);
        rc \<leftarrow> make_two_nodes (take rc_size (drop (lc_size + 1) stk));
        Some (update lc (stk ! lc_size) rc) })"

definition make_compressed_array :: "entry list \<Rightarrow> ctree option" where
  "make_compressed_array stk =
     (let tot = length stk in
      if tot \<le> 2 * kBlockSize then make_single_compressed_node stk
      else if tot \<le> 4 * kBlockSize + 1 then two_compressed_nodes stk
      else four_compressed_nodes stk)"

text \<open>The variant that gathers two trees and possibly an entry in a buffer of \<open>7 * B\<close> entries.\<close>

definition make_compressed :: "ctree \<Rightarrow> ctree \<Rightarrow> entry option \<Rightarrow> ctree option" where
  "make_compressed l r e =
     (let tot = csize l + csize r + (if e \<noteq> None then 1 else 0);
          stk = iterate_seq l @ (case e of None \<Rightarrow> [] | Some x \<Rightarrow> [x]) @ iterate_seq r
      in if length stk > 7 * kBlockSize then None
         else if tot \<le> 2 * kBlockSize then make_single_compressed_node stk
         else if tot \<le> 4 * kBlockSize + 1 then two_compressed_nodes stk
         else four_compressed_nodes stk)"

definition make_compressed_node :: "ctree \<Rightarrow> ctree option" where
  "make_compressed_node b = make_single_compressed_node (iterate_seq b)"

definition finalize :: "ctree \<Rightarrow> ctree option" where
  "finalize rt =
     (let sz = csize rt in if sz < kBlockSize \<and> sz > 0 then make_compressed_node rt else Some rt)"

section \<open>The weight tests\<close>

definition wb_alpha :: FT where
  "wb_alpha = rnd64 (29 / 100)"

definition wb_ratio :: FT where
  "wb_ratio = rnd64 (wb_alpha / fsub 1 wb_alpha)"

definition wb_beta :: FT where
  "wb_beta = rnd64 (fsub 1 (fmul 2 wb_alpha) / fsub 1 wb_alpha)"

definition weight :: "ctree \<Rightarrow> FT" where
  "weight t = of_nat (u32 (csize t + 1))"

definition is_left_heavy :: "ctree \<Rightarrow> ctree \<Rightarrow> bool" where
  "is_left_heavy t1 t2 \<longleftrightarrow> fmul wb_ratio (weight t1) > weight t2"

fun is_single_rotation :: "ctree \<Rightarrow> bool \<Rightarrow> bool" where
  "is_single_rotation (Regular lc e s a rc) dir \<longleftrightarrow>
     (if dir then weight rc else weight lc) \<le> fmul wb_beta (weight (Regular lc e s a rc))"
| "is_single_rotation t dir \<longleftrightarrow> False"

definition could_single_rotate :: "ctree \<Rightarrow> ctree \<Rightarrow> bool" where
  "could_single_rotate lc rc \<longleftrightarrow>
     (let tot = u32 (csize lc + csize rc + 1 + 1)
      in weight lc \<le> fmul wb_beta (of_nat tot) \<and> weight rc \<le> fmul wb_beta (of_nat tot))"

fun is_balanced :: "ctree \<Rightarrow> bool" where
  "is_balanced (Regular lc e s a rc) \<longleftrightarrow> \<not> (is_left_heavy lc rc \<or> is_left_heavy rc lc)"
| "is_balanced t \<longleftrightarrow> True"

text \<open>
  The structural check of the debug builds; \<open>orig\<close> is the size of the whole tree.
\<close>

fun check_structure :: "ctree \<Rightarrow> nat \<Rightarrow> bool" where
  "check_structure Nil_node orig \<longleftrightarrow> True"
| "check_structure (Regular l e s a r) orig \<longleftrightarrow>
     (s \<ge> 2 * kBlockSize \<or> s < kBlockSize) \<and> \<not> (orig > 2 * kBlockSize \<and> s < kBlockSize) \<and>
     is_balanced (Regular l e s a r) \<and> check_structure l orig \<and> check_structure r orig"
| "check_structure (Compressed es s a) orig \<longleftrightarrow> s \<le> 2 * kBlockSize"

end
