(* ===== verification/CpamWeight.thy ===== *)
theory CpamWeight
  imports CpamNode
begin

text \<open>
  The balance tests of \<open>weight_balanced_tree.h\<close> multiply a weight by the
  constants 0.29 / 0.71 and 0.42 / 0.71 in double precision. For every size a 32-bit
  counter holds they decide the same as integer arithmetic, boundary included.
\<close>

section \<open>The constants\<close>

lemma wb_ratio_value: "wb_ratio = of_int 3678996878697025 / of_int (2 ^ 53)"
  by code_simp

lemma wb_beta_value: "wb_beta = of_int 83253162125687 / of_int (2 ^ 47)"
  by code_simp

section \<open>Rounding near an integer\<close>

lemma rnd64_above_int:
  assumes n: "0 < n" "n < 2 ^ 53" and d: "0 \<le> d" "d < of_int n / 2 ^ 54"
  shows "rnd64 (of_int n + d) = of_int n"
proof -
  define e where "e = expo (of_int n)"
  have b: "pow2 e \<le> of_int n" "of_int n < pow2 (e + 1)"
    using expo_bounds [of "of_int n"] n by (simp_all add: e_def)
  have "pow2 e < pow2 53" using b(1) n(2) of_int_less_iff [of n "2 ^ 53", where 'a = rat]
    by (simp add: pow2_nat)
  then have e52: "e \<le> 52" by simp
  have "pow2 0 < pow2 (e + 1)" using b(2) n of_int_le_iff [of 1 n, where 'a = rat] by simp
  then have e0: "0 \<le> e" by (simp only: pow2_less_iff)
  have "of_int n < (of_int (2 ^ nat (e + 1)) :: rat)" using b(2) e0 by (simp add: pow2_nat)
  then have "n + 1 \<le> 2 ^ nat (e + 1)" unfolding of_int_less_iff by simp
  then have "of_int (n + 1) \<le> pow2 (e + 1)"
    using e0 of_int_le_iff [of "n + 1" "2 ^ nat (e + 1)", where 'a = rat] by (simp add: pow2_nat)
  moreover have "of_int n / 2 ^ 54 < (1 :: rat)"
    using n(2) of_int_less_iff [of n "2 ^ 53", where 'a = rat] by simp
  ultimately have "of_int n + d < pow2 (e + 1)" using d(2) by simp
  then have ex: "expo (of_int n + d) = e" using b(1) d(1) by (intro expo_unique) auto
  have p: "0 < of_int n + d" using n d(1) by (simp add: add_pos_nonneg)
  have u: "ulp_exp (of_int n + d) = e - 52" using p ex e0 by (simp add: ulp_exp_def)
  define N where "N = n * 2 ^ nat (52 - e)"
  have N: "of_int N * pow2 (e - 52) = of_int n"
    using e52 pow2_nat [of "52 - e"] pow2_add [of "52 - e" "e - 52"] by (simp add: N_def mult.assoc)
  define f where "f = d / pow2 (e - 52)"
  have "f < of_int n / 2 ^ 54 / pow2 (e - 52)" unfolding f_def using d(2) by (intro divide_strict_right_mono) auto
  also have "\<dots> < pow2 (e + 1) / 2 ^ 54 / pow2 (e - 52)" using b(2) by (simp add: divide_strict_right_mono)
  also have "pow2 (e + 1) = pow2 (e - 52) * pow2 53" by (simp add: pow2_add [symmetric] add.commute)
  also have "pow2 (e - 52) * pow2 53 / 2 ^ 54 / pow2 (e - 52) = 1 / 2" by (simp add: pow2_nat)
  finally have f: "0 \<le> f" "f < 1 / 2" using d(1) by (simp_all add: f_def)
  have q: "(of_int n + d) / pow2 (e - 52) = of_int N + f"
    using N by (simp add: f_def add_divide_distrib divide_eq_eq)
  have "\<lfloor>of_int N + f\<rfloor> = N" using f by (simp add: floor_unique)
  then have "rhe (of_int N + f) = N" using f by (simp add: rhe_def Let_def)
  then show ?thesis using p N unfolding rnd64_def u q by simp
qed

lemma double_shifted:
  assumes "\<bar>m\<bar> \<le> 2 ^ 53" shows "is_double (of_int m / 2 ^ 20)"
proof -
  have "pow2 (- 20) = 1 / 2 ^ 20" using pow2_diff [of 0 20] pow2_nat [of 20] by simp
  then have e: "of_int m / 2 ^ 20 = of_int m * pow2 (- 20)" by (simp only: times_divide_eq_right mult_1_right)
  show ?thesis unfolding e by (rule is_double_pow2_mult) (use assms in auto)
qed

lemma rnd64_below_double: "is_double y \<Longrightarrow> x \<le> y \<Longrightarrow> rnd64 x \<le> y"
  using rnd64_mono [of x y] by (simp add: is_double_def)

lemma rnd64_above_double: "is_double y \<Longrightarrow> y \<le> x \<Longrightarrow> y \<le> rnd64 x"
  using rnd64_mono [of y x] by (simp add: is_double_def)

section \<open>The tests on weights\<close>

lemma ratio_test_int:
  fixes w1 w2 :: int
  assumes w: "0 < w1" "w1 \<le> 2 ^ 32" "0 < w2" "w2 \<le> 2 ^ 32"
  shows "fmul wb_ratio (of_int w1) > of_int w2 \<longleftrightarrow> 71 * w2 < 29 * w1"
proof -
  let ?x = "wb_ratio * of_int w1"
  have x: "?x = of_int (3678996878697025 * w1) / of_int (2 ^ 53)" by (simp add: wb_ratio_value)
  consider "71 * w2 < 29 * w1" | "29 * w1 < 71 * w2" | "29 * w1 = 71 * w2" by linarith
  then show ?thesis
  proof cases
    case 1
    have "w2 * 9007199254740992 + 8589934592 \<le> 3678996878697025 * w1" using 1 w by linarith
    then have "(w2 * 2 ^ 20 + 1) * 2 ^ 33 \<le> 3678996878697025 * w1" by (simp add: algebra_simps)
    then have "of_int ((w2 * 2 ^ 20 + 1) * 2 ^ 33) \<le> (of_int (3678996878697025 * w1) :: rat)"
      unfolding of_int_le_iff .
    then have "of_int (w2 * 2 ^ 20 + 1) / 2 ^ 20 \<le> ?x" unfolding x by (simp add: field_simps)
    moreover have "is_double (of_int (w2 * 2 ^ 20 + 1) / 2 ^ 20)" by (rule double_shifted) (use w in simp)
    ultimately have "of_int (w2 * 2 ^ 20 + 1) / 2 ^ 20 \<le> rnd64 ?x" by (rule rnd64_above_double [rotated])
    then have "of_int w2 < rnd64 ?x" by (simp add: field_simps)
    then show ?thesis using 1 by (simp add: fmul_def)
  next
    case 2
    have "w1 \<le> 4294967296" using w by simp
    then have "3678996878697025 * w1 \<le> w2 * 9007199254740992" using 2 w by linarith
    then have "3678996878697025 * w1 \<le> w2 * 2 ^ 53" by simp
    then have "(of_int (3678996878697025 * w1) :: rat) \<le> of_int (w2 * 2 ^ 53)" unfolding of_int_le_iff .
    then have "?x \<le> of_int w2" unfolding x by (simp add: field_simps)
    moreover have "is_double (of_int w2)" by (rule is_double_of_int) (use w in simp)
    ultimately have "rnd64 ?x \<le> of_int w2" by (rule rnd64_below_double [rotated])
    then show ?thesis using 2 by (simp add: fmul_def)
  next
    case 3
    define k where "k = 9 * w1 - 22 * w2"
    have k: "w1 = 71 * k" using 3 unfolding k_def by (simp add: algebra_simps)
    then have k2: "w2 = 29 * k" using 3 by simp
    have k0: "0 < k" using w k by simp
    have "?x = of_int (29 * k) + of_int (7 * k) / of_int (2 ^ 53)" unfolding k by (simp add: wb_ratio_value field_simps)
    moreover have "rnd64 (of_int (29 * k) + of_int (7 * k) / of_int (2 ^ 53)) = of_int (29 * k)"
      using w k2 k0 by (intro rnd64_above_int) (simp_all add: field_simps)
    ultimately have "rnd64 ?x = of_int w2" unfolding k2 by (simp only:)
    then show ?thesis using 3 by (simp add: fmul_def)
  qed
qed

lemma beta_test_int:
  fixes w :: int and v :: int
  assumes w: "0 < w" "w \<le> 2 ^ 32" "0 < v" "v \<le> 2 ^ 32"
  shows "of_int v \<le> fmul wb_beta (of_int w) \<longleftrightarrow> 71 * v \<le> 42 * w"
proof -
  let ?x = "wb_beta * of_int w"
  have x: "?x = of_int (83253162125687 * w) / of_int (2 ^ 47)" by (simp add: wb_beta_value)
  show ?thesis
  proof (cases "71 * v \<le> 42 * w")
    case True
    have "v * 140737488355328 \<le> 83253162125687 * w" using True w by linarith
    then have "v * 2 ^ 47 \<le> 83253162125687 * w" by simp
    then have "(of_int (v * 2 ^ 47) :: rat) \<le> of_int (83253162125687 * w)" unfolding of_int_le_iff .
    then have "of_int v \<le> ?x" unfolding x by (simp add: field_simps)
    moreover have "is_double (of_int v)" by (rule is_double_of_int) (use w in simp)
    ultimately show ?thesis using True rnd64_above_double by (simp add: fmul_def)
  next
    case False
    have "w \<le> 4294967296" using w by simp
    then have "83253162125687 * w \<le> v * 140737488355328 - 134217728" using False w by linarith
    then have "83253162125687 * w \<le> (v * 2 ^ 20 - 1) * 2 ^ 27" by (simp add: algebra_simps)
    then have "(of_int (83253162125687 * w) :: rat) \<le> of_int ((v * 2 ^ 20 - 1) * 2 ^ 27)" unfolding of_int_le_iff .
    then have "?x \<le> of_int (v * 2 ^ 20 - 1) / 2 ^ 20" unfolding x by (simp add: field_simps)
    moreover have "is_double (of_int (v * 2 ^ 20 - 1) / 2 ^ 20)" by (rule double_shifted) (use w in simp)
    ultimately have "rnd64 ?x \<le> of_int (v * 2 ^ 20 - 1) / 2 ^ 20" by (rule rnd64_below_double [rotated])
    then have "rnd64 ?x < of_int v" by (simp add: field_simps)
    then show ?thesis using False by (simp add: fmul_def)
  qed
qed

lemma ratio_test:
  assumes "0 < w1" "w1 \<le> 2 ^ 32" "0 < w2" "w2 \<le> 2 ^ 32"
  shows "fmul wb_ratio (of_nat w1) > of_nat w2 \<longleftrightarrow> 71 * w2 < 29 * w1"
  using ratio_test_int [of "int w1" "int w2"] assms by simp linarith

lemma beta_test:
  assumes "0 < w" "w \<le> 2 ^ 32" "0 < v" "v \<le> 2 ^ 32"
  shows "of_nat v \<le> fmul wb_beta (of_nat w) \<longleftrightarrow> 71 * v \<le> 42 * w"
  using beta_test_int [of "int w" "int v"] assms by simp linarith

lemma weight_exact: "csize t + 1 < 2 ^ 32 \<Longrightarrow> weight t = of_nat (csize t + 1)"
  by (simp add: weight_def u32_def)

lemma heavy_iff:
  assumes "csize t1 + 1 < 2 ^ 32" "csize t2 + 1 < 2 ^ 32"
  shows "is_left_heavy t1 t2 \<longleftrightarrow> 71 * (csize t2 + 1) < 29 * (csize t1 + 1)"
  unfolding is_left_heavy_def weight_exact [OF assms(1)] weight_exact [OF assms(2)]
  by (rule ratio_test) (use assms in auto)

lemma single_rotation_iff:
  assumes "s + 1 < 2 ^ 32" "csize l + 1 < 2 ^ 32" "csize r + 1 < 2 ^ 32"
  shows "is_single_rotation (Regular l e s a r) dir \<longleftrightarrow>
    71 * (csize (if dir then r else l) + 1) \<le> 42 * (s + 1)"
proof -
  have "weight (Regular l e s a r) = of_nat (s + 1)"
    using assms(1) weight_exact [of "Regular l e s a r"] by simp
  moreover have "weight (if dir then r else l) = of_nat (csize (if dir then r else l) + 1)"
    by (rule weight_exact) (use assms in auto)
  ultimately have "is_single_rotation (Regular l e s a r) dir \<longleftrightarrow>
      of_nat (csize (if dir then r else l) + 1) \<le> fmul wb_beta (of_nat (s + 1))"
    by (cases dir) simp_all
  also have "\<dots> \<longleftrightarrow> 71 * (csize (if dir then r else l) + 1) \<le> 42 * (s + 1)"
    by (rule beta_test) (use assms in auto)
  finally show ?thesis .
qed

lemma could_single_rotate_iff:
  assumes "csize l + csize r + 2 < 2 ^ 32"
  shows "could_single_rotate l r \<longleftrightarrow>
    71 * (csize l + 1) \<le> 42 * (csize l + csize r + 2) \<and> 71 * (csize r + 1) \<le> 42 * (csize l + csize r + 2)"
proof -
  have t: "u32 (csize l + csize r + 1 + 1) = csize l + csize r + 2" using assms by (simp add: u32_def)
  have w: "weight l = of_nat (csize l + 1)" "weight r = of_nat (csize r + 1)"
    using assms by (intro weight_exact; simp)+
  show ?thesis
    unfolding could_single_rotate_def Let_def t w
    by (intro arg_cong2 [where f = "(\<and>)"] beta_test) (use assms in auto)
qed

text \<open>
  C33. The balance tests are exact. \<open>is_left_heavy\<close> and the tests for a single
  rotation, computed with the rounded constants and rounded products, hold exactly when
  the corresponding inequality of integers does, for all sizes below the range of the
  counter, the boundary included.
\<close>

theorem balance_tests_exact:
  assumes "csize l + csize r + 2 < 2 ^ 32"
  shows "(is_left_heavy l r \<longleftrightarrow> 71 * (csize r + 1) < 29 * (csize l + 1)) \<and>
    (is_single_rotation (update l e r) False \<longleftrightarrow> 71 * (csize l + 1) \<le> 42 * (csize l + csize r + 2)) \<and>
    (is_single_rotation (update l e r) True \<longleftrightarrow> 71 * (csize r + 1) \<le> 42 * (csize l + csize r + 2)) \<and>
    (could_single_rotate l r \<longleftrightarrow>
      71 * (csize l + 1) \<le> 42 * (csize l + csize r + 2) \<and> 71 * (csize r + 1) \<le> 42 * (csize l + csize r + 2))"
proof -
  have s: "csize l + 1 < 2 ^ 32" "csize r + 1 < 2 ^ 32" "csize l + csize r + 1 + 1 < 2 ^ 32"
    using assms by simp_all
  have u: "\<exists>a. update l e r = Regular l e (csize l + csize r + 1) a r"
    using assms by (simp add: update_def u32_def)
  then have "is_single_rotation (update l e r) d \<longleftrightarrow>
      71 * (csize (if d then r else l) + 1) \<le> 42 * (csize l + csize r + 2)" for d
    using single_rotation_iff [OF s(3,1,2)] by fastforce
  then show ?thesis using heavy_iff [OF s(1,2)] could_single_rotate_iff [OF assms] by simp
qed

text \<open>A boundary: sons of 28 and 70 entries are just balanced.\<close>

definition leaf_of :: "nat \<Rightarrow> ctree" where
  "leaf_of n = Compressed [] n aug_empty"

theorem balance_tests_exact_witness:
  "\<not> is_left_heavy (leaf_of 70) (leaf_of 28) \<and> is_left_heavy (leaf_of 71) (leaf_of 28)"
  using balance_tests_exact [of "leaf_of 70" "leaf_of 28"] balance_tests_exact [of "leaf_of 71" "leaf_of 28"]
  by (simp add: leaf_of_def)

end
