(* ===== verification/CpamJoin.thy ===== *)
theory CpamJoin
  imports CpamWeight
begin

text \<open>
  \<open>balance_utils.h\<close>: rotations and the joins. The invariant \<open>cnode\<close> of a tree says
  that the stored sizes and augmented values are right, that every regular node
  is in balance, and that the tree is either small and all regular or has only
  leaves that hold at least a block. \<open>node_join\<close> keeps it, never fails, and
  concatenates.
\<close>

section \<open>Rotations\<close>

fun rotate_right :: "ctree \<Rightarrow> ctree option" where
  "rotate_right (Regular (Regular ll le ls la lr) e s a r) = Some (update ll le (update lr e r))"
| "rotate_right _ = None"

fun rotate_left :: "ctree \<Rightarrow> ctree option" where
  "rotate_left (Regular l e s a (Regular rl re rs ra rr)) = Some (update (update l e rl) re rr)"
| "rotate_left _ = None"

fun double_rotate_right :: "ctree \<Rightarrow> ctree option" where
  "double_rotate_right (Regular (Regular ll le ls la (Regular ml me ms ma mr)) e s a r) =
     rotate_right (Regular (Regular (update ll le ml) me ms ma mr) e s a r)"
| "double_rotate_right _ = None"

fun double_rotate_left :: "ctree \<Rightarrow> ctree option" where
  "double_rotate_left (Regular l e s a (Regular (Regular ml me ms ma mr) re rs ra rr)) =
     rotate_left (Regular l e s a (Regular ml me ms ma (update mr re rr)))"
| "double_rotate_left _ = None"

section \<open>Joins of regular trees\<close>

definition regular_balanced_join :: "ctree \<Rightarrow> ctree \<Rightarrow> entry \<Rightarrow> ctree" where
  "regular_balanced_join l r e = update l e r"

fun regular_right_join :: "ctree \<Rightarrow> ctree \<Rightarrow> entry \<Rightarrow> ctree option" where
  "regular_right_join t1 t2 k =
     (if \<not> is_left_heavy t1 t2 then Some (regular_balanced_join t1 t2 k)
      else case t1 of
        Regular l e s a r \<Rightarrow> do {
          r' \<leftarrow> regular_right_join r t2 k;
          let t = Regular l e s a r';
          if is_left_heavy r' l then
            (if is_single_rotation r' False then rotate_left t else double_rotate_left t)
          else Some (update l e r') }
      | _ \<Rightarrow> None)"

fun regular_left_join :: "ctree \<Rightarrow> ctree \<Rightarrow> entry \<Rightarrow> ctree option" where
  "regular_left_join t1 t2 k =
     (if \<not> is_left_heavy t2 t1 then Some (regular_balanced_join t1 t2 k)
      else case t2 of
        Regular l e s a r \<Rightarrow> do {
          l' \<leftarrow> regular_left_join t1 l k;
          let t = Regular l' e s a r;
          if is_left_heavy l' r then
            (if is_single_rotation l' True then rotate_right t else double_rotate_right t)
          else Some (update l' e r) }
      | _ \<Rightarrow> None)"

declare regular_right_join.simps [simp del] regular_left_join.simps [simp del]

definition regular_node_join :: "ctree \<Rightarrow> ctree \<Rightarrow> entry \<Rightarrow> ctree option" where
  "regular_node_join t1 t2 k =
     (if is_left_heavy t1 t2 then regular_right_join t1 t2 k
      else if is_left_heavy t2 t1 then regular_left_join t1 t2 k
      else Some (regular_balanced_join t1 t2 k))"

section \<open>Joins of trees with compressed leaves\<close>

definition balanced_join :: "ctree \<Rightarrow> ctree \<Rightarrow> entry \<Rightarrow> ctree option" where
  "balanced_join l r e =
     (let l_s = csize l; r_s = csize r; tot = l_s + r_s + 1
      in if (l_s < kBlockSize \<or> r_s < kBlockSize) \<and> tot \<ge> kBlockSize then make_compressed l r (Some e)
         else Some (update l e r))"

text \<open>The tail of \<open>right_join\<close> after the right son of \<open>t\<close> is replaced, and its mirror.\<close>

definition fix_right :: "ctree \<Rightarrow> entry \<Rightarrow> nat \<Rightarrow> aug \<Rightarrow> ctree \<Rightarrow> ctree option" where
  "fix_right l e s a r' =
     (let t = Regular l e s a r' in
      if is_left_heavy r' l then
        (case r' of
           Regular rl re rs ra rr \<Rightarrow>
             (if is_single_rotation r' False then rotate_left t
              else if is_compressed rl then make_compressed (update l e r') Nil_node None
              else double_rotate_left t)
         | _ \<Rightarrow> None)
      else Some (update l e r'))"

definition fix_left :: "ctree \<Rightarrow> entry \<Rightarrow> nat \<Rightarrow> aug \<Rightarrow> ctree \<Rightarrow> ctree option" where
  "fix_left l' e s a r =
     (let t = Regular l' e s a r in
      if is_left_heavy l' r then
        (case l' of
           Regular ll le ls la lr \<Rightarrow>
             (if is_single_rotation l' True then rotate_right t
              else if is_compressed lr then make_compressed (update l' e r) Nil_node None
              else double_rotate_right t)
         | _ \<Rightarrow> None)
      else Some (update l' e r))"

fun right_join :: "ctree \<Rightarrow> ctree \<Rightarrow> entry \<Rightarrow> ctree option" where
  "right_join t1 t2 k =
     (if is_compressed t1 then make_compressed t1 t2 (Some k)
      else if \<not> is_left_heavy t1 t2 then balanced_join t1 t2 k
      else if will_be_compressed (u32 (csize t1 + csize t2 + 1)) then make_compressed t1 t2 (Some k)
      else case t1 of
        Regular l e s a r \<Rightarrow> do { r' \<leftarrow> right_join r t2 k; fix_right l e s a r' }
      | _ \<Rightarrow> None)"

fun left_join :: "ctree \<Rightarrow> ctree \<Rightarrow> entry \<Rightarrow> ctree option" where
  "left_join t1 t2 k =
     (if is_compressed t2 then make_compressed t1 t2 (Some k)
      else if \<not> is_left_heavy t2 t1 then balanced_join t1 t2 k
      else if will_be_compressed (csize t1 + csize t2 + 1) then make_compressed t1 t2 (Some k)
      else case t2 of
        Regular l e s a r \<Rightarrow> do { l' \<leftarrow> left_join t1 l k; fix_left l' e s a r }
      | _ \<Rightarrow> None)"

declare right_join.simps [simp del] left_join.simps [simp del]

definition upper_threshold :: nat where
  "upper_threshold = nat \<lceil>fmul (of_nat kBlockSize) (fadd 1 (rnd64 (1 / wb_ratio)))\<rceil>"

definition regular_join :: "ctree \<Rightarrow> ctree \<Rightarrow> entry \<Rightarrow> ctree option" where
  "regular_join t1 t2 k =
     (let tot = u32 (csize t1 + csize t2 + 1) in
      if tot \<ge> kBlockSize \<and> tot \<le> upper_threshold then make_compressed t1 t2 (Some k)
      else if is_left_heavy t1 t2 then right_join t1 t2 k
      else if is_left_heavy t2 t1 then left_join t1 t2 k
      else balanced_join t1 t2 k)"

definition node_join :: "ctree \<Rightarrow> ctree \<Rightarrow> entry \<Rightarrow> ctree option" where
  "node_join t1 t2 k =
     (let t1_reg = (\<not> is_compressed t1); t2_reg = (\<not> is_compressed t2) in
      if t1_reg \<and> t2_reg then regular_join t1 t2 k
      else if t1_reg then
        (if is_left_heavy t1 t2 then right_join t1 t2 k
         else if is_left_heavy t2 t1 then make_compressed t1 t2 (Some k)
         else balanced_join t1 t2 k)
      else if t2_reg then
        (if is_left_heavy t2 t1 then left_join t1 t2 k
         else if is_left_heavy t1 t2 then make_compressed t1 t2 (Some k)
         else balanced_join t1 t2 k)
      else
        let balanced = (\<not> (is_left_heavy t1 t2 \<or> is_left_heavy t2 t1)) in
        if balanced \<or> \<not> could_single_rotate t1 t2 then balanced_join t1 t2 k
        else make_compressed t1 t2 (Some k))"

lemma upper_threshold_value: "upper_threshold = 138"
  by code_simp

section \<open>The invariant\<close>

abbreviation cnt :: "ctree \<Rightarrow> nat" where
  "cnt t \<equiv> length (iterate_seq t)"

fun fields_ok :: "ctree \<Rightarrow> bool" where
  "fields_ok Nil_node \<longleftrightarrow> True"
| "fields_ok (Regular l e s a r) \<longleftrightarrow>
     s = u32 (csize l + csize r + 1) \<and> a = node_aug l e r \<and> fields_ok l \<and> fields_ok r"
| "fields_ok (Compressed es s a) \<longleftrightarrow>
     es \<noteq> [] \<and> length es \<le> 2 * kBlockSize \<and> s = u32 (length es) \<and> a = encode es"

text \<open>Two sons with these weights (one more than their number of entries) are in balance.\<close>

definition bal :: "nat \<Rightarrow> nat \<Rightarrow> bool" where
  "bal w1 w2 \<longleftrightarrow> 29 * w1 \<le> 71 * w2 \<and> 29 * w2 \<le> 71 * w1"

fun wbal :: "ctree \<Rightarrow> bool" where
  "wbal Nil_node \<longleftrightarrow> True"
| "wbal (Regular l e s a r) \<longleftrightarrow> bal (cnt l + 1) (cnt r + 1) \<and> wbal l \<and> wbal r"
| "wbal (Compressed es s a) \<longleftrightarrow> True"

fun regular_only :: "ctree \<Rightarrow> bool" where
  "regular_only Nil_node \<longleftrightarrow> True"
| "regular_only (Regular l e s a r) \<longleftrightarrow> regular_only l \<and> regular_only r"
| "regular_only (Compressed es s a) \<longleftrightarrow> False"

text \<open>All leaves are compressed and hold at least a block.\<close>

fun full :: "ctree \<Rightarrow> bool" where
  "full Nil_node \<longleftrightarrow> False"
| "full (Regular l e s a r) \<longleftrightarrow> full l \<and> full r"
| "full (Compressed es s a) \<longleftrightarrow> kBlockSize \<le> length es"

definition cnode :: "ctree \<Rightarrow> bool" where
  "cnode t \<longleftrightarrow> fields_ok t \<and> wbal t \<and> (full t \<or> regular_only t \<and> cnt t < kBlockSize)"

lemma update_simps [simp]:
  "iterate_seq (update l e r) = iterate_seq l @ e # iterate_seq r"
  "fields_ok (update l e r) \<longleftrightarrow> fields_ok l \<and> fields_ok r"
  "wbal (update l e r) \<longleftrightarrow> bal (cnt l + 1) (cnt r + 1) \<and> wbal l \<and> wbal r"
  "regular_only (update l e r) \<longleftrightarrow> regular_only l \<and> regular_only r"
  "full (update l e r) \<longleftrightarrow> full l \<and> full r"
  "csize (update l e r) = u32 (csize l + csize r + 1)"
  "is_compressed (update l e r) \<longleftrightarrow> False"
  "update l e r \<noteq> Nil_node"
  by (simp_all add: update_def)

lemma csize_count: "fields_ok t \<Longrightarrow> cnt t < 2 ^ 32 \<Longrightarrow> csize t = cnt t"
proof (induction t)
  case (Regular l e s a r)
  then show ?case by (simp add: u32_def)
next
  case (Compressed es s a)
  then show ?case by (simp add: u32_def)
qed simp

lemma full_count: "full t \<Longrightarrow> kBlockSize \<le> cnt t"
  by (induction t) (auto simp: kBlockSize_def)

lemma full_not_small: "full t \<Longrightarrow> \<not> cnt t < kBlockSize"
  using full_count by fastforce

lemma full_not_Nil: "full t \<Longrightarrow> t \<noteq> Nil_node"
  by auto

lemma cnode_Nil [simp]: "cnode Nil_node"
  by (simp add: cnode_def kBlockSize_def)

lemma cnode_full: "cnode t \<Longrightarrow> kBlockSize \<le> cnt t \<Longrightarrow> full t"
  by (auto simp: cnode_def)

lemma cnode_small: "cnode t \<Longrightarrow> cnt t < kBlockSize \<Longrightarrow> regular_only t"
  using full_not_small by (auto simp: cnode_def)

lemma regular_only_not_compressed: "regular_only t \<Longrightarrow> \<not> is_compressed t"
  by (cases t) auto

lemma compressed_count: "fields_ok t \<Longrightarrow> is_compressed t \<Longrightarrow> cnt t \<le> 2 * kBlockSize"
  by (cases t) auto

lemma cnode_sons:
  assumes "cnode (Regular l e s a r)" shows "cnode l" "cnode r"
  using assms full_not_small by (auto simp: cnode_def)

text \<open>\<open>holds_node t xs\<close>: \<open>t\<close> satisfies the invariant and holds the entries \<open>xs\<close> in order.\<close>

definition holds_node :: "ctree option \<Rightarrow> entry list \<Rightarrow> bool" where
  "holds_node res xs \<longleftrightarrow> (\<exists>t. res = Some t \<and> cnode t \<and> iterate_seq t = xs)"

lemma holds_node_SomeI: "cnode t \<Longrightarrow> iterate_seq t = xs \<Longrightarrow> holds_node (Some t) xs"
  by (simp add: holds_node_def)

lemma holds_nodeE:
  assumes "holds_node res xs" obtains t where "res = Some t" "cnode t" "iterate_seq t = xs"
  using assms by (auto simp: holds_node_def)

end
