(* ===== verification/CpamBlocks.thy ===== *)
theory CpamBlocks
  imports CpamJoin
begin

text \<open>
  The routines that rebuild part of a tree as compressed blocks, and the arithmetic
  of the rotations.
\<close>

section \<open>Blocks\<close>

lemma make_single_ok:
  assumes "es \<noteq> []" "length es \<le> 80"
  shows "\<exists>t. make_single_compressed_node es = Some t \<and> fields_ok t \<and> wbal t \<and> iterate_seq t = es \<and>
    (40 \<le> length es \<longrightarrow> full t) \<and> is_compressed t"
  using assms by (simp add: make_single_compressed_node_def kBlockSize_def)

lemma split_at: "i < length es \<Longrightarrow> take i es @ es ! i # drop (i + 1) es = es"
  by (simp add: id_take_nth_drop [symmetric])

text \<open>An entry between two parts of the given sizes.\<close>

lemma update_parts:
  assumes "fields_ok l" "wbal l" "full l" "fields_ok r" "wbal r" "full r"
    "iterate_seq l = take i es" "iterate_seq r = drop (i + 1) es" "i < length es"
    "2 * i + 2 \<ge> length es" "2 * i \<le> length es"
  shows "fields_ok (update l (es ! i) r) \<and> wbal (update l (es ! i) r) \<and> full (update l (es ! i) r) \<and>
    iterate_seq (update l (es ! i) r) = es"
  using assms split_at [of i es] by (simp add: bal_def) linarith

lemma two_compressed_ok:
  assumes "81 \<le> length es" "length es \<le> 161"
  shows "\<exists>t. two_compressed_nodes es = Some t \<and> fields_ok t \<and> wbal t \<and> full t \<and> iterate_seq t = es"
proof -
  let ?i = "length es div 2"
  let ?r = "?i - (if odd (length es) then 0 else 1)"
  have i: "40 \<le> ?i" "?i \<le> 80" "?i < length es" "2 * ?i \<le> length es" "2 * ?i + 2 \<ge> length es"
    using assms by presburger+
  have r: "?r = length es - (?i + 1)" by (simp, presburger)
  have es: "es \<noteq> []" using assms by auto
  have rl: "40 \<le> length (drop (?i + 1) es)" "length (drop (?i + 1) es) \<le> 80"
    unfolding length_drop using assms by presburger+
  have t: "take ?r (drop (?i + 1) es) = drop (?i + 1) es" unfolding r by simp
  obtain l where l: "make_single_compressed_node (take ?i es) = Some l" "fields_ok l" "wbal l" "full l"
      "iterate_seq l = take ?i es"
    using make_single_ok [of "take ?i es"] i es by auto
  have "drop (?i + 1) es \<noteq> []" using rl by auto
  then obtain r where r: "make_single_compressed_node (drop (?i + 1) es) = Some r" "fields_ok r" "wbal r" "full r"
      "iterate_seq r = drop (?i + 1) es"
    using make_single_ok [of "drop (?i + 1) es"] rl by auto
  have "two_compressed_nodes es = Some (update l (es ! ?i) r)"
    unfolding two_compressed_nodes_def Let_def t using assms l(1) r(1) by (simp add: kBlockSize_def)
  then show ?thesis using update_parts [of l r ?i es] l r i by auto
qed

lemma make_two_ok:
  assumes "80 \<le> length es" "length es \<le> 161"
  shows "\<exists>t. make_two_nodes es = Some t \<and> fields_ok t \<and> wbal t \<and> full t \<and> iterate_seq t = es"
proof (cases "length es = 80")
  case True
  then have "es \<noteq> []" by auto
  then show ?thesis using make_single_ok [of es] True by (auto simp: make_two_nodes_def kBlockSize_def)
next
  case False
  have es: "es \<noteq> []" using assms by auto
  let ?i = "if even (length es) then length es div 2 - 1 else length es div 2"
  have i: "40 \<le> ?i" "?i \<le> 80" "?i < length es" "2 * ?i \<le> length es" "2 * ?i + 2 \<ge> length es"
    using assms False by (auto split: if_splits; presburger)+
  have r: "length es div 2 = length es - (?i + 1)" using assms by (auto split: if_splits; presburger)+
  have len: "length (drop (?i + 1) es) = length es div 2" using r by (metis length_drop)
  have rl: "40 \<le> length (drop (?i + 1) es)" "length (drop (?i + 1) es) \<le> 80"
    unfolding len using assms False by presburger+
  have t: "take (length es div 2) (drop (?i + 1) es) = drop (?i + 1) es"
    by (rule take_all) (simp only: len order_refl)
  obtain l where l: "make_single_compressed_node (take ?i es) = Some l" "fields_ok l" "wbal l" "full l"
      "iterate_seq l = take ?i es"
    using make_single_ok [of "take ?i es"] i es by auto
  have "drop (?i + 1) es \<noteq> []" using rl by auto
  then obtain r where r: "make_single_compressed_node (drop (?i + 1) es) = Some r" "fields_ok r" "wbal r" "full r"
      "iterate_seq r = drop (?i + 1) es"
    using make_single_ok [of "drop (?i + 1) es"] rl by auto
  have "make_two_nodes es = Some (update l (es ! ?i) r)"
    unfolding make_two_nodes_def Let_def t using assms l(1) r(1) False by (simp add: kBlockSize_def)
  then show ?thesis using update_parts [of l r ?i es] l r i by auto
qed

lemma four_compressed_ok:
  assumes "162 \<le> length es" "length es \<le> 322"
  shows "\<exists>t. four_compressed_nodes es = Some t \<and> fields_ok t \<and> wbal t \<and> full t \<and> iterate_seq t = es"
proof -
  let ?i = "if even (length es) then length es div 2 - 1 else length es div 2"
  have i: "80 \<le> ?i" "?i \<le> 161" "?i < length es" "2 * ?i \<le> length es" "2 * ?i + 2 \<ge> length es"
    using assms by (auto split: if_splits; presburger)+
  have r: "length es div 2 = length es - (?i + 1)" using assms by (auto split: if_splits; presburger)+
  have len: "length (drop (?i + 1) es) = length es div 2" using r by (metis length_drop)
  have rl: "80 \<le> length (drop (?i + 1) es)" "length (drop (?i + 1) es) \<le> 161"
    unfolding len using assms by presburger+
  have t: "take (length es div 2) (drop (?i + 1) es) = drop (?i + 1) es"
    by (rule take_all) (simp only: len order_refl)
  obtain l where l: "make_two_nodes (take ?i es) = Some l" "fields_ok l" "wbal l" "full l"
      "iterate_seq l = take ?i es"
    using make_two_ok [of "take ?i es"] i by auto
  obtain r where r: "make_two_nodes (drop (?i + 1) es) = Some r" "fields_ok r" "wbal r" "full r"
      "iterate_seq r = drop (?i + 1) es"
    using make_two_ok [of "drop (?i + 1) es"] rl by auto
  have "four_compressed_nodes es = Some (update l (es ! ?i) r)"
    unfolding four_compressed_nodes_def Let_def t using l(1) r(1) by simp
  then show ?thesis using update_parts [of l r ?i es] l r i by auto
qed

lemma block_ok:
  assumes "40 \<le> length es" "length es \<le> 322"
  shows "holds_node (if length es \<le> 80 then make_single_compressed_node es
    else if length es \<le> 161 then two_compressed_nodes es else four_compressed_nodes es) es"
proof -
  have "es \<noteq> []" using assms by auto
  then show ?thesis
    using make_single_ok [of es] two_compressed_ok [of es] four_compressed_ok [of es] assms
    by (auto simp: holds_node_def cnode_def not_le)
qed

lemma make_compressed_array_ok:
  "40 \<le> length es \<Longrightarrow> length es \<le> 322 \<Longrightarrow> holds_node (make_compressed_array es) es"
  using block_ok [of es] by (auto simp: make_compressed_array_def Let_def kBlockSize_def split: if_splits)

lemma make_compressed_ok:
  assumes "fields_ok l" "fields_ok r" "40 \<le> cnt l + cnt r + length (case e of None \<Rightarrow> [] | Some x \<Rightarrow> [x])"
    "cnt l + cnt r + length (case e of None \<Rightarrow> [] | Some x \<Rightarrow> [x]) \<le> 280"
  shows "holds_node (make_compressed l r e) (iterate_seq l @ (case e of None \<Rightarrow> [] | Some x \<Rightarrow> [x]) @ iterate_seq r)"
proof -
  let ?stk = "iterate_seq l @ (case e of None \<Rightarrow> [] | Some x \<Rightarrow> [x]) @ iterate_seq r"
  have "csize l = cnt l" "csize r = cnt r" using assms by (simp_all add: csize_count)
  then have "csize l + csize r + (if e \<noteq> None then 1 else 0) = length ?stk" by (auto split: option.split)
  then show ?thesis
    using block_ok [of ?stk] assms(3,4) unfolding make_compressed_def Let_def kBlockSize_def by (auto split: if_splits)
qed

lemmas make_compressed_entry_ok = make_compressed_ok [of _ _ "Some _", simplified]
  and make_compressed_two_ok = make_compressed_ok [of _ _ None, simplified]

section \<open>Arithmetic of the rotations\<close>

text \<open>
  \<open>A\<close> is the weight of the far son, \<open>W\<close> the weight of the near one after it grew
  from \<open>R\<close> by \<open>T\<close>, and \<open>V\<close> and \<open>C\<close> are the weights of the near son's sons.
\<close>

lemma rotation_bounds:
  assumes "bal A R" "71 * T < 29 * (A + R)" "W = R + T" "71 * A < 29 * W"
  shows "2059 * W < 7941 * A" "71 * A + 1 \<le> 29 * W"
proof -
  have "71 * W < 100 * R + 29 * A" "29 * R \<le> 71 * A" using assms by (simp_all add: bal_def distrib_left)
  then show "2059 * W < 7941 * A" by linarith
qed (use assms in simp)

lemma single_rotation_bal:
  assumes "bal A R" "71 * T < 29 * (A + R)" "W = R + T" "71 * A < 29 * W"
    "bal V C" "W = V + C" "71 * V \<le> 42 * W"
  shows "bal A V" "bal (A + V) C"
proof -
  note W = rotation_bounds [OF assms(1-4)]
  have V: "29 * W \<le> 100 * V" "29 * W \<le> 71 * C" "29 * C \<le> 71 * V"
    using assms(5,6,7) by (simp_all add: bal_def)
  have "29 * V \<le> 71 * A" using W(1) assms(7) by linarith
  moreover have "29 * A \<le> 71 * V" using W(2) V(1) by linarith
  ultimately show "bal A V" by (simp add: bal_def)
  have "A + V \<le> W" using W(2) assms(7) by linarith
  then have "29 * (A + V) \<le> 71 * C" using V(2) unfolding distrib_left by linarith
  moreover have "29 * C \<le> 71 * (A + V)" using V(3) unfolding distrib_left by linarith
  ultimately show "bal (A + V) C" by (simp add: bal_def)
qed

lemma double_rotation_bal:
  assumes "bal A R" "71 * T < 29 * (A + R)" "W = R + T" "71 * A < 29 * W"
    "bal V C" "W = V + C" "42 * W < 71 * V" "V = V1 + V2" "bal V1 V2"
  shows "bal A V1" "bal V2 C" "bal (A + V1) (V2 + C)"
proof -
  note W = rotation_bounds [OF assms(1-4)]
  have V: "100 * V \<le> 71 * W" "29 * V \<le> 71 * C" "29 * W < 71 * V1 + 71 * V2 - 13 * W"
    using assms(5,6,7,8) by (simp_all add: bal_def)
  have V1: "29 * V \<le> 100 * V1" "100 * V1 \<le> 71 * V" "29 * V \<le> 100 * V2" "100 * V2 \<le> 71 * V"
    using assms(8,9) by (simp_all add: bal_def)
  have C: "71 * C < 29 * W" using assms(6,7) by linarith
  have "29 * V1 \<le> 71 * A" using W(1) V(1) V1(2) by linarith
  moreover have "29 * A \<le> 71 * V1" using W(2) assms(7) V1(1) by linarith
  ultimately show "bal A V1" by (simp add: bal_def)
  have "29 * V2 \<le> 71 * C" using V(2) V1(4) by linarith
  moreover have "29 * C \<le> 71 * V2" using C assms(7) V1(3) by linarith
  ultimately show "bal V2 C" by (simp add: bal_def)
  have "10000 * V1 \<le> 5041 * W" using V(1) V1(2) by linarith
  moreover have "2 * A \<le> W" using W(2) by linarith
  ultimately have "29 * (A + V1) \<le> 71 * (V2 + C)" using assms(6,8) unfolding distrib_left by linarith
  moreover have "29 * (V2 + C) \<le> 71 * (A + V1)" using W(1) assms(6,7,8) V1(1,4) C unfolding distrib_left by linarith
  ultimately show "bal (A + V1) (V2 + C)" by (simp add: bal_def)
qed

end
