(* ===== verification/CpamBalanced.thy ===== *)
theory CpamBalanced
  imports CpamBlocks
begin

text \<open>
  The joins keep the invariant. In the rebalancing step of \<open>right_join\<close> the near son
  grew from weight \<open>R\<close> by the weight \<open>T\<close> of the joined tree; the far son
  was in balance with \<open>R\<close>.
\<close>

section \<open>Rebalancing\<close>

definition same_shape :: "ctree \<Rightarrow> ctree \<Rightarrow> bool" where
  "same_shape l r \<longleftrightarrow> full l \<and> full r \<or> regular_only l \<and> regular_only r \<and> cnt l + cnt r + 1 < 40"

lemma cnode_update:
  assumes "fields_ok l" "wbal l" "fields_ok r" "wbal r" "same_shape l r" "bal (cnt l + 1) (cnt r + 1)"
  shows "cnode (update l e r)"
  using assms by (auto simp: cnode_def same_shape_def kBlockSize_def)

lemma bal_sym: "bal a b \<longleftrightarrow> bal b a"
  by (auto simp: bal_def)

lemma same_shape_sym: "same_shape l r \<longleftrightarrow> same_shape r l"
  by (auto simp: same_shape_def)

text \<open>A heavy son in a tree of full parts is a regular node.\<close>

lemma heavy_son_regular:
  assumes "fields_ok r'" "same_shape l r'" "71 * (cnt l + 1) < 29 * (cnt r' + 1)"
  obtains rl re rs ra rr where "r' = Regular rl re rs ra rr"
proof (cases r')
  case (Compressed es s a)
  then have "cnt r' \<le> 80" "full l" using assms(1,2) by (simp_all add: kBlockSize_def same_shape_def)
  then show ?thesis using assms(3) full_count [of l] by (simp add: kBlockSize_def)
qed (use assms that in simp_all)

lemma fix_right_ok:
  assumes ok: "fields_ok l" "wbal l" "fields_ok r'" "wbal r'" and sh: "same_shape l r'"
    and sz: "cnt l + cnt r' + 2 < 2 ^ 32"
    and bal: "bal (cnt l + 1) R" "71 * T < 29 * (cnt l + 1 + R)" "cnt r' + 1 = R + T"
  shows "holds_node (fix_right l e s a r') (iterate_seq l @ e # iterate_seq r')"
proof -
  have c: "csize l = cnt l" "csize r' = cnt r'" using ok sz by (simp_all add: csize_count)
  have hv: "is_left_heavy r' l \<longleftrightarrow> 71 * (cnt l + 1) < 29 * (cnt r' + 1)" using c sz by (simp add: heavy_iff)
  show ?thesis
  proof (cases "71 * (cnt l + 1) < 29 * (cnt r' + 1)")
    case False
    then have "bal (cnt l + 1) (cnt r' + 1)" using bal by (simp add: bal_def)
    then show ?thesis
      using cnode_update ok sh False hv by (simp add: fix_right_def holds_node_SomeI)
  next
    case True
    obtain rl re rs ra rr where r': "r' = Regular rl re rs ra rr" using heavy_son_regular ok(3) sh True .
    have rs: "rs = cnt rl + cnt rr + 1" using c(2) r' by simp
    have rok: "fields_ok rl" "fields_ok rr" "wbal rl" "wbal rr" "bal (cnt rl + 1) (cnt rr + 1)"
      using ok(3,4) r' by simp_all
    have W: "cnt r' + 1 = (cnt rl + 1) + (cnt rr + 1)" using r' by simp
    have crl: "csize rl = cnt rl" "csize rr = cnt rr" using rok r' sz by (simp_all add: csize_count)
    have sg: "is_single_rotation r' False \<longleftrightarrow> 71 * (cnt rl + 1) \<le> 42 * (cnt r' + 1)"
      using single_rotation_iff [of rs rl rr re ra False] rs crl r' sz by simp
    note hyps = bal(1,2,3) True rok(5) W
    show ?thesis
    proof (cases "71 * (cnt rl + 1) \<le> 42 * (cnt r' + 1)")
      case True
      note single_rotation_bal [OF hyps True]
      then have "cnode (update (update l e rl) re rr)"
        using ok rok sh r' by (auto simp: cnode_def same_shape_def kBlockSize_def)
      then show ?thesis using hv sg \<open>71 * (cnt l + 1) < 29 * (cnt r' + 1)\<close> True r'
        by (simp add: fix_right_def holds_node_SomeI)
    next
      case nsingle: False
      show ?thesis
      proof (cases rl)
        case Nil_node
        then show ?thesis using nsingle \<open>71 * (cnt l + 1) < 29 * (cnt r' + 1)\<close> by simp
      next
        case (Compressed es' s' a')
        then have "cnt rl \<le> 80" "full l" "full r'" using rok(1) sh r' by (auto simp: same_shape_def kBlockSize_def)
        then have "40 \<le> cnt l + (cnt r' + 1)" "cnt l + (cnt r' + 1) \<le> 280"
          using full_count [of l] nsingle bal(1) \<open>71 * (cnt l + 1) < 29 * (cnt r' + 1)\<close>
          by (simp_all add: kBlockSize_def bal_def)
        then have "holds_node (make_compressed (update l e r') Nil_node None) (iterate_seq l @ e # iterate_seq r')"
          using make_compressed_two_ok [of "update l e r'" Nil_node] ok by simp
        then show ?thesis using hv sg nsingle \<open>71 * (cnt l + 1) < 29 * (cnt r' + 1)\<close> r' Compressed
          by (simp add: fix_right_def)
      next
        case (Regular ml me ms ma mr)
        have mok: "fields_ok ml" "fields_ok mr" "wbal ml" "wbal mr" "bal (cnt ml + 1) (cnt mr + 1)"
          "cnt rl + 1 = (cnt ml + 1) + (cnt mr + 1)"
          using rok(1,3) Regular by simp_all
        have "42 * (cnt r' + 1) < 71 * (cnt rl + 1)" using nsingle by simp
        note double_rotation_bal [OF hyps this mok(6,5)]
        then have "cnode (update (update l e ml) me (update mr re rr))"
          using ok rok mok sh r' Regular by (auto simp: cnode_def same_shape_def kBlockSize_def)
        then show ?thesis using hv sg nsingle \<open>71 * (cnt l + 1) < 29 * (cnt r' + 1)\<close> r' Regular
          by (simp add: fix_right_def holds_node_SomeI)
      qed
    qed
  qed
qed

text \<open>The mirror image.\<close>

lemma fix_left_ok:
  assumes ok: "fields_ok l'" "wbal l'" "fields_ok r" "wbal r" and sh: "same_shape l' r"
    and sz: "cnt l' + cnt r + 2 < 2 ^ 32"
    and bal: "bal (cnt r + 1) L" "71 * T < 29 * (cnt r + 1 + L)" "cnt l' + 1 = L + T"
  shows "holds_node (fix_left l' e s a r) (iterate_seq l' @ e # iterate_seq r)"
proof -
  have c: "csize r = cnt r" "csize l' = cnt l'" using ok sz by (simp_all add: csize_count)
  have hv: "is_left_heavy l' r \<longleftrightarrow> 71 * (cnt r + 1) < 29 * (cnt l' + 1)" using c sz by (simp add: heavy_iff)
  show ?thesis
  proof (cases "71 * (cnt r + 1) < 29 * (cnt l' + 1)")
    case False
    then have "bal (cnt l' + 1) (cnt r + 1)" using bal by (simp add: bal_def)
    then show ?thesis
      using cnode_update ok sh False hv by (simp add: fix_left_def holds_node_SomeI)
  next
    case True
    have sh': "same_shape r l'" using sh by (simp add: same_shape_sym)
    obtain ll le ls la lr where l': "l' = Regular ll le ls la lr" using heavy_son_regular ok(1) sh' True .
    have ls: "ls = cnt ll + cnt lr + 1" using c(2) l' by simp
    have lok: "fields_ok lr" "fields_ok ll" "wbal lr" "wbal ll" "bal (cnt lr + 1) (cnt ll + 1)"
      using ok(1,2) l' bal_sym by simp_all
    have W: "cnt l' + 1 = (cnt lr + 1) + (cnt ll + 1)" using l' by simp
    have cll: "csize lr = cnt lr" "csize ll = cnt ll" using lok l' sz by (simp_all add: csize_count)
    have sg: "is_single_rotation l' True \<longleftrightarrow> 71 * (cnt lr + 1) \<le> 42 * (cnt l' + 1)"
      using single_rotation_iff [of ls ll lr le la True] ls cll l' sz by simp
    note hyps = bal(1,2,3) True lok(5) W
    show ?thesis
    proof (cases "71 * (cnt lr + 1) \<le> 42 * (cnt l' + 1)")
      case True
      have "bal (cnt lr + 1) (cnt r + 1)" "bal (cnt ll + 1) (cnt r + 1 + (cnt lr + 1))"
        using single_rotation_bal [OF hyps True] bal_sym by blast+
      then have "cnode (update ll le (update lr e r))"
        using ok lok sh l' by (auto simp: cnode_def same_shape_def kBlockSize_def add_ac)
      then show ?thesis using hv sg \<open>71 * (cnt r + 1) < 29 * (cnt l' + 1)\<close> True l'
        by (simp add: fix_left_def holds_node_SomeI)
    next
      case nsingle: False
      show ?thesis
      proof (cases lr)
        case Nil_node
        then show ?thesis using nsingle \<open>71 * (cnt r + 1) < 29 * (cnt l' + 1)\<close> by simp
      next
        case (Compressed es' s' a')
        then have "cnt lr \<le> 80" "full r" "full l'" using lok(1) sh l' by (auto simp: same_shape_def kBlockSize_def)
        then have "40 \<le> cnt l' + (cnt r + 1)" "cnt l' + (cnt r + 1) \<le> 280"
          using full_count [of r] nsingle bal(1) \<open>71 * (cnt r + 1) < 29 * (cnt l' + 1)\<close>
          by (simp_all add: kBlockSize_def bal_def)
        then have "holds_node (make_compressed (update l' e r) Nil_node None) (iterate_seq l' @ e # iterate_seq r)"
          using make_compressed_two_ok [of "update l' e r" Nil_node] ok by simp
        then show ?thesis using hv sg nsingle \<open>71 * (cnt r + 1) < 29 * (cnt l' + 1)\<close> l' Compressed
          by (simp add: fix_left_def)
      next
        case (Regular ml me ms ma mr)
        have mok: "fields_ok mr" "fields_ok ml" "wbal mr" "wbal ml" "bal (cnt mr + 1) (cnt ml + 1)"
          "cnt lr + 1 = (cnt mr + 1) + (cnt ml + 1)"
          using lok(1,3) Regular bal_sym by simp_all
        have "42 * (cnt l' + 1) < 71 * (cnt lr + 1)" using nsingle by simp
        note d = double_rotation_bal [OF hyps this mok(6,5)]
        have "bal (cnt mr + 1) (cnt r + 1)" "bal (cnt ll + 1) (cnt ml + 1)"
          "bal (cnt ml + 1 + (cnt ll + 1)) (cnt r + 1 + (cnt mr + 1))"
          using d bal_sym by blast+
        then have "cnode (update (update ll le ml) me (update mr e r))"
          using ok lok mok sh l' Regular by (auto simp: cnode_def same_shape_def kBlockSize_def add_ac)
        then show ?thesis using hv sg nsingle \<open>71 * (cnt r + 1) < 29 * (cnt l' + 1)\<close> l' Regular
          by (simp add: fix_left_def holds_node_SomeI)
      qed
    qed
  qed
qed

section \<open>The joins\<close>

lemma cnode_fields: "cnode t \<Longrightarrow> fields_ok t" "cnode t \<Longrightarrow> wbal t"
  by (simp_all add: cnode_def)

lemma balanced_join_ok:
  assumes "cnode l" "cnode r" "cnt l + cnt r + 2 < 2 ^ 32" "bal (cnt l + 1) (cnt r + 1)"
  shows "holds_node (balanced_join l r e) (iterate_seq l @ e # iterate_seq r)"
proof -
  have f: "fields_ok l" "fields_ok r" "wbal l" "wbal r" using assms by (simp_all add: cnode_def)
  have c: "csize l = cnt l" "csize r = cnt r" using f assms(3) by (simp_all add: csize_count)
  have h: "\<not> is_left_heavy l r" "\<not> is_left_heavy r l"
    using assms(3,4) c by (simp_all add: heavy_iff bal_def)
  show ?thesis
  proof (cases "(cnt l < 40 \<or> cnt r < 40) \<and> 40 \<le> cnt l + cnt r + 1")
    case True
    then have "holds_node (make_compressed l r (Some e)) (iterate_seq l @ e # iterate_seq r)"
      using assms(4) f by (intro make_compressed_entry_ok) (auto simp: bal_def)
    then show ?thesis using True h c by (simp add: balanced_join_def Let_def kBlockSize_def)
  next
    case False
    then have "same_shape l r"
      using cnode_full [OF assms(1)] cnode_full [OF assms(2)] cnode_small [OF assms(1)] cnode_small [OF assms(2)]
      unfolding same_shape_def kBlockSize_def by linarith
    then have "cnode (update l e r)" using cnode_update f assms(4) by blast
    moreover have "balanced_join l r e = Some (update l e r)"
      using False h c unfolding balanced_join_def Let_def kBlockSize_def by auto
    ultimately show ?thesis by (simp add: holds_node_SomeI)
  qed
qed

lemma compressed_full: "cnode t \<Longrightarrow> is_compressed t \<Longrightarrow> full t"
  using regular_only_not_compressed by (auto simp: cnode_def)

text \<open>Gathering a compressed tree and one that is not much heavier.\<close>

lemma gather_ok:
  assumes "cnode t1" "cnode t2" "is_compressed t1" "29 * (cnt t2 + 1) \<le> 71 * (cnt t1 + 1)"
  shows "40 \<le> cnt t1 + cnt t2 + 1" "cnt t1 + cnt t2 + 1 \<le> 280"
  using full_count [OF compressed_full [OF assms(1,3)]] compressed_count [OF cnode_fields(1) [OF assms(1)] assms(3)] assms(4)
  by (simp_all add: kBlockSize_def)

lemma right_join_ok:
  "cnode t1 \<Longrightarrow> cnode t2 \<Longrightarrow> cnt t1 + cnt t2 + 2 < 2 ^ 32 \<Longrightarrow> 29 * (cnt t2 + 1) \<le> 71 * (cnt t1 + 1) \<Longrightarrow>
   holds_node (right_join t1 t2 k) (iterate_seq t1 @ k # iterate_seq t2)"
proof (induction t1)
  case Nil_node
  have "csize t2 = cnt t2" using Nil_node.prems by (simp add: csize_count cnode_fields)
  then have "\<not> is_left_heavy Nil_node t2" using Nil_node.prems by (simp add: heavy_iff)
  moreover have "holds_node (balanced_join Nil_node t2 k) (iterate_seq Nil_node @ k # iterate_seq t2)"
    using Nil_node.prems by (intro balanced_join_ok) (auto simp: bal_def)
  ultimately show ?case by (simp add: right_join.simps)
next
  case (Compressed es s a)
  let ?t1 = "Compressed es s a"
  have "holds_node (make_compressed ?t1 t2 (Some k)) (iterate_seq ?t1 @ k # iterate_seq t2)"
    by (rule make_compressed_entry_ok)
       (use gather_ok [OF Compressed.prems(1,2)] Compressed.prems(4) cnode_fields(1) [OF Compressed.prems(1)]
           cnode_fields(1) [OF Compressed.prems(2)] in simp_all)
  then show ?case by (simp add: right_join.simps)
next
  case (Regular l e s a r)
  let ?t1 = "Regular l e s a r"
  note ok = cnode_fields [OF Regular.prems(1)] cnode_fields [OF Regular.prems(2)] and sons = cnode_sons [OF Regular.prems(1)]
  have c: "csize ?t1 = cnt ?t1" "csize t2 = cnt t2" using ok Regular.prems(3) by (simp_all only: csize_count)
  have hv: "is_left_heavy ?t1 t2 \<longleftrightarrow> 71 * (cnt t2 + 1) < 29 * (cnt ?t1 + 1)"
    using c Regular.prems(3) by (simp only: heavy_iff)
  show ?case
  proof (cases "71 * (cnt t2 + 1) < 29 * (cnt ?t1 + 1)")
    case False
    then have "holds_node (balanced_join ?t1 t2 k) (iterate_seq ?t1 @ k # iterate_seq t2)"
      using Regular.prems by (intro balanced_join_ok) (auto simp: bal_def)
    then show ?thesis using False hv by (simp add: right_join.simps)
  next
    case heavy: True
    have tot: "u32 (csize ?t1 + csize t2 + 1) = cnt ?t1 + cnt t2 + 1"
      using c Regular.prems(3) by (simp add: u32_def)
    show ?thesis
    proof (cases "40 \<le> cnt ?t1 + cnt t2 + 1 \<and> cnt ?t1 + cnt t2 + 1 \<le> 80")
      case True
      then have "holds_node (make_compressed ?t1 t2 (Some k)) (iterate_seq ?t1 @ k # iterate_seq t2)"
        using ok by (intro make_compressed_entry_ok) auto
      then show ?thesis using True heavy hv tot
        by (simp add: right_join.simps [of ?t1] will_be_compressed_def kBlockSize_def)
    next
      case False
      have b: "bal (cnt l + 1) (cnt r + 1)" using ok(2) by simp
      have "29 * (cnt t2 + 1) \<le> 71 * (cnt r + 1)" using heavy b by (simp add: bal_def)
      then obtain r' where r': "right_join r t2 k = Some r'" "cnode r'" "iterate_seq r' = iterate_seq r @ k # iterate_seq t2"
        using Regular.IH(2) [OF sons(2) Regular.prems(2)] Regular.prems(3) by (auto elim: holds_nodeE)
      have sh: "same_shape l r'"
      proof (cases "cnt ?t1 + cnt t2 + 1 < 40")
        case True
        then show ?thesis using cnode_small [OF sons(1)] cnode_small [OF r'(2)] r'(3)
          by (simp add: same_shape_def kBlockSize_def)
      next
        case big: False
        then have "full ?t1" using False heavy by (intro cnode_full [OF Regular.prems(1)]) (simp add: kBlockSize_def)
        then have "full l" "kBlockSize \<le> cnt r" using full_count by auto
        then show ?thesis using cnode_full [OF r'(2)] r'(3) by (simp add: same_shape_def)
      qed
      have "holds_node (fix_right l e s a r') (iterate_seq l @ e # iterate_seq r')"
        by (rule fix_right_ok [where R = "cnt r + 1" and T = "cnt t2 + 1"])
           (use ok sh r' b heavy Regular.prems(3) cnode_fields [OF r'(2)] in auto)
      then show ?thesis using False heavy hv tot r'
        by (simp add: right_join.simps [of ?t1] will_be_compressed_def kBlockSize_def) blast
    qed
  qed
qed

lemma left_join_ok:
  "cnode t1 \<Longrightarrow> cnode t2 \<Longrightarrow> cnt t1 + cnt t2 + 2 < 2 ^ 32 \<Longrightarrow> 29 * (cnt t1 + 1) \<le> 71 * (cnt t2 + 1) \<Longrightarrow>
   holds_node (left_join t1 t2 k) (iterate_seq t1 @ k # iterate_seq t2)"
proof (induction t2)
  case Nil_node
  have "csize t1 = cnt t1" using Nil_node.prems by (simp add: csize_count cnode_fields)
  then have "\<not> is_left_heavy Nil_node t1" using Nil_node.prems by (simp add: heavy_iff)
  moreover have "holds_node (balanced_join t1 Nil_node k) (iterate_seq t1 @ k # iterate_seq Nil_node)"
    using Nil_node.prems by (intro balanced_join_ok) (auto simp: bal_def)
  ultimately show ?case by (simp add: left_join.simps)
next
  case (Compressed es s a)
  let ?t2 = "Compressed es s a"
  have "holds_node (make_compressed t1 ?t2 (Some k)) (iterate_seq t1 @ k # iterate_seq ?t2)"
    by (rule make_compressed_entry_ok)
       (use gather_ok [OF Compressed.prems(2,1)] Compressed.prems(4) cnode_fields(1) [OF Compressed.prems(1)]
           cnode_fields(1) [OF Compressed.prems(2)] in simp_all)
  then show ?case by (simp add: left_join.simps)
next
  case (Regular l e s a r)
  let ?t2 = "Regular l e s a r"
  note ok = cnode_fields [OF Regular.prems(1)] cnode_fields [OF Regular.prems(2)] and sons = cnode_sons [OF Regular.prems(2)]
  have c: "csize t1 = cnt t1" "csize ?t2 = cnt ?t2" using ok Regular.prems(3) by (simp_all only: csize_count)
  have hv: "is_left_heavy ?t2 t1 \<longleftrightarrow> 71 * (cnt t1 + 1) < 29 * (cnt ?t2 + 1)"
    using c Regular.prems(3) by (simp only: heavy_iff)
  show ?case
  proof (cases "71 * (cnt t1 + 1) < 29 * (cnt ?t2 + 1)")
    case False
    then have "holds_node (balanced_join t1 ?t2 k) (iterate_seq t1 @ k # iterate_seq ?t2)"
      using Regular.prems by (intro balanced_join_ok) (auto simp: bal_def)
    then show ?thesis using False hv by (simp add: left_join.simps)
  next
    case heavy: True
    have tot: "csize t1 + csize ?t2 + 1 = cnt t1 + cnt ?t2 + 1" using c by simp
    show ?thesis
    proof (cases "40 \<le> cnt t1 + cnt ?t2 + 1 \<and> cnt t1 + cnt ?t2 + 1 \<le> 80")
      case True
      then have "holds_node (make_compressed t1 ?t2 (Some k)) (iterate_seq t1 @ k # iterate_seq ?t2)"
        using ok by (intro make_compressed_entry_ok) auto
      then show ?thesis using True heavy hv tot
        by (simp add: left_join.simps [of _ ?t2] will_be_compressed_def kBlockSize_def)
    next
      case False
      have b: "bal (cnt r + 1) (cnt l + 1)" using ok(4) bal_sym by simp
      have "29 * (cnt t1 + 1) \<le> 71 * (cnt l + 1)" using heavy b by (simp add: bal_def)
      then obtain l' where l': "left_join t1 l k = Some l'" "cnode l'" "iterate_seq l' = iterate_seq t1 @ k # iterate_seq l"
        using Regular.IH(1) [OF Regular.prems(1) sons(1)] Regular.prems(3) by (auto elim: holds_nodeE)
      have sh: "same_shape l' r"
      proof (cases "cnt t1 + cnt ?t2 + 1 < 40")
        case True
        then show ?thesis using cnode_small [OF sons(2)] cnode_small [OF l'(2)] l'(3)
          by (simp add: same_shape_def kBlockSize_def)
      next
        case big: False
        then have "full ?t2" using False heavy by (intro cnode_full [OF Regular.prems(2)]) (simp add: kBlockSize_def)
        then have "full r" "kBlockSize \<le> cnt l" using full_count by auto
        then show ?thesis using cnode_full [OF l'(2)] l'(3) by (simp add: same_shape_def)
      qed
      have "holds_node (fix_left l' e s a r) (iterate_seq l' @ e # iterate_seq r)"
        by (rule fix_left_ok [where L = "cnt l + 1" and T = "cnt t1 + 1"])
           (use ok sh l' b heavy Regular.prems(3) cnode_fields [OF l'(2)] in auto)
      then show ?thesis using False heavy hv tot l'
        by (simp add: left_join.simps [of _ ?t2] will_be_compressed_def kBlockSize_def) blast
    qed
  qed
qed

lemma node_join_ok:
  assumes ok: "cnode t1" "cnode t2" and sz: "cnt t1 + cnt t2 + 2 < 2 ^ 32"
  shows "holds_node (node_join t1 t2 k) (iterate_seq t1 @ k # iterate_seq t2)"
proof -
  have f: "fields_ok t1" "fields_ok t2" using ok by (simp_all add: cnode_fields)
  have c: "csize t1 = cnt t1" "csize t2 = cnt t2" using f sz by (simp_all add: csize_count)
  have h: "is_left_heavy t1 t2 \<longleftrightarrow> 71 * (cnt t2 + 1) < 29 * (cnt t1 + 1)"
    "is_left_heavy t2 t1 \<longleftrightarrow> 71 * (cnt t1 + 1) < 29 * (cnt t2 + 1)"
    using c sz by (simp_all only: heavy_iff)
  have tot: "u32 (csize t1 + csize t2 + 1) = cnt t1 + cnt t2 + 1" using c sz by (simp add: u32_def)
  have right: "holds_node (right_join t1 t2 k) (iterate_seq t1 @ k # iterate_seq t2)" if "is_left_heavy t1 t2"
    using that h right_join_ok [OF ok sz] by simp
  have left: "holds_node (left_join t1 t2 k) (iterate_seq t1 @ k # iterate_seq t2)" if "is_left_heavy t2 t1"
    using that h left_join_ok [OF ok sz] by simp
  have even: "holds_node (balanced_join t1 t2 k) (iterate_seq t1 @ k # iterate_seq t2)"
    if "\<not> is_left_heavy t1 t2" "\<not> is_left_heavy t2 t1"
    using that h by (intro balanced_join_ok ok sz) (simp add: bal_def)
  have gather: "holds_node (make_compressed t1 t2 (Some k)) (iterate_seq t1 @ k # iterate_seq t2)"
    if "40 \<le> cnt t1 + cnt t2 + 1" "cnt t1 + cnt t2 + 1 \<le> 280"
    using that f by (intro make_compressed_entry_ok) auto
  have comp: "40 \<le> cnt t1 \<and> cnt t1 \<le> 80" if "is_compressed t1"
    using that compressed_full [OF ok(1)] compressed_count [OF f(1)] full_count by (fastforce simp: kBlockSize_def)
  have comp': "40 \<le> cnt t2 \<and> cnt t2 \<le> 80" if "is_compressed t2"
    using that compressed_full [OF ok(2)] compressed_count [OF f(2)] full_count by (fastforce simp: kBlockSize_def)
  consider "\<not> is_compressed t1" "\<not> is_compressed t2" | "\<not> is_compressed t1" "is_compressed t2"
    | "is_compressed t1" "\<not> is_compressed t2" | "is_compressed t1" "is_compressed t2" by blast
  then show ?thesis
  proof cases
    case 1
    then have "node_join t1 t2 k = regular_join t1 t2 k" by (simp add: node_join_def)
    then show ?thesis using gather right left even
      unfolding regular_join_def Let_def tot upper_threshold_value kBlockSize_def by auto
  next
    case 2
    then have "holds_node (make_compressed t1 t2 (Some k)) (iterate_seq t1 @ k # iterate_seq t2)" if "is_left_heavy t2 t1"
      using that h comp' by (intro gather) simp_all
    then show ?thesis using 2 right even by (simp add: node_join_def Let_def)
  next
    case 3
    then have "holds_node (make_compressed t1 t2 (Some k)) (iterate_seq t1 @ k # iterate_seq t2)" if "is_left_heavy t1 t2"
      using that h comp by (intro gather) simp_all
    then show ?thesis using 3 left even by (simp add: node_join_def Let_def)
  next
    case 4
    then have "\<not> is_left_heavy t1 t2" "\<not> is_left_heavy t2 t1" using comp comp' h by auto
    then show ?thesis using 4 even by (simp add: node_join_def Let_def)
  qed
qed

end
