(* ===== verification/CpamExpose.thy ===== *)
theory CpamExpose
  imports CpamBalanced
begin

text \<open>
  \<open>sequence_ops.h\<close>, the part every other routine uses: turning a block into a
  balanced tree, exposing a root, rebuilding a buffer, and concatenating two trees.
\<close>

section \<open>Trees from buffers\<close>

function to_tree_impl :: "entry list \<Rightarrow> nat \<Rightarrow> ctree option" where
  "to_tree_impl A depth =
     (let n = length A in
      if n = 0 then Some Nil_node
      else if n = 1 then Some (single (A ! 0))
      else if n = kBlockSize \<and> depth > 0 then make_single_compressed_node A
      else
        let mid = n div 2 in
        do {
          l \<leftarrow> to_tree_impl (take mid A) (depth + 1);
          r \<leftarrow> to_tree_impl (drop (mid + 1) A) (depth + 1);
          regular_node_join l r (A ! mid) })"
  by pat_completeness auto
termination
  by (relation "measure (\<lambda>(A, depth). length A)") auto

declare to_tree_impl.simps [simp del]

text \<open>The end of every base case: a buffer becomes a small tree or blocks.\<close>

definition from_buffer :: "entry list \<Rightarrow> ctree option" where
  "from_buffer stk =
     (if length stk < kBlockSize then to_tree_impl stk 0 else make_compressed_array stk)"

fun to_tree :: "ctree \<Rightarrow> ctree option" where
  "to_tree (Compressed es s a) = (if es = [] then None else to_tree_impl es 0)"
| "to_tree _ = None"

fun expose_simple :: "ctree \<Rightarrow> (ctree \<times> entry \<times> ctree) option" where
  "expose_simple (Regular l e s a r) = Some (l, e, r)"
| "expose_simple _ = None"

text \<open>\<open>expose\<close> takes the root apart; a compressed node becomes a tree first.\<close>

definition expose :: "ctree \<Rightarrow> (ctree \<times> entry \<times> ctree) option" where
  "expose p = (if is_compressed p then Option.bind (to_tree p) expose_simple else expose_simple p)"

definition join :: "ctree \<Rightarrow> entry \<Rightarrow> ctree \<Rightarrow> ctree option" where
  "join l e r = node_join l r e"

function from_array :: "entry list \<Rightarrow> ctree option" where
  "from_array A =
     (let n = length A in
      if n = 0 then Some Nil_node
      else if n = 1 then Some (single (A ! 0))
      else if n \<ge> kBlockSize \<and> n \<le> 2 * kBlockSize then make_compressed_array A
      else
        let mid = n div 2 in
        do {
          l \<leftarrow> from_array (take mid A);
          r \<leftarrow> from_array (drop (mid + 1) A);
          node_join l r (A ! mid) })"
  by pat_completeness auto
termination
  by (relation "measure length") auto

declare from_array.simps [simp del]

section \<open>Contents of what a join returns\<close>

lemma rotate_seq:
  "rotate_left t = Some t' \<Longrightarrow> iterate_seq t' = iterate_seq t"
  "rotate_right t = Some t' \<Longrightarrow> iterate_seq t' = iterate_seq t"
  by (cases t rule: rotate_left.cases; auto) (cases t rule: rotate_right.cases; auto)

lemma double_rotate_seq:
  "double_rotate_left t = Some t' \<Longrightarrow> iterate_seq t' = iterate_seq t"
  "double_rotate_right t = Some t' \<Longrightarrow> iterate_seq t' = iterate_seq t"
  by (cases t rule: double_rotate_left.cases; auto) (cases t rule: double_rotate_right.cases; auto)

lemma regular_right_join_seq:
  "regular_right_join t1 t2 k = Some t \<Longrightarrow> iterate_seq t = iterate_seq t1 @ k # iterate_seq t2"
proof (induction t1 arbitrary: t)
  case (Regular l e s a r)
  show ?case
  proof (cases "is_left_heavy (Regular l e s a r) t2")
    case False
    then show ?thesis using Regular.prems by (auto simp: regular_right_join.simps [of "Regular l e s a r"] regular_balanced_join_def)
  next
    case True
    then obtain r' where r': "regular_right_join r t2 k = Some r'"
      "(if is_left_heavy r' l then
          (if is_single_rotation r' False then rotate_left (Regular l e s a r') else double_rotate_left (Regular l e s a r'))
        else Some (update l e r')) = Some t"
      using Regular.prems by (auto simp: regular_right_join.simps [of "Regular l e s a r"] Let_def bind_eq_Some_conv)
    then have "iterate_seq t = iterate_seq (Regular l e s a r')"
      by (auto split: if_splits dest: rotate_seq double_rotate_seq)
    then show ?thesis using Regular.IH(2) [OF r'(1)] by simp
  qed
qed (auto simp: regular_right_join.simps [of Nil_node] regular_right_join.simps [of "Compressed _ _ _"]
      regular_balanced_join_def split: if_splits)

lemma regular_left_join_seq:
  "regular_left_join t1 t2 k = Some t \<Longrightarrow> iterate_seq t = iterate_seq t1 @ k # iterate_seq t2"
proof (induction t2 arbitrary: t)
  case (Regular l e s a r)
  show ?case
  proof (cases "is_left_heavy (Regular l e s a r) t1")
    case False
    then show ?thesis using Regular.prems by (auto simp: regular_left_join.simps [of _ "Regular l e s a r"] regular_balanced_join_def)
  next
    case True
    then obtain l' where l': "regular_left_join t1 l k = Some l'"
      "(if is_left_heavy l' r then
          (if is_single_rotation l' True then rotate_right (Regular l' e s a r) else double_rotate_right (Regular l' e s a r))
        else Some (update l' e r)) = Some t"
      using Regular.prems by (auto simp: regular_left_join.simps [of _ "Regular l e s a r"] Let_def bind_eq_Some_conv)
    then have "iterate_seq t = iterate_seq (Regular l' e s a r)"
      by (auto split: if_splits dest: rotate_seq double_rotate_seq)
    then show ?thesis using Regular.IH(1) [OF l'(1)] by simp
  qed
qed (auto simp: regular_left_join.simps [of _ Nil_node] regular_left_join.simps [of _ "Compressed _ _ _"]
      regular_balanced_join_def split: if_splits)

lemma regular_node_join_seq:
  "regular_node_join t1 t2 k = Some t \<Longrightarrow> iterate_seq t = iterate_seq t1 @ k # iterate_seq t2"
  by (auto simp: regular_node_join_def regular_balanced_join_def split: if_splits
      dest: regular_right_join_seq regular_left_join_seq)

lemma single_seq [simp]: "iterate_seq (single e) = [e]"
  by (simp add: single_def)

lemma single_update: "single e = update Nil_node e Nil_node"
  by (simp add: single_def update_def node_aug_def u32_def)

lemma single_cnode [simp]: "cnode (single e)"
  by (simp add: single_update cnode_def bal_def kBlockSize_def)

lemma make_single_seq: "make_single_compressed_node es = Some t \<Longrightarrow> iterate_seq t = es"
  by (auto simp: make_single_compressed_node_def split: if_splits)

lemma nth_middle: "A \<noteq> [] \<Longrightarrow> take (length A div 2) A @ A ! (length A div 2) # drop (length A div 2 + 1) A = A"
  by (intro split_at) (cases A, auto)

lemma to_tree_impl_seq: "to_tree_impl A depth = Some t \<Longrightarrow> iterate_seq t = A"
proof (induction A depth arbitrary: t rule: to_tree_impl.induct)
  case (1 A depth)
  consider "length A = 0" | "length A = 1" | "length A \<noteq> 0" "length A \<noteq> 1" "length A = kBlockSize \<and> depth > 0"
    | "length A \<noteq> 0" "length A \<noteq> 1" "\<not> (length A = kBlockSize \<and> depth > 0)" by blast
  then show ?case
  proof cases
    case 4
    then obtain l r where lr: "to_tree_impl (take (length A div 2) A) (depth + 1) = Some l"
      "to_tree_impl (drop (length A div 2 + 1) A) (depth + 1) = Some r"
      "regular_node_join l r (A ! (length A div 2)) = Some t"
      using "1.prems" by (auto simp: to_tree_impl.simps [of A] Let_def bind_eq_Some_conv)
    have "iterate_seq l = take (length A div 2) A" "iterate_seq r = drop (length A div 2 + 1) A"
      using "1.IH"(1) [OF refl 4(1,2,3) refl lr(1)] "1.IH"(2) [OF refl 4(1,2,3) refl lr(1) lr(2)] by auto
    then show ?thesis using regular_node_join_seq [OF lr(3)] nth_middle [of A] 4(1) by simp
  qed (use "1.prems" make_single_seq in
      \<open>auto simp: to_tree_impl.simps [of A] to_tree_impl.simps [of "[]"] to_tree_impl.simps [of "[_]"] Let_def length_Suc_conv\<close>)
qed

lemma expose_seq: "expose t = Some (l, e, r) \<Longrightarrow> iterate_seq t = iterate_seq l @ e # iterate_seq r"
proof (cases t)
  case (Compressed es s a)
  assume "expose t = Some (l, e, r)"
  then obtain t' where t': "to_tree_impl es 0 = Some t'" "expose_simple t' = Some (l, e, r)"
    using Compressed by (auto simp: expose_def bind_eq_Some_conv split: if_splits)
  then have "iterate_seq t' = iterate_seq l @ e # iterate_seq r" by (cases t') auto
  then show ?thesis using to_tree_impl_seq [OF t'(1)] Compressed by simp
qed (auto simp: expose_def)

lemma expose_smaller [termination_simp]:
  "expose t = Some (l, e, r) \<Longrightarrow> cnt l < cnt t"
  "expose t = Some (l, e, r) \<Longrightarrow> cnt r < cnt t"
  by (simp_all add: expose_seq)

section \<open>These routines return\<close>

lemma regular_node_join_even:
  assumes "fields_ok l" "wbal l" "fields_ok r" "wbal r" "cnt l + cnt r + 2 < 2 ^ 32" "bal (cnt l + 1) (cnt r + 1)"
  shows "regular_node_join l r e = Some (update l e r)"
proof -
  have "csize l = cnt l" "csize r = cnt r" using assms by (simp_all add: csize_count)
  then have "\<not> is_left_heavy l r" "\<not> is_left_heavy r l"
    using assms(5,6) by (simp_all add: heavy_iff bal_def)
  then show ?thesis by (simp add: regular_node_join_def regular_balanced_join_def)
qed

lemma bal_halves: assumes "n \<noteq> 0" "n \<noteq> 1" shows "bal (n div 2 + 1) (n - n div 2 - 1 + 1)"
proof -
  have "n - n div 2 - 1 = n div 2 \<or> (n - n div 2 - 1) + 1 = n div 2" "1 \<le> n div 2" using assms by presburger+
  then show ?thesis by (auto simp: bal_def)
qed

lemma to_tree_impl_ok:
  "length A \<le> 81 \<Longrightarrow> \<exists>t. to_tree_impl A depth = Some t \<and> fields_ok t \<and> wbal t \<and>
     (length A < 40 \<longrightarrow> regular_only t) \<and> (length A = 40 \<and> 0 < depth \<longrightarrow> full t)"
proof (induction A depth rule: to_tree_impl.induct)
  case (1 A depth)
  consider "length A = 0" | "length A = 1" | "length A \<noteq> 0" "length A \<noteq> 1" "length A = kBlockSize \<and> depth > 0"
    | "length A \<noteq> 0" "length A \<noteq> 1" "\<not> (length A = kBlockSize \<and> depth > 0)" by blast
  then show ?case
  proof cases
    case 3
    then have "A \<noteq> []" by auto
    then show ?thesis using 3 make_single_ok [of A] by (auto simp: to_tree_impl.simps [of A] Let_def kBlockSize_def)
  next
    case 4
    let ?i = "length A div 2"
    have len: "length (take ?i A) \<le> 40" "length (drop (?i + 1) A) \<le> 40" "length (take ?i A) = ?i"
      "length (drop (?i + 1) A) = length A - ?i - 1"
      using "1.prems" by (simp; presburger)+
    obtain l where l: "to_tree_impl (take ?i A) (depth + 1) = Some l" "fields_ok l" "wbal l"
      "length (take ?i A) < 40 \<longrightarrow> regular_only l"
      using "1.IH"(1) [OF refl 4 refl] len(1) by auto
    obtain r where r: "to_tree_impl (drop (?i + 1) A) (depth + 1) = Some r" "fields_ok r" "wbal r"
      "length (drop (?i + 1) A) < 40 \<longrightarrow> regular_only r"
      using "1.IH"(2) [OF refl 4 refl l(1)] len(2) by auto
    have c: "cnt l = ?i" "cnt r = length A - ?i - 1"
      using to_tree_impl_seq [OF l(1)] to_tree_impl_seq [OF r(1)] len by simp_all
    have b: "bal (cnt l + 1) (cnt r + 1)" unfolding c by (rule bal_halves [OF 4(1,2)])
    then have "regular_node_join l r (A ! ?i) = Some (update l (A ! ?i) r)"
      using regular_node_join_even l r c "1.prems" by simp
    moreover have "length A < 40 \<longrightarrow> regular_only l \<and> regular_only r" using l(4) r(4) len by simp
    moreover have "\<not> (length A = 40 \<and> 0 < depth)" using 4(3) by (simp add: kBlockSize_def)
    ultimately show ?thesis using 4(1,2) l r b
      by (simp add: to_tree_impl.simps [of A depth] Let_def kBlockSize_def) auto
  qed (simp_all add: to_tree_impl.simps [of A] to_tree_impl.simps [of "[]"] Let_def single_update bal_def kBlockSize_def)
qed

lemma to_tree_impl_small: "length A < 40 \<Longrightarrow> holds_node (to_tree_impl A d) A"
  using to_tree_impl_ok [of A d] to_tree_impl_seq [of A d] by (auto simp: holds_node_def cnode_def kBlockSize_def)

lemma from_buffer_ok: "length stk \<le> 322 \<Longrightarrow> holds_node (from_buffer stk) stk"
  using to_tree_impl_small [of stk 0] make_compressed_array_ok [of stk]
  by (auto simp: from_buffer_def kBlockSize_def)

text \<open>What a map may have at its root: a tree, or one block that is not full.\<close>

definition root_ok :: "ctree \<Rightarrow> bool" where
  "root_ok t \<longleftrightarrow> cnode t \<or> fields_ok t \<and> is_compressed t"

lemma cnode_root_ok: "cnode t \<Longrightarrow> root_ok t"
  by (simp add: root_ok_def)

lemma root_fields: "root_ok t \<Longrightarrow> fields_ok t"
  by (auto simp: root_ok_def cnode_def)

lemma expose_compressed:
  assumes "fields_ok (Compressed es s a)"
  shows "\<exists>l e r. expose (Compressed es s a) = Some (l, e, r) \<and> cnode l \<and> cnode r"
proof (cases "length es = 1")
  case True
  then show ?thesis
    by (auto simp: expose_def to_tree_impl.simps [of es] Let_def length_Suc_conv single_def)
next
  case False
  have len: "es \<noteq> []" "length es \<le> 80" using assms by (simp_all add: kBlockSize_def)
  let ?i = "length es div 2"
  have i: "length (take ?i es) \<le> 81" "length (drop (?i + 1) es) \<le> 81" using len by simp_all
  obtain l where l: "to_tree_impl (take ?i es) 1 = Some l" "fields_ok l" "wbal l"
    "length (take ?i es) < 40 \<longrightarrow> regular_only l" "length (take ?i es) = 40 \<longrightarrow> full l"
    using to_tree_impl_ok [OF i(1), of 1] by auto
  obtain r where r: "to_tree_impl (drop (?i + 1) es) 1 = Some r" "fields_ok r" "wbal r"
    "length (drop (?i + 1) es) < 40 \<longrightarrow> regular_only r" "length (drop (?i + 1) es) = 40 \<longrightarrow> full r"
    using to_tree_impl_ok [OF i(2), of 1] by auto
  have c: "iterate_seq l = take ?i es" "iterate_seq r = drop (?i + 1) es"
    using to_tree_impl_seq [OF l(1)] to_tree_impl_seq [OF r(1)] by simp_all
  have cl: "length (take ?i es) = ?i" "length (drop (?i + 1) es) = length es - ?i - 1" "?i \<le> 40" "length es - ?i - 1 < 40"
    using len by (simp; presburger)+
  have "cnode l" "cnode r" using l r c cl by (auto simp: cnode_def kBlockSize_def)
  moreover have "bal (cnt l + 1) (cnt r + 1)" unfolding c cl by (rule bal_halves) (use len False in auto)
  then have "regular_node_join l r (es ! ?i) = Some (update l (es ! ?i) r)"
    using regular_node_join_even l r c cl len by simp
  then have "to_tree_impl es 0 = Some (update l (es ! ?i) r)"
    using l(1) r(1) len False by (simp add: to_tree_impl.simps [of es 0] Let_def)
  ultimately show ?thesis using len by (simp add: expose_def update_def)
qed

lemma expose_ok:
  assumes "root_ok t" "t \<noteq> Nil_node"
  obtains l e r where "expose t = Some (l, e, r)" "cnode l" "cnode r" "iterate_seq t = iterate_seq l @ e # iterate_seq r"
proof (cases t)
  case (Regular l e s a r)
  then have "cnode (Regular l e s a r)" using assms(1) by (auto simp: root_ok_def)
  note sons = cnode_sons [OF this]
  have x: "expose t = Some (l, e, r)" using Regular by (simp add: expose_def)
  show ?thesis by (rule that [OF x sons expose_seq [OF x]])
next
  case (Compressed es s a)
  then have "fields_ok (Compressed es s a)" using root_fields [OF assms(1)] by simp
  then obtain l e r where x: "expose t = Some (l, e, r)" "cnode l" "cnode r"
    unfolding Compressed using expose_compressed by blast
  show ?thesis by (rule that [OF x expose_seq [OF x(1)]])
qed (use assms in simp)

lemma from_array_ok: "length A + 1 < 2 ^ 32 \<Longrightarrow> holds_node (from_array A) A"
proof (induction A rule: from_array.induct)
  case (1 A)
  let ?i = "length A div 2"
  consider "length A = 0" | "length A = 1" | "length A \<noteq> 0" "length A \<noteq> 1" "length A \<ge> kBlockSize \<and> length A \<le> 2 * kBlockSize"
    | "length A \<noteq> 0" "length A \<noteq> 1" "\<not> (length A \<ge> kBlockSize \<and> length A \<le> 2 * kBlockSize)" by blast
  then show ?case
  proof cases
    case 3
    then show ?thesis using make_compressed_array_ok [of A]
      by (simp add: from_array.simps [of A] Let_def kBlockSize_def)
  next
    case 4
    have sz: "length (take ?i A) + 1 < 2 ^ 32" "length (drop (?i + 1) A) + 1 < 2 ^ 32" using "1.prems" by simp_all
    obtain l where l: "from_array (take ?i A) = Some l" "cnode l" "iterate_seq l = take ?i A"
      using "1.IH"(1) [OF refl 4 refl] sz by (blast elim: holds_nodeE)
    obtain r where r: "from_array (drop (?i + 1) A) = Some r" "cnode r" "iterate_seq r = drop (?i + 1) A"
      using "1.IH"(2) [OF refl 4 refl l(1)] sz by (blast elim: holds_nodeE)
    have "holds_node (node_join l r (A ! ?i)) A"
      using node_join_ok [OF l(2) r(2), of "A ! ?i"] l(3) r(3) nth_middle [of A] 4(1) "1.prems" by simp
    then show ?thesis using 4 l r by (simp add: from_array.simps [of A] Let_def) blast
  qed (auto simp: from_array.simps [of A] from_array.simps [of "[]"] Let_def length_Suc_conv intro!: holds_node_SomeI)
qed

lemma finalize_ok:
  assumes "cnode t" "cnt t < 2 ^ 32"
  shows "\<exists>t'. finalize t = Some t' \<and> root_ok t' \<and> iterate_seq t' = iterate_seq t"
proof (cases "cnt t < 40 \<and> 0 < cnt t")
  case True
  then obtain t' where t': "make_single_compressed_node (iterate_seq t) = Some t'" "fields_ok t'"
    "iterate_seq t' = iterate_seq t" "is_compressed t'"
    using make_single_ok [of "iterate_seq t"] by auto
  then show ?thesis using True assms
    by (simp add: finalize_def make_compressed_node_def csize_count cnode_fields kBlockSize_def root_ok_def)
next
  case False
  then show ?thesis using assms
    by (auto simp: finalize_def csize_count cnode_fields kBlockSize_def root_ok_def)
qed

text \<open>\<open>join\<close> in the form the recursive routines use.\<close>

lemma join_ok:
  "cnode l \<Longrightarrow> cnode r \<Longrightarrow> cnt l + cnt r + 2 < 2 ^ 32 \<Longrightarrow>
   holds_node (join l e r) (iterate_seq l @ e # iterate_seq r)"
  unfolding join_def by (rule node_join_ok)

lemma joinE:
  assumes "cnode l" "cnode r" "cnt l + cnt r + 2 < 2 ^ 32"
  obtains t where "join l e r = Some t" "cnode t" "iterate_seq t = iterate_seq l @ e # iterate_seq r"
  using join_ok [OF assms, of e] that by (blast elim: holds_nodeE)

end
