(* ===== verification/CpamSeq.thy ===== *)
theory CpamSeq
  imports CpamExpose
begin

text \<open>
  The remaining routines of \<open>sequence_ops.h\<close>, which treat a tree as the sequence of
  its entries: selection and prefixes by rank, concatenation, mapping, filtering,
  reversal, traversals with an index, and the structural statistics.
\<close>

section \<open>By rank\<close>

definition select_compressed :: "ctree \<Rightarrow> nat \<Rightarrow> entry option" where
  "select_compressed a rnk =
     snd (snd (iterate_cond (\<lambda>e (i, ret). if i = rnk then (False, i, Some e) else (True, i + 1, ret)) a (0, None)))"

fun select :: "ctree \<Rightarrow> nat \<Rightarrow> entry option" where
  "select Nil_node rnk = None"
| "select (Compressed es s a) rnk = select_compressed (Compressed es s a) rnk"
| "select (Regular l e s a r) rnk =
     (let left_size = csize l in
      if rnk > left_size then select r (rnk - left_size - 1)
      else if rnk < left_size then select l rnk
      else Some e)"

text \<open>Subtraction of \<open>size_t\<close> values wraps around.\<close>

definition sub64 :: "nat \<Rightarrow> nat \<Rightarrow> nat" where
  "sub64 a b = (a + 2 ^ 64 - b) mod 2 ^ 64"

definition take_compressed :: "ctree \<Rightarrow> nat \<Rightarrow> ctree option" where
  "take_compressed a rnk = from_buffer (take rnk (iterate_seq a))"

fun take_node :: "ctree \<Rightarrow> nat \<Rightarrow> ctree option" where
  "take_node Nil_node rnk = Some Nil_node"
| "take_node (Compressed es s a) rnk = take_compressed (Compressed es s a) rnk"
| "take_node (Regular l e s a r) rnk =
     (let left_size = csize l in
      if rnk < left_size then take_node l rnk
      else do {
        r' \<leftarrow> take_node r (sub64 (sub64 rnk left_size) 1);
        node_join l r' e })"

text \<open>\<open>entry_bc\<close> keeps the entries of a block that pass a test, here given with the index.\<close>

definition entry_bc :: "ctree \<Rightarrow> (nat \<Rightarrow> entry \<Rightarrow> bool) \<Rightarrow> ctree option" where
  "entry_bc r f = from_buffer (map snd (filter (\<lambda>(i, e). f i e) (enumerate 0 (iterate_seq r))))"

fun suffix :: "ctree \<Rightarrow> nat \<Rightarrow> ctree option" where
  "suffix Nil_node rnk = Some Nil_node"
| "suffix (Compressed es s a) rnk = entry_bc (Compressed es s a) (\<lambda>i e. i \<ge> rnk)"
| "suffix (Regular l e s a r) rnk =
     (let left_size = csize l in
      if rnk > left_size + 1 then suffix r (rnk - left_size - 1)
      else do {
        l' \<leftarrow> suffix l rnk;
        node_join l' r e })"

fun subseq_root :: "ctree \<Rightarrow> nat \<Rightarrow> nat \<Rightarrow> ctree \<times> nat \<times> nat" where
  "subseq_root Nil_node left right = (Nil_node, left, right)"
| "subseq_root (Compressed es s a) left right = (Compressed es s a, left, right)"
| "subseq_root (Regular l e s a r) left right =
     (let left_size = csize l in
      if right < left_size then subseq_root l left right
      else if left > left_size + 1 then
        subseq_root r (sub64 (sub64 left left_size) 1) (sub64 (sub64 right left_size) 1)
      else (Regular l e s a r, left, right))"

definition subseq :: "ctree \<Rightarrow> nat \<Rightarrow> nat \<Rightarrow> ctree option" where
  "subseq b low high =
     (case subseq_root b low high of (r, low, high) \<Rightarrow>
        if r = Nil_node then Some Nil_node
        else if is_compressed r then entry_bc r (\<lambda>i e. low \<le> i \<and> i \<le> high)
        else do {
          (lc, e, rc) \<leftarrow> expose_simple r;
          l' \<leftarrow> suffix lc low;
          r' \<leftarrow> take_node rc (sub64 (sub64 high (csize lc)) 1);
          join l' e r' })"

section \<open>Concatenation\<close>

function join2 :: "ctree \<Rightarrow> ctree \<Rightarrow> ctree option" where
  "join2 b1 b2 =
     (if b1 = Nil_node then Some b2
      else if b2 = Nil_node then Some b1
      else if csize b1 > csize b2 then
        (if is_compressed b1 \<or> will_be_compressed (csize b1 + csize b2) then make_compressed b1 b2 None
         else do {
           (lc, e, rc) \<leftarrow> expose b1;
           r \<leftarrow> join2 rc b2;
           join lc e r })
      else
        (if is_compressed b2 \<or> will_be_compressed (csize b1 + csize b2) then make_compressed b1 b2 None
         else do {
           (lc, e, rc) \<leftarrow> expose b2;
           l \<leftarrow> join2 b1 lc;
           join l e rc }))"
  by pat_completeness auto
termination
  by (relation "measure (\<lambda>(b1, b2). cnt b1 + cnt b2)") (auto simp: expose_smaller)

declare join2.simps [simp del]

section \<open>Mapping, filtering, reversal\<close>

fun map_entries :: "(entry \<Rightarrow> entry) \<Rightarrow> ctree \<Rightarrow> ctree option" where
  "map_entries f Nil_node = Some Nil_node"
| "map_entries f (Compressed es s a) = make_compressed_array (map f es)"
| "map_entries f (Regular l e s a r) =
     do {
       l' \<leftarrow> map_entries f l;
       r' \<leftarrow> map_entries f r;
       node_join l' r' (f e) }"

definition filter_bc :: "ctree \<Rightarrow> (entry \<Rightarrow> bool) \<Rightarrow> ctree option" where
  "filter_bc b f = from_buffer (filter f (iterate_seq b))"

fun filter_node :: "(entry \<Rightarrow> bool) \<Rightarrow> ctree \<Rightarrow> ctree option" where
  "filter_node f Nil_node = Some Nil_node"
| "filter_node f (Compressed es s a) = filter_bc (Compressed es s a) f"
| "filter_node f (Regular l e s a r) =
     do {
       l' \<leftarrow> filter_node f l;
       r' \<leftarrow> filter_node f r;
       if f e then join l' e r' else join2 l' r' }"

text \<open>With a test on boxes at the root; the recursive calls are those of the plain filter.\<close>

definition filter_bb :: "(entry \<Rightarrow> bool) \<Rightarrow> (Bounding_Box \<Rightarrow> bool) \<Rightarrow> ctree \<Rightarrow> ctree option" where
  "filter_bb f fb b =
     (if b = Nil_node then Some Nil_node
      else if \<not> fb (fst (aug_val b)) then Some Nil_node
      else if is_compressed b then filter_bc b f
      else do {
        (lc, e, rc) \<leftarrow> expose b;
        l \<leftarrow> filter_node f lc;
        r \<leftarrow> filter_node f rc;
        if f e then join l e r else join2 l r })"

fun reverse_node :: "ctree \<Rightarrow> ctree option" where
  "reverse_node Nil_node = Some Nil_node"
| "reverse_node (Compressed es s a) = make_single_compressed_node (List.rev es)"
| "reverse_node (Regular l e s a r) =
     do {
       l' \<leftarrow> reverse_node l;
       r' \<leftarrow> reverse_node r;
       node_join r' l' e }"

section \<open>Traversals\<close>

text \<open>\<open>foreach_index\<close>: the calls of the body, in the order of a sequential run.\<close>

fun foreach_index :: "ctree \<Rightarrow> nat \<Rightarrow> (nat \<times> entry) list" where
  "foreach_index Nil_node start = []"
| "foreach_index (Compressed es s a) start = enumerate start es"
| "foreach_index (Regular l e s a r) start =
     (let lsize = csize l in
      (start + lsize, e) # foreach_index l start @ foreach_index r (start + lsize + 1))"

definition to_seq :: "(entry \<Rightarrow> 'a) \<Rightarrow> ctree \<Rightarrow> 'a option list" where
  "to_seq f m = map (\<lambda>i. map_option f (map_of (foreach_index m 0) i)) [0..<csize m]"

definition values_of :: "ctree \<Rightarrow> point option list" where
  "values_of m = to_seq snd m"

fun foreach_cond :: "(entry \<Rightarrow> 's \<Rightarrow> bool \<times> 's) \<Rightarrow> ctree \<Rightarrow> 's \<Rightarrow> bool \<times> 's" where
  "foreach_cond f Nil_node st = (True, st)"
| "foreach_cond f (Compressed es s a) st = iterate_cond f (Compressed es s a) st"
| "foreach_cond f (Regular l e s a r) st =
     (case foreach_cond f l st of (go, st1) \<Rightarrow>
        if go then (case f e st1 of (go, st2) \<Rightarrow> if go then foreach_cond f r st2 else (False, st2))
        else (False, st1))"

fun map_reduce :: "(entry \<Rightarrow> 'm) \<Rightarrow> ('m \<Rightarrow> 'm \<Rightarrow> 'm) \<Rightarrow> 'm \<Rightarrow> ctree \<Rightarrow> 'm" where
  "map_reduce f add ident Nil_node = ident"
| "map_reduce f add ident (Compressed es s a) = foldl (\<lambda>v e. add v (f e)) ident es"
| "map_reduce f add ident (Regular l e s a r) =
     add (map_reduce f add ident l) (add (f e) (map_reduce f add ident r))"

fun find_unsorted :: "ctree \<Rightarrow> entry \<Rightarrow> nat option" where
  "find_unsorted Nil_node e = None"
| "find_unsorted (Compressed es s a) e =
     snd (snd (iterate_cond (\<lambda>x (i, ret). if fst e = fst x \<and> point_eq (snd e) (snd x) then (False, i, Some i) else (True, i + 1, ret))
       (Compressed es s a) (0, None)))"
| "find_unsorted (Regular l x s a r) e =
     (case find_unsorted l e of Some i \<Rightarrow> Some i | None \<Rightarrow> find_unsorted r e)"

text \<open>Inner nodes, leaves and entries in leaves.\<close>

fun node_stats :: "ctree \<Rightarrow> nat \<times> nat \<times> nat" where
  "node_stats Nil_node = (0, 0, 0)"
| "node_stats (Compressed es s a) = (0, 1, s)"
| "node_stats (Regular l e s a r) =
     (case node_stats l of (i1, f1, s1) \<Rightarrow>
      case node_stats r of (i2, f2, s2) \<Rightarrow> (i1 + i2 + 1, f1 + f2, s1 + s2))"

end
