(* ===== verification/CpamSeqOk.thy ===== *)
theory CpamSeqOk
  imports CpamSeq
begin

text \<open>
  What the routines on sequences compute, and that they return. A tree below the
  range of the 32-bit counters is the hypothesis throughout.
\<close>

section \<open>Ranks\<close>

lemma decode_select:
  "i \<le> rnk \<Longrightarrow>
   snd (snd (decode_cond (\<lambda>e (i, ret). if i = rnk then (False, i, Some e) else (True, i + 1, ret)) es (i, None))) =
   (if rnk - i < length es then Some (es ! (rnk - i)) else None)"
proof (induction es arbitrary: i)
  case (Cons e es)
  show ?case
  proof (cases "i = rnk")
    case False
    then have "i + 1 \<le> rnk" "rnk - i = Suc (rnk - (i + 1))" using Cons.prems by auto
    then show ?thesis using False Cons.IH [of "i + 1"] by simp
  qed simp
qed simp

lemma select_ok:
  "fields_ok t \<Longrightarrow> cnt t < 2 ^ 32 \<Longrightarrow> select t rnk = (if rnk < cnt t then Some (iterate_seq t ! rnk) else None)"
proof (induction t arbitrary: rnk)
  case (Regular l e s a r)
  have c: "csize l = cnt l" using Regular.prems by (simp add: csize_count)
  consider "rnk > cnt l" | "rnk < cnt l" | "rnk = cnt l" by linarith
  then show ?case
  proof cases
    case 1
    then show ?thesis using Regular c by (auto simp: nth_append nth_Cons' Let_def)
  qed (use Regular c in \<open>simp_all add: nth_append Let_def\<close>)
next
  case (Compressed es s a)
  show ?case using decode_select [of 0 rnk es] by (simp add: select_compressed_def)
qed simp

lemma sub64_exact: "b \<le> a \<Longrightarrow> a < 2 ^ 64 \<Longrightarrow> sub64 a b = a - b"
proof -
  assume "b \<le> a" "a < 2 ^ 64"
  then have "a + 2 ^ 64 - b = a - b + 2 ^ 64" by simp
  then show "sub64 a b = a - b" unfolding sub64_def using \<open>a < 2 ^ 64\<close> by (simp only: mod_add_self2) simp
qed

text \<open>Small trees and single blocks: what the base cases of the routines rebuild.\<close>

lemma root_compressed: "root_ok (Compressed es s a) \<Longrightarrow> length es \<le> 80"
  using root_fields [of "Compressed es s a"] by (simp add: kBlockSize_def)

lemma take_all:
  "cnode t \<Longrightarrow> cnt t + 2 < 2 ^ 32 \<Longrightarrow> cnt t \<le> rnk \<Longrightarrow> rnk < 2 ^ 64 \<Longrightarrow> holds_node (take_node t rnk) (iterate_seq t)"
proof (induction t arbitrary: rnk)
  case (Regular l e s a r)
  note sons = cnode_sons [OF Regular.prems(1)]
  have c: "csize l = cnt l" using Regular.prems sons by (simp add: csize_count cnode_fields)
  have "sub64 (sub64 rnk (cnt l)) 1 = rnk - cnt l - 1" using Regular.prems(3,4) by (simp add: sub64_exact)
  moreover have "holds_node (take_node r (rnk - cnt l - 1)) (iterate_seq r)"
    by (rule Regular.IH(2)) (use sons Regular.prems in simp_all)
  ultimately obtain r' where r': "take_node r (sub64 (sub64 rnk (cnt l)) 1) = Some r'" "cnode r'" "iterate_seq r' = iterate_seq r"
    by (auto elim: holds_nodeE)
  then show ?case using node_join_ok [OF sons(1) r'(2), of e] Regular.prems c by (simp add: Let_def)
next
  case (Compressed es s a)
  then show ?case using from_buffer_ok [of es] cnode_fields(1) [OF Compressed.prems(1)]
    by (simp add: take_compressed_def kBlockSize_def)
qed (simp add: holds_node_SomeI)

lemma suffix_beyond: "fields_ok t \<Longrightarrow> cnt t < 2 ^ 32 \<Longrightarrow> cnt t < rnk \<Longrightarrow> holds_node (suffix t rnk) []"
proof (induction t arbitrary: rnk)
  case (Regular l e s a r)
  then show ?case by (simp add: csize_count Let_def)
next
  case (Compressed es s a)
  have "filter (\<lambda>(i, e). rnk \<le> i) (enumerate 0 es) = []"
    using Compressed.prems by (auto simp: filter_empty_conv in_set_enumerate_eq)
  then show ?case using from_buffer_ok [of "[]"] by (simp add: entry_bc_def)
qed (simp add: holds_node_SomeI)

section \<open>Concatenation, mapping and filtering\<close>

lemma join2_ok:
  "cnode b1 \<Longrightarrow> cnode b2 \<Longrightarrow> cnt b1 + cnt b2 + 2 < 2 ^ 32 \<Longrightarrow>
   holds_node (join2 b1 b2) (iterate_seq b1 @ iterate_seq b2)"
proof (induction b1 b2 rule: join2.induct)
  case (1 b1 b2)
  note ok = "1.prems"(1,2) and f = cnode_fields(1) [OF "1.prems"(1)] cnode_fields(1) [OF "1.prems"(2)]
  have c: "csize b1 = cnt b1" "csize b2 = cnt b2" using f "1.prems"(3) by (simp_all add: csize_count)
  consider "b1 = Nil_node" | "b2 = Nil_node" | "b1 \<noteq> Nil_node" "b2 \<noteq> Nil_node" by blast
  then show ?case
  proof cases
    case 3
    define gather where "gather = (is_compressed (if cnt b1 > cnt b2 then b1 else b2) \<or> will_be_compressed (cnt b1 + cnt b2))"
    show ?thesis
    proof (cases gather)
      case True
      have "40 \<le> cnt b1 \<and> cnt b1 \<le> 80" if "is_compressed b1"
        using that compressed_full [OF ok(1)] compressed_count [OF f(1)] full_count by (fastforce simp: kBlockSize_def)
      moreover have "40 \<le> cnt b2 \<and> cnt b2 \<le> 80" if "is_compressed b2"
        using that compressed_full [OF ok(2)] compressed_count [OF f(2)] full_count by (fastforce simp: kBlockSize_def)
      ultimately have "40 \<le> cnt b1 + cnt b2" "cnt b1 + cnt b2 \<le> 280"
        using True unfolding gather_def by (auto simp: will_be_compressed_def kBlockSize_def split: if_splits)
      then have "holds_node (make_compressed b1 b2 None) (iterate_seq b1 @ iterate_seq b2)"
        using make_compressed_two_ok f by simp
      then show ?thesis using True 3 c unfolding gather_def by (auto simp: join2.simps [of b1 b2])
    next
      case False
      show ?thesis
      proof (cases "cnt b1 > cnt b2")
        case True
        obtain lc e rc where x: "expose b1 = Some (lc, e, rc)" "cnode lc" "cnode rc"
          "iterate_seq b1 = iterate_seq lc @ e # iterate_seq rc"
          using expose_ok [OF cnode_root_ok [OF ok(1)] 3(1)] by blast
        obtain r where r: "join2 rc b2 = Some r" "cnode r" "iterate_seq r = iterate_seq rc @ iterate_seq b2"
          using "1.IH"(1) [OF 3 _ _ x(1) refl refl x(3) ok(2)] True False c x(4) "1.prems"(3)
          unfolding gather_def by (auto elim!: holds_nodeE)
        have "holds_node (join lc e r) (iterate_seq lc @ e # iterate_seq r)"
          using join_ok [OF x(2) r(2)] x(4) r(3) "1.prems"(3) by simp
        then show ?thesis using True False 3 c x r unfolding gather_def by (simp add: join2.simps [of b1 b2])
      next
        case le: False
        obtain lc e rc where x: "expose b2 = Some (lc, e, rc)" "cnode lc" "cnode rc"
          "iterate_seq b2 = iterate_seq lc @ e # iterate_seq rc"
          using expose_ok [OF cnode_root_ok [OF ok(2)] 3(2)] by blast
        obtain l where l: "join2 b1 lc = Some l" "cnode l" "iterate_seq l = iterate_seq b1 @ iterate_seq lc"
          using "1.IH"(2) [OF 3 _ _ x(1) refl refl ok(1) x(2)] le False c x(4) "1.prems"(3)
          unfolding gather_def by (auto elim!: holds_nodeE)
        have "holds_node (join l e rc) (iterate_seq l @ e # iterate_seq rc)"
          using join_ok [OF l(2) x(3)] x(4) l(3) "1.prems"(3) by simp
        then show ?thesis using le False 3 c x l unfolding gather_def by (simp add: join2.simps [of b1 b2])
      qed
    qed
  qed (use ok in \<open>simp_all add: join2.simps [of Nil_node b2] join2.simps [of b1 Nil_node] holds_node_SomeI\<close>)
qed

lemma map_entries_ok:
  "cnode t \<Longrightarrow> cnt t + 2 < 2 ^ 32 \<Longrightarrow> holds_node (map_entries f t) (map f (iterate_seq t))"
proof (induction t)
  case (Regular l e s a r)
  note sons = cnode_sons [OF Regular.prems(1)]
  obtain l' where l': "map_entries f l = Some l'" "cnode l'" "iterate_seq l' = map f (iterate_seq l)"
    using Regular.IH(1) sons Regular.prems by (auto elim!: holds_nodeE)
  obtain r' where r': "map_entries f r = Some r'" "cnode r'" "iterate_seq r' = map f (iterate_seq r)"
    using Regular.IH(2) sons Regular.prems by (auto elim!: holds_nodeE)
  show ?case using node_join_ok [OF l'(2) r'(2), of "f e"] l' r' Regular.prems by simp
next
  case (Compressed es s a)
  have "40 \<le> length es" "length es \<le> 80"
    using compressed_full [OF Compressed.prems(1)] cnode_fields(1) [OF Compressed.prems(1)] by (simp_all add: kBlockSize_def)
  then show ?case using make_compressed_array_ok [of "map f es"] by simp
qed (simp add: holds_node_SomeI)

lemma filter_bc_ok: "root_ok b \<Longrightarrow> is_compressed b \<Longrightarrow> holds_node (filter_bc b f) (filter f (iterate_seq b))"
proof -
  assume "root_ok b" "is_compressed b"
  then have "cnt b \<le> 80" using compressed_count [OF root_fields, of b] by (simp add: kBlockSize_def)
  then have "length (filter f (iterate_seq b)) \<le> 322"
    using length_filter_le [of f "iterate_seq b"] by linarith
  then show ?thesis unfolding filter_bc_def by (rule from_buffer_ok)
qed

lemma filter_node_ok:
  "cnode t \<Longrightarrow> cnt t + 2 < 2 ^ 32 \<Longrightarrow> holds_node (filter_node f t) (filter f (iterate_seq t))"
proof (induction t)
  case (Regular l e s a r)
  note sons = cnode_sons [OF Regular.prems(1)]
  obtain l' where l': "filter_node f l = Some l'" "cnode l'" "iterate_seq l' = filter f (iterate_seq l)"
    using Regular.IH(1) sons Regular.prems by (auto elim!: holds_nodeE)
  obtain r' where r': "filter_node f r = Some r'" "cnode r'" "iterate_seq r' = filter f (iterate_seq r)"
    using Regular.IH(2) sons Regular.prems by (auto elim!: holds_nodeE)
  have "cnt l' \<le> cnt l" "cnt r' \<le> cnt r" unfolding l' r' by (rule length_filter_le)+
  then have "cnt l' + cnt r' + 2 < 2 ^ 32" using Regular.prems(2) by simp
  then show ?case using join_ok [OF l'(2) r'(2), of e] join2_ok [OF l'(2) r'(2)] l' r' by simp
next
  case (Compressed es s a)
  then show ?case using filter_bc_ok [OF cnode_root_ok [OF Compressed.prems(1)]] by simp
qed (simp add: holds_node_SomeI)

lemma reverse_ok:
  "cnode t \<Longrightarrow> cnt t + 2 < 2 ^ 32 \<Longrightarrow> holds_node (reverse_node t) (List.rev (iterate_seq t))"
proof (induction t)
  case (Regular l e s a r)
  note sons = cnode_sons [OF Regular.prems(1)]
  obtain l' where l': "reverse_node l = Some l'" "cnode l'" "iterate_seq l' = List.rev (iterate_seq l)"
    using Regular.IH(1) sons Regular.prems by (auto elim!: holds_nodeE)
  obtain r' where r': "reverse_node r = Some r'" "cnode r'" "iterate_seq r' = List.rev (iterate_seq r)"
    using Regular.IH(2) sons Regular.prems by (auto elim!: holds_nodeE)
  show ?case using node_join_ok [OF r'(2) l'(2), of e] l' r' Regular.prems by simp
next
  case (Compressed es s a)
  have "es \<noteq> []" "40 \<le> length es" "length es \<le> 80"
    using compressed_full [OF Compressed.prems(1)] cnode_fields(1) [OF Compressed.prems(1)] by (simp_all add: kBlockSize_def)
  then show ?case using make_single_ok [of "List.rev es"] by (auto simp: holds_node_def cnode_def)
qed (simp add: holds_node_SomeI)

section \<open>Traversals\<close>

lemma foreach_index_ok:
  "fields_ok t \<Longrightarrow> cnt t < 2 ^ 32 \<Longrightarrow>
   map_of (foreach_index t start) i = (if start \<le> i \<and> i < start + cnt t then Some (iterate_seq t ! (i - start)) else None)"
proof (induction t arbitrary: start)
  case (Regular l e s a r)
  have c: "csize l = cnt l" using Regular.prems by (simp add: csize_count)
  have IH: "map_of (foreach_index l start) i = (if start \<le> i \<and> i < start + cnt l then Some (iterate_seq l ! (i - start)) else None)"
    "map_of (foreach_index r (Suc (start + cnt l))) i =
      (if Suc (start + cnt l) \<le> i \<and> i < Suc (start + cnt l) + cnt r then Some (iterate_seq r ! (i - Suc (start + cnt l))) else None)"
    using Regular by simp_all
  consider "i < start + cnt l" | "i = start + cnt l" | "start + cnt l < i" by linarith
  then show ?case
    by cases (auto simp: c IH Let_def nth_append map_add_def nth_Cons' split: option.splits)
next
  case (Compressed es s a)
  show ?case
  proof (cases "start \<le> i \<and> i < start + length es")
    case True
    then have "(i, es ! (i - start)) \<in> set (enumerate start es)" by (simp add: in_set_enumerate_eq)
    then show ?thesis using True by (simp add: map_of_is_SomeI)
  next
    case False
    then have "i \<notin> fst ` set (enumerate start es)" by (auto simp: in_set_enumerate_eq)
    then have "map_of (foreach_index (Compressed es s a) start) i = None" by (simp add: map_of_eq_None_iff)
    then show ?thesis using False by auto
  qed
qed simp

lemma to_seq_ok: "fields_ok t \<Longrightarrow> cnt t < 2 ^ 32 \<Longrightarrow> to_seq f t = map (\<lambda>e. Some (f e)) (iterate_seq t)"
proof (rule nth_equalityI)
  assume ok: "fields_ok t" "cnt t < 2 ^ 32"
  then show len: "length (to_seq f t) = length (map (\<lambda>e. Some (f e)) (iterate_seq t))"
    by (simp add: to_seq_def csize_count)
  fix i assume i: "i < length (to_seq f t)"
  then have "i < cnt t" using len by simp
  moreover have "map_of (foreach_index t 0) i = Some (iterate_seq t ! i)"
    using foreach_index_ok [OF ok, of 0 i] \<open>i < cnt t\<close> by simp
  ultimately show "to_seq f t ! i = map (\<lambda>e. Some (f e)) (iterate_seq t) ! i"
    using csize_count [OF ok] by (simp add: to_seq_def)
qed

lemma values_ok: "fields_ok t \<Longrightarrow> cnt t < 2 ^ 32 \<Longrightarrow> values_of t = map (\<lambda>e. Some (snd e)) (iterate_seq t)"
  by (simp add: values_of_def to_seq_ok)

lemma node_stats_ok:
  "fields_ok t \<Longrightarrow> cnt t < 2 ^ 32 \<Longrightarrow> fst (node_stats t) + snd (snd (node_stats t)) = cnt t"
proof (induction t)
  case (Regular l e s a r)
  then show ?case by (cases "node_stats l"; cases "node_stats r") simp
qed (auto simp: u32_def)

end
