(* ===== verification/CpamMap.thy ===== *)
theory CpamMap
  imports CpamSeqOk
begin

text \<open>
  \<open>map_ops.h\<close>: trees as maps from keys to points, the keys compared with \<open><\<close>.
  Searches, splitting, the set operations with their base cases on buffers, ranges
  of keys, single insertions, deletions and updates. The buffers of the base
  cases have a fixed size; a routine that would write past one is \<open>None\<close>.
\<close>

section \<open>Searches\<close>

abbreviation comp :: "zkey \<Rightarrow> zkey \<Rightarrow> bool" where
  "comp a b \<equiv> a < b"

definition find_compressed :: "ctree \<Rightarrow> zkey \<Rightarrow> entry option" where
  "find_compressed b key =
     foldl (\<lambda>ret et. if \<not> (comp key (fst et) \<or> comp (fst et) key) then Some et else ret) None (iterate_seq b)"

fun find_entry :: "ctree \<Rightarrow> zkey \<Rightarrow> entry option" where
  "find_entry Nil_node key = None"
| "find_entry (Compressed es s a) key = find_compressed (Compressed es s a) key"
| "find_entry (Regular l e s a r) key =
     (if comp key (fst e) then find_entry l key
      else if comp (fst e) key then find_entry r key
      else Some e)"

text \<open>The search \<open>find\<close> of a block in \<open>compression.h\<close>, used by \<open>find2\<close>.\<close>

definition encoder_find :: "ctree \<Rightarrow> zkey \<Rightarrow> entry option" where
  "encoder_find b k =
     snd (iterate_cond (\<lambda>et ret. if \<not> (comp k (fst et) \<or> comp (fst et) k) then (False, Some et) else (True, ret)) b None)"

fun find2 :: "ctree \<Rightarrow> zkey \<Rightarrow> entry option" where
  "find2 Nil_node key = None"
| "find2 (Compressed es s a) key = encoder_find (Compressed es s a) key"
| "find2 (Regular l e s a r) key =
     (if comp key (fst e) then find2 l key
      else if comp (fst e) key then find2 r key
      else Some e)"

fun rank :: "ctree \<Rightarrow> zkey \<Rightarrow> nat \<Rightarrow> nat" where
  "rank Nil_node key acc = acc"
| "rank (Compressed es s a) key acc = foldl (\<lambda>c et. if comp (fst et) key then c + 1 else c) acc es"
| "rank (Regular l e s a r) key acc =
     (if comp (fst e) key then rank r key (acc + csize l + 1)
      else if \<not> comp key (fst e) then acc + csize l
      else rank l key acc)"

section \<open>Splitting at a key\<close>

function split_at_key :: "ctree \<Rightarrow> zkey \<Rightarrow> (ctree \<times> entry option \<times> ctree) option" where
  "split_at_key a k =
     (if a = Nil_node then Some (Nil_node, None, Nil_node)
      else do {
        (lc, e, rc) \<leftarrow> expose a;
        if comp (fst e) k then do {
          (bl, mid, br) \<leftarrow> split_at_key rc k;
          l \<leftarrow> join lc e bl;
          Some (l, mid, br) }
        else if comp k (fst e) then do {
          (bl, mid, br) \<leftarrow> split_at_key lc k;
          r \<leftarrow> join br e rc;
          Some (bl, mid, r) }
        else Some (lc, Some e, rc) })"
  by pat_completeness auto
termination
  by (relation "measure (\<lambda>(a, k). cnt a)") (auto simp: expose_smaller)

declare split_at_key.simps [simp del]

section \<open>Base cases\<close>

text \<open>An array of \<open>n\<close> entries on the stack.\<close>

definition fill_buffer :: "nat \<Rightarrow> entry list \<Rightarrow> entry list option" where
  "fill_buffer n xs = (if length xs \<le> n then Some xs else None)"

definition combine_values :: "entry \<Rightarrow> entry \<Rightarrow> bool \<Rightarrow> (point \<Rightarrow> point \<Rightarrow> point) \<Rightarrow> entry" where
  "combine_values re e reverse op =
     (if reverse then (fst re, op (snd e) (snd re)) else (fst re, op (snd re) (snd e)))"

text \<open>The merging loops of the base cases, over what is left of both inputs.\<close>

fun merge_entries :: "(point \<Rightarrow> point \<Rightarrow> point) \<Rightarrow> entry list \<Rightarrow> entry list \<Rightarrow> entry list" where
  "merge_entries op [] bs = bs"
| "merge_entries op as [] = as"
| "merge_entries op (a # as) (b # bs) =
     (if comp (fst a) (fst b) then a # merge_entries op as (b # bs)
      else if comp (fst b) (fst a) then b # merge_entries op (a # as) bs
      else (fst a, op (snd a) (snd b)) # merge_entries op as bs)"

fun subtract_keys :: "entry list \<Rightarrow> zkey list \<Rightarrow> entry list" where
  "subtract_keys [] ks = []"
| "subtract_keys as [] = as"
| "subtract_keys (a # as) (k # ks) =
     (if comp (fst a) k then a # subtract_keys as (k # ks)
      else if comp k (fst a) then subtract_keys (a # as) ks
      else subtract_keys as ks)"

fun common_entries :: "(point \<Rightarrow> point \<Rightarrow> point) \<Rightarrow> entry list \<Rightarrow> entry list \<Rightarrow> entry list" where
  "common_entries op [] bs = []"
| "common_entries op as [] = []"
| "common_entries op (a # as) (b # bs) =
     (if comp (fst a) (fst b) then common_entries op as (b # bs)
      else if comp (fst b) (fst a) then common_entries op (a # as) bs
      else (fst a, op (snd b) (snd a)) # common_entries op as bs)"

definition union_bc :: "ctree \<Rightarrow> ctree \<Rightarrow> (point \<Rightarrow> point \<Rightarrow> point) \<Rightarrow> ctree option" where
  "union_bc b1 b2 op = do {
     stack \<leftarrow> fill_buffer (kBaseCaseSize + 1) (iterate_seq b1 @ iterate_seq b2);
     output \<leftarrow> fill_buffer (kBaseCaseSize + 1)
       (merge_entries (\<lambda>vi vj. op vj vi) (take (cnt b1) stack) (drop (cnt b1) stack));
     from_buffer output }"

definition intersect_bc :: "ctree \<Rightarrow> ctree \<Rightarrow> (point \<Rightarrow> point \<Rightarrow> point) \<Rightarrow> ctree option" where
  "intersect_bc b1 b2 op = do {
     stack \<leftarrow> fill_buffer (kBaseCaseSize + 1) (iterate_seq b1 @ iterate_seq b2);
     output \<leftarrow> fill_buffer (kBaseCaseSize + 1) (common_entries op (take (cnt b1) stack) (drop (cnt b1) stack));
     from_buffer output }"

definition difference_bc :: "ctree \<Rightarrow> ctree \<Rightarrow> ctree option" where
  "difference_bc b1 b2 = do {
     stack \<leftarrow> fill_buffer (kBaseCaseSize + 1) (iterate_seq b1 @ iterate_seq b2);
     output \<leftarrow> fill_buffer (kBaseCaseSize + 1) (subtract_keys (take (cnt b1) stack) (map fst (drop (cnt b1) stack)));
     from_buffer output }"

section \<open>Union, intersection, difference\<close>

function uniont :: "ctree \<Rightarrow> ctree \<Rightarrow> (point \<Rightarrow> point \<Rightarrow> point) \<Rightarrow> ctree option" where
  "uniont b1 b2 op =
     (if b1 = Nil_node then Some b2
      else if b2 = Nil_node then Some b1
      else if csize b1 + csize b2 \<le> kBaseCaseSize then union_bc b1 b2 op
      else do {
        (l2, e, r2) \<leftarrow> expose b2;
        (sl, smid, sr) \<leftarrow> split_at_key b1 (fst e);
        l \<leftarrow> uniont sl l2 op;
        r \<leftarrow> uniont sr r2 op;
        node_join l r (case smid of None \<Rightarrow> e | Some m \<Rightarrow> combine_values e m True op) })"
  by pat_completeness auto
termination
  by (relation "measure (\<lambda>(b1, b2, op). cnt b2)") (auto simp: expose_smaller)

function intersect :: "ctree \<Rightarrow> ctree \<Rightarrow> (point \<Rightarrow> point \<Rightarrow> point) \<Rightarrow> ctree option" where
  "intersect b1 b2 op =
     (if b1 = Nil_node then Some Nil_node
      else if b2 = Nil_node then Some Nil_node
      else if csize b1 + csize b2 \<le> kBaseCaseSize then intersect_bc b1 b2 op
      else do {
        (l2, e2, r2) \<leftarrow> expose b2;
        (sl, smid, sr) \<leftarrow> split_at_key b1 (fst e2);
        l \<leftarrow> intersect sl l2 op;
        r \<leftarrow> intersect sr r2 op;
        case smid of
          Some m \<Rightarrow> join l (fst e2, op (snd m) (snd e2)) r
        | None \<Rightarrow> join2 l r })"
  by pat_completeness auto
termination
  by (relation "measure (\<lambda>(b1, b2, op). cnt b2)") (auto simp: expose_smaller)

function difference :: "ctree \<Rightarrow> ctree \<Rightarrow> ctree option" where
  "difference b1 b2 =
     (if b1 = Nil_node then Some Nil_node
      else if b2 = Nil_node then Some b1
      else if csize b1 + csize b2 \<le> kBaseCaseSize then difference_bc b1 b2
      else do {
        (l1, e, r1) \<leftarrow> expose b1;
        (sl, smid, sr) \<leftarrow> split_at_key b2 (fst e);
        l \<leftarrow> difference l1 sl;
        r \<leftarrow> difference r1 sr;
        if smid \<noteq> None then join2 l r else node_join l r e })"
  by pat_completeness auto
termination
  by (relation "measure (\<lambda>(b1, b2). cnt b1)") (auto simp: expose_smaller)

declare uniont.simps [simp del] intersect.simps [simp del] difference.simps [simp del]

section \<open>Ranges of keys\<close>

fun range_root_2 :: "ctree \<Rightarrow> zkey \<Rightarrow> zkey \<Rightarrow> ctree" where
  "range_root_2 Nil_node lo hi = Nil_node"
| "range_root_2 (Compressed es s a) lo hi = Compressed es s a"
| "range_root_2 (Regular l e s a r) lo hi =
     (if comp hi (fst e) then range_root_2 l lo hi
      else if comp (fst e) lo then range_root_2 r lo hi
      else Regular l e s a r)"

definition comp_bc :: "ctree \<Rightarrow> (zkey \<Rightarrow> bool) \<Rightarrow> ctree option" where
  "comp_bc b f = do {
     stack \<leftarrow> fill_buffer (2 * kBlockSize) (filter (\<lambda>a. f (fst a)) (iterate_seq b));
     from_buffer stack }"

fun left_2 :: "ctree \<Rightarrow> zkey \<Rightarrow> ctree option" where
  "left_2 Nil_node e = Some Nil_node"
| "left_2 (Compressed es s a) e = comp_bc (Compressed es s a) (\<lambda>k. k \<le> e)"
| "left_2 (Regular l x s a r) e =
     (if comp e (fst x) then left_2 l e
      else do { r' \<leftarrow> left_2 r e; join l x r' })"

fun right_2 :: "ctree \<Rightarrow> zkey \<Rightarrow> ctree option" where
  "right_2 Nil_node e = Some Nil_node"
| "right_2 (Compressed es s a) e = comp_bc (Compressed es s a) (\<lambda>k. e \<le> k)"
| "right_2 (Regular l x s a r) e =
     (if comp (fst x) e then right_2 r e
      else do { l' \<leftarrow> right_2 l e; join l' x r })"

definition range_2 :: "ctree \<Rightarrow> zkey \<Rightarrow> zkey \<Rightarrow> ctree option" where
  "range_2 b low high =
     (let r = range_root_2 b low high in
      if r = Nil_node then Some Nil_node
      else if is_compressed r then comp_bc r (\<lambda>k. low \<le> k \<and> k \<le> high)
      else do {
        (lc, e, rc) \<leftarrow> expose_simple r;
        l \<leftarrow> right_2 lc low;
        r \<leftarrow> left_2 rc high;
        join l e r })"

section \<open>Single insertions, deletions and updates\<close>

text \<open>
  The entries the loop of \<open>insert_compressed2\<close> writes. At the first entry with a
  larger key it writes the new entry, and goes on with the next one.
\<close>

fun insert_merged :: "entry \<Rightarrow> (point \<Rightarrow> point \<Rightarrow> point) \<Rightarrow> entry list \<Rightarrow> bool \<Rightarrow> entry list" where
  "insert_merged e f [] placed = (if placed then [] else [e])"
| "insert_merged e f (et # es) placed =
     (if placed then et # insert_merged e f es True
      else if comp (fst et) (fst e) then et # insert_merged e f es False
      else if comp (fst e) (fst et) then e # insert_merged e f es True
      else combine_values et e True f # insert_merged e f es True)"

definition insert_compressed2 :: "ctree \<Rightarrow> entry \<Rightarrow> (point \<Rightarrow> point \<Rightarrow> point) \<Rightarrow> ctree option" where
  "insert_compressed2 b e f = do {
     merged \<leftarrow> fill_buffer (2 * kBlockSize + 1) (insert_merged e f (iterate_seq b) False);
     make_compressed_array merged }"

fun insert_tmpl :: "ctree \<Rightarrow> entry \<Rightarrow> (point \<Rightarrow> point \<Rightarrow> point) \<Rightarrow> (ctree \<Rightarrow> ctree \<Rightarrow> entry \<Rightarrow> ctree option) \<Rightarrow> ctree option" where
  "insert_tmpl Nil_node e f jn = Some (single e)"
| "insert_tmpl (Compressed es s a) e f jn = insert_compressed2 (Compressed es s a) e f"
| "insert_tmpl (Regular l x s a r) e f jn =
     (if comp (fst x) (fst e) then do { r' \<leftarrow> insert_tmpl r e f jn; jn l r' x }
      else if comp (fst e) (fst x) then do { l' \<leftarrow> insert_tmpl l e f jn; jn l' r x }
      else jn l r (combine_values e x True f))"

definition insert_node :: "ctree \<Rightarrow> entry \<Rightarrow> (point \<Rightarrow> point \<Rightarrow> point) \<Rightarrow> ctree option" where
  "insert_node b e f = insert_tmpl b e f node_join"

definition remove_compressed3 :: "ctree \<Rightarrow> zkey \<Rightarrow> ctree option" where
  "remove_compressed3 b k = do {
     merged \<leftarrow> fill_buffer (2 * kBlockSize) (filter (\<lambda>et. comp (fst et) k \<or> comp k (fst et)) (iterate_seq b));
     from_buffer merged }"

text \<open>\<open>my_remove_2\<close> treats a block at the root itself; below it \<open>my_remove\<close> exposes blocks.\<close>

function my_remove :: "ctree \<Rightarrow> zkey \<Rightarrow> (ctree \<Rightarrow> ctree \<Rightarrow> entry \<Rightarrow> ctree option) \<Rightarrow> ctree option" where
  "my_remove b k jn =
     (if b = Nil_node then Some Nil_node
      else do {
        (lc, e, rc) \<leftarrow> expose b;
        if comp (fst e) k then do { ret \<leftarrow> my_remove rc k jn; jn lc ret e }
        else if comp k (fst e) then do { ret \<leftarrow> my_remove lc k jn; jn ret rc e }
        else join2 lc rc })"
  by pat_completeness auto
termination
  by (relation "measure (\<lambda>(b, k, jn). cnt b)") (auto simp: expose_smaller)

declare my_remove.simps [simp del]

definition my_remove_2 :: "ctree \<Rightarrow> zkey \<Rightarrow> (ctree \<Rightarrow> ctree \<Rightarrow> entry \<Rightarrow> ctree option) \<Rightarrow> ctree option" where
  "my_remove_2 b k jn =
     (if b = Nil_node then Some Nil_node
      else if is_compressed b then remove_compressed3 b k
      else do {
        (lc, e, rc) \<leftarrow> expose b;
        if comp (fst e) k then do { ret \<leftarrow> my_remove rc k jn; jn lc ret e }
        else if comp k (fst e) then do { ret \<leftarrow> my_remove lc k jn; jn ret rc e }
        else join2 lc rc })"

definition deletet :: "ctree \<Rightarrow> zkey \<Rightarrow> ctree option" where
  "deletet b k = my_remove_2 b k node_join"

fun update_merged :: "zkey \<Rightarrow> (entry \<Rightarrow> point) \<Rightarrow> entry list \<Rightarrow> entry list" where
  "update_merged key op [] = []"
| "update_merged key op (x # xs) =
     (if comp (fst x) key then x # update_merged key op xs
      else if comp key (fst x) then x # xs
      else (fst x, op x) # xs)"

definition update_compressed :: "ctree \<Rightarrow> zkey \<Rightarrow> (entry \<Rightarrow> point) \<Rightarrow> ctree option" where
  "update_compressed b key op = do {
     arr \<leftarrow> fill_buffer (2 * kBlockSize) (iterate_seq b);
     make_compressed_array (update_merged key op arr) }"

fun update_tmpl :: "ctree \<Rightarrow> zkey \<Rightarrow> (entry \<Rightarrow> point) \<Rightarrow> (ctree \<Rightarrow> ctree \<Rightarrow> entry \<Rightarrow> ctree option) \<Rightarrow> ctree option" where
  "update_tmpl Nil_node k f jn = Some Nil_node"
| "update_tmpl (Compressed es s a) k f jn = update_compressed (Compressed es s a) k f"
| "update_tmpl (Regular l x s a r) k f jn =
     (if comp (fst x) k then do { r' \<leftarrow> update_tmpl r k f jn; jn l r' x }
      else if comp k (fst x) then do { l' \<leftarrow> update_tmpl l k f jn; jn l' r x }
      else jn l r (fst x, f x))"

definition update_node :: "ctree \<Rightarrow> zkey \<Rightarrow> (entry \<Rightarrow> point) \<Rightarrow> ctree option" where
  "update_node b k f = update_tmpl b k f node_join"

end
