(* ===== verification/CpamBatch.thy ===== *)
theory CpamBatch
  imports CpamMap
begin

text \<open>
  The batch operations of \<open>map_ops.h\<close>, which walk a tree and a sorted array of keys
  or entries together; the search in that array (\<open>utils.h\<close>); and the operations of
  maps built on them (\<open>map.h\<close>, \<open>build.h\<close>). The sort of parlay is a
  parameter. A result array is the list of its assignments.
\<close>

section \<open>Searching a sorted array\<close>

fun PAM_linear_search :: "'a list \<Rightarrow> ('a \<Rightarrow> bool) \<Rightarrow> nat" where
  "PAM_linear_search [] lt = 0"
| "PAM_linear_search (x # xs) lt = (if \<not> lt x then 0 else Suc (PAM_linear_search xs lt))"

function PAM_search_loop :: "'a list \<Rightarrow> ('a \<Rightarrow> bool) \<Rightarrow> nat \<Rightarrow> nat \<Rightarrow> nat \<times> nat" where
  "PAM_search_loop A lt start fin =
     (if fin - start > 16 then
        let mid = (fin + start) div 2 in
        if \<not> lt (A ! mid) then PAM_search_loop A lt start mid
        else PAM_search_loop A lt (mid + 1) fin
      else (start, fin))"
  by pat_completeness auto
termination
  by (relation "measure (\<lambda>(A, lt, start, fin). fin - start)") auto

declare PAM_search_loop.simps [simp del]

definition PAM_binary_search :: "'a list \<Rightarrow> ('a \<Rightarrow> bool) \<Rightarrow> nat" where
  "PAM_binary_search A lt =
     (case PAM_search_loop A lt 0 (length A) of (start, fin) \<Rightarrow>
        start + PAM_linear_search (take (fin - start) (drop start A)) lt)"

section \<open>Batch deletion\<close>

definition multidelete_bc :: "ctree \<Rightarrow> zkey list \<Rightarrow> ctree option" where
  "multidelete_bc b A = do {
     stack \<leftarrow> fill_buffer (kBaseCaseSize + 1) (iterate_seq b);
     output \<leftarrow> fill_buffer (kBaseCaseSize + 1) (subtract_keys stack A);
     from_buffer output }"

function multi_delete_sorted :: "ctree \<Rightarrow> zkey list \<Rightarrow> ctree option" where
  "multi_delete_sorted b A =
     (if b = Nil_node then Some Nil_node
      else if A = [] then Some b
      else if csize b \<le> kBaseCaseSize then multidelete_bc b A
      else do {
        (lc, e, rc) \<leftarrow> expose b;
        let mid = PAM_binary_search A (\<lambda>a. comp a (fst e));
        let dup = (mid < length A \<and> \<not> comp (fst e) (A ! mid));
        l \<leftarrow> multi_delete_sorted lc (take mid A);
        r \<leftarrow> multi_delete_sorted rc (drop (mid + of_bool dup) A);
        if \<not> dup then node_join l r e else join2 l r })"
  by pat_completeness auto
termination
  by (relation "measure (\<lambda>(b, A). cnt b)") (auto simp: expose_smaller)

section \<open>Batch insertion\<close>

definition multiinsert_bc :: "ctree \<Rightarrow> entry list \<Rightarrow> (point \<Rightarrow> point \<Rightarrow> point) \<Rightarrow> ctree option" where
  "multiinsert_bc b A op = do {
     stack \<leftarrow> fill_buffer (kBaseCaseSize + 1) (iterate_seq b);
     output \<leftarrow> fill_buffer (kBaseCaseSize + 1) (merge_entries op stack A);
     from_buffer output }"

function multi_insert_sorted :: "ctree \<Rightarrow> entry list \<Rightarrow> (point \<Rightarrow> point \<Rightarrow> point) \<Rightarrow> ctree option" where
  "multi_insert_sorted b A op =
     (if b = Nil_node then from_array A
      else if A = [] then Some b
      else if csize b + length A \<le> kBaseCaseSize then multiinsert_bc b A op
      else do {
        (lc, e, rc) \<leftarrow> expose b;
        let mid = PAM_binary_search A (\<lambda>a. comp (fst a) (fst e));
        let dup = (mid < length A \<and> \<not> comp (fst e) (fst (A ! mid)));
        l \<leftarrow> multi_insert_sorted lc (take mid A) op;
        r \<leftarrow> multi_insert_sorted rc (drop (mid + of_bool dup) A) op;
        node_join l r (if dup then combine_values e (A ! mid) False op else e) })"
  by pat_completeness auto
termination
  by (relation "measure (\<lambda>(b, A, op). cnt b)") (auto simp: expose_smaller)

declare multi_delete_sorted.simps [simp del] multi_insert_sorted.simps [simp del]

section \<open>Variants with a combining and a converting function\<close>

fun combine_walk :: "(point \<Rightarrow> 've \<Rightarrow> point) \<Rightarrow> ('ve \<Rightarrow> point) \<Rightarrow> entry list \<Rightarrow> (zkey \<times> 've) list \<Rightarrow> entry list" where
  "combine_walk cop mop [] bs = map (\<lambda>(k, v). (k, mop v)) bs"
| "combine_walk cop mop as [] = as"
| "combine_walk cop mop (a # as) (b # bs) =
     (if comp (fst a) (fst b) then a # combine_walk cop mop as (b # bs)
      else if comp (fst b) (fst a) then (fst b, mop (snd b)) # combine_walk cop mop (a # as) bs
      else (fst a, cop (snd a) (snd b)) # combine_walk cop mop as bs)"

fun update_walk :: "(point \<Rightarrow> 've \<Rightarrow> point) \<Rightarrow> entry list \<Rightarrow> (zkey \<times> 've) list \<Rightarrow> entry list" where
  "update_walk cop [] bs = []"
| "update_walk cop as [] = as"
| "update_walk cop (a # as) (b # bs) =
     (if comp (fst a) (fst b) then a # update_walk cop as (b # bs)
      else if comp (fst b) (fst a) then update_walk cop (a # as) bs
      else (fst a, cop (snd a) (snd b)) # update_walk cop as bs)"

definition multiinsert_map_bc ::
  "ctree \<Rightarrow> (zkey \<times> 've) list \<Rightarrow> (point \<Rightarrow> 've \<Rightarrow> point) \<Rightarrow> ('ve \<Rightarrow> point) \<Rightarrow> ctree option" where
  "multiinsert_map_bc b A combine_op map_op = do {
     stack \<leftarrow> fill_buffer (kBaseCaseSize + 1) (iterate_seq b);
     output \<leftarrow> fill_buffer (kBaseCaseSize + 1) (combine_walk combine_op map_op stack A);
     from_buffer output }"

definition multidelete_sorted_map_bc ::
  "ctree \<Rightarrow> (zkey \<times> 've) list \<Rightarrow> (point \<Rightarrow> 've \<Rightarrow> point) \<Rightarrow> ctree option" where
  "multidelete_sorted_map_bc b A combine_op = do {
     stack \<leftarrow> fill_buffer (kBaseCaseSize + 1) (iterate_seq b);
     output \<leftarrow> fill_buffer (kBaseCaseSize + 1) (update_walk combine_op stack A);
     from_buffer output }"

function from_array_map :: "(zkey \<times> 've) list \<Rightarrow> ('ve \<Rightarrow> point) \<Rightarrow> ctree option" where
  "from_array_map A map_op =
     (let n = length A; entry_at = (\<lambda>i. (fst (A ! i), map_op (snd (A ! i)))) in
      if n = 0 then Some Nil_node
      else if n = 1 then Some (single (entry_at 0))
      else if n \<ge> kBlockSize \<and> n \<le> 2 * kBlockSize then make_compressed_array (map entry_at [0..<n])
      else
        let mid = n div 2 in
        do {
          l \<leftarrow> from_array_map (take mid A) map_op;
          r \<leftarrow> from_array_map (drop (mid + 1) A) map_op;
          node_join l r (entry_at mid) })"
  by pat_completeness auto
termination
  by (relation "measure (\<lambda>(A, map_op). length A)") auto

function multi_insert_sorted_map ::
  "ctree \<Rightarrow> (zkey \<times> 've) list \<Rightarrow> (point \<Rightarrow> 've \<Rightarrow> point) \<Rightarrow> ('ve \<Rightarrow> point) \<Rightarrow> ctree option" where
  "multi_insert_sorted_map b A combine_op map_op =
     (if b = Nil_node then from_array_map A map_op
      else if A = [] then Some b
      else if csize b + length A \<le> kBaseCaseSize then multiinsert_map_bc b A combine_op map_op
      else do {
        (lc, e, rc) \<leftarrow> expose b;
        let mid = PAM_binary_search A (\<lambda>a. comp (fst a) (fst e));
        let dup = (mid < length A \<and> \<not> comp (fst e) (fst (A ! mid)));
        l \<leftarrow> multi_insert_sorted_map lc (take mid A) combine_op map_op;
        r \<leftarrow> multi_insert_sorted_map rc (drop (mid + of_bool dup) A) combine_op map_op;
        node_join l r (if dup then (fst e, combine_op (snd e) (snd (A ! mid))) else e) })"
  by pat_completeness auto
termination
  by (relation "measure (\<lambda>(b, A, cop, mop). cnt b)") (auto simp: expose_smaller)

text \<open>Despite its name it combines the values of keys that are present, and keeps the keys.\<close>

function multi_delete_sorted_map ::
  "ctree \<Rightarrow> (zkey \<times> 've) list \<Rightarrow> (point \<Rightarrow> 've \<Rightarrow> point) \<Rightarrow> ctree option" where
  "multi_delete_sorted_map b A combine_op =
     (if b = Nil_node then Some Nil_node
      else if A = [] then Some b
      else if csize b \<le> kBaseCaseSize then multidelete_sorted_map_bc b A combine_op
      else do {
        (lc, e, rc) \<leftarrow> expose b;
        let mid = PAM_binary_search A (\<lambda>a. comp (fst a) (fst e));
        let dup = (mid < length A \<and> \<not> comp (fst e) (fst (A ! mid)));
        l \<leftarrow> multi_delete_sorted_map lc (take mid A) combine_op;
        r \<leftarrow> multi_delete_sorted_map rc (drop (mid + of_bool dup) A) combine_op;
        node_join l r (if dup then (fst e, combine_op (snd e) (snd (A ! mid))) else e) })"
  by pat_completeness auto
termination
  by (relation "measure (\<lambda>(b, A, cop). cnt b)") (auto simp: expose_smaller)

declare from_array_map.simps [simp del] multi_insert_sorted_map.simps [simp del] multi_delete_sorted_map.simps [simp del]

section \<open>Batch search\<close>

function skip_smaller :: "zkey list \<Rightarrow> nat \<Rightarrow> zkey \<Rightarrow> nat" where
  "skip_smaller A ct k = (if comp (A ! ct) k \<and> ct < length A - 1 then skip_smaller A (ct + 1) k else ct)"
  by pat_completeness auto
termination
  by (relation "measure (\<lambda>(A, ct, k). length A - ct)") auto

declare skip_smaller.simps [simp del]

text \<open>The assignments \<open>ret[i] = v\<close>; a block is walked with a position \<open>ct\<close> in the array of keys.\<close>

fun multifind_walk :: "zkey list \<Rightarrow> nat \<Rightarrow> nat \<Rightarrow> entry list \<Rightarrow> (nat \<times> point) list" where
  "multifind_walk A offset ct [] = []"
| "multifind_walk A offset ct (et # es) =
     (if ct < length A then
        let ct' = skip_smaller A ct (fst et) in
        if \<not> comp (A ! ct') (fst et) \<and> \<not> comp (fst et) (A ! ct')
        then (offset + ct', snd et) # multifind_walk A offset (ct' + 1) es
        else multifind_walk A offset ct' es
      else multifind_walk A offset ct es)"

definition multifind_sorted_bc :: "ctree \<Rightarrow> zkey list \<Rightarrow> nat \<Rightarrow> (nat \<times> point) list" where
  "multifind_sorted_bc b A offset = multifind_walk A offset 0 (iterate_seq b)"

fun multi_find_sorted :: "ctree \<Rightarrow> zkey list \<Rightarrow> nat \<Rightarrow> (nat \<times> point) list" where
  "multi_find_sorted Nil_node A offset = []"
| "multi_find_sorted (Compressed es s a) A offset =
     (if A = [] then [] else multifind_sorted_bc (Compressed es s a) A offset)"
| "multi_find_sorted (Regular l e s a r) A offset =
     (if A = [] then []
      else
        let mid = PAM_binary_search A (\<lambda>a. comp a (fst e));
            dup = (mid < length A \<and> \<not> comp (fst e) (A ! mid))
        in multi_find_sorted l (take mid A) offset @
           multi_find_sorted r (drop (mid + of_bool dup) A) (offset + mid + of_bool dup) @
           (if dup then [(offset + mid, snd e)] else []))"

section \<open>Maps\<close>

definition replace :: "point \<Rightarrow> point \<Rightarrow> point" where
  "replace a b = b"

text \<open>The sort may order entries with equal keys in any way; the first of each run is kept.\<close>

definition sort_remove_duplicates :: "(entry list \<Rightarrow> entry list) \<Rightarrow> entry list \<Rightarrow> entry list" where
  "sort_remove_duplicates srt A =
     (if A = [] then []
      else
        let B = srt A in
        map (\<lambda>i. B ! i) (filter (\<lambda>i. i = 0 \<or> comp (fst (B ! (i - 1))) (fst (B ! i))) [0..<length B]))"

definition multi_insert :: "(entry list \<Rightarrow> entry list) \<Rightarrow> ctree \<Rightarrow> entry list \<Rightarrow> ctree option" where
  "multi_insert srt m SS = multi_insert_sorted m (sort_remove_duplicates srt SS) replace"

definition multi_delete :: "(entry list \<Rightarrow> entry list) \<Rightarrow> ctree \<Rightarrow> entry list \<Rightarrow> ctree option" where
  "multi_delete srt m SS = multi_delete_sorted m (map fst (sort_remove_duplicates srt SS))"

definition new_map :: "(entry list \<Rightarrow> entry list) \<Rightarrow> entry list \<Rightarrow> ctree option" where
  "new_map srt S = Option.bind (multi_insert srt Nil_node S) finalize"

definition map_insert_one :: "ctree \<Rightarrow> entry \<Rightarrow> ctree option" where
  "map_insert_one m p = Option.bind (insert_node m p replace) finalize"

definition map_filter :: "ctree \<Rightarrow> (entry \<Rightarrow> bool) \<Rightarrow> ctree option" where
  "map_filter m f = Option.bind (filter_node f m) finalize"

definition map_find :: "ctree \<Rightarrow> zkey \<Rightarrow> point option" where
  "map_find m key = map_option snd (find2 m key)"

definition map_contains :: "ctree \<Rightarrow> zkey \<Rightarrow> bool" where
  "map_contains m key \<longleftrightarrow> find_entry m key \<noteq> None"

definition map_union :: "ctree \<Rightarrow> ctree \<Rightarrow> ctree option" where
  "map_union a b = uniont a b replace"

definition map_intersect :: "ctree \<Rightarrow> ctree \<Rightarrow> ctree option" where
  "map_intersect a b = intersect a b replace"

definition map_difference :: "ctree \<Rightarrow> ctree \<Rightarrow> ctree option" where
  "map_difference a b = difference a b"

definition map_eq :: "ctree \<Rightarrow> ctree \<Rightarrow> bool option" where
  "map_eq a b = (if csize a \<noteq> csize b then Some False else map_option (\<lambda>u. csize a = csize u) (map_union a b))"

definition multi_find :: "ctree \<Rightarrow> zkey list \<Rightarrow> point \<Rightarrow> point list" where
  "multi_find m SS dflt =
     map (\<lambda>i. case map_of (List.rev (multi_find_sorted m SS 0)) i of Some v \<Rightarrow> v | None \<Rightarrow> dflt) [0..<length SS]"

end
