(* ===== verification/CpamMapOk.thy ===== *)
theory CpamMapOk
  imports CpamBatch
begin

text \<open>
  The map routines against sorted lists: on trees whose keys increase strictly each
  routine returns, keeps the invariant of the nodes, and its entries in order are
  those of a walk over the two sorted sequences. \<open>holds_tree c res xs\<close> says this of a
  result; \<open>c\<close> is whether the arguments are inner trees rather than roots of maps.
\<close>

section \<open>Results\<close>

definition holds_tree :: "bool \<Rightarrow> ctree option \<Rightarrow> entry list \<Rightarrow> bool" where
  "holds_tree c res xs \<longleftrightarrow> (\<exists>t. res = Some t \<and> root_ok t \<and> (c \<longrightarrow> cnode t) \<and> iterate_seq t = xs)"

lemma holds_treeE:
  assumes "holds_tree c res xs" obtains t where "res = Some t" "root_ok t" "c \<Longrightarrow> cnode t" "iterate_seq t = xs"
  using assms by (auto simp: holds_tree_def)

lemma holds_node_tree: "holds_node res xs \<Longrightarrow> holds_tree c res xs"
  by (auto simp: holds_node_def holds_tree_def root_ok_def)

lemma holds_tree_node: "holds_tree True res xs \<Longrightarrow> holds_node res xs"
  by (auto simp: holds_node_def holds_tree_def)

lemma holds_tree_Some: "root_ok t \<Longrightarrow> (c \<Longrightarrow> cnode t) \<Longrightarrow> iterate_seq t = xs \<Longrightarrow> holds_tree c (Some t) xs"
  by (auto simp: holds_tree_def)

lemma root_size: "root_ok t \<Longrightarrow> cnt t < 2 ^ 32 \<Longrightarrow> csize t = cnt t"
  by (simp add: csize_count root_fields)

lemma root_Nil [simp]: "root_ok Nil_node"
  by (simp add: root_ok_def)

lemma root_empty: "root_ok t \<Longrightarrow> iterate_seq t = [] \<Longrightarrow> t = Nil_node"
  by (cases t) (auto simp: root_ok_def cnode_def)

lemma fill_buffer_ok: "length xs \<le> n \<Longrightarrow> fill_buffer n xs = Some xs"
  by (simp add: fill_buffer_def)

abbreviation opt_list :: "'a option \<Rightarrow> 'a list" where
  "opt_list m \<equiv> (case m of None \<Rightarrow> [] | Some x \<Rightarrow> [x])"

abbreviation strict :: "entry list \<Rightarrow> bool" where
  "strict \<equiv> strict_by fst"

lemma strict_mid: "strict (ls @ e # rs) \<longleftrightarrow>
    strict ls \<and> strict rs \<and> (\<forall>x\<in>set ls. fst x < fst e) \<and> (\<forall>x\<in>set rs. fst e < fst x)"
  by (simp only: strict_by_append strict_by_Cons list.set ball_simps ball_Un) (blast intro: less_trans)

text \<open>What a map is: a root whose keys increase strictly, below the range of the counters.\<close>

definition map_ok :: "ctree \<Rightarrow> bool" where
  "map_ok t \<longleftrightarrow> root_ok t \<and> strict (iterate_seq t) \<and> cnt t + 2 < 2 ^ 32"

section \<open>Searches\<close>

lemma map_of_strict: "strict xs \<Longrightarrow> (k, v) \<in> set xs \<Longrightarrow> map_of xs k = Some v"
  by (simp add: strict_by_def)

lemma encoder_find_ok:
  "snd (decode_cond (\<lambda>et ret. if \<not> k < fst et \<and> \<not> fst et < k then (False, Some et) else (True, ret)) es None) =
   map_option (Pair k) (map_of es k)"
proof (induction es)
  case (Cons e es)
  show ?case
  proof (cases "fst e = k")
    case False
    then have "k < fst e \<or> fst e < k" by auto
    then show ?thesis using Cons False by (cases e) auto
  qed (cases e, auto)
qed simp

lemma find2_ok:
  "strict (iterate_seq t) \<Longrightarrow> find2 t k = map_option (Pair k) (map_of (iterate_seq t) k)"
proof (induction t)
  case (Regular l e s a r)
  note st = Regular.prems [unfolded iterate_seq.simps strict_mid]
  consider "k < fst e" | "fst e < k" | "k = fst e" by fastforce
  then show ?case
  proof cases
    case 1
    have "map_of (e # iterate_seq r) k = None"
      using st 1 by (auto simp: map_of_eq_None_iff)
    then show ?thesis using 1 Regular.IH(1) st by (simp add: map_add_def del: map_of.simps split: option.splits)
  next
    case 2
    have "map_of (iterate_seq l) k = None" using st 2 by (force simp: map_of_eq_None_iff)
    moreover have "map_of (e # iterate_seq r) k = map_of (iterate_seq r) k" using 2 by (cases e) auto
    ultimately show ?thesis using 2 less_not_sym [OF 2] Regular.IH(2) st by (simp add: map_add_def del: map_of.simps split: option.splits)
  next
    case 3
    have "map_of (iterate_seq l) k = None" using st 3 by (force simp: map_of_eq_None_iff)
    then show ?thesis using 3 by (cases e) (simp add: map_add_def)
  qed
next
  case (Compressed es s a)
  then show ?case by (simp add: encoder_find_def encoder_find_ok)
qed simp

lemma find_compressed_fold:
  "strict es \<Longrightarrow>
   foldl (\<lambda>ret et. if \<not> (k < fst et \<or> fst et < k) then Some et else ret) ret es =
   (case map_of es k of Some v \<Rightarrow> Some (k, v) | None \<Rightarrow> ret)"
proof (induction es arbitrary: ret)
  case (Cons e es)
  have "map_of es k = None" if "fst e = k"
    using Cons.prems that by (force simp: strict_by_Cons map_of_eq_None_iff)
  then show ?case using Cons by (cases e) (auto simp: strict_by_Cons split: option.splits)
qed simp

lemma find_entry_ok: "strict (iterate_seq t) \<Longrightarrow> find_entry t k = find2 t k"
proof (induction t)
  case (Compressed es s a)
  then show ?case using find_compressed_fold [of es k None] find2_ok [of "Compressed es s a" k]
    by (auto simp: find_compressed_def split: option.splits)
qed (auto simp: strict_mid)

lemma foldl_count: "foldl (\<lambda>c et. if fst et < k then c + 1 else c) n es = n + length (filter (\<lambda>et. fst et < k) es)"
  by (induction es arbitrary: n) auto

lemma rank_ok:
  "fields_ok t \<Longrightarrow> cnt t < 2 ^ 32 \<Longrightarrow> strict (iterate_seq t) \<Longrightarrow>
   rank t k n = n + length (filter (\<lambda>x. fst x < k) (iterate_seq t))"
proof (induction t arbitrary: n)
  case (Regular l e s a r)
  note st = Regular.prems(3) [unfolded iterate_seq.simps strict_mid]
  have c: "csize l = cnt l" using Regular.prems by (simp add: csize_count)
  have IH: "rank l k n = n + length (filter (\<lambda>x. fst x < k) (iterate_seq l))"
    "rank r k m = m + length (filter (\<lambda>x. fst x < k) (iterate_seq r))" for n m
    using Regular st by simp_all
  have all: "filter (\<lambda>x. fst x < k) (iterate_seq l) = iterate_seq l" if "fst e \<le> k"
    using st that by (fastforce simp: filter_id_conv)
  have none: "filter (\<lambda>x. fst x < k) (iterate_seq r) = []" if "k \<le> fst e"
    using st that by (fastforce simp: filter_empty_conv)
  consider "fst e < k" | "k < fst e" | "k = fst e" by fastforce
  then show ?case by cases (use c IH all none in auto)
next
  case (Compressed es s a)
  show ?case by (simp add: foldl_count)
qed simp

section \<open>Splitting\<close>

definition splits :: "(ctree \<times> entry option \<times> ctree) option \<Rightarrow> zkey \<Rightarrow> entry list \<Rightarrow> bool" where
  "splits res k xs \<longleftrightarrow> (\<exists>l m r. res = Some (l, m, r) \<and> cnode l \<and> cnode r \<and>
     xs = iterate_seq l @ opt_list m @ iterate_seq r \<and>
     (\<forall>x\<in>set (iterate_seq l). fst x < k) \<and> (\<forall>x\<in>set (iterate_seq r). k < fst x) \<and> (\<forall>e. m = Some e \<longrightarrow> fst e = k))"

lemma splitsE:
  assumes "splits res k xs"
  obtains l m r where "res = Some (l, m, r)" "cnode l" "cnode r" "xs = iterate_seq l @ opt_list m @ iterate_seq r"
    "\<forall>x\<in>set (iterate_seq l). fst x < k" "\<forall>x\<in>set (iterate_seq r). k < fst x" "\<forall>e. m = Some e \<longrightarrow> fst e = k"
  using assms unfolding splits_def by blast

lemma splitsI:
  "cnode l \<Longrightarrow> cnode r \<Longrightarrow> xs = iterate_seq l @ opt_list m @ iterate_seq r \<Longrightarrow>
   \<forall>x\<in>set (iterate_seq l). fst x < k \<Longrightarrow> \<forall>x\<in>set (iterate_seq r). k < fst x \<Longrightarrow> \<forall>e. m = Some e \<longrightarrow> fst e = k \<Longrightarrow>
   splits (Some (l, m, r)) k xs"
  unfolding splits_def by blast

lemma split_at_key_ok:
  "root_ok a \<Longrightarrow> strict (iterate_seq a) \<Longrightarrow> cnt a + 2 < 2 ^ 32 \<Longrightarrow> splits (split_at_key a k) k (iterate_seq a)"
proof (induction a k rule: split_at_key.induct)
  case (1 a k)
  show ?case
  proof (cases "a = Nil_node")
    case True
    then show ?thesis by (simp add: split_at_key.simps [of Nil_node] splits_def)
  next
    case False
    obtain lc e rc where x: "expose a = Some (lc, e, rc)" "cnode lc" "cnode rc" "iterate_seq a = iterate_seq lc @ e # iterate_seq rc"
      using expose_ok [OF "1.prems"(1) False] by blast
    note st = "1.prems"(2) [unfolded x(4) strict_mid]
    have sz: "cnt lc + cnt rc + 3 < 2 ^ 32" using "1.prems"(3) x(4) by simp
    consider "fst e < k" | "k < fst e" | "fst e = k" by fastforce
    then show ?thesis
    proof cases
      case lt: 1
      have "splits (split_at_key rc k) k (iterate_seq rc)"
        by (rule "1.IH"(1) [OF False x(1) refl refl lt]) (use x(3) st sz cnode_root_ok in auto)
      then obtain l m r where s: "split_at_key rc k = Some (l, m, r)" "cnode l" "cnode r"
        "iterate_seq rc = iterate_seq l @ opt_list m @ iterate_seq r"
        "\<forall>x\<in>set (iterate_seq l). fst x < k" "\<forall>x\<in>set (iterate_seq r). k < fst x" "\<forall>e. m = Some e \<longrightarrow> fst e = k"
        by (rule splitsE)
      have "cnt lc + cnt l + 2 < 2 ^ 32" using sz s(4) by simp
      then obtain l' where l': "join lc e l = Some l'" "cnode l'" "iterate_seq l' = iterate_seq lc @ e # iterate_seq l"
        using joinE [OF x(2) s(2)] by blast
      have "split_at_key a k = Some (l', m, r)"
        using False x(1) lt s(1) l'(1) by (simp add: split_at_key.simps [of a])
      moreover have "\<forall>x\<in>set (iterate_seq l'). fst x < k" using l'(3) s(5) st lt by fastforce
      ultimately show ?thesis
        using splitsI [OF l'(2) s(3)] s(4,6,7) l'(3) x(4) by simp
    next
      case gt: 2
      then have ngt: "\<not> fst e < k" by simp
      have "splits (split_at_key lc k) k (iterate_seq lc)"
        by (rule "1.IH"(2) [OF False x(1) refl refl ngt gt]) (use x(2) st sz cnode_root_ok in auto)
      then obtain l m r where s: "split_at_key lc k = Some (l, m, r)" "cnode l" "cnode r"
        "iterate_seq lc = iterate_seq l @ opt_list m @ iterate_seq r"
        "\<forall>x\<in>set (iterate_seq l). fst x < k" "\<forall>x\<in>set (iterate_seq r). k < fst x" "\<forall>e. m = Some e \<longrightarrow> fst e = k"
        by (rule splitsE)
      have "cnt r + cnt rc + 2 < 2 ^ 32" using sz s(4) by simp
      then obtain r' where r': "join r e rc = Some r'" "cnode r'" "iterate_seq r' = iterate_seq r @ e # iterate_seq rc"
        using joinE [OF s(3) x(3)] by blast
      have "split_at_key a k = Some (l, m, r')"
        using False x(1) gt ngt s(1) r'(1) by (simp add: split_at_key.simps [of a])
      moreover have "\<forall>x\<in>set (iterate_seq r'). k < fst x" using r'(3) s(6) st gt by fastforce
      ultimately show ?thesis
        using splitsI [OF s(2) r'(2)] s(4,5,7) r'(3) x(4) by simp
    next
      case 3
      then have "split_at_key a k = Some (lc, Some e, rc)"
        using False x(1) by (simp add: split_at_key.simps [of a])
      then show ?thesis using splitsI [OF x(2,3), where m = "Some e" and k = k] x(4) st 3 by simp
    qed
  qed
qed

section \<open>The walks over sorted sequences\<close>

lemma walk_Nil2 [simp]:
  "merge_entries op as [] = as" "subtract_keys as [] = as" "common_entries op as [] = []"
  by (cases as; simp)+

lemma subtract_keys_diff: "subtract_keys as ks = diff_by fst id as ks"
  by (induction as ks rule: subtract_keys.induct) (auto dest: less_not_sym simp: not_less order_le_less)

lemma subtract_keys_ok:
  "strict as \<Longrightarrow> sorted ks \<Longrightarrow> subtract_keys as ks = filter (\<lambda>x. fst x \<notin> set ks) as"
  using diff_by_filter [of fst as id ks] by (simp add: subtract_keys_diff sorted_by_def)

text \<open>Below and above a key the walks do not interact.\<close>

lemma merge_entries_append:
  "\<forall>x\<in>set as. fst x < k \<Longrightarrow> \<forall>x\<in>set bs. fst x < k \<Longrightarrow> \<forall>x\<in>set as'. k \<le> fst x \<Longrightarrow> \<forall>x\<in>set bs'. k \<le> fst x \<Longrightarrow>
   merge_entries op (as @ as') (bs @ bs') = merge_entries op as bs @ merge_entries op as' bs'"
proof (induction op as bs rule: merge_entries.induct)
  case (1 op bs)
  then show ?case
  proof (induction bs)
    case (Cons b bs)
    have "fst b < k" "\<forall>x\<in>set as'. fst b < fst x" using Cons.prems by fastforce+
    then show ?case using Cons by (cases as') auto
  qed simp
next
  case (2 op a as)
  have "merge_entries op (as @ as') ([] @ bs') = merge_entries op as [] @ merge_entries op as' bs'" if "\<forall>x\<in>set as. fst x < k" for as
    using that
  proof (induction as)
    case (Cons a as)
    have "\<forall>x\<in>set bs'. fst a < fst x" using Cons.prems 2 by fastforce
    then show ?case using Cons by (cases bs') auto
  qed simp
  from this [of "a # as"] show ?case using 2 by simp
next
  case (3 op a as b bs)
  then show ?case by simp
qed

lemma common_entries_append:
  "\<forall>x\<in>set as. fst x < k \<Longrightarrow> \<forall>x\<in>set bs. fst x < k \<Longrightarrow> \<forall>x\<in>set as'. k \<le> fst x \<Longrightarrow> \<forall>x\<in>set bs'. k \<le> fst x \<Longrightarrow>
   common_entries op (as @ as') (bs @ bs') = common_entries op as bs @ common_entries op as' bs'"
proof (induction op as bs rule: common_entries.induct)
  case (1 op bs)
  then show ?case
  proof (induction bs)
    case (Cons b bs)
    have "fst b < k" "\<forall>x\<in>set as'. fst b < fst x" using Cons.prems by fastforce+
    then show ?case using Cons by (cases as') auto
  qed simp
next
  case (2 op a as)
  have "common_entries op (as @ as') ([] @ bs') = common_entries op as' bs'" if "\<forall>x\<in>set as. fst x < k" for as
    using that
  proof (induction as)
    case (Cons a as)
    have "\<forall>x\<in>set bs'. fst a < fst x" using Cons.prems 2 by fastforce
    then show ?case using Cons by (cases bs') auto
  qed simp
  from this [of "a # as"] show ?case using 2 by simp
next
  case (3 op a as b bs)
  then show ?case by simp
qed

lemma merge_entries_first:
  "\<forall>x\<in>set bs. fst e < fst x \<Longrightarrow> merge_entries op (e # as) bs = e # merge_entries op as bs"
  "\<forall>x\<in>set as. fst e < fst x \<Longrightarrow> merge_entries op as (e # bs) = e # merge_entries op as bs"
  by (cases bs; simp) (cases as; auto dest: less_not_sym)

lemma common_entries_first:
  "\<forall>x\<in>set bs. fst e < fst x \<Longrightarrow> common_entries op (e # as) bs = common_entries op as bs"
  "\<forall>x\<in>set as. fst e < fst x \<Longrightarrow> common_entries op as (e # bs) = common_entries op as bs"
  by (cases bs; simp) (cases as; auto dest: less_not_sym)

lemma length_merge_entries: "length (merge_entries op as bs) \<le> length as + length bs"
  by (induction op as bs rule: merge_entries.induct) auto

lemma length_common_entries: "length (common_entries op as bs) \<le> length as"
  by (induction op as bs rule: common_entries.induct) auto

lemma keys_merge_entries: "fst ` set (merge_entries op as bs) = fst ` set as \<union> fst ` set bs"
proof (induction op as bs rule: merge_entries.induct)
  case (3 op a as b bs)
  consider "fst a < fst b" | "fst b < fst a" "\<not> fst a < fst b" | "\<not> fst a < fst b" "\<not> fst b < fst a" "fst a = fst b" by fastforce
  then show ?case
  proof cases
    case 1 then show ?thesis using 3(1) by (simp add: insert_commute)
  next
    case 2 then show ?thesis using 3(2) by (simp add: insert_commute)
  next
    case eq: 3 then show ?thesis using 3(3) by simp
  qed
qed simp_all

lemma strict_merge_entries: "strict as \<Longrightarrow> strict bs \<Longrightarrow> strict (merge_entries op as bs)"
proof (induction op as bs rule: merge_entries.induct)
  case (3 op a as b bs)
  have key: "(\<forall>x\<in>set (merge_entries op as bs). k < fst x) \<longleftrightarrow> (\<forall>x\<in>set as. k < fst x) \<and> (\<forall>x\<in>set bs. k < fst x)" for as bs k
  proof -
    have "(\<forall>x\<in>set (merge_entries op as bs). k < fst x) \<longleftrightarrow> (\<forall>y\<in>fst ` set (merge_entries op as bs). k < y)" by simp
    then show ?thesis unfolding keys_merge_entries by (simp add: ball_Un)
  qed
  consider "fst a < fst b" | "fst b < fst a" | "fst a = fst b" by fastforce
  then show ?case
  proof cases
    case 1
    then show ?thesis using 3 by (auto simp: strict_by_Cons key dest: less_trans)
  next
    case 2
    then show ?thesis using 3 less_not_sym [OF 2] by (auto simp: strict_by_Cons key dest: less_trans)
  next
    case eq: 3
    then show ?thesis using 3 by (auto simp: strict_by_Cons key)
  qed
qed simp_all

text \<open>The merge as a map.\<close>

lemma map_of_first: "map_of (x # xs) k = (if fst x = k then Some (snd x) else map_of xs k)"
  by (cases x) auto

lemma map_of_above: "strict (x # xs) \<Longrightarrow> k < fst x \<Longrightarrow> map_of (x # xs) k = None"
  by (force simp: strict_by_Cons map_of_eq_None_iff simp del: map_of.simps)

lemma map_of_not_first: "strict (x # xs) \<Longrightarrow> map_of xs (fst x) = None"
  by (force simp: strict_by_Cons map_of_eq_None_iff)

lemma map_of_merge_entries:
  "strict as \<Longrightarrow> strict bs \<Longrightarrow>
   map_of (merge_entries op as bs) k =
     (case (map_of as k, map_of bs k) of
        (Some u, Some v) \<Rightarrow> Some (op u v) | (Some u, None) \<Rightarrow> Some u | (None, w) \<Rightarrow> w)"
proof (induction op as bs rule: merge_entries.induct)
  case (3 op a as b bs)
  have st: "strict as" "strict bs" using "3.prems" by (simp_all add: strict_by_Cons)
  consider "fst a < fst b" | "fst b < fst a" "\<not> fst a < fst b" | "\<not> fst a < fst b" "\<not> fst b < fst a" "fst a = fst b" by fastforce
  then show ?case
  proof cases
    case 1
    have "map_of (merge_entries op (a # as) (b # bs)) k = (if fst a = k then Some (snd a) else map_of (merge_entries op as (b # bs)) k)"
      using 1 by (simp add: map_of_first)
    moreover have "map_of (b # bs) k = None" if "fst a = k" using map_of_above [OF "3.prems"(2)] 1 that by simp
    ultimately show ?thesis using "3.IH"(1) [OF 1 st(1) "3.prems"(2)] by (simp add: map_of_first [of a])
  next
    case 2
    have "map_of (merge_entries op (a # as) (b # bs)) k = (if fst b = k then Some (snd b) else map_of (merge_entries op (a # as) bs) k)"
      using 2 by (simp add: map_of_first)
    moreover have "map_of (a # as) k = None" if "fst b = k" using map_of_above [OF "3.prems"(1)] 2 that by simp
    ultimately show ?thesis using "3.IH"(2) [OF 2(2,1) "3.prems"(1) st(2)] by (simp add: map_of_first [of b] split: option.split)
  next
    case eq: 3
    have "map_of (merge_entries op (a # as) (b # bs)) k =
        (if fst b = k then Some (op (snd a) (snd b)) else map_of (merge_entries op as bs) k)"
      using eq by (simp add: map_of_first)
    then show ?thesis using "3.IH"(3) [OF eq(1,2) st] eq(3) by (simp add: map_of_first)
  qed
qed (auto split: option.splits)

end
