(* ===== verification/CpamSetOps.thy ===== *)
theory CpamSetOps
  imports CpamMapOk
begin

text \<open>
  Union, intersection, difference, ranges of keys and the single updates, each
  against the walk over the two sorted sequences.
\<close>

section \<open>Base cases\<close>

lemma from_buffer_filled:
  "length xs \<le> 323 \<Longrightarrow> length ys \<le> 322 \<Longrightarrow>
   do { s \<leftarrow> fill_buffer (kBaseCaseSize + 1) xs; out \<leftarrow> fill_buffer (kBaseCaseSize + 1) ys; from_buffer out } = from_buffer ys"
  by (simp add: fill_buffer_ok kBaseCaseSize_def kBlockSize_def)

lemma union_bc_ok:
  assumes "cnt b1 + cnt b2 \<le> kBaseCaseSize"
  shows "holds_node (union_bc b1 b2 op) (merge_entries (\<lambda>u v. op v u) (iterate_seq b1) (iterate_seq b2))"
proof -
  have "length (merge_entries (\<lambda>u v. op v u) (iterate_seq b1) (iterate_seq b2)) \<le> 322"
    using assms length_merge_entries [of "\<lambda>u v. op v u" "iterate_seq b1" "iterate_seq b2"]
    by (simp add: kBaseCaseSize_def kBlockSize_def)
  then show ?thesis using assms from_buffer_ok
    by (simp add: union_bc_def fill_buffer_ok kBaseCaseSize_def kBlockSize_def)
qed

lemma intersect_bc_ok:
  assumes "cnt b1 + cnt b2 \<le> kBaseCaseSize"
  shows "holds_node (intersect_bc b1 b2 op) (common_entries op (iterate_seq b1) (iterate_seq b2))"
proof -
  have "length (common_entries op (iterate_seq b1) (iterate_seq b2)) \<le> 322"
    using assms length_common_entries [of op "iterate_seq b1" "iterate_seq b2"]
    by (simp add: kBaseCaseSize_def kBlockSize_def)
  then show ?thesis using assms from_buffer_ok
    by (simp add: intersect_bc_def fill_buffer_ok kBaseCaseSize_def kBlockSize_def)
qed

lemma sorted_keys: "strict xs \<Longrightarrow> sorted (map fst xs)"
  by (simp add: strict_by_def sorted_by_def)

lemma difference_bc_ok:
  assumes "cnt b1 + cnt b2 \<le> kBaseCaseSize" "strict (iterate_seq b1)" "strict (iterate_seq b2)"
  shows "holds_node (difference_bc b1 b2) (filter (\<lambda>x. fst x \<notin> fst ` set (iterate_seq b2)) (iterate_seq b1))"
proof -
  have eq: "subtract_keys (iterate_seq b1) (map fst (iterate_seq b2)) =
      filter (\<lambda>x. fst x \<notin> fst ` set (iterate_seq b2)) (iterate_seq b1)"
    using subtract_keys_ok [OF assms(2) sorted_keys [OF assms(3)]] by simp
  have "length (filter (\<lambda>x. fst x \<notin> fst ` set (iterate_seq b2)) (iterate_seq b1)) \<le> 322"
    by (rule le_trans [OF length_filter_le]) (use assms(1) in \<open>simp add: kBaseCaseSize_def kBlockSize_def\<close>)
  then show ?thesis using assms(1) from_buffer_ok
    by (simp add: difference_bc_def fill_buffer_ok eq kBaseCaseSize_def kBlockSize_def)
qed

section \<open>Difference\<close>

text \<open>Of a split of the keys to remove, each part matters to one side only.\<close>

lemma remove_split:
  fixes ls rs :: "entry list" and S1 S2 :: "zkey set"
  assumes "\<forall>x\<in>set ls. fst x < k" "\<forall>x\<in>set rs. k < fst x" "fst e = k" "\<forall>y\<in>S1. y < k" "\<forall>y\<in>S2. k < y"
    "K = S1 \<union> (if dup then {k} else {}) \<union> S2"
  shows "filter (\<lambda>x. fst x \<notin> K) (ls @ e # rs) =
    filter (\<lambda>x. fst x \<notin> S1) ls @ (if dup then [] else [e]) @ filter (\<lambda>x. fst x \<notin> S2) rs"
proof -
  have lo: "y < k" if "y \<in> S1" for y using assms(4) that by blast
  have hi: "k < y" if "y \<in> S2" for y using assms(5) that by blast
  have below: "y \<in> K \<longleftrightarrow> y \<in> S1" if "y < k" for y
    using that hi [of y] less_not_sym [of y k] unfolding assms(6) by auto
  have above: "y \<in> K \<longleftrightarrow> y \<in> S2" if "k < y" for y
    using that lo [of y] less_not_sym [of y k] unfolding assms(6) by auto
  have "filter (\<lambda>x. fst x \<notin> K) ls = filter (\<lambda>x. fst x \<notin> S1) ls"
    by (rule filter_cong [OF refl]) (use assms(1) below in blast)
  moreover have "filter (\<lambda>x. fst x \<notin> K) rs = filter (\<lambda>x. fst x \<notin> S2) rs"
    by (rule filter_cong [OF refl]) (use assms(2) above in blast)
  moreover have "fst e \<notin> K \<longleftrightarrow> \<not> dup"
    unfolding assms(3,6) using lo [of k] hi [of k] by auto
  ultimately show ?thesis by simp
qed

lemma opt_list_keys: "\<forall>e. m = Some e \<longrightarrow> fst e = k \<Longrightarrow> fst ` set (opt_list m) = (if m \<noteq> None then {k} else {})"
  by (cases m) auto

lemma difference_tree:
  "root_ok b1 \<Longrightarrow> root_ok b2 \<Longrightarrow> strict (iterate_seq b1) \<Longrightarrow> strict (iterate_seq b2) \<Longrightarrow>
   cnt b1 + 2 < 2 ^ 32 \<Longrightarrow> cnt b2 + 2 < 2 ^ 32 \<Longrightarrow>
   holds_tree (cnode b1) (difference b1 b2) (filter (\<lambda>x. fst x \<notin> fst ` set (iterate_seq b2)) (iterate_seq b1))"
proof (induction b1 b2 rule: difference.induct)
  case (1 b1 b2)
  have c: "csize b1 = cnt b1" "csize b2 = cnt b2" using "1.prems" by (simp_all add: root_size)
  consider "b1 = Nil_node" | "b1 \<noteq> Nil_node" "b2 = Nil_node" | "b1 \<noteq> Nil_node" "b2 \<noteq> Nil_node" "cnt b1 + cnt b2 \<le> kBaseCaseSize"
    | "b1 \<noteq> Nil_node" "b2 \<noteq> Nil_node" "\<not> csize b1 + csize b2 \<le> kBaseCaseSize" using c by linarith
  then show ?case
  proof cases
    case 1
    then show ?thesis by (simp add: difference.simps [of Nil_node] holds_tree_Some)
  next
    case 2
    then show ?thesis using "1.prems"(1) by (simp add: difference.simps [of b1 Nil_node] holds_tree_Some)
  next
    case 3
    then show ?thesis using difference_bc_ok [OF 3(3) "1.prems"(3,4)] c
      by (simp add: difference.simps [of b1 b2] holds_node_tree)
  next
    case 4
    obtain l1 e r1 where x: "expose b1 = Some (l1, e, r1)" "cnode l1" "cnode r1" "iterate_seq b1 = iterate_seq l1 @ e # iterate_seq r1"
      using expose_ok [OF "1.prems"(1) 4(1)] by blast
    note st = "1.prems"(3) [unfolded x(4) strict_mid]
    obtain sl m sr where s: "split_at_key b2 (fst e) = Some (sl, m, sr)" "cnode sl" "cnode sr"
      "iterate_seq b2 = iterate_seq sl @ opt_list m @ iterate_seq sr"
      "\<forall>x\<in>set (iterate_seq sl). fst x < fst e" "\<forall>x\<in>set (iterate_seq sr). fst e < fst x" "\<forall>y. m = Some y \<longrightarrow> fst y = fst e"
      using split_at_key_ok [OF "1.prems"(2,4,6), of "fst e"] by (rule splitsE)
    have st2: "strict (iterate_seq sl)" "strict (iterate_seq sr)" using "1.prems"(4) s(4) by (simp_all add: strict_by_append)
    have sz: "cnt l1 + cnt r1 + 3 < 2 ^ 32" "cnt sl + 2 < 2 ^ 32" "cnt sr + 2 < 2 ^ 32" using "1.prems"(5,6) x(4) s(4) by simp_all
    let ?L = "filter (\<lambda>x. fst x \<notin> fst ` set (iterate_seq sl)) (iterate_seq l1)"
    let ?R = "filter (\<lambda>x. fst x \<notin> fst ` set (iterate_seq sr)) (iterate_seq r1)"
    have "holds_tree (cnode l1) (difference l1 sl) ?L"
      by (rule "1.IH"(1) [OF 4 x(1) refl refl s(1) refl refl]) (use x s st st2 sz cnode_root_ok in auto)
    then obtain l where l: "difference l1 sl = Some l" "cnode l" "iterate_seq l = ?L"
      using x(2) by (blast elim: holds_treeE)
    have "holds_tree (cnode r1) (difference r1 sr) ?R"
      by (rule "1.IH"(2) [OF 4 x(1) refl refl s(1) refl refl l(1)]) (use x s st st2 sz cnode_root_ok in auto)
    then obtain r where r: "difference r1 sr = Some r" "cnode r" "iterate_seq r = ?R"
      using x(3) by (blast elim: holds_treeE)
    have le: "cnt l \<le> cnt l1" "cnt r \<le> cnt r1" unfolding l(3) r(3) by (rule length_filter_le)+
    then have sz': "cnt l + cnt r + 2 < 2 ^ 32" using sz(1) by linarith
    have spec: "filter (\<lambda>x. fst x \<notin> fst ` set (iterate_seq b2)) (iterate_seq b1) =
        iterate_seq l @ (if m = None then [e] else []) @ iterate_seq r"
    proof -
      have K: "fst ` set (iterate_seq b2) = fst ` set (iterate_seq sl) \<union> (if m \<noteq> None then {fst e} else {}) \<union> fst ` set (iterate_seq sr)"
        unfolding s(4) set_append image_Un opt_list_keys [OF s(7)] by blast
      have "filter (\<lambda>x. fst x \<notin> fst ` set (iterate_seq b2)) (iterate_seq l1 @ e # iterate_seq r1) =
          ?L @ (if m \<noteq> None then [] else [e]) @ ?R"
        by (rule remove_split [OF _ _ refl _ _ K]) (use st s(5,6) in blast)+
      then show ?thesis unfolding x(4) l(3) r(3) by simp
    qed
    have "difference b1 b2 = (if m \<noteq> None then join2 l r else node_join l r e)"
      using 4 x(1) s(1) l(1) r(1) by (simp add: difference.simps [of b1 b2])
    moreover have "holds_node (join2 l r) (iterate_seq l @ iterate_seq r)" by (rule join2_ok [OF l(2) r(2) sz'])
    moreover have "holds_node (node_join l r e) (iterate_seq l @ e # iterate_seq r)" by (rule node_join_ok [OF l(2) r(2) sz'])
    ultimately show ?thesis unfolding spec by (simp add: holds_node_tree)
  qed
qed

section \<open>Union and intersection\<close>

text \<open>
  The base case combines two values in the other order than the inner step, so
  the value of a common key is one of two.
\<close>

fun either_of :: "'a list \<Rightarrow> 'a list \<Rightarrow> 'a list \<Rightarrow> bool" where
  "either_of [] [] [] \<longleftrightarrow> True"
| "either_of (m # ms) (n # ns) (z # zs) \<longleftrightarrow> (z = m \<or> z = n) \<and> either_of ms ns zs"
| "either_of ms ns zs \<longleftrightarrow> False"

lemma either_of_append: "either_of a b c \<Longrightarrow> either_of d e f \<Longrightarrow> either_of (a @ d) (b @ e) (c @ f)"
  by (induction a b c rule: either_of.induct) auto

lemma either_of_length: "either_of a b c \<Longrightarrow> length c = length a \<and> length c = length b"
  by (induction a b c rule: either_of.induct) auto

lemma either_of_same: "either_of a a c \<longleftrightarrow> c = a"
proof (induction a arbitrary: c)
  case Nil then show ?case by (cases c) auto
next
  case (Cons x a) then show ?case by (cases c) auto
qed

lemma either_of_refl: "length a = length b \<Longrightarrow> either_of a b b"
proof (induction b arbitrary: a)
  case (Cons x b) then show ?case by (cases a) auto
qed simp

lemma either_of_map: "either_of a b c \<Longrightarrow> map f a = map f b \<Longrightarrow> map f c = map f a"
  by (induction a b c rule: either_of.induct) auto

lemma merge_entries_keys: "map fst (merge_entries op as bs) = map fst (merge_entries op' as bs)"
  by (induction op as bs rule: merge_entries.induct) auto

lemma common_entries_keys: "map fst (common_entries op as bs) = map fst (common_entries op' as bs)"
  by (induction op as bs rule: common_entries.induct) auto

lemma keys_from:
  fixes xs :: "entry list"
  assumes "\<forall>x\<in>set xs. k < fst x" "\<forall>y. m = Some y \<longrightarrow> fst y = k"
  shows "\<forall>x\<in>set (opt_list m @ xs). k \<le> fst x"
proof
  fix x assume "x \<in> set (opt_list m @ xs)"
  then have "m = Some x \<or> x \<in> set xs" by (cases m) (simp_all del: split_paired_All, blast)
  then show "k \<le> fst x" using assms less_imp_le by blast
qed

lemma merge_split:
  assumes "\<forall>x\<in>set sl. fst x < fst e" "\<forall>x\<in>set sr. fst e < fst x" "\<forall>y. m = Some y \<longrightarrow> fst y = fst e"
    "\<forall>x\<in>set ls. fst x < fst e" "\<forall>x\<in>set rs. fst e < fst x"
  shows "merge_entries op (sl @ opt_list m @ sr) (ls @ e # rs) = merge_entries op sl ls @
    (case m of None \<Rightarrow> e | Some y \<Rightarrow> (fst e, op (snd y) (snd e))) # merge_entries op sr rs"
proof -
  have "\<forall>x\<in>set (opt_list m @ sr). fst e \<le> fst x" "\<forall>x\<in>set (e # rs). fst e \<le> fst x"
    using keys_from [OF assms(2,3)] keys_from [OF assms(5), of "Some e"] by simp_all
  then have "merge_entries op (sl @ opt_list m @ sr) (ls @ e # rs) =
      merge_entries op sl ls @ merge_entries op (opt_list m @ sr) (e # rs)"
    by (rule merge_entries_append [OF assms(1,4)])
  moreover have "merge_entries op (opt_list m @ sr) (e # rs) =
      (case m of None \<Rightarrow> e | Some y \<Rightarrow> (fst e, op (snd y) (snd e))) # merge_entries op sr rs"
    using assms(2,3) by (cases m) (simp_all add: merge_entries_first)
  ultimately show ?thesis by simp
qed

lemma merge_entries_swap: "merge_entries op as bs = merge_entries (\<lambda>u v. op v u) bs as"
proof (induction op as bs rule: merge_entries.induct)
  case (3 op a as b bs)
  consider "fst a < fst b" "\<not> fst b < fst a" | "fst b < fst a" "\<not> fst a < fst b" | "\<not> fst a < fst b" "\<not> fst b < fst a" "fst a = fst b" by fastforce
  then show ?case by cases (use 3 in simp_all)
qed simp_all

lemma common_split:
  assumes "\<forall>x\<in>set sl. fst x < fst e" "\<forall>x\<in>set sr. fst e < fst x" "\<forall>y. m = Some y \<longrightarrow> fst y = fst e"
    "\<forall>x\<in>set ls. fst x < fst e" "\<forall>x\<in>set rs. fst e < fst x"
  shows "common_entries op (sl @ opt_list m @ sr) (ls @ e # rs) = common_entries op sl ls @
    (case m of None \<Rightarrow> [] | Some y \<Rightarrow> [(fst e, op (snd e) (snd y))]) @ common_entries op sr rs"
proof -
  have "\<forall>x\<in>set (opt_list m @ sr). fst e \<le> fst x" "\<forall>x\<in>set (e # rs). fst e \<le> fst x"
    using keys_from [OF assms(2,3)] keys_from [OF assms(5), of "Some e"] by simp_all
  then have "common_entries op (sl @ opt_list m @ sr) (ls @ e # rs) =
      common_entries op sl ls @ common_entries op (opt_list m @ sr) (e # rs)"
    by (rule common_entries_append [OF assms(1,4)])
  moreover have "common_entries op (opt_list m @ sr) (e # rs) =
      (case m of None \<Rightarrow> [] | Some y \<Rightarrow> [(fst e, op (snd e) (snd y))]) @ common_entries op sr rs"
    using assms(2,3) by (cases m) (simp_all add: common_entries_first)
  ultimately show ?thesis by simp
qed

abbreviation merged :: "(point \<Rightarrow> point \<Rightarrow> point) \<Rightarrow> entry list \<Rightarrow> entry list \<Rightarrow> entry list \<Rightarrow> bool" where
  "merged op xs ys \<equiv> either_of (merge_entries op xs ys) (merge_entries (\<lambda>u v. op v u) xs ys)"

abbreviation shared :: "(point \<Rightarrow> point \<Rightarrow> point) \<Rightarrow> entry list \<Rightarrow> entry list \<Rightarrow> entry list \<Rightarrow> bool" where
  "shared op xs ys \<equiv> either_of (common_entries (\<lambda>u v. op v u) xs ys) (common_entries op xs ys)"

lemma uniont_tree:
  "root_ok b1 \<Longrightarrow> root_ok b2 \<Longrightarrow> strict (iterate_seq b1) \<Longrightarrow> strict (iterate_seq b2) \<Longrightarrow>
   cnt b1 + cnt b2 + 2 < 2 ^ 32 \<Longrightarrow>
   \<exists>zs. merged op (iterate_seq b1) (iterate_seq b2) zs \<and> holds_tree (cnode b1 \<and> cnode b2) (uniont b1 b2 op) zs"
proof (induction b1 b2 op rule: uniont.induct)
  case (1 b1 b2 op)
  have c: "csize b1 = cnt b1" "csize b2 = cnt b2" using "1.prems" by (simp_all add: root_size)
  consider "b1 = Nil_node" | "b1 \<noteq> Nil_node" "b2 = Nil_node" | "b1 \<noteq> Nil_node" "b2 \<noteq> Nil_node" "cnt b1 + cnt b2 \<le> kBaseCaseSize"
    | "b1 \<noteq> Nil_node" "b2 \<noteq> Nil_node" "\<not> csize b1 + csize b2 \<le> kBaseCaseSize" using c by linarith
  then show ?case
  proof cases
    case 1
    then show ?thesis using "1.prems"(2)
      by (intro exI [of _ "iterate_seq b2"]) (simp add: uniont.simps [of Nil_node] holds_tree_Some either_of_same)
  next
    case 2
    then show ?thesis using "1.prems"(1)
      by (intro exI [of _ "iterate_seq b1"]) (simp add: uniont.simps [of b1 Nil_node] holds_tree_Some either_of_same)
  next
    case 3
    have "length (merge_entries op (iterate_seq b1) (iterate_seq b2)) =
        length (merge_entries (\<lambda>u v. op v u) (iterate_seq b1) (iterate_seq b2))"
      by (metis length_map merge_entries_keys)
    then show ?thesis using union_bc_ok [OF 3(3), of op] 3 c
      by (intro exI [of _ "merge_entries (\<lambda>u v. op v u) (iterate_seq b1) (iterate_seq b2)"])
        (simp add: uniont.simps [of b1 b2] holds_node_tree either_of_refl)
  next
    case 4
    obtain l2 e r2 where x: "expose b2 = Some (l2, e, r2)" "cnode l2" "cnode r2" "iterate_seq b2 = iterate_seq l2 @ e # iterate_seq r2"
      using expose_ok [OF "1.prems"(2) 4(2)] by blast
    note st = "1.prems"(4) [unfolded x(4) strict_mid]
    have "cnt b1 + 2 < 2 ^ 32" using "1.prems"(5) by simp
    note sok = split_at_key_ok [OF "1.prems"(1,3) this, of "fst e"]
    obtain sl m sr where s: "split_at_key b1 (fst e) = Some (sl, m, sr)" "cnode sl" "cnode sr"
      "iterate_seq b1 = iterate_seq sl @ opt_list m @ iterate_seq sr"
      "\<forall>x\<in>set (iterate_seq sl). fst x < fst e" "\<forall>x\<in>set (iterate_seq sr). fst e < fst x" "\<forall>y. m = Some y \<longrightarrow> fst y = fst e"
      using sok by (rule splitsE)
    have st1: "strict (iterate_seq sl)" "strict (iterate_seq sr)" using "1.prems"(3) s(4) by (simp_all add: strict_by_append)
    have sz: "cnt sl + cnt l2 + (cnt sr + cnt r2) + 3 < 2 ^ 32" using "1.prems"(5) x(4) s(4) by simp
    have "\<exists>zs. merged op (iterate_seq sl) (iterate_seq l2) zs \<and> holds_tree (cnode sl \<and> cnode l2) (uniont sl l2 op) zs"
      by (rule "1.IH"(1) [OF 4 x(1) refl refl s(1) refl refl]) (use x s st st1 sz cnode_root_ok in auto)
    then obtain l where l: "uniont sl l2 op = Some l" "cnode l" "merged op (iterate_seq sl) (iterate_seq l2) (iterate_seq l)"
      using x(2) s(2) by (blast elim: holds_treeE)
    have "\<exists>zs. merged op (iterate_seq sr) (iterate_seq r2) zs \<and> holds_tree (cnode sr \<and> cnode r2) (uniont sr r2 op) zs"
      by (rule "1.IH"(2) [OF 4 x(1) refl refl s(1) refl refl l(1)]) (use x s st st1 sz cnode_root_ok in auto)
    then obtain r where r: "uniont sr r2 op = Some r" "cnode r" "merged op (iterate_seq sr) (iterate_seq r2) (iterate_seq r)"
      using x(3) s(3) by (blast elim: holds_treeE)
    have "cnt l \<le> cnt sl + cnt l2" "cnt r \<le> cnt sr + cnt r2"
      using either_of_length [OF l(3)] either_of_length [OF r(3)] length_merge_entries by metis+
    then have sz': "cnt l + cnt r + 2 < 2 ^ 32" using sz by linarith
    let ?e = "case m of None \<Rightarrow> e | Some y \<Rightarrow> combine_values e y True op"
    have "uniont b1 b2 op = node_join l r ?e"
      using 4 x(1) s(1) l(1) r(1) by (simp add: uniont.simps [of b1 b2])
    moreover have "holds_node (node_join l r ?e) (iterate_seq l @ ?e # iterate_seq r)" by (rule node_join_ok [OF l(2) r(2) sz'])
    moreover have "merged op (iterate_seq b1) (iterate_seq b2) (iterate_seq l @ ?e # iterate_seq r)"
    proof -
      note sp = merge_split [OF s(5,6,7), of "iterate_seq l2" "iterate_seq r2"]
      have "merged op (iterate_seq b1) (iterate_seq b2) (iterate_seq l @ [?e] @ iterate_seq r)"
        unfolding s(4) x(4) using st l(3) r(3)
        by (simp add: sp) (intro either_of_append, auto simp: combine_values_def split: option.split)
      then show ?thesis by simp
    qed
    ultimately show ?thesis by (metis holds_node_tree)
  qed
qed

lemma either_of_shared_length:
  assumes "shared op xs ys zs" shows "length zs \<le> length xs"
  using either_of_length [OF assms] length_common_entries [of _ xs ys] by metis

lemma intersect_tree:
  "root_ok b1 \<Longrightarrow> root_ok b2 \<Longrightarrow> strict (iterate_seq b1) \<Longrightarrow> strict (iterate_seq b2) \<Longrightarrow>
   cnt b1 + 2 < 2 ^ 32 \<Longrightarrow> cnt b2 + 2 < 2 ^ 32 \<Longrightarrow>
   \<exists>zs. shared op (iterate_seq b1) (iterate_seq b2) zs \<and> holds_node (intersect b1 b2 op) zs"
proof (induction b1 b2 op rule: intersect.induct)
  case (1 b1 b2 op)
  have c: "csize b1 = cnt b1" "csize b2 = cnt b2" using "1.prems" by (simp_all add: root_size)
  consider "b1 = Nil_node" | "b1 \<noteq> Nil_node" "b2 = Nil_node" | "b1 \<noteq> Nil_node" "b2 \<noteq> Nil_node" "cnt b1 + cnt b2 \<le> kBaseCaseSize"
    | "b1 \<noteq> Nil_node" "b2 \<noteq> Nil_node" "\<not> csize b1 + csize b2 \<le> kBaseCaseSize" using c by linarith
  then show ?case
  proof cases
    case 1
    then show ?thesis by (intro exI [of _ "[]"]) (simp add: intersect.simps [of Nil_node] holds_node_SomeI)
  next
    case 2
    then show ?thesis by (intro exI [of _ "[]"]) (simp add: intersect.simps [of b1 Nil_node] holds_node_SomeI)
  next
    case 3
    have "length (common_entries (\<lambda>u v. op v u) (iterate_seq b1) (iterate_seq b2)) =
        length (common_entries op (iterate_seq b1) (iterate_seq b2))"
      by (metis length_map common_entries_keys)
    then show ?thesis using intersect_bc_ok [OF 3(3), of op] 3 c
      by (intro exI [of _ "common_entries op (iterate_seq b1) (iterate_seq b2)"])
        (simp add: intersect.simps [of b1 b2] either_of_refl)
  next
    case 4
    obtain l2 e r2 where x: "expose b2 = Some (l2, e, r2)" "cnode l2" "cnode r2" "iterate_seq b2 = iterate_seq l2 @ e # iterate_seq r2"
      using expose_ok [OF "1.prems"(2) 4(2)] by blast
    note st = "1.prems"(4) [unfolded x(4) strict_mid]
    note sok = split_at_key_ok [OF "1.prems"(1,3,5), of "fst e"]
    obtain sl m sr where s: "split_at_key b1 (fst e) = Some (sl, m, sr)" "cnode sl" "cnode sr"
      "iterate_seq b1 = iterate_seq sl @ opt_list m @ iterate_seq sr"
      "\<forall>x\<in>set (iterate_seq sl). fst x < fst e" "\<forall>x\<in>set (iterate_seq sr). fst e < fst x" "\<forall>y. m = Some y \<longrightarrow> fst y = fst e"
      using sok by (rule splitsE)
    have st1: "strict (iterate_seq sl)" "strict (iterate_seq sr)" using "1.prems"(3) s(4) by (simp_all add: strict_by_append)
    have sz: "cnt sl + 2 < 2 ^ 32" "cnt sr + 2 < 2 ^ 32" "cnt l2 + 2 < 2 ^ 32" "cnt r2 + 2 < 2 ^ 32" "cnt sl + cnt sr + 2 < 2 ^ 32"
      using "1.prems"(5,6) x(4) s(4) by simp_all
    have "\<exists>zs. shared op (iterate_seq sl) (iterate_seq l2) zs \<and> holds_node (intersect sl l2 op) zs"
      by (rule "1.IH"(1) [OF 4 x(1) refl refl s(1) refl refl]) (use x s st st1 sz cnode_root_ok in auto)
    then obtain l where l: "intersect sl l2 op = Some l" "cnode l" "shared op (iterate_seq sl) (iterate_seq l2) (iterate_seq l)"
      by (blast elim: holds_nodeE)
    have "\<exists>zs. shared op (iterate_seq sr) (iterate_seq r2) zs \<and> holds_node (intersect sr r2 op) zs"
      by (rule "1.IH"(2) [OF 4 x(1) refl refl s(1) refl refl l(1)]) (use x s st st1 sz cnode_root_ok in auto)
    then obtain r where r: "intersect sr r2 op = Some r" "cnode r" "shared op (iterate_seq sr) (iterate_seq r2) (iterate_seq r)"
      by (blast elim: holds_nodeE)
    have sz': "cnt l + cnt r + 2 < 2 ^ 32"
      using either_of_shared_length [OF l(3)] either_of_shared_length [OF r(3)] sz(5) by linarith
    let ?es = "case m of None \<Rightarrow> [] | Some y \<Rightarrow> [(fst e, op (snd y) (snd e))]"
    have "intersect b1 b2 op = (case m of Some y \<Rightarrow> join l (fst e, op (snd y) (snd e)) r | None \<Rightarrow> join2 l r)"
      using 4 x(1) s(1) l(1) r(1) by (simp add: intersect.simps [of b1 b2])
    then have "holds_node (intersect b1 b2 op) (iterate_seq l @ ?es @ iterate_seq r)"
      using join_ok [OF l(2) r(2) sz'] join2_ok [OF l(2) r(2) sz'] by (cases m) simp_all
    moreover have "shared op (iterate_seq b1) (iterate_seq b2) (iterate_seq l @ ?es @ iterate_seq r)"
      unfolding s(4) x(4) using st l(3) r(3)
      by (simp add: common_split [OF s(5,6,7), of "iterate_seq l2" "iterate_seq r2"])
        (intro either_of_append, auto split: option.split)
    ultimately show ?thesis by blast
  qed
qed

section \<open>Ranges of keys\<close>

lemma comp_bc_ok: "root_ok b \<Longrightarrow> is_compressed b \<Longrightarrow> holds_node (comp_bc b f) (filter (\<lambda>x. f (fst x)) (iterate_seq b))"
proof -
  assume b: "root_ok b" "is_compressed b"
  then have "cnt b \<le> 80" using compressed_count [OF root_fields, of b] by (simp add: kBlockSize_def)
  then have "length (filter (\<lambda>x. f (fst x)) (iterate_seq b)) \<le> 80" by (rule le_trans [OF length_filter_le])
  then show ?thesis using from_buffer_ok by (simp add: comp_bc_def fill_buffer_ok kBlockSize_def)
qed

lemma left_2_ok:
  "cnode t \<Longrightarrow> strict (iterate_seq t) \<Longrightarrow> cnt t + 2 < 2 ^ 32 \<Longrightarrow> holds_node (left_2 t k) (filter (\<lambda>x. fst x \<le> k) (iterate_seq t))"
proof (induction t)
  case (Regular l e s a r)
  note sons = cnode_sons [OF Regular.prems(1)] and st = Regular.prems(2) [unfolded iterate_seq.simps strict_mid]
  have IH: "holds_node (left_2 l k) (filter (\<lambda>x. fst x \<le> k) (iterate_seq l))" "holds_node (left_2 r k) (filter (\<lambda>x. fst x \<le> k) (iterate_seq r))"
    using Regular.IH sons st Regular.prems(3) by simp_all
  show ?case
  proof (cases "k < fst e")
    case True
    have "filter (\<lambda>x. fst x \<le> k) (e # iterate_seq r) = []" using st True by (fastforce simp: filter_empty_conv)
    then show ?thesis using True IH(1) by simp
  next
    case False
    have "filter (\<lambda>x. fst x \<le> k) (iterate_seq l) = iterate_seq l" using st False by (fastforce simp: filter_id_conv)
    moreover obtain r' where r': "left_2 r k = Some r'" "cnode r'" "iterate_seq r' = filter (\<lambda>x. fst x \<le> k) (iterate_seq r)"
      using IH(2) by (rule holds_nodeE)
    moreover have "cnt r' \<le> cnt r" unfolding r'(3) by (rule length_filter_le)
    then have "cnt l + cnt r' + 2 < 2 ^ 32" using Regular.prems(3) by simp
    moreover have "fst e \<le> k" using False by simp
    ultimately show ?thesis using False join_ok [OF sons(1) r'(2), of e] by simp
  qed
next
  case (Compressed es s a)
  then show ?case using comp_bc_ok [OF cnode_root_ok, of "Compressed es s a" "\<lambda>x. x \<le> k"] by simp
qed (simp add: holds_node_SomeI)

lemma right_2_ok:
  "cnode t \<Longrightarrow> strict (iterate_seq t) \<Longrightarrow> cnt t + 2 < 2 ^ 32 \<Longrightarrow> holds_node (right_2 t k) (filter (\<lambda>x. k \<le> fst x) (iterate_seq t))"
proof (induction t)
  case (Regular l e s a r)
  note sons = cnode_sons [OF Regular.prems(1)] and st = Regular.prems(2) [unfolded iterate_seq.simps strict_mid]
  have IH: "holds_node (right_2 l k) (filter (\<lambda>x. k \<le> fst x) (iterate_seq l))" "holds_node (right_2 r k) (filter (\<lambda>x. k \<le> fst x) (iterate_seq r))"
    using Regular.IH sons st Regular.prems(3) by simp_all
  show ?case
  proof (cases "fst e < k")
    case True
    have "filter (\<lambda>x. k \<le> fst x) (iterate_seq l) = []" using st True by (fastforce simp: filter_empty_conv)
    moreover have "\<not> k \<le> fst e" using True by (simp only: not_le)
    ultimately show ?thesis using True IH(2) by simp
  next
    case False
    have "filter (\<lambda>x. k \<le> fst x) (iterate_seq r) = iterate_seq r" using st False by (fastforce simp: filter_id_conv)
    moreover obtain l' where l': "right_2 l k = Some l'" "cnode l'" "iterate_seq l' = filter (\<lambda>x. k \<le> fst x) (iterate_seq l)"
      using IH(1) by (rule holds_nodeE)
    moreover have "cnt l' \<le> cnt l" unfolding l'(3) by (rule length_filter_le)
    then have "cnt l' + cnt r + 2 < 2 ^ 32" using Regular.prems(3) by simp
    moreover have "k \<le> fst e" using False by simp
    ultimately show ?thesis using False join_ok [OF l'(2) sons(2), of e] by simp
  qed
next
  case (Compressed es s a)
  then show ?case using comp_bc_ok [OF cnode_root_ok, of "Compressed es s a" "\<lambda>x. k \<le> x"] by simp
qed (simp add: holds_node_SomeI)

text \<open>The root of a range holds the whole range.\<close>

lemma range_root_2_seq:
  "strict (iterate_seq t) \<Longrightarrow> lo \<le> hi \<Longrightarrow>
   filter (\<lambda>x. lo \<le> fst x \<and> fst x \<le> hi) (iterate_seq (range_root_2 t lo hi)) =
   filter (\<lambda>x. lo \<le> fst x \<and> fst x \<le> hi) (iterate_seq t)"
proof (induction t)
  case (Regular l e s a r)
  note st = Regular.prems(1) [unfolded iterate_seq.simps strict_mid]
  have IH: "filter (\<lambda>x. lo \<le> fst x \<and> fst x \<le> hi) (iterate_seq (range_root_2 l lo hi)) =
      filter (\<lambda>x. lo \<le> fst x \<and> fst x \<le> hi) (iterate_seq l)"
    "filter (\<lambda>x. lo \<le> fst x \<and> fst x \<le> hi) (iterate_seq (range_root_2 r lo hi)) =
      filter (\<lambda>x. lo \<le> fst x \<and> fst x \<le> hi) (iterate_seq r)"
    using Regular.IH st Regular.prems(2) by simp_all
  consider "hi < fst e" | "\<not> hi < fst e" "fst e < lo" | "\<not> hi < fst e" "\<not> fst e < lo" by blast
  then show ?case
  proof cases
    case 1
    have "filter (\<lambda>x. lo \<le> fst x \<and> fst x \<le> hi) (e # iterate_seq r) = []"
      using st 1 by (fastforce simp: filter_empty_conv)
    then show ?thesis using 1 IH(1) by simp
  next
    case 2
    have "filter (\<lambda>x. lo \<le> fst x \<and> fst x \<le> hi) (iterate_seq l) = []"
      using st 2 by (fastforce simp: filter_empty_conv)
    moreover have "\<not> lo \<le> fst e" using 2(2) by (simp only: not_le)
    ultimately show ?thesis using 2 IH(2) by simp
  qed simp
qed simp_all

lemma range_root_2_sub:
  "root_ok t \<Longrightarrow> strict (iterate_seq t) \<Longrightarrow>
   root_ok (range_root_2 t lo hi) \<and> strict (iterate_seq (range_root_2 t lo hi)) \<and> cnt (range_root_2 t lo hi) \<le> cnt t \<and>
   (\<forall>l e s a r. range_root_2 t lo hi = Regular l e s a r \<longrightarrow> lo \<le> fst e \<and> fst e \<le> hi)"
proof (induction t)
  case (Regular l e s a r)
  have "root_ok l" "root_ok r" using Regular.prems(1) by (auto simp: root_ok_def dest: cnode_sons)
  then show ?case using Regular by (auto simp: strict_mid not_less)
qed simp_all

lemma range_2_ok:
  assumes "root_ok t" "strict (iterate_seq t)" "cnt t + 2 < 2 ^ 32" "lo \<le> hi"
  shows "holds_node (range_2 t lo hi) (filter (\<lambda>x. lo \<le> fst x \<and> fst x \<le> hi) (iterate_seq t))"
proof -
  let ?P = "\<lambda>x :: entry. lo \<le> fst x \<and> fst x \<le> hi"
  define u where "u = range_root_2 t lo hi"
  note sub = range_root_2_sub [OF assms(1,2), of lo hi, folded u_def]
  note eq = range_root_2_seq [OF assms(2,4), folded u_def]
  show ?thesis
  proof (cases u)
    case Nil_node
    then show ?thesis using eq by (simp add: range_2_def u_def [symmetric] holds_node_SomeI)
  next
    case (Compressed es s a)
    then show ?thesis using eq sub comp_bc_ok [of u "\<lambda>k. lo \<le> k \<and> k \<le> hi"]
      by (simp add: range_2_def u_def [symmetric])
  next
    case (Regular l e s a r)
    have cn: "cnode (Regular l e s a r)" using sub Regular by (auto simp: root_ok_def)
    note sons = cnode_sons [OF cn]
    have st: "strict (iterate_seq l)" "strict (iterate_seq r)" "\<forall>x\<in>set (iterate_seq l). fst x < fst e" "\<forall>x\<in>set (iterate_seq r). fst e < fst x"
      using sub Regular by (simp_all add: strict_mid)
    have b: "lo \<le> fst e" "fst e \<le> hi" using sub Regular by blast+
    have sz: "cnt l + cnt r + 3 < 2 ^ 32" using sub Regular assms(3) by simp
    obtain l' where l': "right_2 l lo = Some l'" "cnode l'" "iterate_seq l' = filter (\<lambda>x. lo \<le> fst x) (iterate_seq l)"
      using right_2_ok [OF sons(1) st(1), of lo] sz by (auto elim: holds_nodeE)
    obtain r' where r': "left_2 r hi = Some r'" "cnode r'" "iterate_seq r' = filter (\<lambda>x. fst x \<le> hi) (iterate_seq r)"
      using left_2_ok [OF sons(2) st(2), of hi] sz by (auto elim: holds_nodeE)
    have "cnt l' \<le> cnt l" "cnt r' \<le> cnt r" unfolding l'(3) r'(3) by (rule length_filter_le)+
    then have "holds_node (join l' e r') (iterate_seq l' @ e # iterate_seq r')"
      using join_ok [OF l'(2) r'(2)] sz by simp
    moreover have "filter (\<lambda>x. lo \<le> fst x) (iterate_seq l) = filter ?P (iterate_seq l)"
      using st(3) b(2) by (intro filter_cong [OF refl]) (meson less_imp_le order_trans)
    moreover have "filter (\<lambda>x. fst x \<le> hi) (iterate_seq r) = filter ?P (iterate_seq r)"
      using st(4) b(1) by (intro filter_cong [OF refl]) (meson less_imp_le order_trans)
    ultimately show ?thesis using eq b l' r' Regular
      by (simp add: range_2_def u_def [symmetric])
  qed
qed

end
