(* ===== verification/CpamBatchOk.thy ===== *)
theory CpamBatchOk
  imports CpamSetOps
begin

text \<open>
  The batch operations and the operations of maps: on a map and a strictly sorted
  array each returns a map whose entries are those of one sequential walk.
\<close>

section \<open>The search in the array\<close>

lemma PAM_linear_search_ok:
  "PAM_linear_search xs f \<le> length xs \<and> (\<forall>i<PAM_linear_search xs f. f (xs ! i)) \<and>
   (PAM_linear_search xs f < length xs \<longrightarrow> \<not> f (xs ! PAM_linear_search xs f))"
  by (induction xs) (auto simp: nth_Cons split: nat.splits)

lemma PAM_search_loop_ok:
  "PAM_search_loop A f lo fin = (u, v) \<Longrightarrow> lo \<le> fin \<Longrightarrow> fin \<le> length A \<Longrightarrow>
   \<forall>i j. i \<le> j \<longrightarrow> j < length A \<longrightarrow> f (A ! j) \<longrightarrow> f (A ! i) \<Longrightarrow>
   \<forall>i<lo. f (A ! i) \<Longrightarrow> \<forall>i. fin \<le> i \<longrightarrow> i < length A \<longrightarrow> \<not> f (A ! i) \<Longrightarrow>
   u \<le> v \<and> v \<le> length A \<and> (\<forall>i<u. f (A ! i)) \<and> (\<forall>i. v \<le> i \<longrightarrow> i < length A \<longrightarrow> \<not> f (A ! i))"
proof (induction A f lo fin rule: PAM_search_loop.induct)
  case (1 A f lo fin)
  define mid where "mid = (fin + lo) div 2"
  consider "fin - lo > 16" "\<not> f (A ! mid)" | "fin - lo > 16" "f (A ! mid)" | "\<not> fin - lo > 16" by blast
  then show ?case
  proof cases
    case 1
    then have "PAM_search_loop A f lo mid = (u, v)"
      using "1.prems"(1) by (simp add: PAM_search_loop.simps [of A f lo fin] mid_def)
    moreover have "lo \<le> mid" "mid \<le> length A" using "1.prems"(2,3) 1 by (simp_all add: mid_def)
    moreover have "\<forall>i. mid \<le> i \<longrightarrow> i < length A \<longrightarrow> \<not> f (A ! i)" using "1.prems"(4) 1(2) by blast
    ultimately show ?thesis using "1.IH"(1) [OF 1(1) mid_def 1(2)] "1.prems"(4,5) by blast
  next
    case 2
    then have "PAM_search_loop A f (mid + 1) fin = (u, v)"
      using "1.prems"(1) by (simp add: PAM_search_loop.simps [of A f lo fin] mid_def)
    moreover have m: "mid + 1 \<le> fin" "mid < length A" using "1.prems"(2,3) 2 by (simp_all add: mid_def)
    moreover have "\<forall>i<mid + 1. f (A ! i)" using "1.prems"(4) 2(2) m by (metis less_Suc_eq_le Suc_eq_plus1)
    ultimately show ?thesis using "1.IH"(2) [OF 2(1) mid_def] 2(2) "1.prems"(3,4,6) by blast
  next
    case 3
    then show ?thesis using "1.prems" by (simp add: PAM_search_loop.simps [of A f lo fin])
  qed
qed

lemma PAM_binary_search_ok:
  assumes mono: "\<forall>i j. i \<le> j \<longrightarrow> j < length A \<longrightarrow> f (A ! j) \<longrightarrow> f (A ! i)"
  shows "PAM_binary_search A f \<le> length A \<and> (\<forall>x\<in>set (take (PAM_binary_search A f) A). f x) \<and>
    (\<forall>x\<in>set (drop (PAM_binary_search A f) A). \<not> f x)"
proof -
  obtain u v where se: "PAM_search_loop A f 0 (length A) = (u, v)" by force
  have inv: "u \<le> v" "v \<le> length A" "\<forall>i<u. f (A ! i)" "\<forall>i. v \<le> i \<longrightarrow> i < length A \<longrightarrow> \<not> f (A ! i)"
    using PAM_search_loop_ok [OF se] mono by auto
  define B where "B = take (v - u) (drop u A)"
  have len: "length B = v - u" using inv by (simp add: B_def)
  define x where "x = PAM_linear_search B f"
  have x: "x \<le> v - u" "\<forall>i<x. f (B ! i)" "x < v - u \<longrightarrow> \<not> f (B ! x)"
    using PAM_linear_search_ok [of B f] unfolding x_def len by blast+
  have nth: "B ! i = A ! (u + i)" if "i < v - u" for i using that inv by (simp add: B_def)
  have eq: "PAM_binary_search A f = u + x" by (simp add: PAM_binary_search_def se x_def B_def)
  have le: "u + x \<le> length A" using x(1) inv by linarith
  have lo: "f (A ! i)" if "i < u + x" for i
  proof (cases "i < u")
    case False
    then have i: "i - u < x" "i - u < v - u" using that x(1) by auto
    then have "f (B ! (i - u))" using x(2) by blast
    then show ?thesis using nth [OF i(2)] False by simp
  qed (use inv(3) in simp)
  have hi: "\<not> f (A ! i)" if "u + x \<le> i" "i < length A" for i
  proof (cases "x < v - u")
    case True
    then have "\<not> f (A ! (u + x))" using x(3) nth by simp
    then show ?thesis using mono that by blast
  next
    case False
    then have "v \<le> i" using x(1) inv(1) that(1) by simp
    then show ?thesis using inv(4) that(2) by blast
  qed
  show ?thesis unfolding eq using le lo hi by (auto simp: in_set_conv_nth)
qed

text \<open>What a batch routine does with the position: the array falls into three parts.\<close>

lemma array_parts:
  fixes k :: zkey
  assumes "sorted_wrt (\<lambda>a b. g a < g b) A" "mid = PAM_binary_search A (\<lambda>a. g a < k)"
    "dup = (mid < length A \<and> \<not> k < g (A ! mid))"
  shows "A = take mid A @ opt_list (if dup then Some (A ! mid) else None) @ drop (mid + of_bool dup) A \<and>
    (\<forall>x\<in>set (take mid A). g x < k) \<and> (\<forall>x\<in>set (drop (mid + of_bool dup) A). k < g x) \<and> (dup \<longrightarrow> g (A ! mid) = k)"
proof -
  have less: "g (A ! i) < g (A ! j)" if "i < j" "j < length A" for i j
    using assms(1) that by (simp add: sorted_wrt_iff_nth_less)
  have mono: "\<forall>i j. i \<le> j \<longrightarrow> j < length A \<longrightarrow> g (A ! j) < k \<longrightarrow> g (A ! i) < k"
    using less by (metis less_trans order_le_less)
  note s = PAM_binary_search_ok [of A "\<lambda>a. g a < k", OF mono, folded assms(2)]
  show ?thesis
  proof (cases dup)
    case True
    then have m: "mid < length A" "\<not> k < g (A ! mid)" using assms(3) by auto
    then have d: "drop mid A = A ! mid # drop (Suc mid) A" by (simp add: Cons_nth_drop_Suc)
    then have "\<not> g (A ! mid) < k" using s by simp
    then have eq: "g (A ! mid) = k" using m(2) by (meson linorder_neqE)
    have "k < g x" if x: "x \<in> set (drop (Suc mid) A)" for x
    proof -
      obtain i where i: "i < length (drop (Suc mid) A)" "drop (Suc mid) A ! i = x"
        using x unfolding in_set_conv_nth by blast
      then have "x = A ! (Suc mid + i)" "Suc mid + i < length A" by simp_all
      then show ?thesis using less [of mid "Suc mid + i"] eq by simp
    qed
    moreover have "A = take mid A @ A ! mid # drop (Suc mid) A" by (rule id_take_nth_drop [OF m(1)])
    ultimately show ?thesis using True s eq by (intro conjI) simp_all
  next
    case False
    have "k < g x" if x: "x \<in> set (drop mid A)" for x
    proof -
      obtain i where "i < length (drop mid A)" "drop mid A ! i = x"
        using x unfolding in_set_conv_nth by blast
      then have i: "x = A ! (mid + i)" "mid + i < length A" by simp_all
      then have m: "k < g (A ! mid)" using False assms(3) by simp
      show ?thesis
      proof (cases "i = 0")
        case False
        then show ?thesis using m less [of mid "mid + i"] i by (simp add: less_trans)
      qed (use i m in simp)
    qed
    then show ?thesis using False s by simp
  qed
qed

section \<open>Batch deletion\<close>

lemma base_case_delete:
  assumes "cnt b \<le> kBaseCaseSize" "strict (iterate_seq b)" "strict_by id A"
  shows "holds_node (multidelete_bc b A) (filter (\<lambda>x. fst x \<notin> set A) (iterate_seq b))"
proof -
  have "sorted A" using assms(3) by (simp add: strict_by_def sorted_by_def)
  note eq = subtract_keys_ok [OF assms(2) this]
  have "length (filter (\<lambda>x. fst x \<notin> set A) (iterate_seq b)) \<le> 322"
    by (rule le_trans [OF length_filter_le]) (use assms(1) in \<open>simp add: kBaseCaseSize_def kBlockSize_def\<close>)
  then show ?thesis using assms(1) from_buffer_ok
    by (simp add: multidelete_bc_def fill_buffer_ok eq kBaseCaseSize_def kBlockSize_def)
qed

lemma strict_by_wrt: "strict_by g A \<longleftrightarrow> sorted_wrt (\<lambda>a b. g a < g b) A"
  by (induction A) (auto simp: strict_by_Cons)

lemma multi_delete_tree:
  "root_ok b \<Longrightarrow> strict (iterate_seq b) \<Longrightarrow> strict_by id A \<Longrightarrow> cnt b + 2 < 2 ^ 32 \<Longrightarrow>
   holds_tree (cnode b) (multi_delete_sorted b A) (filter (\<lambda>x. fst x \<notin> set A) (iterate_seq b))"
proof (induction b A rule: multi_delete_sorted.induct)
  case (1 b A)
  have c: "csize b = cnt b" using "1.prems" by (simp add: root_size)
  consider "b = Nil_node" | "b \<noteq> Nil_node" "A = []" | "b \<noteq> Nil_node" "A \<noteq> []" "cnt b \<le> kBaseCaseSize"
    | "b \<noteq> Nil_node" "A \<noteq> []" "\<not> csize b \<le> kBaseCaseSize" using c by linarith
  then show ?case
  proof cases
    case 1
    then show ?thesis by (simp add: multi_delete_sorted.simps [of Nil_node] holds_tree_Some)
  next
    case 2
    then show ?thesis using "1.prems"(1) by (simp add: multi_delete_sorted.simps [of b "[]"] holds_tree_Some)
  next
    case 3
    then show ?thesis using base_case_delete [OF 3(3) "1.prems"(2,3)] c
      by (simp add: multi_delete_sorted.simps [of b A] holds_node_tree)
  next
    case 4
    obtain lc e rc where x: "expose b = Some (lc, e, rc)" "cnode lc" "cnode rc" "iterate_seq b = iterate_seq lc @ e # iterate_seq rc"
      using expose_ok [OF "1.prems"(1) 4(1)] by blast
    note st = "1.prems"(2) [unfolded x(4) strict_mid]
    define mid where "mid = PAM_binary_search A (\<lambda>a. a < fst e)"
    define dup where "dup = (mid < length A \<and> \<not> fst e < A ! mid)"
    have wrt: "sorted_wrt (\<lambda>a b. id a < id b) A" using "1.prems"(3) by (simp add: strict_by_wrt)
    note parts = array_parts [of id A mid "fst e" dup, unfolded id_apply, OF wrt [unfolded id_apply] mid_def dup_def]
    define A1 where "A1 = take mid A"
    define A2 where "A2 = drop (mid + of_bool dup) A"
    have A: "set A = set A1 \<union> (if dup then {fst e} else {}) \<union> set A2"
    proof -
      have "set A = set (A1 @ opt_list (if dup then Some (A ! mid) else None) @ A2)"
        using parts unfolding A1_def A2_def by simp
      then show ?thesis using parts by (cases dup) auto
    qed
    have stA: "strict_by id A1" "strict_by id A2"
      using "1.prems"(3) unfolding A1_def A2_def strict_by_wrt by (auto intro: sorted_wrt_take sorted_wrt_drop)
    have b: "\<forall>x\<in>set A1. x < fst e" "\<forall>x\<in>set A2. fst e < x" using parts unfolding A1_def A2_def by auto
    have sz: "cnt lc + cnt rc + 3 < 2 ^ 32" using "1.prems"(4) x(4) by simp
    let ?L = "filter (\<lambda>x. fst x \<notin> set A1) (iterate_seq lc)" and ?R = "filter (\<lambda>x. fst x \<notin> set A2) (iterate_seq rc)"
    have "holds_tree (cnode lc) (multi_delete_sorted lc A1) ?L" unfolding A1_def
      by (rule "1.IH"(1) [OF 4 x(1) refl refl mid_def dup_def]) (use x st sz stA cnode_root_ok in \<open>auto simp: A1_def id_def\<close>)
    then obtain l where l: "multi_delete_sorted lc A1 = Some l" "cnode l" "iterate_seq l = ?L"
      using x(2) by (blast elim: holds_treeE)
    have "holds_tree (cnode rc) (multi_delete_sorted rc A2) ?R" unfolding A2_def
      by (rule "1.IH"(2) [OF 4 x(1) refl refl mid_def dup_def l(1) [unfolded A1_def]]) (use x st sz stA cnode_root_ok in \<open>auto simp: A2_def id_def\<close>)
    then obtain r where r: "multi_delete_sorted rc A2 = Some r" "cnode r" "iterate_seq r = ?R"
      using x(3) by (blast elim: holds_treeE)
    have "cnt l \<le> cnt lc" "cnt r \<le> cnt rc" unfolding l(3) r(3) by (rule length_filter_le)+
    then have sz': "cnt l + cnt r + 2 < 2 ^ 32" using sz(1) by linarith
    have spec: "filter (\<lambda>x. fst x \<notin> set A) (iterate_seq b) = iterate_seq l @ (if dup then [] else [e]) @ iterate_seq r"
      unfolding x(4) l(3) r(3) by (rule remove_split [OF _ _ refl _ _ A]) (use st b in blast)+
    have "multi_delete_sorted b A = (if \<not> dup then node_join l r e else join2 l r)"
      using 4 x(1) l(1) r(1) unfolding A1_def A2_def
      by (simp add: multi_delete_sorted.simps [of b A] mid_def [symmetric] dup_def [symmetric] del: de_Morgan_conj)
    moreover have "holds_node (join2 l r) (iterate_seq l @ iterate_seq r)" by (rule join2_ok [OF l(2) r(2) sz'])
    moreover have "holds_node (node_join l r e) (iterate_seq l @ e # iterate_seq r)" by (rule node_join_ok [OF l(2) r(2) sz'])
    ultimately show ?thesis unfolding spec by (simp add: holds_node_tree)
  qed
qed

section \<open>Batch insertion\<close>

lemma base_case_insert:
  assumes "cnt b + length A \<le> kBaseCaseSize"
  shows "holds_node (multiinsert_bc b A op) (merge_entries op (iterate_seq b) A)"
proof -
  have "length (merge_entries op (iterate_seq b) A) \<le> 322"
    by (rule le_trans [OF length_merge_entries]) (use assms in \<open>simp add: kBaseCaseSize_def kBlockSize_def\<close>)
  then show ?thesis using assms from_buffer_ok
    by (simp add: multiinsert_bc_def fill_buffer_ok kBaseCaseSize_def kBlockSize_def)
qed

lemma multi_insert_tree:
  "root_ok b \<Longrightarrow> strict (iterate_seq b) \<Longrightarrow> strict A \<Longrightarrow> cnt b + length A + 2 < 2 ^ 32 \<Longrightarrow>
   holds_tree (cnode b) (multi_insert_sorted b A op) (merge_entries op (iterate_seq b) A)"
proof (induction b A op rule: multi_insert_sorted.induct)
  case (1 b A op)
  have c: "csize b = cnt b" using "1.prems" by (simp add: root_size)
  consider "b = Nil_node" | "b \<noteq> Nil_node" "A = []" | "b \<noteq> Nil_node" "A \<noteq> []" "cnt b + length A \<le> kBaseCaseSize"
    | "b \<noteq> Nil_node" "A \<noteq> []" "\<not> csize b + length A \<le> kBaseCaseSize" using c by linarith
  then show ?case
  proof cases
    case 1
    then show ?thesis using from_array_ok [of A] "1.prems"(4)
      by (simp add: multi_insert_sorted.simps [of Nil_node] holds_node_tree)
  next
    case 2
    then show ?thesis using "1.prems"(1) by (simp add: multi_insert_sorted.simps [of b "[]"] holds_tree_Some)
  next
    case 3
    then show ?thesis using base_case_insert [OF 3(3)] c
      by (simp add: multi_insert_sorted.simps [of b A] holds_node_tree)
  next
    case 4
    obtain lc e rc where x: "expose b = Some (lc, e, rc)" "cnode lc" "cnode rc" "iterate_seq b = iterate_seq lc @ e # iterate_seq rc"
      using expose_ok [OF "1.prems"(1) 4(1)] by blast
    note st = "1.prems"(2) [unfolded x(4) strict_mid]
    define mid where "mid = PAM_binary_search A (\<lambda>a. fst a < fst e)"
    define dup where "dup = (mid < length A \<and> \<not> fst e < fst (A ! mid))"
    define m where "m = (if dup then Some (A ! mid) else None)"
    have wrt: "sorted_wrt (\<lambda>a b. fst a < fst b) A" using "1.prems"(3) by (simp add: strict_by_wrt)
    note parts = array_parts [of fst A mid "fst e" dup, OF wrt mid_def dup_def, folded m_def]
    define A1 where "A1 = take mid A"
    define A2 where "A2 = drop (mid + of_bool dup) A"
    have A: "A = A1 @ opt_list m @ A2" using parts unfolding A1_def A2_def by blast
    have b: "\<forall>x\<in>set A1. fst x < fst e" "\<forall>x\<in>set A2. fst e < fst x" "\<forall>y. m = Some y \<longrightarrow> fst y = fst e"
      using parts unfolding A1_def A2_def m_def by (auto split: if_splits)
    have stA: "strict A1" "strict A2" using "1.prems"(3) [unfolded A] by (simp_all add: strict_by_append)
    have sz: "cnt lc + length A1 + (cnt rc + length A2) + 3 < 2 ^ 32"
      using "1.prems"(4) x(4) arg_cong [OF A, of length] by simp
    have "holds_tree (cnode lc) (multi_insert_sorted lc A1 op) (merge_entries op (iterate_seq lc) A1)" unfolding A1_def
      by (rule "1.IH"(1) [OF 4 x(1) refl refl mid_def dup_def]) (use x st sz stA cnode_root_ok A1_def in auto)
    then obtain l where l: "multi_insert_sorted lc A1 op = Some l" "cnode l" "iterate_seq l = merge_entries op (iterate_seq lc) A1"
      using x(2) by (blast elim: holds_treeE)
    have "holds_tree (cnode rc) (multi_insert_sorted rc A2 op) (merge_entries op (iterate_seq rc) A2)" unfolding A2_def
      by (rule "1.IH"(2) [OF 4 x(1) refl refl mid_def dup_def l(1) [unfolded A1_def]]) (use x st sz stA cnode_root_ok A2_def in auto)
    then obtain r where r: "multi_insert_sorted rc A2 op = Some r" "cnode r" "iterate_seq r = merge_entries op (iterate_seq rc) A2"
      using x(3) by (blast elim: holds_treeE)
    have "cnt l \<le> cnt lc + length A1" "cnt r \<le> cnt rc + length A2" unfolding l(3) r(3) by (rule length_merge_entries)+
    then have sz': "cnt l + cnt r + 2 < 2 ^ 32" using sz(1) by linarith
    let ?e = "case m of None \<Rightarrow> e | Some y \<Rightarrow> (fst e, op (snd e) (snd y))"
    have "multi_insert_sorted b A op = node_join l r ?e"
      using 4 x(1) l(1) r(1) unfolding A1_def A2_def
      by (simp add: multi_insert_sorted.simps [of b A] mid_def [symmetric] dup_def [symmetric] m_def combine_values_def)
    moreover have "merge_entries op (iterate_seq b) A = iterate_seq l @ ?e # iterate_seq r"
    proof -
      have "merge_entries op (iterate_seq b) A = merge_entries (\<lambda>u v. op v u) (A1 @ opt_list m @ A2) (iterate_seq lc @ e # iterate_seq rc)"
        unfolding x(4) A by (rule merge_entries_swap)
      also have "\<dots> = merge_entries (\<lambda>u v. op v u) A1 (iterate_seq lc) @ ?e # merge_entries (\<lambda>u v. op v u) A2 (iterate_seq rc)"
        by (rule merge_split [OF b]) (use st in blast)+
      also have "\<dots> = merge_entries op (iterate_seq lc) A1 @ ?e # merge_entries op (iterate_seq rc) A2"
        by (simp add: merge_entries_swap [of op])
      finally show ?thesis unfolding l(3) r(3) .
    qed
    ultimately show ?thesis using node_join_ok [OF l(2) r(2) sz', of ?e] by (simp add: holds_node_tree)
  qed
qed

end
