(* ===== verification/CpamMaps.thy ===== *)
theory CpamMaps
  imports CpamBatchOk
begin

text \<open>
  Maps as finite functions: the operations of \<open>map.h\<close> refine those on \<open>abs_map m\<close>,
  with a sort that is any correct one. The exceptions are the single insertion
  into a block and the equality test.
\<close>

definition abs_map :: "ctree \<Rightarrow> zkey \<rightharpoonup> point" where
  "abs_map m = map_of (iterate_seq m)"

definition is_sorter :: "(entry list \<Rightarrow> entry list) \<Rightarrow> bool" where
  "is_sorter srt \<longleftrightarrow> (\<forall>A. mset (srt A) = mset A \<and> sorted_by fst (srt A))"

lemma sort_key_sorter: "is_sorter (sort_key fst)"
  by (simp add: is_sorter_def sorted_by_sort_key)

lemma dom_abs: "dom (abs_map m) = fst ` set (iterate_seq m)"
  by (simp add: abs_map_def dom_map_of_conv_image_fst)

lemma map_ok_root: "map_ok m \<Longrightarrow> root_ok m" "map_ok m \<Longrightarrow> strict (iterate_seq m)" "map_ok m \<Longrightarrow> cnt m + 2 < 2 ^ 32"
  by (simp_all add: map_ok_def)

section \<open>Sorting and removing duplicates\<close>

definition run_heads :: "entry list \<Rightarrow> entry list" where
  "run_heads B = map (\<lambda>i. B ! i) (filter (\<lambda>i. i = 0 \<or> comp (fst (B ! (i - 1))) (fst (B ! i))) [0..<length B])"

lemma run_heads_snoc:
  "run_heads (B @ [x]) = run_heads B @ (if B = [] \<or> fst (last B) < fst x then [x] else [])"
proof -
  let ?P = "\<lambda>C i. i = 0 \<or> comp (fst (C ! (i - 1))) (fst (C ! i))"
  have "filter (?P (B @ [x])) [0..<length B] = filter (?P B) [0..<length B]"
    by (rule filter_cong [OF refl]) (auto simp: nth_append)
  moreover have "map (\<lambda>i. (B @ [x]) ! i) (filter (?P B) [0..<length B]) = map (\<lambda>i. B ! i) (filter (?P B) [0..<length B])"
    by (rule map_cong [OF refl]) (auto simp: nth_append)
  moreover have "?P (B @ [x]) (length B) \<longleftrightarrow> B = [] \<or> fst (last B) < fst x"
    by (cases B rule: rev_cases) (auto simp: nth_append)
  ultimately show ?thesis by (simp add: run_heads_def)
qed

lemma run_heads_ok:
  "sorted_by fst B \<Longrightarrow>
   strict (run_heads B) \<and> set (run_heads B) \<subseteq> set B \<and> fst ` set (run_heads B) = fst ` set B \<and>
   length (run_heads B) \<le> length B"
proof (induction B rule: rev_induct)
  case Nil
  show ?case by (simp add: run_heads_def)
next
  case (snoc x B)
  have st: "sorted_by fst B" "\<forall>y\<in>set B. fst y \<le> fst x" using snoc.prems by (simp_all add: sorted_by_append)
  note IH = snoc.IH [OF st(1)]
  show ?case
  proof (cases "B = [] \<or> fst (last B) < fst x")
    case True
    have "fst y < fst x" if "y \<in> set B" for y
    proof -
      have "B \<noteq> []" using that by auto
      then have "fst y \<le> fst (last B)"
        using that snoc.prems st(1) by (cases B rule: rev_cases) (auto simp: sorted_by_append)
      then show ?thesis using True \<open>B \<noteq> []\<close> by (meson le_less_trans)
    qed
    then have "\<forall>y\<in>set (run_heads B). fst y < fst x" using IH by blast
    then show ?thesis using True IH by (auto simp: run_heads_snoc strict_by_append strict_by_Cons)
  next
    case False
    then have "last B \<in> set B" "fst (last B) = fst x" using st(2) by (auto simp: not_less intro: antisym)
    then have "fst x \<in> fst ` set B" by (metis imageI)
    then show ?thesis using False IH by (auto simp: run_heads_snoc insert_absorb)
  qed
qed

lemma sort_remove_ok:
  assumes "is_sorter srt"
  shows "strict (sort_remove_duplicates srt A)" "set (sort_remove_duplicates srt A) \<subseteq> set A"
    "fst ` set (sort_remove_duplicates srt A) = fst ` set A" "length (sort_remove_duplicates srt A) \<le> length A"
proof -
  have srt: "mset (srt A) = mset A" "sorted_by fst (srt A)" using assms by (simp_all add: is_sorter_def)
  have eq: "sort_remove_duplicates srt A = run_heads (srt A)"
    using srt(1) by (cases "A = []") (simp_all add: sort_remove_duplicates_def run_heads_def Let_def)
  have "set (srt A) = set A" "length (srt A) = length A"
    using mset_eq_setD [OF srt(1)] mset_eq_length [OF srt(1)] by simp_all
  then show "strict (sort_remove_duplicates srt A)" "set (sort_remove_duplicates srt A) \<subseteq> set A"
    "fst ` set (sort_remove_duplicates srt A) = fst ` set A" "length (sort_remove_duplicates srt A) \<le> length A"
    using run_heads_ok [OF srt(2)] unfolding eq by simp_all
qed

text \<open>With distinct keys the sorted sequence is the batch.\<close>

lemma sort_remove_map_of:
  assumes "is_sorter srt" "distinct (map fst A)"
  shows "map_of (sort_remove_duplicates srt A) = map_of A"
proof
  fix k
  show "map_of (sort_remove_duplicates srt A) k = map_of A k"
  proof (cases "map_of (sort_remove_duplicates srt A) k")
    case None
    then have "k \<notin> fst ` set A" using sort_remove_ok(3) [OF assms(1)] by (metis map_of_eq_None_iff)
    then have "map_of A k = None" by (simp add: map_of_eq_None_iff)
    then show ?thesis using None by simp
  next
    case (Some v)
    then have "(k, v) \<in> set A" using sort_remove_ok(2) [OF assms(1)] map_of_SomeD by fastforce
    then show ?thesis using Some assms(2) by simp
  qed
qed

section \<open>Results that are maps\<close>

definition holds_map :: "ctree option \<Rightarrow> (zkey \<rightharpoonup> point) \<Rightarrow> bool" where
  "holds_map res M \<longleftrightarrow> (\<exists>m. res = Some m \<and> map_ok m \<and> abs_map m = M)"

lemma holds_mapI:
  "holds_tree c res xs \<Longrightarrow> strict xs \<Longrightarrow> length xs + 2 < 2 ^ 32 \<Longrightarrow> map_of xs = M \<Longrightarrow> holds_map res M"
  by (auto simp: holds_map_def holds_tree_def map_ok_def abs_map_def)

lemma map_of_filter_key: "map_of (filter (\<lambda>x. fst x \<in> S) xs) = map_of xs |` S"
  by (rule ext, induction xs) (auto simp: restrict_map_def)

lemma filter_holds_map:
  assumes "holds_tree c res (filter (\<lambda>x. fst x \<in> S) (iterate_seq m))" "map_ok m"
  shows "holds_map res (abs_map m |` S)"
proof (rule holds_mapI [OF assms(1)])
  show "strict (filter (\<lambda>x. fst x \<in> S) (iterate_seq m))" using map_ok_root(2) [OF assms(2)] by (rule strict_by_filter)
  show "length (filter (\<lambda>x. fst x \<in> S) (iterate_seq m)) + 2 < 2 ^ 32"
    using map_ok_root(3) [OF assms(2)] le_less_trans [OF add_right_mono [OF length_filter_le]] by blast
  show "map_of (filter (\<lambda>x. fst x \<in> S) (iterate_seq m)) = abs_map m |` S" by (simp add: map_of_filter_key abs_map_def)
qed

lemma merge_holds_map:
  assumes "holds_tree c res (merge_entries replace xs ys)" "strict xs" "strict ys" "length xs + length ys + 2 < 2 ^ 32"
  shows "holds_map res (map_of xs ++ map_of ys)"
proof (rule holds_mapI [OF assms(1)])
  show "strict (merge_entries replace xs ys)" by (rule strict_merge_entries [OF assms(2,3)])
  show "length (merge_entries replace xs ys) + 2 < 2 ^ 32"
    using assms(4) le_less_trans [OF add_right_mono [OF length_merge_entries]] by blast
  show "map_of (merge_entries replace xs ys) = map_of xs ++ map_of ys"
    by (rule ext) (auto simp: map_of_merge_entries [OF assms(2,3)] map_add_def replace_def split: option.splits)
qed

section \<open>Finalizing\<close>

lemma finalize_tree:
  assumes "root_ok t" "cnt t < 2 ^ 32"
  shows "holds_tree False (finalize t) (iterate_seq t)"
proof (cases "cnode t")
  case True
  then show ?thesis using finalize_ok [OF True assms(2)] by (auto simp: holds_tree_def)
next
  case False
  then have f: "fields_ok t" "is_compressed t" using assms(1) by (auto simp: root_ok_def)
  then obtain es s a where t: "t = Compressed es s a" by (cases t) auto
  have len: "es \<noteq> []" "length es \<le> 80" using f t by (simp_all add: kBlockSize_def)
  obtain t' where t': "make_single_compressed_node es = Some t'" "fields_ok t'" "iterate_seq t' = es" "is_compressed t'"
    using make_single_ok [of es] len by auto
  show ?thesis
  proof (cases "finalize t = Some t")
    case True then show ?thesis using assms(1) by (simp add: holds_tree_Some)
  next
    case False
    then have "finalize t = Some t'" using t' by (simp add: finalize_def make_compressed_node_def t Let_def split: if_splits)
    then show ?thesis using t' by (simp add: holds_tree_Some root_ok_def t)
  qed
qed

lemma bind_finalize:
  assumes "holds_tree c res xs" "length xs < 2 ^ 32"
  shows "holds_tree False (Option.bind res finalize) xs"
  using assms finalize_tree by (auto simp: holds_tree_def)

section \<open>The operations\<close>

lemma map_find_ok: "map_ok m \<Longrightarrow> map_find m k = abs_map m k"
  by (simp add: map_find_def abs_map_def find2_ok map_ok_root option.map_comp comp_def map_option.identity [unfolded id_def])

lemma multi_insert_map:
  assumes "is_sorter srt" "map_ok m" "distinct (map fst SS)" "cnt m + length SS + 2 < 2 ^ 32"
  shows "holds_map (multi_insert srt m SS) (abs_map m ++ map_of SS)"
proof -
  define A where "A = sort_remove_duplicates srt SS"
  note A = sort_remove_ok [OF assms(1), of SS, folded A_def]
  have sz: "cnt m + length A + 2 < 2 ^ 32" using A(4) assms(4) by linarith
  have "holds_map (multi_insert_sorted m A replace) (map_of (iterate_seq m) ++ map_of A)"
    by (rule merge_holds_map [OF multi_insert_tree]) (use map_ok_root [OF assms(2)] A(1) sz in auto)
  then show ?thesis
    using sort_remove_map_of [OF assms(1,3), folded A_def] by (simp add: multi_insert_def A_def abs_map_def)
qed

lemma multi_delete_map:
  assumes "is_sorter srt" "map_ok m"
  shows "holds_map (multi_delete srt m SS) (abs_map m |` (- fst ` set SS))"
proof -
  define A where "A = sort_remove_duplicates srt SS"
  note A = sort_remove_ok [OF assms(1), of SS, folded A_def]
  have "strict_by id (map fst A)" using A(1) by (simp add: strict_by_def sorted_by_def)
  then have "holds_tree (cnode m) (multi_delete_sorted m (map fst A)) (filter (\<lambda>x. fst x \<notin> set (map fst A)) (iterate_seq m))"
    using multi_delete_tree map_ok_root [OF assms(2)] by blast
  moreover have "set (map fst A) = fst ` set SS" using A(3) by simp
  ultimately have "holds_tree (cnode m) (multi_delete srt m SS) (filter (\<lambda>x. fst x \<in> - fst ` set SS) (iterate_seq m))"
    by (simp add: multi_delete_def A_def)
  then show ?thesis by (rule filter_holds_map [OF _ assms(2)])
qed

lemma map_difference_map:
  assumes "map_ok a" "map_ok b"
  shows "holds_map (map_difference a b) (abs_map a |` (- dom (abs_map b)))"
proof -
  have "holds_tree (cnode a) (map_difference a b) (filter (\<lambda>x. fst x \<in> - dom (abs_map b)) (iterate_seq a))"
    using difference_tree [of a b] map_ok_root [OF assms(1)] map_ok_root [OF assms(2)]
    by (simp add: map_difference_def dom_abs)
  then show ?thesis by (rule filter_holds_map [OF _ assms(1)])
qed

lemma range_map:
  assumes "map_ok m" "lo \<le> hi"
  shows "holds_map (range_2 m lo hi) (abs_map m |` {lo..hi})"
proof -
  have "holds_tree True (range_2 m lo hi) (filter (\<lambda>x. fst x \<in> {lo..hi}) (iterate_seq m))"
    using range_2_ok [OF map_ok_root [OF assms(1)] assms(2)] by (simp add: holds_node_tree)
  then show ?thesis by (rule filter_holds_map [OF _ assms(1)])
qed

lemma new_map_map:
  assumes "is_sorter srt" "distinct (map fst SS)" "length SS + 2 < 2 ^ 32"
  shows "holds_map (new_map srt SS) (map_of SS)"
proof -
  obtain m where m: "multi_insert srt Nil_node SS = Some m" "map_ok m" "abs_map m = map_of SS"
    using multi_insert_map [OF assms(1) _ assms(2), of Nil_node] assms(3)
    by (auto simp: holds_map_def map_ok_def abs_map_def)
  then have "cnt m < 2 ^ 32" by (simp add: map_ok_def)
  then have "holds_tree False (new_map srt SS) (iterate_seq m)"
    unfolding new_map_def m(1) using finalize_tree [OF map_ok_root(1) [OF m(2)]] by simp
  then show ?thesis
    by (rule holds_mapI) (use m in \<open>simp_all add: map_ok_def abs_map_def\<close>)
qed

section \<open>Single deletions and updates\<close>

lemma my_remove_ok:
  "root_ok b \<Longrightarrow> strict (iterate_seq b) \<Longrightarrow> cnt b + 2 < 2 ^ 32 \<Longrightarrow>
   holds_node (my_remove b k node_join) (filter (\<lambda>x. fst x \<noteq> k) (iterate_seq b))"
proof (induction b k "node_join :: ctree \<Rightarrow> ctree \<Rightarrow> entry \<Rightarrow> ctree option" rule: my_remove.induct)
  case (1 b k)
  show ?case
  proof (cases "b = Nil_node")
    case True then show ?thesis by (simp add: my_remove.simps [of Nil_node] holds_node_SomeI)
  next
    case False
    obtain lc e rc where x: "expose b = Some (lc, e, rc)" "cnode lc" "cnode rc" "iterate_seq b = iterate_seq lc @ e # iterate_seq rc"
      using expose_ok [OF "1.prems"(1) False] by blast
    note st = "1.prems"(2) [unfolded x(4) strict_mid]
    have sz: "cnt lc + cnt rc + 3 < 2 ^ 32" using "1.prems"(3) x(4) by simp
    have others: "filter (\<lambda>x. fst x \<noteq> k) (iterate_seq lc) = iterate_seq lc" if "fst e \<le> k"
      using st that by (intro filter_True) fastforce
    have others': "filter (\<lambda>x. fst x \<noteq> k) (iterate_seq rc) = iterate_seq rc" if "k \<le> fst e"
      using st that by (intro filter_True) fastforce
    consider "fst e < k" | "\<not> fst e < k" "k < fst e" | "\<not> fst e < k" "\<not> k < fst e" "fst e = k" by fastforce
    then show ?thesis
    proof cases
      case lt: 1
      have "holds_node (my_remove rc k node_join) (filter (\<lambda>x. fst x \<noteq> k) (iterate_seq rc))"
        by (rule "1.hyps"(1) [OF False x(1) refl refl lt]) (use x(3) st sz cnode_root_ok in auto)
      then obtain r where r: "my_remove rc k node_join = Some r" "cnode r" "iterate_seq r = filter (\<lambda>x. fst x \<noteq> k) (iterate_seq rc)"
        by (rule holds_nodeE)
      have "cnt r \<le> cnt rc" unfolding r(3) by (rule length_filter_le)
      then have "holds_node (node_join lc r e) (iterate_seq lc @ e # iterate_seq r)"
        using node_join_ok [OF x(2) r(2)] sz by simp
      moreover have "my_remove b k node_join = node_join lc r e"
        using False x(1) lt r(1) by (simp add: my_remove.simps [of b])
      moreover have "fst e \<noteq> k" using lt by auto
      ultimately show ?thesis using x(4) r(3) others lt by simp
    next
      case gt: 2
      have "holds_node (my_remove lc k node_join) (filter (\<lambda>x. fst x \<noteq> k) (iterate_seq lc))"
        by (rule "1.hyps"(2) [OF False x(1) refl refl gt]) (use x(2) st sz cnode_root_ok in auto)
      then obtain l where l: "my_remove lc k node_join = Some l" "cnode l" "iterate_seq l = filter (\<lambda>x. fst x \<noteq> k) (iterate_seq lc)"
        by (rule holds_nodeE)
      have "cnt l \<le> cnt lc" unfolding l(3) by (rule length_filter_le)
      then have "holds_node (node_join l rc e) (iterate_seq l @ e # iterate_seq rc)"
        using node_join_ok [OF l(2) x(3)] sz by simp
      moreover have "my_remove b k node_join = node_join l rc e"
        using False x(1) gt l(1) by (simp add: my_remove.simps [of b])
      moreover have "fst e \<noteq> k" using gt by auto
      ultimately show ?thesis using x(4) l(3) others' gt by simp
    next
      case eq: 3
      have "holds_node (join2 lc rc) (iterate_seq lc @ iterate_seq rc)" using join2_ok [OF x(2,3)] sz by simp
      moreover have "my_remove b k node_join = join2 lc rc"
        using False x(1) eq by (simp add: my_remove.simps [of b])
      ultimately show ?thesis using x(4) eq(3) others others' by simp
    qed
  qed
qed

lemma deletet_tree:
  assumes "root_ok b" "strict (iterate_seq b)" "cnt b + 2 < 2 ^ 32"
  shows "holds_node (deletet b k) (filter (\<lambda>x. fst x \<noteq> k) (iterate_seq b))"
proof (cases "is_compressed b")
  case True
  then have "cnt b \<le> 80" using compressed_count [OF root_fields [OF assms(1)]] by (simp add: kBlockSize_def)
  then have len: "length (filter (\<lambda>x. fst x \<noteq> k) (iterate_seq b)) \<le> 80" by (rule le_trans [OF length_filter_le])
  have "(\<lambda>et :: entry. fst et < k \<or> k < fst et) = (\<lambda>et. fst et \<noteq> k)" by (rule ext) (meson less_irrefl linorder_neqE)
  then show ?thesis using True len from_buffer_ok
    by (auto simp: deletet_def my_remove_2_def remove_compressed3_def fill_buffer_ok kBlockSize_def)
next
  case False
  have "deletet b k = my_remove b k node_join"
    using False by (simp add: deletet_def my_remove_2_def my_remove.simps [of b])
  then show ?thesis using my_remove_ok [OF assms] by simp
qed

end
