(* ===== verification/CpamMapsMore.thy ===== *)
theory CpamMapsMore
  imports CpamMaps
begin

text \<open>
  More on maps: what a single insertion leaves in a block, updates, the batch search,
  the equality test, unions, and the variants with a converting function.
\<close>

section \<open>Insertion into a block\<close>

lemma insert_merged_placed [simp]: "insert_merged e f es True = es"
  by (induction es) auto

lemma insert_merged_above: "\<forall>x\<in>set es. fst x < fst e \<Longrightarrow> insert_merged e f es False = es @ [e]"
  by (induction es) auto

text \<open>The entry after the new key is lost; a key that is present keeps the old value under \<open>replace\<close>.\<close>

lemma insert_merged_spec:
  "strict es \<Longrightarrow> insert_merged e f es False =
   filter (\<lambda>x. fst x < fst e) es @
   (case map_of es (fst e) of
      Some v \<Rightarrow> (fst e, f (snd e) v) # filter (\<lambda>x. fst e < fst x) es
    | None \<Rightarrow> e # tl (filter (\<lambda>x. fst e < fst x) es))"
proof (induction es)
  case (Cons x es)
  have st: "strict es" "\<forall>y\<in>set es. fst x < fst y" using Cons.prems by (simp_all add: strict_by_Cons)
  consider "fst x < fst e" "\<not> fst e < fst x" "fst x \<noteq> fst e" | "fst e < fst x" "\<not> fst x < fst e" | "fst x = fst e" by fastforce
  then show ?case
  proof cases
    case 1
    then show ?thesis using Cons.IH [OF st(1)] by (simp add: map_of_first split: option.split)
  next
    case 2
    have all: "\<forall>y\<in>set es. fst e < fst y" using st(2) 2(1) less_trans by blast
    then have "filter (\<lambda>x. fst e < fst x) es = es" "filter (\<lambda>x. fst x < fst e) es = []"
      by (auto simp: filter_id_conv filter_empty_conv dest: less_not_sym)
    moreover have "map_of (x # es) (fst e) = None" using map_of_above [OF Cons.prems 2(1)] .
    ultimately show ?thesis using 2 by simp
  next
    case 3
    have "filter (\<lambda>x. fst e < fst x) es = es" "filter (\<lambda>x. fst x < fst e) es = []"
      using st(2) 3 by (auto simp: filter_id_conv filter_empty_conv dest: less_not_sym)
    then show ?thesis using 3 by (simp add: map_of_first combine_values_def)
  qed
qed simp

lemma insert_merged_length: "length (insert_merged e f es placed) \<le> length es + 1"
  by (induction e f es placed rule: insert_merged.induct) auto

lemma insert_merged_nonempty: "es \<noteq> [] \<Longrightarrow> insert_merged e f es placed \<noteq> []"
  by (cases es) auto

lemma insert_block:
  assumes "root_ok (Compressed es s a)"
  shows "holds_tree False (map_insert_one (Compressed es s a) e) (insert_merged e replace es False)"
proof -
  define out where "out = insert_merged e replace es False"
  have len: "es \<noteq> []" "length es \<le> 80" using root_fields [OF assms] by (simp_all add: kBlockSize_def)
  have o: "out \<noteq> []" "length out \<le> 81"
    using insert_merged_nonempty [OF len(1)] insert_merged_length [of e replace es False] len(2)
    by (simp_all add: out_def)
  have ins: "insert_node (Compressed es s a) e replace = make_compressed_array out"
    using o by (simp add: insert_node_def insert_compressed2_def fill_buffer_ok kBlockSize_def out_def)
  have "holds_tree False (make_compressed_array out) out"
  proof (cases "length out < 40")
    case True
    obtain t where "make_single_compressed_node out = Some t" "fields_ok t" "iterate_seq t = out" "is_compressed t"
      using make_single_ok [of out] o True by auto
    then show ?thesis using True by (simp add: make_compressed_array_def kBlockSize_def holds_tree_Some root_ok_def)
  next
    case False
    then show ?thesis using make_compressed_array_ok [of out] o by (simp add: holds_node_tree)
  qed
  then have "holds_tree False (Option.bind (make_compressed_array out) finalize) out"
    by (rule bind_finalize) (use o in simp)
  then show ?thesis by (simp add: map_insert_one_def ins out_def)
qed

section \<open>Updates\<close>

definition updated :: "zkey \<Rightarrow> (entry \<Rightarrow> point) \<Rightarrow> entry list \<Rightarrow> entry list" where
  "updated k f xs = map (\<lambda>x. if fst x = k then (k, f x) else x) xs"

lemma updated_simps [simp]:
  "updated k f (xs @ ys) = updated k f xs @ updated k f ys"
  "updated k f (x # xs) = (if fst x = k then (k, f x) else x) # updated k f xs"
  "length (updated k f xs) = length xs" "updated k f [] = []"
  by (simp_all add: updated_def)

lemma updated_outside: "\<forall>x\<in>set xs. fst x \<noteq> k \<Longrightarrow> updated k f xs = xs"
  by (simp add: updated_def map_idI)

lemma outside_below:
  assumes "\<forall>x\<in>set xs. fst x < m" "m \<le> (k :: zkey)" shows "\<forall>x\<in>set xs. fst x \<noteq> k"
proof
  fix x assume "x \<in> set xs"
  then have "fst x < k" using assms less_le_trans by blast
  then show "fst x \<noteq> k" by simp
qed

lemma outside_above:
  assumes "\<forall>x\<in>set xs. m < fst x" "(k :: zkey) \<le> m" shows "\<forall>x\<in>set xs. fst x \<noteq> k"
proof
  fix x assume "x \<in> set xs"
  then have "k < fst x" using assms le_less_trans by blast
  then show "fst x \<noteq> k" by simp
qed

lemma update_merged_ok: "strict es \<Longrightarrow> update_merged k f es = updated k f es"
proof (induction es)
  case (Cons x es)
  have st: "strict es" "\<forall>y\<in>set es. fst x < fst y" using Cons.prems by (simp_all add: strict_by_Cons)
  consider "fst x < k" "fst x \<noteq> k" | "k < fst x" "\<not> fst x < k" "fst x \<noteq> k" | "fst x = k" by fastforce
  then show ?case
  proof cases
    case 2
    then have "\<forall>y\<in>set es. fst y \<noteq> k" using outside_above [OF st(2)] less_imp_le by blast
    then show ?thesis using 2 by (simp add: updated_outside)
  next
    case 3
    then have "\<forall>y\<in>set es. fst y \<noteq> k" using outside_above [OF st(2), of k] by simp
    then show ?thesis using 3 by (simp add: updated_outside)
  qed (use Cons.IH st in simp)
qed simp

lemma update_block:
  assumes "fields_ok (Compressed es s a)" "strict es"
  shows "update_compressed (Compressed es s a) k f = make_compressed_array (updated k f es)"
  using assms by (simp add: update_compressed_def fill_buffer_ok update_merged_ok)

lemma update_node_tree:
  "cnode t \<Longrightarrow> strict (iterate_seq t) \<Longrightarrow> cnt t + 2 < 2 ^ 32 \<Longrightarrow>
   holds_node (update_node t k f) (updated k f (iterate_seq t))"
proof (induction t)
  case (Regular l e s a r)
  note sons = cnode_sons [OF Regular.prems(1)] and st = Regular.prems(2) [unfolded iterate_seq.simps strict_mid]
  have IH: "holds_node (update_node l k f) (updated k f (iterate_seq l))" "holds_node (update_node r k f) (updated k f (iterate_seq r))"
    using Regular.IH sons st Regular.prems(3) by simp_all
  consider "fst e < k" "fst e \<noteq> k" | "k < fst e" "\<not> fst e < k" "fst e \<noteq> k" | "fst e = k" by fastforce
  then show ?case
  proof cases
    case 1
    have "\<forall>x\<in>set (iterate_seq l). fst x \<noteq> k" using outside_below [of "iterate_seq l" "fst e" k] st 1 by auto
    moreover obtain r' where "update_node r k f = Some r'" "cnode r'" "iterate_seq r' = updated k f (iterate_seq r)"
      using IH(2) by (rule holds_nodeE)
    ultimately show ?thesis using 1 node_join_ok [OF sons(1), of r' e] Regular.prems(3)
      by (simp add: update_node_def updated_outside)
  next
    case 2
    have "\<forall>x\<in>set (iterate_seq r). fst x \<noteq> k" using outside_above [of "iterate_seq r" "fst e" k] st 2 by auto
    moreover obtain l' where "update_node l k f = Some l'" "cnode l'" "iterate_seq l' = updated k f (iterate_seq l)"
      using IH(1) by (rule holds_nodeE)
    ultimately show ?thesis using 2 node_join_ok [OF _ sons(2), of l' e] Regular.prems(3)
      by (simp add: update_node_def updated_outside)
  next
    case 3
    have "\<forall>x\<in>set (iterate_seq l). fst x \<noteq> k" "\<forall>x\<in>set (iterate_seq r). fst x \<noteq> k"
      using outside_below [of "iterate_seq l" "fst e" k] outside_above [of "iterate_seq r" "fst e" k] st 3 by auto
    then show ?thesis using 3 node_join_ok [OF sons, of "(k, f e)"] Regular.prems(3)
      by (simp add: update_node_def updated_outside)
  qed
next
  case (Compressed es s a)
  have f: "fields_ok (Compressed es s a)" using Compressed.prems(1) by (rule cnode_fields(1))
  moreover have "40 \<le> length es" using compressed_full [OF Compressed.prems(1)] by (simp add: kBlockSize_def)
  ultimately have "holds_node (make_compressed_array (updated k f es)) (updated k f es)"
    using make_compressed_array_ok [of "updated k f es"] by (simp add: kBlockSize_def)
  then show ?case using update_block [OF f] Compressed.prems(2) by (simp add: update_node_def)
qed (simp add: update_node_def holds_node_SomeI)

section \<open>The batch search\<close>

lemma skip_smaller_ok:
  "ct < length A \<Longrightarrow>
   ct \<le> skip_smaller A ct k \<and> skip_smaller A ct k < length A \<and>
   (\<forall>i. ct \<le> i \<longrightarrow> i < skip_smaller A ct k \<longrightarrow> A ! i < k) \<and>
   (A ! skip_smaller A ct k < k \<longrightarrow> skip_smaller A ct k = length A - 1)"
proof (induction A ct k rule: skip_smaller.induct)
  case (1 A ct k)
  show ?case
  proof (cases "A ! ct < k \<and> ct < length A - 1")
    case True
    then have IH: "ct + 1 \<le> skip_smaller A (ct + 1) k \<and> skip_smaller A (ct + 1) k < length A \<and>
        (\<forall>i. ct + 1 \<le> i \<longrightarrow> i < skip_smaller A (ct + 1) k \<longrightarrow> A ! i < k) \<and>
        (A ! skip_smaller A (ct + 1) k < k \<longrightarrow> skip_smaller A (ct + 1) k = length A - 1)"
      using "1.IH" [OF True] True by simp
    have eq: "skip_smaller A ct k = skip_smaller A (ct + 1) k" using True by (simp add: skip_smaller.simps [of A ct])
    have "A ! i < k" if "ct \<le> i" "i < skip_smaller A (ct + 1) k" for i
      using IH True that by (cases "i = ct") auto
    then show ?thesis unfolding eq using IH by auto
  next
    case False
    then show ?thesis using "1.prems" by (auto simp: skip_smaller.simps [of A ct])
  qed
qed

definition found :: "entry list \<Rightarrow> zkey list \<Rightarrow> nat \<Rightarrow> nat \<Rightarrow> (nat \<times> point) set" where
  "found xs A offset ct = {(offset + i, v) |i v. ct \<le> i \<and> i < length A \<and> map_of xs (A ! i) = Some v}"

lemma foundI:
  "ct \<le> i \<Longrightarrow> i < length A \<Longrightarrow> map_of xs (A ! i) = Some v \<Longrightarrow> (offset + i, v) \<in> found xs A offset ct"
  unfolding found_def by blast

lemma foundE:
  assumes "z \<in> found xs A offset ct"
  obtains i v where "z = (offset + i, v)" "ct \<le> i" "i < length A" "map_of xs (A ! i) = Some v"
  using assms unfolding found_def by blast

lemma multifind_walk_ok:
  assumes A: "\<And>i j. i < j \<Longrightarrow> j < length A \<Longrightarrow> A ! i < A ! j"
  shows "strict es \<Longrightarrow> set (multifind_walk A offset ct es) = found es A offset ct"
proof (induction es arbitrary: ct)
  case (Cons e es)
  have st: "strict es" using Cons.prems by (simp add: strict_by_Cons)
  show ?case
  proof (cases "ct < length A")
    case True
    define c where "c = skip_smaller A ct (fst e)"
    have c: "ct \<le> c" "c < length A" "\<And>i. ct \<le> i \<Longrightarrow> i < c \<Longrightarrow> A ! i < fst e" "A ! c < fst e \<Longrightarrow> c = length A - 1"
      using skip_smaller_ok [OF True, of "fst e"] unfolding c_def by blast+
    have none: "map_of (e # es) (A ! i) = None" if "ct \<le> i" "i < c" for i
      using map_of_above [OF Cons.prems c(3) [OF that]] .
    show ?thesis
    proof (cases "A ! c = fst e")
      case eq: True
      have later: "map_of (e # es) (A ! i) = map_of es (A ! i)" if "c < i" "i < length A" for i
        using A [OF that] eq by (auto simp: map_of_first)
      have "found (e # es) A offset ct = insert (offset + c, snd e) (found es A offset (c + 1))"
      proof (intro set_eqI iffI)
        fix z assume "z \<in> found (e # es) A offset ct"
        then obtain i v where z: "z = (offset + i, v)" "ct \<le> i" "i < length A" "map_of (e # es) (A ! i) = Some v"
          unfolding found_def by blast
        consider "i < c" | "i = c" | "c < i" by linarith
        then show "z \<in> insert (offset + c, snd e) (found es A offset (c + 1))"
          by cases (use z none later eq in \<open>auto simp: found_def map_of_first Suc_le_eq simp del: map_of.simps\<close>)
      next
        fix z assume "z \<in> insert (offset + c, snd e) (found es A offset (c + 1))"
        then consider "z = (offset + c, snd e)" | "z \<in> found es A offset (c + 1)" by blast
        then show "z \<in> found (e # es) A offset ct"
        proof cases
          case 1
          then show ?thesis using foundI [of ct c A "e # es" "snd e" offset] c eq by (simp add: map_of_first)
        next
          case 2
          then obtain i v where "z = (offset + i, v)" "c + 1 \<le> i" "i < length A" "map_of es (A ! i) = Some v"
            by (rule foundE)
          then show ?thesis using foundI [of ct i A "e # es" v offset] c(1) later [of i] by simp
        qed
      qed
      then show ?thesis using True eq Cons.IH [OF st, of "c + 1"] by (simp add: c_def [symmetric])
    next
      case False
      have later: "map_of (e # es) (A ! i) = map_of es (A ! i)" if "c \<le> i" "i < length A" for i
      proof (cases "A ! c < fst e")
        case True
        then have "i = c" using c(4) that by simp
        then show ?thesis using False by (simp add: map_of_first)
      next
        case nless: False
        have "fst e < A ! i"
          using A [of c i] that False nless by (cases "i = c") (auto simp: not_less intro: less_trans order.strict_trans1)
        then show ?thesis by (auto simp: map_of_first)
      qed
      have "found (e # es) A offset ct = found es A offset c"
      proof (intro set_eqI iffI)
        fix z assume "z \<in> found (e # es) A offset ct"
        then obtain i v where z: "z = (offset + i, v)" "ct \<le> i" "i < length A" "map_of (e # es) (A ! i) = Some v"
          unfolding found_def by blast
        then show "z \<in> found es A offset c"
          using none [of i] later [of i] by (cases "i < c") (auto simp: found_def)
      next
        fix z assume "z \<in> found es A offset c"
        then show "z \<in> found (e # es) A offset ct" using c(1) later by (fastforce simp: found_def)
      qed
      moreover have "(\<not> A ! c < fst e \<and> \<not> fst e < A ! c) = False" using False by (meson linorder_neqE)
      then have "multifind_walk A offset ct (e # es) = multifind_walk A offset c es"
        by (simp only: multifind_walk.simps Let_def c_def [symmetric] True if_True if_False)
      ultimately show ?thesis using Cons.IH [OF st, of c] by simp
    qed
  qed (use Cons.IH [OF st, of ct] in \<open>auto simp: found_def\<close>)
qed (simp add: found_def)

text \<open>The three parts of the array around an inner node.\<close>

lemma found_parts:
  assumes A: "A = A1 @ (if dup then [k] else []) @ A2" and xs: "xs = ls @ e # rs" and key: "fst e = k"
    and b: "\<forall>x\<in>set A1. x < k" "\<forall>x\<in>set A2. k < x" "\<forall>x\<in>set ls. fst x < k" "\<forall>x\<in>set rs. k < fst x"
  shows "found xs A offset 0 = found ls A1 offset 0 \<union> found rs A2 (offset + length A1 + of_bool dup) 0 \<union>
    (if dup then {(offset + length A1, snd e)} else {})"
proof -
  have lo: "map_of xs y = map_of ls y" if "y < k" for y
  proof -
    have "map_of (e # rs) y = None"
      using that b(4) key less_trans [of y k] by (force simp: map_of_eq_None_iff simp del: map_of.simps)
    then show ?thesis unfolding xs by (simp add: map_add_def del: map_of.simps split: option.split)
  qed
  have hi: "map_of xs y = map_of rs y" if "k < y" for y
  proof -
    have "map_of ls y = None" using that b(3) less_trans [of _ k y] by (force simp: map_of_eq_None_iff)
    moreover have "fst e \<noteq> y" using that key by auto
    ultimately show ?thesis unfolding xs by (simp add: map_add_def map_of_first del: map_of.simps split: option.split)
  qed
  have mid: "map_of xs k = Some (snd e)"
  proof -
    have "map_of ls k = None" using b(3) by (force simp: map_of_eq_None_iff)
    then show ?thesis unfolding xs using key by (simp add: map_add_def map_of_first del: map_of.simps)
  qed
  have d: "length (if dup then [k] else []) = of_bool dup" by simp
  have len: "length A = length A1 + of_bool dup + length A2" unfolding A by simp
  show ?thesis
  proof (intro set_eqI iffI)
    fix z assume "z \<in> found xs A offset 0"
    then obtain i v where z: "z = (offset + i, v)" "i < length A" "map_of xs (A ! i) = Some v" by (rule foundE)
    consider "i < length A1" | "i = length A1" dup | "length A1 + of_bool dup \<le> i" by (cases dup) force+
    then show "z \<in> found ls A1 offset 0 \<union> found rs A2 (offset + length A1 + of_bool dup) 0 \<union>
        (if dup then {(offset + length A1, snd e)} else {})"
    proof cases
      case 1
      then have "A ! i = A1 ! i" "A1 ! i < k" using b(1) by (auto simp: A nth_append)
      then show ?thesis using foundI [of 0 i A1 ls v offset] z 1 lo by simp
    next
      case 2
      then have "A ! i = k" by (simp add: A nth_append)
      then show ?thesis using 2 z mid by simp
    next
      case 3
      define j where "j = i - length A1 - of_bool dup"
      have j: "i = length A1 + of_bool dup + j" "j < length A2" using 3 z(2) len by (auto simp: j_def)
      then have "A ! i = A2 ! j" by (simp add: A nth_append)
      moreover have "k < A2 ! j" using b(2) j(2) by simp
      ultimately show ?thesis
        using foundI [of 0 j A2 rs v "offset + length A1 + of_bool dup"] z j hi by (simp add: add.assoc)
    qed
  next
    fix z assume "z \<in> found ls A1 offset 0 \<union> found rs A2 (offset + length A1 + of_bool dup) 0 \<union>
        (if dup then {(offset + length A1, snd e)} else {})"
    then consider "z \<in> found ls A1 offset 0" | "z \<in> found rs A2 (offset + length A1 + of_bool dup) 0"
      | "dup" "z = (offset + length A1, snd e)" by (auto split: if_splits)
    then show "z \<in> found xs A offset 0"
    proof cases
      case 1
      then obtain i v where z: "z = (offset + i, v)" "i < length A1" "map_of ls (A1 ! i) = Some v" by (rule foundE)
      then have "A ! i = A1 ! i" "A1 ! i < k" using b(1) by (auto simp: A nth_append)
      then show ?thesis using foundI [of 0 i A xs v offset] z lo len by simp
    next
      case 2
      then obtain j v where z: "z = (offset + length A1 + of_bool dup + j, v)" "j < length A2" "map_of rs (A2 ! j) = Some v"
        by (rule foundE)
      have "A ! (length A1 + of_bool dup + j) = A2 ! j" by (simp add: A nth_append)
      moreover have "k < A2 ! j" using b(2) z(2) by simp
      ultimately show ?thesis
        using foundI [of 0 "length A1 + of_bool dup + j" A xs v offset] z hi len by (simp add: add.assoc)
    next
      case 3
      have "A ! length A1 = k" using 3(1) by (simp add: A nth_append)
      then show ?thesis using foundI [of 0 "length A1" A xs "snd e" offset] 3 mid len by simp
    qed
  qed
qed

lemma strict_by_id_nth: "strict_by id A \<Longrightarrow> i < j \<Longrightarrow> j < length A \<Longrightarrow> A ! i < A ! j"
  by (simp add: strict_by_wrt sorted_wrt_iff_nth_less)

lemma strict_by_id_test:
  assumes "strict_by id A" "i \<le> j" "j < length A" "A ! j < k" shows "A ! i < k"
proof (cases "i = j")
  case False
  then have "A ! i < A ! j" using strict_by_id_nth [OF assms(1), of i j] assms(2,3) by simp
  then show ?thesis using assms(4) by (rule less_trans)
qed (use assms(4) in simp)

lemma multi_find_sorted_ok:
  "strict (iterate_seq t) \<Longrightarrow> strict_by id A \<Longrightarrow> set (multi_find_sorted t A offset) = found (iterate_seq t) A offset 0"
proof (induction t arbitrary: A offset)
  case (Regular l e s a r)
  note st = Regular.prems(1) [unfolded iterate_seq.simps strict_mid]
  show ?case
  proof (cases "A = []")
    case False
    define mid where "mid = PAM_binary_search A (\<lambda>a. a < fst e)"
    define dup where "dup = (mid < length A \<and> \<not> fst e < A ! mid)"
    have wrt: "sorted_wrt (\<lambda>a b. id a < id b) A" using Regular.prems(2) by (simp add: strict_by_wrt)
    note parts = array_parts [of id A mid "fst e" dup, unfolded id_apply, OF wrt [unfolded id_apply] mid_def dup_def]
    define A1 where "A1 = take mid A"
    define A2 where "A2 = drop (mid + of_bool dup) A"
    have A: "A = A1 @ (if dup then [fst e] else []) @ A2"
    proof -
      have eq: "opt_list (if dup then Some (A ! mid) else None) = (if dup then [fst e] else [])" using parts by simp
      have "A = A1 @ opt_list (if dup then Some (A ! mid) else None) @ A2" using parts unfolding A1_def A2_def by blast
      then show ?thesis unfolding eq .
    qed
    have b: "\<forall>x\<in>set A1. x < fst e" "\<forall>x\<in>set A2. fst e < x" using parts unfolding A1_def A2_def by auto
    have stA: "strict_by id A1" "strict_by id A2"
      using Regular.prems(2) unfolding A1_def A2_def strict_by_wrt by (auto intro: sorted_wrt_take sorted_wrt_drop)
    have "mid \<le> length A"
      using PAM_binary_search_ok [of A "\<lambda>a. a < fst e"] strict_by_id_test [OF Regular.prems(2)] unfolding mid_def by blast
    then have mlen: "length A1 = mid" by (simp add: A1_def)
    have "set (multi_find_sorted (Regular l e s a r) A offset) =
        set (multi_find_sorted l A1 offset) \<union> set (multi_find_sorted r A2 (offset + mid + of_bool dup)) \<union>
        (if dup then {(offset + mid, snd e)} else {})"
      using False unfolding A1_def A2_def by (simp add: mid_def [symmetric] dup_def [symmetric] Let_def Un_assoc)
    also have "\<dots> = found (iterate_seq l) A1 offset 0 \<union> found (iterate_seq r) A2 (offset + mid + of_bool dup) 0 \<union>
        (if dup then {(offset + mid, snd e)} else {})"
      using Regular.IH(1) [OF _ stA(1), of offset] Regular.IH(2) [OF _ stA(2), of "offset + mid + of_bool dup"] st by simp
    also have "\<dots> = found (iterate_seq (Regular l e s a r)) A offset 0"
      using found_parts [OF A _ refl b, of "iterate_seq (Regular l e s a r)" "iterate_seq l" "iterate_seq r" offset] st
      unfolding mlen by simp
    finally show ?thesis .
  qed (simp add: found_def)
next
  case (Compressed es s a)
  then show ?case
    using multifind_walk_ok [OF strict_by_id_nth [OF Compressed.prems(2)], of es offset 0]
    by (simp add: multifind_sorted_bc_def found_def)
qed (simp add: found_def)

lemma map_of_functional:
  "(i, v) \<in> set ws \<Longrightarrow> (\<And>w. (i, w) \<in> set ws \<Longrightarrow> w = v) \<Longrightarrow> map_of ws i = Some v"
  by (metis map_of_SomeD map_of_eq_None_iff image_eqI fst_conv not_None_eq)

lemma multi_find_ok:
  assumes "strict (iterate_seq m)" "strict_by id SS"
  shows "multi_find m SS dflt = map (\<lambda>k. case abs_map m k of Some v \<Rightarrow> v | None \<Rightarrow> dflt) SS"
proof -
  let ?W = "multi_find_sorted m SS 0"
  have W: "set ?W = found (iterate_seq m) SS 0 0" by (rule multi_find_sorted_ok [OF assms])
  have "map_of (List.rev ?W) i = abs_map m (SS ! i)" if i: "i < length SS" for i
  proof (cases "abs_map m (SS ! i)")
    case None
    then have "i \<notin> fst ` set ?W" unfolding W by (auto simp: found_def abs_map_def)
    then show ?thesis using None by (simp add: map_of_eq_None_iff)
  next
    case (Some v)
    then have "(i, v) \<in> set (List.rev ?W)" using i W foundI [of 0 i SS "iterate_seq m" v 0] by (simp add: abs_map_def)
    moreover have "w = v" if "(i, w) \<in> set (List.rev ?W)" for w
      using that Some unfolding set_rev W by (auto simp: found_def abs_map_def)
    ultimately have "map_of (List.rev ?W) i = Some v" by (rule map_of_functional)
    then show ?thesis using Some by simp
  qed
  then show ?thesis unfolding multi_find_def by (intro nth_equalityI) simp_all
qed

section \<open>The equality test\<close>

lemma map_eq_ok:
  assumes "map_ok a" "map_ok b" "cnt a + cnt b + 2 < 2 ^ 32"
  shows "map_eq a b = Some (dom (abs_map a) = dom (abs_map b))"
proof -
  obtain zs where zs: "merged replace (iterate_seq a) (iterate_seq b) zs"
    "holds_tree (cnode a \<and> cnode b) (uniont a b replace) zs"
    using uniont_tree [of a b replace] assms by (auto simp: map_ok_def)
  then obtain u where u: "uniont a b replace = Some u" "root_ok u" "iterate_seq u = zs" by (blast elim: holds_treeE)
  have keys: "map fst zs = map fst (merge_entries replace (iterate_seq a) (iterate_seq b))"
    by (rule either_of_map [OF zs(1) merge_entries_keys])
  have len: "length zs \<le> cnt a + cnt b"
    using either_of_length [OF zs(1)] length_merge_entries [of replace "iterate_seq a" "iterate_seq b"] by simp
  have size: "card (fst ` set xs) = length xs" if "strict xs" for xs :: "entry list"
    using that by (metis distinct_card length_map set_map strict_by_def)
  define A where "A = fst ` set (iterate_seq a)"
  define B where "B = fst ` set (iterate_seq b)"
  have "strict (merge_entries replace (iterate_seq a) (iterate_seq b))"
    by (rule strict_merge_entries) (use assms in \<open>simp_all add: map_ok_def\<close>)
  then have "strict zs" using keys by (simp add: strict_by_def sorted_by_def)
  moreover have "fst ` set zs = A \<union> B"
    using keys_merge_entries [of replace "iterate_seq a" "iterate_seq b"] keys unfolding A_def B_def by (metis set_map)
  ultimately have cu: "csize u = card (A \<union> B)"
    using size [of zs] root_size [OF u(2)] u(3) len assms(3) by simp
  have ca: "csize a = card A" "csize b = card B"
    using size [of "iterate_seq a"] size [of "iterate_seq b"] assms(1,2) root_size unfolding A_def B_def map_ok_def by auto
  have fin: "finite A" "finite B" by (simp_all add: A_def B_def)
  have "map_eq a b = Some (card A = card B \<and> card A = card (A \<union> B))"
    by (simp add: map_eq_def map_union_def u(1) ca cu)
  moreover have "card A = card B \<and> card A = card (A \<union> B) \<longleftrightarrow> A = B"
    using fin by (metis Un_upper1 Un_upper2 card_subset_eq finite_Un sup.idem)
  ultimately show ?thesis by (simp add: dom_abs A_def B_def)
qed

section \<open>The variants with a converting function\<close>

lemma combine_walk_id: "combine_walk op (\<lambda>v. v) as bs = merge_entries op as bs"
  by (induction op as bs rule: merge_entries.induct) auto

lemma from_array_map_id: "from_array_map A (\<lambda>v. v) = from_array A"
proof (induction A rule: from_array.induct)
  case (1 A)
  have "map (\<lambda>i. (fst (A ! i), snd (A ! i))) [0..<length A] = A" by (simp add: map_nth)
  then show ?case using 1 by (auto simp: from_array_map.simps [of A] from_array.simps [of A] Let_def intro!: Option.bind_cong)
qed

lemma multi_insert_sorted_map_id: "multi_insert_sorted_map b A op (\<lambda>v. v) = multi_insert_sorted b A op"
proof (induction b A op rule: multi_insert_sorted.induct)
  case (1 b A op)
  have "multiinsert_map_bc b A op (\<lambda>v. v) = multiinsert_bc b A op"
    by (simp add: multiinsert_map_bc_def multiinsert_bc_def combine_walk_id)
  then show ?case using 1
    by (auto simp: multi_insert_sorted_map.simps [of b A] multi_insert_sorted.simps [of b A] from_array_map_id Let_def
        combine_values_def intro!: Option.bind_cong)
qed

end
