(* ===== verification/CpamFacts.thy ===== *)
theory CpamFacts
  imports CpamMapsMore
begin

text \<open>What the tree library promises, and where it does not keep it.\<close>

definition sample_entry :: "64 word \<Rightarrow> entry" where
  "sample_entry n = ((n, n), Point3 n 0 0)"

lemma sample_keys [simp]:
  "fst (sample_entry 0) = (0, 0)" "fst (sample_entry 1) = (1, 1)" "fst (sample_entry 2) = (2, 2)" "fst (sample_entry 3) = (3, 3)"
  by (simp_all add: sample_entry_def)

lemma sample_less [simp]: "((0, 0) :: zkey) < (1, 1)" "((1, 1) :: zkey) < (2, 2)" "((2, 2) :: zkey) < (3, 3)"
  "((0, 0) :: zkey) < (2, 2)" "((1, 1) :: zkey) < (3, 3)" "((0, 0) :: zkey) < (3, 3)"
  by (simp_all add: word_less_nat_alt)

text \<open>A tree of three regular nodes, and a single block.\<close>

definition sample_tree :: ctree where
  "sample_tree = Regular (single (sample_entry 0)) (sample_entry 1) 3
     (node_aug (single (sample_entry 0)) (sample_entry 1) (single (sample_entry 2))) (single (sample_entry 2))"

lemma sample_tree_props [simp]:
  "iterate_seq sample_tree = [sample_entry 0, sample_entry 1, sample_entry 2]" "cnode sample_tree" "map_ok sample_tree"
  by (simp_all add: sample_tree_def single_update cnode_def bal_def kBlockSize_def u32_def map_ok_def root_ok_def strict_by_Cons)

definition sample_block :: ctree where
  "sample_block = Compressed [sample_entry 1, sample_entry 3] 2 (encode [sample_entry 1, sample_entry 3])"

lemma sample_block_props [simp]:
  "iterate_seq sample_block = [sample_entry 1, sample_entry 3]" "root_ok sample_block" "map_ok sample_block"
  by (simp_all add: sample_block_def root_ok_def kBlockSize_def u32_def map_ok_def strict_by_Cons)

section \<open>Joining\<close>

lemma balanced_sons:
  assumes "cnt l + cnt r + 2 < 2 ^ 32" "fields_ok l" "fields_ok r" "bal (cnt l + 1) (cnt r + 1)"
  shows "is_balanced (Regular l e s a r)"
proof -
  have "csize l = cnt l" "csize r = cnt r" using assms by (simp_all add: csize_count)
  then show ?thesis using assms(1,4) heavy_iff [of l r] heavy_iff [of r l] by (simp add: bal_def)
qed

lemma check_structure_full:
  "fields_ok t \<Longrightarrow> wbal t \<Longrightarrow> full t \<Longrightarrow> cnt t + 1 < 2 ^ 32 \<Longrightarrow> check_structure t orig"
proof (induction t)
  case (Regular l e s a r)
  have "s = cnt l + cnt r + 1" using csize_count [OF Regular.prems(1)] Regular.prems(4) by simp
  moreover have "40 \<le> cnt l" "40 \<le> cnt r" using full_count [of l] full_count [of r] Regular.prems(3) by (simp_all add: kBlockSize_def)
  moreover have "is_balanced (Regular l e s a r)" by (rule balanced_sons) (use Regular.prems in simp_all)
  ultimately show ?case using Regular by (simp add: kBlockSize_def)
next
  case (Compressed es s a)
  then show ?case by (simp add: u32_def kBlockSize_def)
qed simp

lemma check_structure_small:
  "fields_ok t \<Longrightarrow> wbal t \<Longrightarrow> regular_only t \<Longrightarrow> cnt t < 40 \<Longrightarrow> orig < 40 \<Longrightarrow> check_structure t orig"
proof (induction t)
  case (Regular l e s a r)
  have "s = cnt l + cnt r + 1" using csize_count [OF Regular.prems(1)] Regular.prems(4) by simp
  moreover have "is_balanced (Regular l e s a r)" by (rule balanced_sons) (use Regular.prems in simp_all)
  ultimately show ?case using Regular by (simp add: kBlockSize_def)
qed simp_all

lemma check_structure_cnode: "cnode t \<Longrightarrow> cnt t + 1 < 2 ^ 32 \<Longrightarrow> check_structure t (csize t)"
  using check_structure_full [of t] check_structure_small [of t "csize t"] csize_count [of t]
  by (auto simp: cnode_def kBlockSize_def)

text \<open>
  C32. \<open>node_join\<close> never fails: for two trees of any sizes that satisfy the invariant of
  the nodes it returns one that satisfies it again, that passes the check of the debug
  build, whose size is right, and whose entries in order are those of the
  first tree, the entry between, and those of the second. No rotation meets a missing or a
  compressed node, no block is built outside its bounds and the buffer of
  \<open>make_compressed\<close> is large enough.
\<close>

theorem node_join_correct:
  assumes "cnode t1" "cnode t2" "cnt t1 + cnt t2 + 2 < 2 ^ 32"
  shows "\<exists>t. node_join t1 t2 k = Some t \<and> cnode t \<and> check_structure t (csize t) \<and>
    csize t = csize t1 + csize t2 + 1 \<and> iterate_seq t = iterate_seq t1 @ k # iterate_seq t2"
proof -
  obtain t where t: "node_join t1 t2 k = Some t" "cnode t" "iterate_seq t = iterate_seq t1 @ k # iterate_seq t2"
    using node_join_ok [OF assms] by (rule holds_nodeE)
  have "csize t = cnt t" "csize t1 = cnt t1" "csize t2 = cnt t2"
    using assms t by (simp_all add: csize_count cnode_fields)
  then show ?thesis using t assms(3) check_structure_cnode [OF t(2)] by simp
qed

theorem node_join_correct_witness:
  "\<exists>t. node_join sample_tree (single (sample_entry 0)) (sample_entry 3) = Some t \<and> cnode t \<and> check_structure t (csize t) \<and>
    csize t = csize sample_tree + csize (single (sample_entry 0)) + 1 \<and>
    iterate_seq t = iterate_seq sample_tree @ sample_entry 3 # iterate_seq (single (sample_entry 0))"
  by (rule node_join_correct) simp_all

section \<open>Ranks\<close>

text \<open>
  Positions: \<open>select\<close> is exact on any tree with right sizes. At the position of the
  root \<open>take\<close> is not: its subtraction wraps around, and the whole tree comes back
  instead of the entries before the root. \<open>suffix\<close> one past it keeps the root as well.
\<close>

theorem positions_off_by_one:
  assumes "cnode (Regular l e s a r)" "cnt l + cnt r + 3 < 2 ^ 32"
  shows "select (Regular l e s a r) i = (if i < cnt l + cnt r + 1 then Some (iterate_seq (Regular l e s a r) ! i) else None) \<and>
    holds_node (take_node (Regular l e s a r) (cnt l)) (iterate_seq (Regular l e s a r)) \<and>
    holds_node (suffix (Regular l e s a r) (cnt l + 1)) (e # iterate_seq r)"
proof -
  note sons = cnode_sons [OF assms(1)] and f = cnode_fields(1) [OF assms(1)]
  have c: "csize l = cnt l" using sons(1) assms(2) by (simp add: csize_count cnode_fields)
  have "select (Regular l e s a r) i = (if i < cnt l + cnt r + 1 then Some (iterate_seq (Regular l e s a r) ! i) else None)"
    using select_ok [OF f, of i] assms(2) by simp
  moreover have "holds_node (take_node (Regular l e s a r) (cnt l)) (iterate_seq (Regular l e s a r))"
  proof -
    have w: "sub64 (sub64 (cnt l) (cnt l)) 1 = 2 ^ 64 - 1" by (simp add: sub64_def)
    obtain r' where r': "take_node r (2 ^ 64 - 1) = Some r'" "cnode r'" "iterate_seq r' = iterate_seq r"
      using take_all [OF sons(2), of "2 ^ 64 - 1"] assms(2) by (auto elim: holds_nodeE)
    have "holds_node (node_join l r' e) (iterate_seq l @ e # iterate_seq r')"
      using node_join_ok [OF sons(1) r'(2)] r'(3) assms(2) by simp
    moreover have "take_node (Regular l e s a r) (cnt l) = node_join l r' e"
      using r'(1) by (simp add: c Let_def w [simplified])
    ultimately show ?thesis using r'(3) by simp
  qed
  moreover have "holds_node (suffix (Regular l e s a r) (cnt l + 1)) (e # iterate_seq r)"
  proof -
    obtain l' where l': "suffix l (cnt l + 1) = Some l'" "cnode l'" "iterate_seq l' = []"
      using suffix_beyond [OF cnode_fields(1) [OF sons(1)], of "cnt l + 1"] assms(2) by (auto elim: holds_nodeE)
    then show ?thesis using node_join_ok [OF l'(2) sons(2), of e] assms(2) c by (simp add: Let_def)
  qed
  ultimately show ?thesis by blast
qed

theorem positions_off_by_one_witness:
  "holds_node (take_node sample_tree (cnt (single (sample_entry 0)))) (iterate_seq sample_tree) \<and>
   holds_node (suffix sample_tree 2) [sample_entry 1, sample_entry 2]"
proof -
  have "cnt (single (sample_entry 0)) + cnt (single (sample_entry 2)) + 3 < 2 ^ 32" by simp
  from positions_off_by_one [OF sample_tree_props(2) [unfolded sample_tree_def] this, folded sample_tree_def]
  show ?thesis by (simp add: numeral_2_eq_2)
qed

section \<open>Maps\<close>

text \<open>
  C34. Batch edits refine finite maps. On a map, for any sort that sorts, \<open>multi_insert\<close>
  of entries with distinct keys returns a map that maps those keys to the new
  points and all others as before, \<open>multi_delete\<close> one that has lost exactly the keys
  of the batch, and the constructor one with the given entries. The
  results satisfy the invariant of maps again.
\<close>

theorem batch_edits_refine:
  assumes "is_sorter srt" "map_ok m" "distinct (map fst SS)" "cnt m + length SS + 2 < 2 ^ 32"
  shows "holds_map (multi_insert srt m SS) (abs_map m ++ map_of SS) \<and>
    holds_map (multi_delete srt m SS) (abs_map m |` (- fst ` set SS)) \<and>
    holds_map (new_map srt SS) (map_of SS)"
  using multi_insert_map [OF assms] multi_delete_map [OF assms(1,2)] new_map_map [OF assms(1,3)] assms(4) by simp

theorem batch_edits_refine_witness:
  "holds_map (multi_insert (sort_key fst) sample_tree [sample_entry 3, sample_entry 1])
     (abs_map sample_tree ++ map_of [sample_entry 3, sample_entry 1]) \<and>
   holds_map (multi_delete (sort_key fst) sample_tree [sample_entry 3, sample_entry 1])
     (abs_map sample_tree |` (- fst ` set [sample_entry 3, sample_entry 1])) \<and>
   holds_map (new_map (sort_key fst) [sample_entry 3, sample_entry 1]) (map_of [sample_entry 3, sample_entry 1])"
  by (rule batch_edits_refine) (simp_all add: sort_key_sorter del: One_nat_def)

text \<open>
  C35. Searches and set operations refine finite maps: \<open>find\<close> returns the value of a
  key, the difference of two maps restricts the first to the keys the
  second lacks, and the entries of a range of keys are those with a key between
  the bounds, both included.
\<close>

theorem map_operations_refine:
  assumes "map_ok a" "map_ok b" "lo \<le> hi"
  shows "map_find a k = abs_map a k \<and> map_contains a k = (k \<in> dom (abs_map a)) \<and>
    holds_map (map_difference a b) (abs_map a |` (- dom (abs_map b))) \<and>
    holds_map (range_2 a lo hi) (abs_map a |` {lo..hi}) \<and>
    rank a k 0 = card {y \<in> dom (abs_map a). y < k}"
proof -
  note ok = map_ok_root [OF assms(1)]
  have "map_contains a k = (k \<in> dom (abs_map a))"
    by (simp add: map_contains_def find_entry_ok [OF ok(2)] find2_ok [OF ok(2)] abs_map_def domIff)
  moreover have "rank a k 0 = card {y \<in> dom (abs_map a). y < k}"
  proof -
    let ?xs = "filter (\<lambda>x. fst x < k) (iterate_seq a)"
    have "rank a k 0 = length ?xs" using rank_ok [OF root_fields [OF ok(1)] _ ok(2)] ok(3) by simp
    also have "\<dots> = card (fst ` set ?xs)"
      using distinct_card [of "map fst ?xs"] strict_by_filter [OF ok(2), of "\<lambda>x. fst x < k"] by (simp add: strict_by_def)
    also have "fst ` set ?xs = {y \<in> dom (abs_map a). y < k}" unfolding dom_abs by auto
    finally show ?thesis .
  qed
  ultimately show ?thesis
    using map_find_ok [OF assms(1)] map_difference_map [OF assms(1,2)] range_map [OF assms(1,3)] by blast
qed

theorem map_operations_refine_witness:
  "map_find sample_tree (1, 1) = abs_map sample_tree (1, 1) \<and>
   map_contains sample_tree (1, 1) = ((1, 1) \<in> dom (abs_map sample_tree)) \<and>
   holds_map (map_difference sample_tree sample_block) (abs_map sample_tree |` (- dom (abs_map sample_block))) \<and>
   holds_map (range_2 sample_tree (0, 0) (1, 1)) (abs_map sample_tree |` {(0, 0)..(1, 1)}) \<and>
   rank sample_tree (1, 1) 0 = card {y \<in> dom (abs_map sample_tree). y < (1, 1)}"
  by (rule map_operations_refine) (simp_all add: less_imp_le)

text \<open>
  Inserting one entry into a map that is a block loses an entry. If no key of the block
  equals the new one, the result holds the entries below, the new
  one, and those above except the first, so the size does not grow unless the new key is beyond
  all others; if one does, the block keeps its old value although the caller asked for the
  new one.
\<close>

theorem insert_into_block_loses:
  assumes "map_ok (Compressed es s a)"
  shows "\<exists>m. map_insert_one (Compressed es s a) e = Some m \<and> root_ok m \<and>
    iterate_seq m = filter (\<lambda>x. fst x < fst e) es @
      (case map_of es (fst e) of
         Some v \<Rightarrow> (fst e, v) # filter (\<lambda>x. fst e < fst x) es
       | None \<Rightarrow> e # tl (filter (\<lambda>x. fst e < fst x) es))"
proof -
  have "root_ok (Compressed es s a)" "strict es" using assms by (simp_all add: map_ok_def)
  then show ?thesis
    using insert_block [of es s a e] insert_merged_spec [of es e replace]
    by (auto simp: holds_tree_def replace_def split: option.split)
qed

theorem insert_into_block_loses_witness:
  "\<exists>m. map_insert_one sample_block (sample_entry 2) = Some m \<and> root_ok m \<and> iterate_seq m = [sample_entry 1, sample_entry 2]"
proof -
  have "fst (sample_entry 3) \<noteq> (2, 2)" "fst (sample_entry 1) \<noteq> (2, 2)" by simp_all
  then have "map_of [sample_entry 1, sample_entry 3] (2, 2) = None" by (simp add: map_of_first del: map_of.simps(2))
  then show ?thesis
    using insert_into_block_loses [OF sample_block_props(3) [unfolded sample_block_def], of "sample_entry 2", folded sample_block_def]
      less_not_sym [OF sample_less(3)] less_not_sym [OF sample_less(4)]
    by (simp del: map_of.simps(2))
qed

text \<open>
  Unions and intersections: for two maps and any combining function \<open>op\<close>,
  \<open>uniont\<close> returns a tree whose keys are those of either map and whose value at a key of both is one
  of the two combinations of the two values, in the order the tree happened to be split: the base
  case and the inner step pass the arguments of \<open>op\<close> in opposite orders. \<open>intersect\<close> does the
  same for the keys of both.
\<close>

theorem union_intersect_combine:
  assumes "map_ok a" "map_ok b" "cnt a + cnt b + 2 < 2 ^ 32"
  shows "(\<exists>zs. merged op (iterate_seq a) (iterate_seq b) zs \<and> holds_tree (cnode a \<and> cnode b) (uniont a b op) zs) \<and>
    (\<exists>zs. shared op (iterate_seq a) (iterate_seq b) zs \<and> holds_node (intersect a b op) zs)"
  using uniont_tree [of a b op] intersect_tree [of a b op] map_ok_root [OF assms(1)] map_ok_root [OF assms(2)] assms(3)
  by blast

theorem union_intersect_combine_witness:
  "(\<exists>zs. merged replace (iterate_seq sample_tree) (iterate_seq sample_block) zs \<and>
      holds_tree (cnode sample_tree \<and> cnode sample_block) (uniont sample_tree sample_block replace) zs) \<and>
   (\<exists>zs. shared replace (iterate_seq sample_tree) (iterate_seq sample_block) zs \<and>
      holds_node (intersect sample_tree sample_block replace) zs)"
  by (rule union_intersect_combine) simp_all

text \<open>
  The equality of maps compares keys only: for two maps \<open>operator==\<close> holds exactly when
  they have the same keys, whatever points they map them to.
\<close>

theorem map_equality_ignores_values:
  assumes "map_ok a" "map_ok b" "cnt a + cnt b + 2 < 2 ^ 32"
  shows "map_eq a b = Some (dom (abs_map a) = dom (abs_map b))"
  by (rule map_eq_ok [OF assms])

theorem map_equality_ignores_values_witness:
  "map_eq sample_tree sample_block = Some (dom (abs_map sample_tree) = dom (abs_map sample_block))"
  by (rule map_equality_ignores_values) simp_all

text \<open>
  The batch search agrees with single searches: on a map and a strictly increasing array
  of keys, \<open>multi_find_sorted\<close> fills the result with the value of each key that is
  present and leaves the default elsewhere. The variant of the batch insertion with a
  converting function is the plain one when that function is the identity.
\<close>

theorem batch_search_is_search:
  assumes "map_ok m" "strict_by id SS"
  shows "multi_find m SS dflt = map (\<lambda>k. case map_find m k of Some v \<Rightarrow> v | None \<Rightarrow> dflt) SS \<and>
    multi_insert_sorted_map m A op (\<lambda>v. v) = multi_insert_sorted m A op"
  using multi_find_ok [OF map_ok_root(2) [OF assms(1)] assms(2)] multi_insert_sorted_map_id
  by (simp add: map_find_ok [OF assms(1)])

theorem batch_search_is_search_witness:
  "multi_find sample_tree [(1, 1), (3, 3)] (Point2 0 0) = map (\<lambda>k. case map_find sample_tree k of Some v \<Rightarrow> v | None \<Rightarrow> Point2 0 0) [(1, 1), (3, 3)] \<and>
   multi_insert_sorted_map sample_tree [] replace (\<lambda>v. v) = multi_insert_sorted sample_tree [] replace"
  by (rule batch_search_is_search) (simp_all add: strict_by_Cons)

text \<open>
  Filters, concatenation, reversal and single deletions return and compute what they
  should: for a tree and any test the filtered entries, for two trees the concatenation, the
  entries in reverse, and all entries but those with the deleted key.
\<close>

theorem sequence_routines_exact:
  assumes "cnode t" "cnode t2" "cnt t + cnt t2 + 2 < 2 ^ 32"
  shows "holds_node (filter_node f t) (filter f (iterate_seq t)) \<and>
    holds_node (join2 t t2) (iterate_seq t @ iterate_seq t2) \<and>
    holds_node (map_entries g t) (map g (iterate_seq t)) \<and>
    holds_node (reverse_node t) (List.rev (iterate_seq t)) \<and>
    (strict (iterate_seq t) \<longrightarrow> holds_node (deletet t k) (filter (\<lambda>x. fst x \<noteq> k) (iterate_seq t)))"
proof -
  have "cnt t + 2 < 2 ^ 32" using assms(3) by simp
  then show ?thesis
    using filter_node_ok [OF assms(1)] join2_ok [OF assms] map_entries_ok [OF assms(1)] reverse_ok [OF assms(1)]
      deletet_tree [OF cnode_root_ok [OF assms(1)]]
    by simp
qed

theorem sequence_routines_exact_witness:
  "holds_node (join2 sample_tree (single (sample_entry 3))) [sample_entry 0, sample_entry 1, sample_entry 2, sample_entry 3] \<and>
   holds_node (deletet sample_tree (7, 7)) (filter (\<lambda>x. fst x \<noteq> (7, 7)) (iterate_seq sample_tree))"
proof -
  have "strict (iterate_seq sample_tree)" using sample_tree_props(3) by (rule map_ok_root)
  then show ?thesis
    using sequence_routines_exact [OF sample_tree_props(2) single_cnode [of "sample_entry 3"], where k = "(7, 7)"] by simp
qed

end
