(* ===== verification/CpamAug.thy ===== *)
theory CpamAug
  imports CpamMaps KnnQueue
begin

text \<open>
  \<open>augmented_ops.h\<close>: the operations that use the augmented value of a node, here the
  bounding box of its points and their number. Output sequences have a fixed length, and a
  write past the end is \<open>None\<close>.
\<close>

section \<open>Sums over a range of keys\<close>

definition add_entry :: "aug \<Rightarrow> entry \<Rightarrow> aug" where
  "add_entry result e = aug_combine result (from_entry e)"

definition add_aug_val :: "aug \<Rightarrow> aug \<Rightarrow> aug" where
  "add_aug_val result av = aug_combine result av"

fun aug_sum_left :: "ctree \<Rightarrow> zkey \<Rightarrow> aug \<Rightarrow> aug" where
  "aug_sum_left Nil_node key a = a"
| "aug_sum_left (Compressed es s av) key a =
     snd (iterate_cond (\<lambda>et a. if comp (fst et) key then (True, add_entry a et) else (False, a)) (Compressed es s av) a)"
| "aug_sum_left (Regular l e s av r) key a =
     (if \<not> comp key (fst e) then
        (let a = add_entry a e;
             a = (if l \<noteq> Nil_node then add_aug_val a (aug_val l) else a)
         in aug_sum_left r key a)
      else aug_sum_left l key a)"

fun aug_sum_right :: "ctree \<Rightarrow> zkey \<Rightarrow> aug \<Rightarrow> aug" where
  "aug_sum_right Nil_node key a = a"
| "aug_sum_right (Compressed es s av) key a =
     foldl (\<lambda>a et. if \<not> comp (fst et) key then add_entry a et else a) a es"
| "aug_sum_right (Regular l e s av r) key a =
     (if \<not> comp (fst e) key then
        (let a = add_entry a e;
             a = (if r \<noteq> Nil_node then add_aug_val a (aug_val r) else a)
         in aug_sum_right l key a)
      else aug_sum_right r key a)"

definition aug_sum_range :: "ctree \<Rightarrow> zkey \<Rightarrow> zkey \<Rightarrow> aug \<Rightarrow> aug" where
  "aug_sum_range b key_left key_right a =
     (case range_root_2 b key_left key_right of
        Nil_node \<Rightarrow> a
      | Compressed es s av \<Rightarrow>
          foldl (\<lambda>a et. if comp key_left (fst et) \<and> comp (fst et) key_right then add_entry a et else a) a es
      | Regular l e s av r \<Rightarrow> aug_sum_left r key_right (add_entry (aug_sum_right l key_left a) e))"

fun aug_select :: "ctree \<Rightarrow> (aug \<Rightarrow> bool) \<Rightarrow> entry option" where
  "aug_select Nil_node f = None"
| "aug_select (Compressed es s av) f =
     snd (iterate_cond (\<lambda>et ret. if \<not> f (from_entry et) then (False, Some et) else (True, ret)) (Compressed es s av) None)"
| "aug_select (Regular l e s av r) f =
     (if f (aug_val l) then (if f (from_entry e) then aug_select r f else Some e)
      else aug_select l f)"

section \<open>Filters that use boxes\<close>

definition aug_filter_bc2 :: "ctree \<Rightarrow> (entry \<Rightarrow> bool) \<Rightarrow> ctree option" where
  "aug_filter_bc2 b f = do {
     stack \<leftarrow> fill_buffer (kBaseCaseSize + 1) (filter f (iterate_seq b));
     from_buffer stack }"

function aug_filter2 :: "ctree \<Rightarrow> (entry \<Rightarrow> bool) \<Rightarrow> (aug \<Rightarrow> bool) \<Rightarrow> ctree option" where
  "aug_filter2 b fpt fbb =
     (if b = Nil_node then Some Nil_node
      else if csize b \<le> kBaseCaseSize then aug_filter_bc2 b fpt
      else if \<not> fbb (aug_val b) then Some Nil_node
      else do {
        (lc, e, rc) \<leftarrow> expose b;
        l \<leftarrow> aug_filter2 lc fpt fbb;
        r \<leftarrow> aug_filter2 rc fpt fbb;
        if fpt e then join l e r else join2 l r })"
  by pat_completeness auto
termination
  by (relation "measure (\<lambda>(b, fpt, fbb). cnt b)") (auto simp: expose_smaller)

function aug_filter_mid :: "ctree \<Rightarrow> (aug \<Rightarrow> bool) \<Rightarrow> ctree option" where
  "aug_filter_mid b f =
     (if b = Nil_node then Some Nil_node
      else if \<not> f (aug_val b) then Some Nil_node
      else do {
        (lc, e, rc) \<leftarrow> expose b;
        l \<leftarrow> aug_filter_mid lc f;
        r \<leftarrow> aug_filter_mid rc f;
        if f (from_entry e) then join l e r else join2 l r })"
  by pat_completeness auto
termination
  by (relation "measure (\<lambda>(b, f). cnt b)") (auto simp: expose_smaller)

declare aug_filter2.simps [simp del] aug_filter_mid.simps [simp del]

text \<open>The base case of the plain filter tests the sum of the entries so far.\<close>

fun prefix_filter :: "(aug \<Rightarrow> bool) \<Rightarrow> aug \<Rightarrow> entry list \<Rightarrow> entry list" where
  "prefix_filter f cur [] = []"
| "prefix_filter f cur (a # as) =
     (let cur = aug_combine cur (from_entry a) in
      if f cur then a # prefix_filter f cur as else prefix_filter f cur as)"

definition aug_filter_bc :: "ctree \<Rightarrow> (aug \<Rightarrow> bool) \<Rightarrow> ctree option" where
  "aug_filter_bc b f = do {
     stack \<leftarrow> fill_buffer (kBaseCaseSize + 1) (prefix_filter f aug_empty (iterate_seq b));
     from_buffer stack }"

definition aug_filter_bc_mid :: "ctree \<Rightarrow> (aug \<Rightarrow> bool) \<Rightarrow> ctree option" where
  "aug_filter_bc_mid b f = do {
     stack \<leftarrow> fill_buffer (kBaseCaseSize + 1) (prefix_filter f aug_empty (iterate_seq_mid b));
     from_buffer stack }"

function aug_filter :: "ctree \<Rightarrow> (aug \<Rightarrow> bool) \<Rightarrow> ctree option" where
  "aug_filter b f =
     (if b = Nil_node then Some Nil_node
      else if csize b \<le> kBaseCaseSize then aug_filter_bc b f
      else if \<not> f (aug_val b) then Some Nil_node
      else do {
        (lc, e, rc) \<leftarrow> expose b;
        l \<leftarrow> aug_filter lc f;
        r \<leftarrow> aug_filter rc f;
        if f (from_entry e) then join l e r else join2 l r })"
  by pat_completeness auto
termination
  by (relation "measure (\<lambda>(b, f). cnt b)") (auto simp: expose_smaller)

declare aug_filter.simps [simp del]

section \<open>Range queries\<close>

function range_count_filter :: "ctree \<Rightarrow> (Bounding_Box \<Rightarrow> int) \<Rightarrow> (point \<Rightarrow> bool) \<Rightarrow> nat option" where
  "range_count_filter b f f2 =
     (if b = Nil_node then Some 0
      else do {
        let cur_aug = aug_val b;
        (lc, e, rc) \<leftarrow> expose b;
        let flag = f (fst cur_aug);
        if flag < 0 then Some 0
        else if flag = 1 then Some (snd cur_aug)
        else do {
          l \<leftarrow> range_count_filter lc f f2;
          r \<leftarrow> range_count_filter rc f f2;
          Some (l + r + of_bool (f2 (snd e))) } })"
  by pat_completeness auto
termination
  by (relation "measure (\<lambda>(b, f, f2). cnt b)") (auto simp: expose_smaller)

declare range_count_filter.simps [simp del]

fun range_count_filter2 :: "ctree \<Rightarrow> (Bounding_Box \<Rightarrow> int) \<Rightarrow> (point \<Rightarrow> bool) \<Rightarrow> nat" where
  "range_count_filter2 Nil_node f f2 = 0"
| "range_count_filter2 (Compressed es s a) f f2 =
     (let flag = f (fst a) in
      if flag < 0 then 0
      else if flag = 1 then snd a
      else foldl (\<lambda>ret et. if f2 (snd et) then ret + 1 else ret) 0 es)"
| "range_count_filter2 (Regular l e s a r) f f2 =
     (let flag = f (fst a) in
      if flag < 0 then 0
      else if flag = 1 then snd a
      else range_count_filter2 l f f2 + range_count_filter2 r f f2 + of_bool (f2 (snd e)))"

text \<open>\<open>out[cnt++] = p\<close>.\<close>

type_synonym outbuf = "nat \<times> point list"

definition put :: "point \<Rightarrow> outbuf \<Rightarrow> outbuf option" where
  "put p st = (case st of (c, out) \<Rightarrow> if c < length out then Some (c + 1, out[c := p]) else None)"

fun put_all :: "point list \<Rightarrow> outbuf \<Rightarrow> outbuf option" where
  "put_all [] st = Some st"
| "put_all (p # ps) st = do { st \<leftarrow> put p st; put_all ps st }"

fun range_report_filter2 :: "ctree \<Rightarrow> (Bounding_Box \<Rightarrow> int) \<Rightarrow> outbuf \<Rightarrow> outbuf option" where
  "range_report_filter2 Nil_node f st = Some st"
| "range_report_filter2 (Compressed es s a) f st =
     (let flag = f (fst a) in
      if flag < 0 then Some st
      else if flag = 1 then put_all (map snd es) st
      else put_all (filter (\<lambda>p. f (p, p) = 1) (map snd es)) st)"
| "range_report_filter2 (Regular l e s a r) f st =
     (let flag = f (fst a) in
      if flag < 0 then Some st
      else do {
        let flag2 = (f (snd e, snd e) = 1);
        st \<leftarrow> range_report_filter2 l f st;
        st \<leftarrow> (if flag2 then put (snd e) st else Some st);
        range_report_filter2 r f st })"

function range_report_filter :: "ctree \<Rightarrow> (Bounding_Box \<Rightarrow> int) \<Rightarrow> outbuf \<Rightarrow> outbuf option" where
  "range_report_filter b f st =
     (if b = Nil_node then Some st
      else do {
        let cur_aug = aug_val b;
        (lc, e, rc) \<leftarrow> expose b;
        let flag = f (fst cur_aug);
        if flag < 0 then Some st
        else do {
          st \<leftarrow> range_report_filter lc f st;
          st \<leftarrow> (if f (snd e, snd e) > 0 then put (snd e) st else Some st);
          range_report_filter rc f st } })"
  by pat_completeness auto
termination
  by (relation "measure (\<lambda>(b, f, st). cnt b)") (auto simp: expose_smaller)

declare range_report_filter.simps [simp del]

section \<open>Nearest neighbours\<close>

definition pt_check :: "(point \<Rightarrow> FT) \<Rightarrow> nat \<Rightarrow> point \<Rightarrow> nn_pair list \<Rightarrow> nn_pair list option" where
  "pt_check f k cur_pt out = offer nearer k (cur_pt, f cur_pt) out"

fun pt_checks :: "(point \<Rightarrow> FT) \<Rightarrow> nat \<Rightarrow> entry list \<Rightarrow> nn_pair list \<Rightarrow> nn_pair list option" where
  "pt_checks f k [] out = Some out"
| "pt_checks f k (et # es) out = do { out \<leftarrow> pt_check f k (snd et) out; pt_checks f k es out }"

definition worth :: "nat \<Rightarrow> FT \<Rightarrow> nn_pair list \<Rightarrow> bool option" where
  "worth k dis out = (if length out < k then Some True else map_option (\<lambda>t. dis < snd t) (pq_top out))"

fun knn_filter ::
  "ctree \<Rightarrow> (point \<Rightarrow> FT) \<Rightarrow> (Bounding_Box \<Rightarrow> FT) \<Rightarrow> nat \<Rightarrow> nn_pair list \<Rightarrow> nn_pair list option" where
  "knn_filter Nil_node f f2 k out = Some out"
| "knn_filter (Compressed es s a) f f2 k out = pt_checks f k es out"
| "knn_filter (Regular l e s a r) f f2 k out = do {
     out \<leftarrow> pt_check f k (snd e) out;
     let l_dis = (if l \<noteq> Nil_node then f2 (fst (aug_val l)) else FT_INF_MAX);
     let r_dis = (if r \<noteq> Nil_node then f2 (fst (aug_val r)) else FT_INF_MAX);
     if l_dis \<le> r_dis then do {
       go_l \<leftarrow> worth k l_dis out;
       out \<leftarrow> (if go_l then knn_filter l f f2 k out else Some out);
       go_r \<leftarrow> worth k r_dis out;
       if go_r then knn_filter r f f2 k out else Some out }
     else do {
       go_r \<leftarrow> worth k r_dis out;
       out \<leftarrow> (if go_r then knn_filter r f f2 k out else Some out);
       go_l \<leftarrow> worth k l_dis out;
       if go_l then knn_filter l f f2 k out else Some out } }"

end
