(* ===== verification/CpamAugOk.thy ===== *)
theory CpamAugOk
  imports CpamAug
begin

text \<open>
  The stored boxes and counts are right, and the queries that use them to skip or to take whole
  subtrees return what a scan of all points would. What a query needs of its tests is
  stated as three interfaces, which \<open>Pacz\<close> interprets on the tests of \<open>index/pacz.hpp\<close>.
\<close>

section \<open>Boxes and counts\<close>

definition covers :: "aug \<Rightarrow> entry list \<Rightarrow> bool" where
  "covers a es \<longleftrightarrow> (\<forall>e\<in>set es. point_in_mbr (snd e) (fst a)) \<and> snd a = length es"

lemma covers_single: "covers (from_entry e) [e]"
  by (simp add: covers_def from_entry_def point_in_mbr_def)

lemma covers_combine: "covers a es \<Longrightarrow> covers b fs \<Longrightarrow> covers (aug_combine a b) (es @ fs)"
  by (auto simp: covers_def aug_combine_def merge_mbr_point)

lemma covers_fold: "covers a es \<Longrightarrow> covers (foldl (\<lambda>av e. aug_combine av (from_entry e)) a fs) (es @ fs)"
proof (induction fs arbitrary: a es)
  case (Cons f fs)
  then show ?case using covers_combine [OF Cons.prems covers_single [of f]] by fastforce
qed simp

lemma covers_encode: "es \<noteq> [] \<Longrightarrow> covers (encode es) es"
  using covers_fold [OF covers_single [of "hd es"], of "tl es"] by (cases es) (simp_all add: encode_def)

lemma covers_node:
  assumes "l \<noteq> Nil_node \<Longrightarrow> covers (aug_val l) (iterate_seq l)" "r \<noteq> Nil_node \<Longrightarrow> covers (aug_val r) (iterate_seq r)"
  shows "covers (node_aug l e r) (iterate_seq l @ e # iterate_seq r)"
proof -
  have 1: "covers (if l \<noteq> Nil_node then aug_combine (aug_val l) (from_entry e) else from_entry e) (iterate_seq l @ [e])"
    using assms(1) covers_combine covers_single by auto
  then show ?thesis
    using covers_combine [OF 1 assms(2)] by (cases "r = Nil_node") (simp_all add: node_aug_def Let_def)
qed

lemma aug_covers: "fields_ok t \<Longrightarrow> t \<noteq> Nil_node \<Longrightarrow> covers (aug_val t) (iterate_seq t)"
  by (induction t) (auto intro: covers_node covers_encode)

lemma aug_count: "fields_ok t \<Longrightarrow> snd (aug_val t) = cnt t"
  using aug_covers [of t] by (cases "t = Nil_node") (auto simp: covers_def aug_empty_def)

abbreviation points :: "ctree \<Rightarrow> point list" where
  "points t \<equiv> map snd (iterate_seq t)"

lemma aug_box: "fields_ok t \<Longrightarrow> p \<in> set (points t) \<Longrightarrow> point_in_mbr p (fst (aug_val t))"
  using aug_covers [of t] by (cases "t = Nil_node") (auto simp: covers_def)

section \<open>Range queries\<close>

lemma put_all_append: "put_all (ps @ qs) st = Option.bind (put_all ps st) (put_all qs)"
proof (induction ps arbitrary: st)
  case (Cons p ps)
  then show ?case by (cases "put p st") simp_all
qed simp

lemma put_all_append_fun: "put_all (ps @ qs) = (\<lambda>st. Option.bind (put_all ps st) (put_all qs))"
  by (rule ext) (rule put_all_append)

lemma put_all_Nil [simp]: "put_all [] = Some"
  by (rule ext) simp

lemma put_all_fits:
  "put_all ps (c, out) = (if c + length ps \<le> length out \<or> ps = [] then Some (c + length ps, take c out @ ps @ drop (c + length ps) out) else None)"
proof (induction ps arbitrary: c out)
  case (Cons p ps)
  show ?case
  proof (cases "c < length out")
    case True
    then have "take (c + 1) (out[c := p]) = take c out @ [p]"
      by (simp add: take_Suc_conv_app_nth)
    then show ?thesis using Cons.IH [of "c + 1" "out[c := p]"] True by (auto simp: put_def)
  qed (simp add: put_def)
qed simp

locale box_test =
  fixes f :: "Bounding_Box \<Rightarrow> int" and P :: "point \<Rightarrow> bool"
  assumes excluded: "f box < 0 \<Longrightarrow> point_in_mbr p box \<Longrightarrow> \<not> P p"
    and contained: "f box = 1 \<Longrightarrow> point_in_mbr p box \<Longrightarrow> P p"
    and single_point: "f (p, p) = 1 \<longleftrightarrow> P p"
    and positive: "0 < f box \<Longrightarrow> f box = 1"
begin

lemma none_inside: "fields_ok t \<Longrightarrow> f (fst (aug_val t)) < 0 \<Longrightarrow> filter P (points t) = []"
  using excluded aug_box [of t] by (auto simp: filter_empty_conv)

lemma all_inside: "fields_ok t \<Longrightarrow> f (fst (aug_val t)) = 1 \<Longrightarrow> filter P (points t) = points t"
  using contained aug_box [of t] by (auto simp: filter_id_conv)

lemma fold_count: "foldl (\<lambda>ret et. if P (snd et) then ret + 1 else ret) n es = n + length (filter P (map snd es))"
  by (induction es arbitrary: n) auto

lemma range_count_filter2_ok: "fields_ok t \<Longrightarrow> range_count_filter2 t f P = length (filter P (points t))"
proof (induction t)
  case (Regular l e s a r)
  consider "f (fst a) < 0" | "f (fst a) = 1" | "\<not> f (fst a) < 0" "f (fst a) \<noteq> 1" by blast
  then show ?case
    by cases (use Regular none_inside [OF Regular.prems] all_inside [OF Regular.prems] aug_count [OF Regular.prems]
        in \<open>simp_all add: Let_def\<close>)
next
  case (Compressed es s a)
  consider "f (fst a) < 0" | "f (fst a) = 1" | "\<not> f (fst a) < 0" "f (fst a) \<noteq> 1" by blast
  then show ?case
    by cases (use none_inside [OF Compressed] all_inside [OF Compressed] aug_count [OF Compressed] fold_count [of 0 es]
        in \<open>simp_all add: Let_def\<close>)
qed simp

lemma range_count_filter_ok: "root_ok t \<Longrightarrow> range_count_filter t f P = Some (length (filter P (points t)))"
proof (induction t rule: measure_induct_rule [of cnt])
  case (less b)
  note fo = root_fields [OF less.prems]
  show ?case
  proof (cases "b = Nil_node")
    case True then show ?thesis by (simp add: range_count_filter.simps [of Nil_node])
  next
    case False
    obtain l e r where x: "expose b = Some (l, e, r)" "cnode l" "cnode r" "iterate_seq b = iterate_seq l @ e # iterate_seq r"
      using expose_ok [OF less.prems False] by blast
    have IH: "range_count_filter l f P = Some (length (filter P (points l)))"
      "range_count_filter r f P = Some (length (filter P (points r)))"
      using less.IH [OF expose_smaller(1) [OF x(1)]] less.IH [OF expose_smaller(2) [OF x(1)]] x(2,3) cnode_root_ok by blast+
    consider "f (fst (aug_val b)) < 0" | "f (fst (aug_val b)) = 1" | "\<not> f (fst (aug_val b)) < 0" "f (fst (aug_val b)) \<noteq> 1" by blast
    then show ?thesis
      by cases (use False x IH none_inside [OF fo] all_inside [OF fo] aug_count [OF fo]
        in \<open>simp_all add: range_count_filter.simps [of b]\<close>)
  qed
qed

lemma range_report_filter2_ok: "fields_ok t \<Longrightarrow> range_report_filter2 t f st = put_all (filter P (points t)) st"
proof (induction t arbitrary: st)
  case (Regular l e s a r)
  have one: "(if f (snd e, snd e) = 1 then put (snd e) st else Some st) = put_all (filter P [snd e]) st" for st
    by (simp add: single_point)
  show ?case
  proof (cases "f (fst a) < 0")
    case True
    then show ?thesis using none_inside [OF Regular.prems] by simp
  next
    case False
    have "put_all (filter P (points (Regular l e s a r))) st =
        put_all (filter P (points l) @ filter P [snd e] @ filter P (points r)) st" by simp
    also have "\<dots> = Option.bind (put_all (filter P (points l)) st) (\<lambda>st.
        Option.bind (put_all (filter P [snd e]) st) (put_all (filter P (points r))))"
      by (simp only: put_all_append_fun)
    finally have eq: "put_all (filter P (points (Regular l e s a r))) st =
        Option.bind (put_all (filter P (points l)) st) (\<lambda>st. Option.bind (put_all (filter P [snd e]) st) (put_all (filter P (points r))))" .
    have "range_report_filter2 l f = put_all (filter P (points l))" "range_report_filter2 r f = put_all (filter P (points r))"
      using Regular by (auto intro!: ext)
    then show ?thesis using False one unfolding eq by (simp add: Let_def)
  qed
next
  case (Compressed es s a)
  consider "f (fst a) < 0" | "f (fst a) = 1" | "\<not> f (fst a) < 0" "f (fst a) \<noteq> 1" by blast
  then show ?case
    by cases (use none_inside [OF Compressed] all_inside [OF Compressed] in \<open>simp_all add: Let_def single_point\<close>)
qed simp


lemma range_report_filter_ok: "root_ok t \<Longrightarrow> range_report_filter t f st = put_all (filter P (points t)) st"
proof (induction t arbitrary: st rule: measure_induct_rule [of cnt])
  case (less b)
  note fo = root_fields [OF less.prems]
  have one: "(if 0 < f (p, p) then put p st else Some st) = put_all (filter P [p]) st" for p st
    using single_point [of p] positive [of "(p, p)"] by auto
  show ?case
  proof (cases "b = Nil_node")
    case True then show ?thesis by (simp add: range_report_filter.simps [of Nil_node])
  next
    case False
    obtain l e r where x: "expose b = Some (l, e, r)" "cnode l" "cnode r" "iterate_seq b = iterate_seq l @ e # iterate_seq r"
      using expose_ok [OF less.prems False] by blast
    have IH: "range_report_filter l f st = put_all (filter P (points l)) st"
      "range_report_filter r f st = put_all (filter P (points r)) st" for st
      using less.IH [OF expose_smaller(1) [OF x(1)]] less.IH [OF expose_smaller(2) [OF x(1)]] x(2,3) cnode_root_ok by blast+
    show ?thesis
    proof (cases "f (fst (aug_val b)) < 0")
      case True
      then show ?thesis using False x(1) none_inside [OF fo] by (simp add: range_report_filter.simps [of b])
    next
      case nexcl: False
      have "put_all (filter P (points b)) st = put_all (filter P (points l) @ filter P [snd e] @ filter P (points r)) st"
        using x(4) by simp
      also have "\<dots> = Option.bind (put_all (filter P (points l)) st) (\<lambda>st.
          Option.bind (put_all (filter P [snd e]) st) (put_all (filter P (points r))))"
        by (simp only: put_all_append_fun)
      finally have eq: "put_all (filter P (points b)) st =
          Option.bind (put_all (filter P (points l)) st) (\<lambda>st. Option.bind (put_all (filter P [snd e]) st) (put_all (filter P (points r))))" .
      have "range_report_filter l f = put_all (filter P (points l))" "range_report_filter r f = put_all (filter P (points r))"
        using IH by (auto intro!: ext)
      then show ?thesis using False nexcl x(1) one unfolding eq by (simp add: range_report_filter.simps [of b])
    qed
  qed
qed

end

section \<open>Filters\<close>

locale box_prune =
  fixes fpt :: "entry \<Rightarrow> bool" and fbb :: "aug \<Rightarrow> bool"
  assumes prune: "\<not> fbb av \<Longrightarrow> point_in_mbr (snd e) (fst av) \<Longrightarrow> \<not> fpt e"
begin

lemma pruned: "fields_ok t \<Longrightarrow> \<not> fbb (aug_val t) \<Longrightarrow> filter fpt (iterate_seq t) = []"
  using prune aug_box [of t] by (auto simp: filter_empty_conv)

lemma rejoin:
  assumes "holds_node resl (filter g (iterate_seq l))" "holds_node resr (filter g (iterate_seq r))" "cnt l + cnt r + 2 < 2 ^ 32"
  shows "\<exists>l' r'. resl = Some l' \<and> resr = Some r' \<and>
    holds_node (if g e then join l' e r' else join2 l' r') (filter g (iterate_seq l @ e # iterate_seq r))"
proof -
  obtain l' where l': "resl = Some l'" "cnode l'" "iterate_seq l' = filter g (iterate_seq l)" using assms(1) by (rule holds_nodeE)
  obtain r' where r': "resr = Some r'" "cnode r'" "iterate_seq r' = filter g (iterate_seq r)" using assms(2) by (rule holds_nodeE)
  have "cnt l' \<le> cnt l" "cnt r' \<le> cnt r" unfolding l'(3) r'(3) by (rule length_filter_le)+
  then have sz: "cnt l' + cnt r' + 2 < 2 ^ 32" using assms(3) by linarith
  then show ?thesis using join_ok [OF l'(2) r'(2) sz, of e] join2_ok [OF l'(2) r'(2) sz] l' r' by simp
qed

lemma aug_filter2_ok:
  "root_ok t \<Longrightarrow> cnt t + 2 < 2 ^ 32 \<Longrightarrow> holds_node (aug_filter2 t fpt fbb) (filter fpt (iterate_seq t))"
proof (induction t rule: measure_induct_rule [of cnt])
  case (less b)
  have c: "csize b = cnt b" using less.prems by (simp add: root_size)
  consider "b = Nil_node" | "b \<noteq> Nil_node" "cnt b \<le> kBaseCaseSize" | "b \<noteq> Nil_node" "\<not> cnt b \<le> kBaseCaseSize" by blast
  then show ?case
  proof cases
    case 1 then show ?thesis by (simp add: aug_filter2.simps [of Nil_node] holds_node_SomeI)
  next
    case 2
    then have "length (filter fpt (iterate_seq b)) \<le> 322"
      by (intro le_trans [OF length_filter_le]) (simp add: kBaseCaseSize_def kBlockSize_def)
    then show ?thesis using 2 c from_buffer_ok
      by (simp add: aug_filter2.simps [of b] aug_filter_bc2_def fill_buffer_ok kBaseCaseSize_def kBlockSize_def)
  next
    case 3
    show ?thesis
    proof (cases "fbb (aug_val b)")
      case False
      then show ?thesis using 3 c pruned [OF root_fields [OF less.prems(1)]]
        by (simp add: aug_filter2.simps [of b] holds_node_SomeI)
    next
      case True
      obtain l e r where x: "expose b = Some (l, e, r)" "cnode l" "cnode r" "iterate_seq b = iterate_seq l @ e # iterate_seq r"
        using expose_ok [OF less.prems(1) 3(1)] by blast
      have sz: "cnt l + cnt r + 3 < 2 ^ 32" using less.prems(2) x(4) by simp
      have IH: "holds_node (aug_filter2 l fpt fbb) (filter fpt (iterate_seq l))" "holds_node (aug_filter2 r fpt fbb) (filter fpt (iterate_seq r))"
        using less.IH [OF expose_smaller(1) [OF x(1)] cnode_root_ok [OF x(2)]]
          less.IH [OF expose_smaller(2) [OF x(1)] cnode_root_ok [OF x(3)]] sz by simp_all
      then show ?thesis using rejoin [OF IH, of e] True 3 c x sz by (auto simp: aug_filter2.simps [of b])
    qed
  qed
qed

end

section \<open>Nearest neighbours\<close>

locale box_distance =
  fixes f :: "point \<Rightarrow> FT" and f2 :: "Bounding_Box \<Rightarrow> FT"
  assumes f2_le: "point_in_mbr p box \<Longrightarrow> f2 box \<le> f p"
begin

definition pairs :: "point list \<Rightarrow> nn_pair multiset" where
  "pairs ps = image_mset (\<lambda>p. (p, f p)) (mset ps)"

lemma pairs_simps [simp]:
  "pairs [] = {#}" "pairs (p # ps) = add_mset (p, f p) (pairs ps)" "pairs (ps @ qs) = pairs ps + pairs qs"
  by (simp_all add: pairs_def)

lemma pt_checks_holds:
  "by_dis.holds k M q \<Longrightarrow> 1 \<le> k \<Longrightarrow>
   \<exists>q'. pt_checks f k es q = Some q' \<and> by_dis.holds k (M + pairs (map snd es)) q'"
proof (induction es arbitrary: M q)
  case (Cons e es)
  obtain q1 where "pt_check f k (snd e) q = Some q1" "by_dis.holds k (add_mset (snd e, f (snd e)) M) q1"
    using by_dis.offer_holds [OF Cons.prems, of "(snd e, f (snd e))"] by (auto simp: pt_check_def)
  then show ?case using Cons.IH [of "add_mset (snd e, f (snd e)) M" q1] Cons.prems(2) by simp
qed simp

lemma guarded:
  assumes h: "by_dis.holds k M q" and k: "1 \<le> k"
    and vis: "\<And>q. by_dis.holds k M q \<Longrightarrow> \<exists>q'. visit q = Some q' \<and> by_dis.holds k (M + pairs ps) q'"
    and far: "\<forall>p\<in>set ps. d \<le> f p"
  shows "\<exists>go q'. worth k d q = Some go \<and> (if go then visit q else Some q) = Some q' \<and> by_dis.holds k (M + pairs ps) q'"
proof (cases "length q < k")
  case True
  then show ?thesis using vis [OF h] by (auto simp: worth_def)
next
  case False
  then obtain t where t: "pq_top q = Some t" using by_dis.holds_top [OF h k] by blast
  show ?thesis
  proof (cases "d < snd t")
    case True
    then show ?thesis using vis [OF h] False t by (auto simp: worth_def)
  next
    case nle: False
    have "snd t \<le> snd x" if "x \<in># pairs ps" for x
      using that nle far by (fastforce simp: pairs_def)
    then have "by_dis.holds k (M + pairs ps) q" using by_dis.holds_prune [OF h k False t] by blast
    then show ?thesis using False t nle by (intro exI [of _ False] exI [of _ q]) (simp add: worth_def)
  qed
qed

lemma far_side:
  assumes "fields_ok t" shows "\<forall>p\<in>set (points t). (if t \<noteq> Nil_node then f2 (fst (aug_val t)) else FT_INF_MAX) \<le> f p"
  using f2_le aug_box [OF assms] by auto

lemma knn_filter_holds:
  "fields_ok t \<Longrightarrow> by_dis.holds k M q \<Longrightarrow> 1 \<le> k \<Longrightarrow>
   \<exists>q'. knn_filter t f f2 k q = Some q' \<and> by_dis.holds k (M + pairs (points t)) q'"
proof (induction t arbitrary: M q)
  case (Regular l e s a r)
  define ld where "ld = (if l \<noteq> Nil_node then f2 (fst (aug_val l)) else FT_INF_MAX)"
  define rd where "rd = (if r \<noteq> Nil_node then f2 (fst (aug_val r)) else FT_INF_MAX)"
  have fo: "fields_ok l" "fields_ok r" using Regular.prems(1) by simp_all
  have far: "\<forall>p\<in>set (points l). ld \<le> f p" "\<forall>p\<in>set (points r). rd \<le> f p"
    using far_side [OF fo(1)] far_side [OF fo(2)] by (simp_all add: ld_def rd_def)
  let ?M = "add_mset (snd e, f (snd e)) M"
  obtain q0 where q0: "pt_check f k (snd e) q = Some q0" "by_dis.holds k ?M q0"
    using by_dis.offer_holds [OF Regular.prems(2,3), of "(snd e, f (snd e))"] by (auto simp: pt_check_def)
  let ?L = "knn_filter l f f2 k" and ?R = "knn_filter r f f2 k"
  have vl: "\<exists>go q'. worth k ld q = Some go \<and> (if go then ?L q else Some q) = Some q' \<and> by_dis.holds k (M + pairs (points l)) q'"
    if "by_dis.holds k M q" for M q
    by (rule guarded [OF that Regular.prems(3) Regular.IH(1) [OF fo(1) _ Regular.prems(3)] far(1)])
  have vr: "\<exists>go q'. worth k rd q = Some go \<and> (if go then ?R q else Some q) = Some q' \<and> by_dis.holds k (M + pairs (points r)) q'"
    if "by_dis.holds k M q" for M q
    by (rule guarded [OF that Regular.prems(3) Regular.IH(2) [OF fo(2) _ Regular.prems(3)] far(2)])
  have all: "M + pairs (points (Regular l e s a r)) = ?M + pairs (points l) + pairs (points r)" by (simp add: ac_simps)
  note unf = knn_filter.simps(3) Let_def ld_def [symmetric] rd_def [symmetric]
  show ?case
  proof (cases "ld \<le> rd")
    case True
    obtain g1 q1 where 1: "worth k ld q0 = Some g1" "(if g1 then ?L q0 else Some q0) = Some q1"
      "by_dis.holds k (?M + pairs (points l)) q1" using vl [OF q0(2)] by blast
    obtain g2 q2 where 2: "worth k rd q1 = Some g2" "(if g2 then ?R q1 else Some q1) = Some q2"
      "by_dis.holds k (?M + pairs (points l) + pairs (points r)) q2" using vr [OF 1(3)] by blast
    have "knn_filter (Regular l e s a r) f f2 k q = Some q2" using True q0(1) 1 2 unfolding unf by simp
    then show ?thesis unfolding all using 2(3) by blast
  next
    case False
    obtain g1 q1 where 1: "worth k rd q0 = Some g1" "(if g1 then ?R q0 else Some q0) = Some q1"
      "by_dis.holds k (?M + pairs (points r)) q1" using vr [OF q0(2)] by blast
    obtain g2 q2 where 2: "worth k ld q1 = Some g2" "(if g2 then ?L q1 else Some q1) = Some q2"
      "by_dis.holds k (?M + pairs (points r) + pairs (points l)) q2" using vl [OF 1(3)] by blast
    have "knn_filter (Regular l e s a r) f f2 k q = Some q2" using False q0(1) 1 2 unfolding unf by simp
    moreover have "?M + pairs (points l) + pairs (points r) = ?M + pairs (points r) + pairs (points l)"
      by (simp add: ac_simps)
    ultimately show ?thesis unfolding all using 2(3) by metis
  qed
next
  case (Compressed es s a)
  then show ?case using pt_checks_holds by simp
qed simp

end

end
