(* ===== verification/Pacz.thy ===== *)
theory Pacz
  imports CpamAugOk CpamMapsMore VersionMerge
begin

text \<open>
  The index \<open>PACZ\<close> of \<open>index/pacz.hpp\<close>: a version is a map from Morton code and id to
  points, a commit makes a new map, and differences and queries run on maps. The sort of
  parlay and the Hilbert code are parameters. The interfaces of the augmented queries and of
  the merge are interpreted on its operations.
\<close>

section \<open>The operations\<close>

definition filter_range :: "ctree \<Rightarrow> Bounding_Box \<Rightarrow> ctree option" where
  "filter_range tree query_mbr =
     (let BL = fst query_mbr; UR = snd query_mbr;
          fpt = (\<lambda>cur. pt_x BL \<le> pt_x (snd cur) \<and> pt_x (snd cur) \<le> pt_x UR \<and>
                       pt_y BL \<le> pt_y (snd cur) \<and> pt_y (snd cur) \<le> pt_y UR);
          fbb = (\<lambda>cur. \<not> mbr_exclude_mbr query_mbr (fst cur))
      in aug_filter2 tree fpt fbb)"

definition zvalues :: "ctree \<Rightarrow> point list option" where
  "zvalues m = those (values_of m)"

definition map_spatial_diff :: "ctree \<Rightarrow> ctree \<Rightarrow> Bounding_Box \<Rightarrow> diff_type \<Rightarrow> diff_type option" where
  "map_spatial_diff lhs rhs query ret_diff =
     do {
       filtered_lhs \<leftarrow> filter_range lhs query;
       filtered_rhs \<leftarrow> filter_range rhs query;
       added \<leftarrow> Option.bind (map_difference filtered_rhs filtered_lhs) zvalues;
       removed \<leftarrow> Option.bind (map_difference filtered_lhs filtered_rhs) zvalues;
       Some (ret_diff\<lparr>d_add := added, add_cap := length added, d_remove := removed, remove_cap := length removed\<rparr>) }"

definition map_diff :: "ctree \<Rightarrow> ctree \<Rightarrow> (point list \<times> point list) option" where
  "map_diff lhs rhs =
     do {
       added \<leftarrow> Option.bind (map_difference rhs lhs) zvalues;
       removed \<leftarrow> Option.bind (map_difference lhs rhs) zvalues;
       Some (added, removed) }"

text \<open>
  The points of a batch get their codes in the caller's sequence, which is returned
  beside the map.
\<close>

definition to_entry :: "point \<Rightarrow> entry" where
  "to_entry p = ((morton_id p, pt_id p), p)"

definition map_init ::
  "(entry list \<Rightarrow> entry list) \<Rightarrow> (point \<Rightarrow> 64 word) \<Rightarrow> point list \<Rightarrow> bool \<Rightarrow> (point list \<times> ctree) option" where
  "map_init srt ov P use_hilbert =
     (let P = map (set_code ov use_hilbert) P in
      map_option (Pair P) (new_map srt (map to_entry P)))"

definition map_insert ::
  "(entry list \<Rightarrow> entry list) \<Rightarrow> (point \<Rightarrow> 64 word) \<Rightarrow> point list \<Rightarrow> ctree \<Rightarrow> bool \<Rightarrow> (point list \<times> ctree) option" where
  "map_insert srt ov P mmp use_hilbert =
     (let P = map (set_code ov use_hilbert) P in
      map_option (Pair P) (multi_insert srt mmp (map to_entry P)))"

definition map_delete ::
  "(entry list \<Rightarrow> entry list) \<Rightarrow> (point \<Rightarrow> 64 word) \<Rightarrow> point list \<Rightarrow> ctree \<Rightarrow> bool \<Rightarrow> (point list \<times> ctree) option" where
  "map_delete srt ov P mmp use_hilbert =
     (let P = map (set_code ov use_hilbert) P in
      map_option (Pair P) (multi_delete srt mmp (map to_entry P)))"

definition zrange_count :: "ctree \<Rightarrow> Bounding_Box \<Rightarrow> nat" where
  "zrange_count zCPAM query_mbr =
     range_count_filter2 zCPAM (\<lambda>cur. mbr_mbr_relation cur query_mbr) (\<lambda>cur. point_in_mbr cur query_mbr)"

definition zrange_report :: "ctree \<Rightarrow> Bounding_Box \<Rightarrow> point list \<Rightarrow> (nat \<times> point list) option" where
  "zrange_report tree query_mbr out =
     range_report_filter2 tree (\<lambda>cur. mbr_mbr_relation cur query_mbr) (0, out)"

text \<open>
  The two buffers are cut to the number of points reported; \<open>resize\<close> never grows them,
  since a report fits its buffer.
\<close>

definition plain_map_spatial_diff ::
  "ctree \<Rightarrow> ctree \<Rightarrow> Bounding_Box \<Rightarrow> diff_type \<Rightarrow> point list \<Rightarrow> point list \<Rightarrow> (diff_type \<times> point list \<times> point list) option" where
  "plain_map_spatial_diff lhs rhs query ret_diff l_pts r_pts =
     do {
       (ret1, l_pts) \<leftarrow> zrange_report lhs query l_pts;
       (ret2, r_pts) \<leftarrow> zrange_report rhs query r_pts;
       let l_pts = take ret1 l_pts;
       let r_pts = take ret2 r_pts;
       ret_diff \<leftarrow> merge_pts (\<lambda>_. True) l_pts r_pts ret_diff False;
       Some (ret_diff, l_pts, r_pts) }"

definition zknn :: "ctree \<Rightarrow> point \<Rightarrow> nat \<Rightarrow> nn_pair list option" where
  "zknn tree query_point k =
     knn_filter tree (\<lambda>cur_pt. point_point_sqrdis cur_pt query_point) (\<lambda>cur_mbr. point_mbr_sqrdis query_point cur_mbr) k []"

definition map_commit ::
  "(entry list \<Rightarrow> entry list) \<Rightarrow> (point \<Rightarrow> 64 word) \<Rightarrow> ctree \<Rightarrow> point list \<Rightarrow> point list \<Rightarrow>
   (ctree \<times> point list \<times> point list) option" where
  "map_commit srt ov mmp P_insert P_delete =
     do {
       (P_delete, new_ver) \<leftarrow> map_delete srt ov P_delete mmp False;
       (P_insert, new_ver) \<leftarrow> map_insert srt ov P_insert new_ver False;
       Some (new_ver, P_insert, P_delete) }"

definition map_merge ::
  "(entry list \<Rightarrow> entry list) \<Rightarrow> (point \<Rightarrow> 64 word) \<Rightarrow> ctree \<Rightarrow> ctree \<Rightarrow> ctree \<Rightarrow>
   (ctree \<times> point list \<times> point list \<times> point list) option" where
  "map_merge srt ov base v1 v2 =
     do {
       (add1, remove1) \<leftarrow> map_diff base v1;
       (add2, remove2) \<leftarrow> map_diff base v2;
       let (insert1, delete1, update1) = filter_diff_results add1 remove1;
       let (insert2, delete2, update2) = filter_diff_results add2 remove2;
       let (no_conflict_insert, conflict_insert) = merge_by_id_with_conflict insert1 insert2;
       let (no_conflict_update, conflict_update) = merge_by_id_with_conflict update1 update2;
       let (no_conflict_delete, conflict_delete) = merge_by_id_with_conflict delete1 update2;
       let (no_conflict_delete1, conflict_delete1) = merge_by_id_with_conflict delete2 update1;
       (new_ver, _, _) \<leftarrow> map_commit srt ov base no_conflict_insert (no_conflict_delete @ no_conflict_delete1);
       Some (new_ver, conflict_insert, conflict_update, conflict_delete @ conflict_delete1) }"

section \<open>Versions\<close>

text \<open>A version: a map whose keys are the codes and ids of its points.\<close>

definition pacz_ok :: "ctree \<Rightarrow> bool" where
  "pacz_ok m \<longleftrightarrow> map_ok m \<and> (\<forall>e\<in>set (iterate_seq m). fst e = pt_key (snd e) \<and> zcoded (snd e))"

lemma pacz_okD:
  assumes "pacz_ok m"
  shows "map_ok m" "root_ok m" "fields_ok m" "strict (iterate_seq m)" "cnt m + 2 < 2 ^ 32"
    "map fst (iterate_seq m) = map pt_key (points m)" "\<forall>p\<in>set (points m). zcoded p"
  using assms map_ok_root [of m] root_fields [of m] by (auto simp: pacz_ok_def)

lemma pacz_sorted:
  assumes "pacz_ok m" shows "strict_by pt_key (points m)"
  using pacz_okD(4) [OF assms] unfolding strict_by_def sorted_by_def pacz_okD(6) [OF assms] .

lemma those_map_Some: "those (map (\<lambda>x. Some (f x)) xs) = Some (map f xs)"
  by (induction xs) simp_all

lemma zvalues_ok: "root_ok m \<Longrightarrow> cnt m < 2 ^ 32 \<Longrightarrow> zvalues m = Some (points m)"
  by (simp add: zvalues_def values_ok root_fields those_map_Some)

lemma filter_points: "pacz_ok m \<Longrightarrow> root_ok t \<Longrightarrow> iterate_seq t = filter P (iterate_seq m) \<Longrightarrow> pacz_ok t"
  using strict_by_filter [of fst "iterate_seq m" P] le_less_trans [OF add_right_mono [OF length_filter_le [of P "iterate_seq m"]], of 2 "2 ^ 32"]
  by (auto simp: pacz_ok_def map_ok_def)

lemma difference_points:
  assumes "pacz_ok a" "pacz_ok b"
  shows "Option.bind (map_difference a b) zvalues = Some (diff_by pt_key pt_key (points a) (points b))"
proof -
  have mem: "fst e \<in> set (map fst (iterate_seq b)) \<longleftrightarrow> pt_key (snd e) \<in> pt_key ` set (points b)" if "e \<in> set (iterate_seq a)" for e
    using that assms(1) by (simp only: pacz_okD(6) [OF assms(2)] set_map) (simp add: pacz_ok_def)
  obtain t where t: "map_difference a b = Some t" "root_ok t"
    "iterate_seq t = filter (\<lambda>x. fst x \<notin> fst ` set (iterate_seq b)) (iterate_seq a)"
    using difference_tree [OF pacz_okD(2) [OF assms(1)] pacz_okD(2) [OF assms(2)] pacz_okD(4) [OF assms(1)] pacz_okD(4) [OF assms(2)]]
      pacz_okD(5) [OF assms(1)] pacz_okD(5) [OF assms(2)]
    by (auto simp: map_difference_def holds_tree_def)
  note ok = pacz_okD [OF filter_points [OF assms(1) t(2,3)]]
  have "zvalues t = Some (points t)" using zvalues_ok [OF ok(2)] ok(5) by simp
  moreover have "points t = filter (\<lambda>p. pt_key p \<notin> pt_key ` set (points b)) (points a)"
  proof -
    have "filter (\<lambda>x. fst x \<notin> fst ` set (iterate_seq b)) (iterate_seq a) =
        filter (\<lambda>x. pt_key (snd x) \<notin> pt_key ` set (points b)) (iterate_seq a)"
      by (rule filter_cong [OF refl]) (use mem in simp)
    then show ?thesis unfolding t(3) filter_map o_def by simp
  qed
  moreover have "diff_by pt_key pt_key (points a) (points b) = filter (\<lambda>p. pt_key p \<notin> pt_key ` set (points b)) (points a)"
    by (rule diff_by_filter [OF pacz_sorted [OF assms(1)] strict_by_sorted_by [OF pacz_sorted [OF assms(2)]]])
  ultimately show ?thesis using t(1) by simp
qed

lemma map_diff_list_diff: "pacz_ok a \<Longrightarrow> pacz_ok b \<Longrightarrow> map_diff a b = Some (list_diff (points a) (points b))"
  by (simp add: map_diff_def difference_points list_diff_def)

lemma keyset_filter: "keyset (filter (\<lambda>p. pt_key p \<notin> K) P) = keyset P - K"
  by (auto simp: keyset_def)

section \<open>Queries\<close>

interpretation box_filter: box_prune
  "\<lambda>cur. pt_x (fst q) \<le> pt_x (snd cur) \<and> pt_x (snd cur) \<le> pt_x (snd q) \<and> pt_y (fst q) \<le> pt_y (snd cur) \<and> pt_y (snd cur) \<le> pt_y (snd q)"
  "\<lambda>cur. \<not> mbr_exclude_mbr q (fst cur)" for q
  by unfold_locales (auto simp: mbr_exclude_mbr_def point_in_mbr_def)

interpretation in_box: box_test "\<lambda>cur. mbr_mbr_relation cur q" "\<lambda>cur. point_in_mbr cur q" for q
proof unfold_locales
  fix box p
  show "mbr_mbr_relation box q < 0 \<Longrightarrow> point_in_mbr p box \<Longrightarrow> \<not> point_in_mbr p q" by (rule relation_excluded_point)
  show "mbr_mbr_relation box q = 1 \<Longrightarrow> point_in_mbr p box \<Longrightarrow> point_in_mbr p q" by (rule relation_contained_point [of box]) simp_all
  show one: "0 < mbr_mbr_relation box q \<Longrightarrow> mbr_mbr_relation box q = 1" for box using relation_range [of box q] by auto
  have "0 < mbr_mbr_relation (p, p) q \<longleftrightarrow> point_in_mbr p q"
    by (auto simp: relation_contained valid_mbr_def mbr_in_mbr_def point_in_mbr_def)
  then show "mbr_mbr_relation (p, p) q = 1 \<longleftrightarrow> point_in_mbr p q" using one [of "(p, p)"] by auto
qed

interpretation nearest: box_distance "\<lambda>p. point_point_sqrdis p query" "\<lambda>m. point_mbr_sqrdis query m" for query
  by unfold_locales (rule box_distance_le)

lemma filter_range_ok:
  assumes "pacz_ok m"
  shows "\<exists>t. filter_range m q = Some t \<and> pacz_ok t \<and> points t = filter (\<lambda>p. point_in_mbr p q) (points m)"
proof -
  have "holds_node (filter_range m q) (filter (\<lambda>e. point_in_mbr (snd e) q) (iterate_seq m))"
    using box_filter.aug_filter2_ok [OF pacz_okD(2,5) [OF assms], of q]
    by (simp add: filter_range_def Let_def point_in_mbr_def)
  then obtain t where t: "filter_range m q = Some t" "cnode t" "iterate_seq t = filter (\<lambda>e. point_in_mbr (snd e) q) (iterate_seq m)"
    by (rule holds_nodeE)
  then have "pacz_ok t" using filter_points [OF assms cnode_root_ok] by blast
  then show ?thesis using t by (auto simp: filter_map o_def)
qed

lemma zrange_count_ok: "pacz_ok m \<Longrightarrow> zrange_count m q = length (filter (\<lambda>p. point_in_mbr p q) (points m))"
  by (simp add: zrange_count_def in_box.range_count_filter2_ok pacz_okD)

lemma zrange_report_ok:
  assumes "pacz_ok m"
  shows "zrange_report m q out =
    (let found = filter (\<lambda>p. point_in_mbr p q) (points m) in
     if length found \<le> length out then Some (length found, found @ drop (length found) out) else None)"
proof -
  define found where "found = filter (\<lambda>p. point_in_mbr p q) (points m)"
  have "zrange_report m q out = put_all found (0, out)"
    using pacz_okD(3) [OF assms] by (simp add: zrange_report_def in_box.range_report_filter2_ok found_def)
  then show ?thesis unfolding found_def [symmetric] by (auto simp: put_all_fits Let_def)
qed

lemma zknn_ok:
  assumes "pacz_ok m" "1 \<le> k"
  shows "\<exists>nn. zknn m qp k = Some nn \<and>
    rev (map snd nn) = smallest k (image_mset snd (nn_pairs qp (points m))) \<and> set nn \<subseteq> set_mset (nn_pairs qp (points m))"
proof -
  have "nearest.pairs qp ps = nn_pairs qp ps" for ps
    by (simp add: nearest.pairs_def nn_pairs_def)
  then show ?thesis
    using nearest.knn_filter_holds [OF pacz_okD(3) [OF assms(1)] by_dis.holds_empty assms(2), of qp]
    by (auto simp: zknn_def by_dis.holds_def)
qed

section \<open>Commits\<close>

lemma set_abs: "strict (iterate_seq m) \<Longrightarrow> (k, v) \<in> set (iterate_seq m) \<longleftrightarrow> abs_map m k = Some v"
  by (simp add: abs_map_def strict_by_def)

lemma pacz_ok_abs:
  assumes "map_ok m" "\<And>k v. abs_map m k = Some v \<Longrightarrow> k = pt_key v \<and> zcoded v"
  shows "pacz_ok m"
proof -
  have "fst e = pt_key (snd e) \<and> zcoded (snd e)" if "e \<in> set (iterate_seq m)" for e
    using assms(2) [of "fst e" "snd e"] that set_abs [OF map_ok_root(2) [OF assms(1)], of "fst e" "snd e"] by simp
  then show ?thesis using assms(1) by (simp add: pacz_ok_def)
qed

lemma pacz_abs: "pacz_ok m \<Longrightarrow> abs_map m k = Some v \<Longrightarrow> k = pt_key v \<and> zcoded v"
  using set_abs [of m k v] pacz_okD(4) [of m] by (auto simp: pacz_ok_def)

lemma keyset_points: "pacz_ok m \<Longrightarrow> keyset (points m) = dom (abs_map m)"
  unfolding dom_abs keyset_def using pacz_okD(6) [of m] by (metis image_set)

lemma cnt_keyset: "pacz_ok m \<Longrightarrow> cnt m = card (keyset (points m))"
proof -
  assume m: "pacz_ok m"
  then have "distinct (map pt_key (points m))" using pacz_sorted by (simp add: strict_by_def)
  then have "card (set (map pt_key (points m))) = length (map pt_key (points m))" by (rule distinct_card)
  then show ?thesis by (simp add: keyset_def image_image)
qed

lemma multi_insert_any:
  assumes "is_sorter srt" "map_ok m" "cnt m + length SS + 2 < 2 ^ 32"
  shows "\<exists>M. holds_map (multi_insert srt m SS) (abs_map m ++ M) \<and> dom M = fst ` set SS \<and>
    (\<forall>k v. M k = Some v \<longrightarrow> (k, v) \<in> set SS)"
proof -
  define A where "A = sort_remove_duplicates srt SS"
  note A = sort_remove_ok [OF assms(1), of SS, folded A_def]
  have sz: "cnt m + length A + 2 < 2 ^ 32" using A(4) assms(3) by linarith
  have "holds_map (multi_insert_sorted m A replace) (map_of (iterate_seq m) ++ map_of A)"
    by (rule merge_holds_map [OF multi_insert_tree]) (use map_ok_root [OF assms(2)] A(1) sz in auto)
  then have "holds_map (multi_insert srt m SS) (abs_map m ++ map_of A)"
    by (simp add: multi_insert_def A_def abs_map_def)
  moreover have "dom (map_of A) = fst ` set SS" using A(3) by (simp add: dom_map_of_conv_image_fst)
  moreover have "map_of A k = Some v \<Longrightarrow> (k, v) \<in> set SS" for k v using A(2) map_of_SomeD by fastforce
  ultimately show ?thesis by blast
qed

lemma to_entry_keys:
  "fst ` set (map to_entry P) = keyset P"
  "(k, v) \<in> set (map to_entry (map (set_code ov False) P)) \<Longrightarrow> k = pt_key v \<and> zcoded v"
  by (auto simp: to_entry_def keyset_def pt_key_def image_image)

lemma map_delete_ok:
  assumes "is_sorter srt" "pacz_ok m"
  shows "\<exists>t. map_delete srt ov D m False = Some (map (set_code ov False) D, t) \<and> pacz_ok t \<and>
    keyset (points t) = keyset (points m) - keyset (map (set_code ov False) D)"
proof -
  let ?D = "map (set_code ov False) D"
  obtain t where t: "multi_delete srt m (map to_entry ?D) = Some t" "map_ok t" "abs_map t = abs_map m |` (- keyset ?D)"
    using multi_delete_map [OF assms(1) pacz_okD(1) [OF assms(2)], of "map to_entry ?D"]
    unfolding holds_map_def to_entry_keys(1) by blast
  have ok: "pacz_ok t"
    by (rule pacz_ok_abs [OF t(2)]) (use pacz_abs [OF assms(2)] t(3) in \<open>auto simp: restrict_map_def split: if_splits\<close>)
  have "keyset (points t) = keyset (points m) - keyset ?D"
    unfolding keyset_points [OF ok] keyset_points [OF assms(2)] t(3) by auto
  then show ?thesis using t(1) ok by (simp add: map_delete_def Let_def)
qed

lemma map_insert_ok:
  assumes "is_sorter srt" "pacz_ok m" "cnt m + length I + 2 < 2 ^ 32"
  shows "\<exists>t. map_insert srt ov I m False = Some (map (set_code ov False) I, t) \<and> pacz_ok t \<and>
    keyset (points t) = keyset (points m) \<union> keyset (map (set_code ov False) I)"
proof -
  let ?I = "map (set_code ov False) I"
  have sz: "cnt m + length (map to_entry ?I) + 2 < 2 ^ 32" using assms(3) by simp
  obtain M t where t: "multi_insert srt m (map to_entry ?I) = Some t" "map_ok t" "abs_map t = abs_map m ++ M"
    and M: "dom M = keyset ?I" "\<forall>k v. M k = Some v \<longrightarrow> (k, v) \<in> set (map to_entry ?I)"
    using multi_insert_any [OF assms(1) pacz_okD(1) [OF assms(2)] sz]
    unfolding holds_map_def to_entry_keys(1) by blast
  have ok: "pacz_ok t"
  proof (rule pacz_ok_abs [OF t(2)])
    fix k v assume "abs_map t k = Some v"
    then consider "M k = Some v" | "abs_map m k = Some v" unfolding t(3) by (auto simp: map_add_Some_iff)
    then show "k = pt_key v \<and> zcoded v" using M(2) to_entry_keys(2) pacz_abs [OF assms(2)] by cases blast+
  qed
  have "keyset (points t) = keyset (points m) \<union> keyset ?I"
    unfolding keyset_points [OF ok] keyset_points [OF assms(2)] t(3) using M(1) by auto
  then show ?thesis using t(1) ok by (simp add: map_insert_def Let_def)
qed

lemma map_commit_ok:
  assumes "is_sorter srt" "pacz_ok m" "cnt m + length I + 2 < 2 ^ 32"
  shows "\<exists>t. map_commit srt ov m I D = Some (t, map (set_code ov False) I, map (set_code ov False) D) \<and> pacz_ok t \<and>
    keyset (points t) = (keyset (points m) - keyset (map (set_code ov False) D)) \<union> keyset (map (set_code ov False) I)"
proof -
  obtain t1 where 1: "map_delete srt ov D m False = Some (map (set_code ov False) D, t1)" "pacz_ok t1"
    "keyset (points t1) = keyset (points m) - keyset (map (set_code ov False) D)"
    using map_delete_ok [OF assms(1,2)] by blast
  have "cnt t1 \<le> cnt m" unfolding cnt_keyset [OF 1(2)] cnt_keyset [OF assms(2)] 1(3)
    by (rule card_mono) (auto simp: keyset_def)
  then have "cnt t1 + length I + 2 < 2 ^ 32" using assms(3) by linarith
  then obtain t2 where "map_insert srt ov I t1 False = Some (map (set_code ov False) I, t2)" "pacz_ok t2"
    "keyset (points t2) = keyset (points t1) \<union> keyset (map (set_code ov False) I)"
    using map_insert_ok [OF assms(1) 1(2)] by blast
  then show ?thesis using 1 by (simp add: map_commit_def)
qed

lemma map_init_ok:
  assumes "is_sorter srt" "distinct_ids P" "length P + 2 < 2 ^ 32"
  shows "\<exists>t. map_init srt ov P False = Some (map (set_code ov False) P, t) \<and> pacz_ok t \<and>
    set (points t) = set (map (set_code ov False) P)"
proof -
  let ?P = "map (set_code ov False) P"
  have "map snd (map fst (map to_entry ?P)) = map pt_id P" by (simp add: to_entry_def)
  then have "distinct (map snd (map fst (map to_entry ?P)))" using assms(2) by (simp only: distinct_ids_def)
  then have d: "distinct (map fst (map to_entry ?P))" by (simp only: distinct_map)
  obtain t where t: "new_map srt (map to_entry ?P) = Some t" "map_ok t" "abs_map t = map_of (map to_entry ?P)"
    using new_map_map [OF assms(1) d] assms(3) by (auto simp: holds_map_def)
  have mem: "(k, v) \<in> set (iterate_seq t) \<longleftrightarrow> (k, v) \<in> set (map to_entry ?P)" for k v
    unfolding set_abs [OF map_ok_root(2) [OF t(2)]] t(3) by (rule map_of_eq_Some_iff [OF d])
  have "pacz_ok t" using t(2) mem to_entry_keys(2) unfolding pacz_ok_def by (metis prod.collapse)
  moreover have "set (iterate_seq t) = set (map to_entry ?P)" using mem by auto
  then have "set (points t) = snd ` set (map to_entry ?P)" by simp
  then have "set (points t) = set ?P" by (simp add: image_image to_entry_def)
  ultimately show ?thesis using t(1) by (simp add: map_init_def Let_def)
qed

section \<open>Merging\<close>

text \<open>Maps are values, so the store of versions has no state, and every commit is defined. The sort of parlay is any that sorts.\<close>

definition zholds :: "unit \<Rightarrow> ctree \<Rightarrow> ctree \<Rightarrow> bool" where
  "zholds s v t \<longleftrightarrow> v = t \<and> pacz_ok t"

definition zdiff :: "unit \<Rightarrow> ctree \<Rightarrow> ctree \<Rightarrow> (point list \<times> point list) option" where
  "zdiff s v w = map_diff v w"

definition zcommit ::
  "(entry list \<Rightarrow> entry list) \<Rightarrow> (point \<Rightarrow> 64 word) \<Rightarrow> unit \<Rightarrow> ctree \<Rightarrow> point list \<Rightarrow> point list \<Rightarrow> (unit \<times> ctree) option" where
  "zcommit srt ov s v I D = map_option (\<lambda>r. ((), fst r)) (map_commit srt ov v I D)"

lemma map_merge_three_way:
  "map_merge srt ov base v1 v2 =
   map_option snd (three_way zdiff (zcommit srt ov) () base v1 v2)"
  by (simp add: map_merge_def three_way_def zdiff_def zcommit_def map_option_bind bind_map_option o_def
      split_def Let_def cong: option.case_cong)

lemma coded_same: "\<forall>p\<in>set P. zcoded p \<Longrightarrow> map (set_code ov False) P = P"
  by (rule map_idI) (simp add: set_code_def zcoded_def)

locale sorter =
  fixes srt :: "entry list \<Rightarrow> entry list"
  assumes sorts: "is_sorter srt"

sublocale sorter \<subseteq> zstore: version_store zholds points zdiff "zcommit srt ov" "\<lambda>n. n + 2 < 2 ^ 32" "\<lambda>_ _. False" for ov
proof unfold_locales
  fix s v t assume "zholds s v t"
  then have t: "pacz_ok t" by (simp add: zholds_def)
  show "sorted_by pt_key (points t)" by (rule strict_by_sorted_by [OF pacz_sorted [OF t]])
  show "\<forall>p\<in>set (points t). zcoded p" by (rule pacz_okD(7) [OF t])
next
  fix s v t w u assume "zholds s v t" "zholds s w u"
  then show "zdiff s v w = Some (list_diff (points t) (points u))"
    by (simp add: zholds_def zdiff_def map_diff_list_diff)
next
  fix s v t and I D :: "point list"
  assume h: "zholds s v t" and small: "length (points t) + length I + 2 < 2 ^ 32" and z: "\<forall>p\<in>set I \<union> set D. zcoded p"
  obtain t' where "map_commit srt ov t I D = Some (t', map (set_code ov False) I, map (set_code ov False) D)" "pacz_ok t'"
    "keyset (points t') = (keyset (points t) - keyset (map (set_code ov False) D)) \<union> keyset (map (set_code ov False) I)"
    using map_commit_ok [OF sorts, of t I ov D] h small by (auto simp: zholds_def)
  then show "\<exists>s' v' t'. zcommit srt ov s v I D = Some (s', v') \<and> zholds s' v' t' \<and>
      keyset (points t') = (keyset (points t) - keyset D) \<union> keyset I \<and> (\<forall>w u. zholds s w u \<longrightarrow> zholds s' w u)"
    using h z coded_same [of I ov] coded_same [of D ov] by (auto simp: zholds_def zcommit_def)
qed simp_all

interpretation stable_sort: sorter "sort_key fst"
  by unfold_locales (rule sort_key_sorter)

context sorter
begin

lemma merge_runs:
  assumes ok: "pacz_ok b" "pacz_ok v1" "pacz_ok v2"
    and d: "distinct_ids (points b)" "distinct_ids (points v1)" "distinct_ids (points v2)"
    and sm: "cnt b + (cnt v1 + cnt v2) + 2 < 2 ^ 32"
    and m: "merge_edits (points b) (points v1) (points v2) = (I, D, ci, cu, cd)"
  shows "\<exists>t. map_merge srt ov b v1 v2 = Some (t, ci, cu, cd) \<and> pacz_ok t \<and>
    keyset (points t) = (keyset (points b) - keyset D) \<union> keyset I"
proof -
  have h: "zholds () b b" "zholds () v1 v1" "zholds () v2 v2" using ok by (simp_all add: zholds_def)
  have "length (points b) + (length (points v1) + length (points v2)) + 2 < 2 ^ 32" using sm by simp
  from zstore.three_way_edits [OF h d this m, of ov] show ?thesis
    by (auto simp: map_merge_three_way zholds_def)
qed

end

end
