(* ===== verification/PaczFacts.thy ===== *)
theory PaczFacts
  imports Pacz MvqMerge
begin

text \<open>
  What the index \<open>PACZ\<close> computes: exact queries, commits that differences undo, a
  merge that reports and keeps what that of the quadtree does, and two routines for the
  difference in a box that agree.
\<close>

section \<open>Small versions\<close>

lemma zsingle: "zcoded p \<Longrightarrow> pacz_ok (single (to_entry p))" "points (single (to_entry p)) = [p]" "cnt (single (to_entry p)) = 1"
  using cnode_root_ok [OF single_cnode] by (auto simp: pacz_ok_def map_ok_def single_def to_entry_def pt_key_def strict_by_Cons)

lemma to_entry_sel [simp]: "snd (to_entry p) = p"
  by (simp add: to_entry_def)

lemma zempty: "pacz_ok Nil_node"
  by (simp add: pacz_ok_def map_ok_def)

section \<open>The properties\<close>

text \<open>
  C36. Queries on a version are exact: the count and the report in a box are those of a scan of
  all its points, a report fails if and only if its buffer is too short, the filtered
  version is a version with the points in the box, and the nearest-neighbour search
  returns the \<open>k\<close> smallest distances, each with a point of the version.
\<close>

theorem pacz_queries_exact:
  assumes "pacz_ok m" "1 \<le> k"
  shows "zrange_count m q = length (filter (\<lambda>p. point_in_mbr p q) (points m)) \<and>
    zrange_report m q out =
      (let found = filter (\<lambda>p. point_in_mbr p q) (points m) in
       if length found \<le> length out then Some (length found, found @ drop (length found) out) else None) \<and>
    (\<exists>t. filter_range m q = Some t \<and> pacz_ok t \<and> points t = filter (\<lambda>p. point_in_mbr p q) (points m)) \<and>
    (\<exists>nn. zknn m query k = Some nn \<and>
      rev (map snd nn) = smallest k (image_mset snd (nn_pairs query (points m))) \<and>
      set nn \<subseteq> set_mset (nn_pairs query (points m)))"
  using zrange_count_ok [OF assms(1), of q] zrange_report_ok [OF assms(1), of q out] filter_range_ok [OF assms(1), of q]
    zknn_ok [OF assms, of query] by blast

theorem pacz_queries_exact_witness:
  "zrange_count (single (to_entry (wp 1 2 3))) (Point2 2 2, Point2 4 4) = 1 \<and>
   zrange_report (single (to_entry (wp 1 2 3))) (Point2 2 2, Point2 4 4) [Point2 0 0] = Some (1, [wp 1 2 3]) \<and>
   zrange_report (single (to_entry (wp 1 2 3))) (Point2 2 2, Point2 4 4) [] = None \<and>
   (\<exists>nn. zknn (single (to_entry (wp 1 2 3))) (Point2 0 0) 1 = Some nn \<and> set nn \<subseteq> {(wp 1 2 3, point_point_sqrdis (wp 1 2 3) (Point2 0 0))})"
proof -
  have "point_in_mbr (wp 1 2 3) (Point2 2 2, Point2 4 4)" by (simp add: point_in_mbr_def wp_def)
  then show ?thesis
    using pacz_queries_exact [OF zsingle(1) [OF wp_simps(2)], of 1 1 2 3 "(Point2 2 2, Point2 4 4)" "[Point2 0 0]" "Point2 0 0"]
      pacz_queries_exact [OF zsingle(1) [OF wp_simps(2)], of 1 1 2 3 "(Point2 2 2, Point2 4 4)" "[]" "Point2 0 0"]
    by (auto simp: zsingle(2) nn_pairs_def Let_def)
qed

text \<open>
  C37. A commit and the difference to its base: the new version has the keys of the base
  without the deleted and with the inserted ones; the difference to the base is exact; and
  committing that difference to the base again gives a version with the same keys.
\<close>

theorem pacz_commit_diff:
  assumes "is_sorter srt" "pacz_ok m" "cnt m + length I + 2 < 2 ^ 32"
  shows "\<exists>t I' D' added removed t2 added' removed'. map_commit srt ov m I D = Some (t, I', D') \<and> pacz_ok t \<and>
    keyset (points t) = (keyset (points m) - keyset D') \<union> keyset I' \<and>
    map_diff m t = Some (added, removed) \<and> keyset added = keyset (points t) - keyset (points m) \<and>
    keyset removed = keyset (points m) - keyset (points t) \<and>
    map_commit srt ov m added removed = Some (t2, added', removed') \<and> keyset (points t2) = keyset (points t)"
proof -
  obtain t I' D' where t: "map_commit srt ov m I D = Some (t, I', D')" "pacz_ok t"
    "keyset (points t) = (keyset (points m) - keyset D') \<union> keyset I'" "length I' = length I"
    using map_commit_ok [OF assms] by (metis length_map)
  have sm: "strict_by pt_key (points m)" "strict_by pt_key (points t)" using pacz_sorted assms(2) t(2) by blast+
  obtain added removed where d: "list_diff (points m) (points t) = (added, removed)" by fastforce
  have ad: "added = filter (\<lambda>p. pt_key p \<notin> keyset (points m)) (points t)"
    "removed = filter (\<lambda>p. pt_key p \<notin> keyset (points t)) (points m)"
    using d diff_by_filter [OF sm(2) strict_by_sorted_by [OF sm(1)]] diff_by_filter [OF sm(1) strict_by_sorted_by [OF sm(2)]]
    by (simp_all add: list_diff_def keyset_def)
  have k: "keyset added = keyset (points t) - keyset (points m)" "keyset removed = keyset (points m) - keyset (points t)"
    unfolding ad by (rule keyset_filter)+
  have z: "\<forall>p\<in>set added. zcoded p" "\<forall>p\<in>set removed. zcoded p"
    unfolding ad using pacz_okD(7) [OF t(2)] pacz_okD(7) [OF assms(2)] by auto
  have "length added = card (keyset added)"
  proof -
    have "distinct (map pt_key added)" unfolding ad using sm(2) by (metis strict_by_filter strict_by_def)
    then have "card (set (map pt_key added)) = length (map pt_key added)" by (rule distinct_card)
    then show ?thesis by (simp add: keyset_def)
  qed
  also have "\<dots> \<le> card (keyset I')" unfolding k t(3) by (rule card_mono) (auto simp: keyset_def)
  also have "\<dots> \<le> length I'" unfolding keyset_def by (metis card_image_le card_length le_trans List.finite_set)
  finally have "cnt m + length added + 2 < 2 ^ 32" using assms(3) t(4) by linarith
  then obtain t2 where "map_commit srt ov m added removed = Some (t2, added, removed)"
    "keyset (points t2) = (keyset (points m) - keyset removed) \<union> keyset added"
    using map_commit_ok [OF assms(1,2), of added ov removed] coded_same [OF z(1), of ov] coded_same [OF z(2), of ov] by auto
  moreover have "(keyset (points m) - keyset removed) \<union> keyset added = keyset (points t)" unfolding k by blast
  ultimately show ?thesis using t(1-3) map_diff_list_diff [OF assms(2) t(2)] d k by auto
qed


theorem pacz_commit_diff_witness:
  "\<exists>t I' D' added removed. map_commit (sort_key fst) (\<lambda>_. 0) (single (to_entry (wp 1 0 1))) [Point3 2 2 3] [] = Some (t, I', D') \<and>
    map_diff (single (to_entry (wp 1 0 1))) t = Some (added, removed) \<and> keyset removed = {}"
proof -
  have "cnt (single (to_entry (wp 1 0 1))) + length [Point3 2 2 3] + 2 < 2 ^ 32" by (simp add: zsingle(3))
  from pacz_commit_diff [OF sort_key_sorter zsingle(1) [OF wp_simps(2)] this, of "\<lambda>_. 0" "[]"]
  obtain t I' D' added removed where "map_commit (sort_key fst) (\<lambda>_. 0) (single (to_entry (wp 1 0 1))) [Point3 2 2 3] [] = Some (t, I', D')"
    "map_diff (single (to_entry (wp 1 0 1))) t = Some (added, removed)"
    "keyset (points t) = (keyset [wp 1 0 1] - keyset D') \<union> keyset I'" "keyset removed = keyset [wp 1 0 1] - keyset (points t)"
    unfolding zsingle(2) by blast
  moreover have "D' = []" using calculation(1) by (auto simp: map_commit_def map_delete_def map_insert_def Let_def bind_eq_Some_conv)
  moreover have "keyset [] = {}" by (simp add: keyset_def)
  ultimately show ?thesis by blast
qed

text \<open>
  C40. The two routines for the difference inside a box agree. For versions and buffers that
  can hold the points in the box, \<open>map_spatial_diff\<close> gives its result sequences of their
  own and leaves in them the points of the second version in the box whose key the first has not there,
  and the converse. \<open>plain_map_spatial_diff\<close> writes into the result it is given: it leaves the
  same two sequences exactly when they fit into its buffers, and runs over the end of one
  otherwise.
\<close>

theorem pacz_spatial_diffs_agree:
  assumes "pacz_ok lhs" "pacz_ok rhs"
    and "length (filter (\<lambda>p. point_in_mbr p q) (points lhs)) \<le> length l_pts"
    and "length (filter (\<lambda>p. point_in_mbr p q) (points rhs)) \<le> length r_pts"
    and "d_add d = []" "d_remove d = []"
  shows "let l = filter (\<lambda>p. point_in_mbr p q) (points lhs); r = filter (\<lambda>p. point_in_mbr p q) (points rhs);
      A = filter (\<lambda>p. pt_key p \<notin> keyset l) r; R = filter (\<lambda>p. pt_key p \<notin> keyset r) l in
    map_spatial_diff lhs rhs q d = Some (d\<lparr>d_add := A, add_cap := length A, d_remove := R, remove_cap := length R\<rparr>) \<and>
    plain_map_spatial_diff lhs rhs q d l_pts r_pts =
      (if length A \<le> add_cap d \<and> length R \<le> remove_cap d then Some (d\<lparr>d_add := A, d_remove := R\<rparr>, l, r) else None)"
proof -
  let ?l = "filter (\<lambda>p. point_in_mbr p q) (points lhs)" and ?r = "filter (\<lambda>p. point_in_mbr p q) (points rhs)"
  obtain fl where fl: "filter_range lhs q = Some fl" "pacz_ok fl" "points fl = ?l" using filter_range_ok [OF assms(1)] by blast
  obtain fr where fr: "filter_range rhs q = Some fr" "pacz_ok fr" "points fr = ?r" using filter_range_ok [OF assms(2)] by blast
  have s: "strict_by pt_key ?l" "strict_by pt_key ?r" using pacz_sorted [OF fl(2)] pacz_sorted [OF fr(2)] unfolding fl(3) fr(3) .
  let ?a = "diff_by pt_key pt_key ?r ?l" and ?x = "diff_by pt_key pt_key ?l ?r"
  have f: "?a = filter (\<lambda>p. pt_key p \<notin> keyset ?l) ?r" "?x = filter (\<lambda>p. pt_key p \<notin> keyset ?r) ?l"
    unfolding keyset_def using diff_by_filter [OF s(2) strict_by_sorted_by [OF s(1)]] diff_by_filter [OF s(1) strict_by_sorted_by [OF s(2)]]
    by blast+
  have "map_spatial_diff lhs rhs q d = Some (d\<lparr>d_add := ?a, add_cap := length ?a, d_remove := ?x, remove_cap := length ?x\<rparr>)"
    using difference_points [OF fr(2) fl(2)] difference_points [OF fl(2) fr(2)] fl(1) fr(1)
    unfolding fl(3) fr(3) by (simp add: map_spatial_diff_def del: Option.bind_assoc)
  moreover have "plain_map_spatial_diff lhs rhs q d l_pts r_pts =
      Option.bind (merge_pts (\<lambda>_. True) ?l ?r d False) (\<lambda>d. Some (d, ?l, ?r))"
    using assms(3,4) zrange_report_ok [OF assms(1), of q l_pts] zrange_report_ok [OF assms(2), of q r_pts]
    by (simp add: plain_map_spatial_diff_def Let_def)
  moreover have "merge_pts (\<lambda>_. True) ?l ?r d False =
      (if length ?a \<le> add_cap d \<and> length ?x \<le> remove_cap d then Some (d\<lparr>d_add := ?a, d_remove := ?x\<rparr>) else None)"
    using assms(5,6) by (simp add: merge_pts_eq append_diff_fits in_capacity_def)
  ultimately show ?thesis unfolding Let_def f [symmetric] by simp
qed

theorem pacz_spatial_diffs_agree_witness:
  "map_spatial_diff Nil_node (single (to_entry (wp 1 2 3))) (Point2 2 2, Point2 4 4) (new_diff 1 0) =
     Some ((new_diff 1 0)\<lparr>d_add := [wp 1 2 3], add_cap := 1, d_remove := [], remove_cap := 0\<rparr>) \<and>
   plain_map_spatial_diff Nil_node (single (to_entry (wp 1 2 3))) (Point2 2 2, Point2 4 4) (new_diff 1 0) [] [Point2 0 0] =
     Some ((new_diff 1 0)\<lparr>d_add := [wp 1 2 3], d_remove := []\<rparr>, [], [wp 1 2 3]) \<and>
   plain_map_spatial_diff Nil_node (single (to_entry (wp 1 2 3))) (Point2 2 2, Point2 4 4) (new_diff 0 0) [] [Point2 0 0] = None"
proof -
  let ?q = "(Point2 2 2, Point2 4 4)"
  have "point_in_mbr (wp 1 2 3) ?q" by (simp add: point_in_mbr_def wp_def)
  then have f: "filter (\<lambda>p. point_in_mbr p ?q) (points (single (to_entry (wp 1 2 3)))) = [wp 1 2 3]" by (simp add: zsingle(2))
  have n: "length (filter (\<lambda>p. point_in_mbr p ?q) (points Nil_node)) \<le> length ([] :: point list)"
    "length (filter (\<lambda>p. point_in_mbr p ?q) (points (single (to_entry (wp 1 2 3))))) \<le> length [Point2 0 0]"
    unfolding f by simp_all
  have d: "d_add (new_diff c 0) = []" "d_remove (new_diff c 0) = []" "add_cap (new_diff c 0) = c" "remove_cap (new_diff c 0) = 0" for c
    by (simp_all add: new_diff_def)
  note * = pacz_spatial_diffs_agree [OF zempty zsingle(1) [OF wp_simps(2)] n d(1,2)]
  have "filter (\<lambda>p. point_in_mbr p ?q) (points Nil_node) = []" by simp
  then show ?thesis
    using *[of 1] *[of 0] unfolding f Let_def d by (simp add: keyset_def)
qed



end
