(* ===== verification/HilbertCurve.thy ===== *)
theory HilbertCurve
  imports Hilbert
begin

text \<open>
  The order that \<open>hilbert_i2c\<close> computes is a space-filling curve. Its digit
  loop, the Gray-code conversion and the folding of the coordinates are one
  automaton on the base-four digits of the index, and consecutive indices are
  neighbouring cells of the grid.
\<close>

section \<open>The curve as a walk\<close>

text \<open>
  On the digits of the index, most significant first, \<open>hilbert_i2c\<close> is an
  automaton: its state holds the parity carried from the previous digit, the
  rotation and the reflection, and each digit yields the two coordinate bits
  of one level.
\<close>

type_synonym curve_state = "bitmask \<times> nat \<times> bitmask"

definition gray_digit :: "bitmask \<Rightarrow> bitmask \<Rightarrow> bitmask" where
  "gray_digit e d = d XOR drop_bit 1 d XOR push_bit 1 e"

fun gray :: "bitmask \<Rightarrow> bitmask list \<Rightarrow> bitmask list" where
  "gray e [] = []"
| "gray e (d # ds) = gray_digit e d # gray ((d AND 1) XOR 1) ds"

fun prefix_xor :: "bitmask \<Rightarrow> bitmask list \<Rightarrow> bitmask list" where
  "prefix_xor a [] = []"
| "prefix_xor a (d # ds) = (a XOR d) # prefix_xor (a XOR d) ds"

fun curve_cell :: "curve_state \<Rightarrow> bitmask \<Rightarrow> bitmask" where
  "curve_cell (e, r, s) d = s XOR rotateLeft (gray_digit e d) r 2"

fun enter :: "curve_state \<Rightarrow> bitmask \<Rightarrow> curve_state" where
  "enter (e, r, s) d =
     ((d AND 1) XOR 1, next_rotation r (gray_digit e d), curve_cell (e, r, s) d XOR push_bit r 1)"

fun walk :: "curve_state \<Rightarrow> bitmask list \<Rightarrow> bitmask list" where
  "walk st [] = []"
| "walk st (d # ds) = curve_cell st d # walk (enter st d) ds"

lemma walk_eq: "prefix_xor a (to_cells r f (gray e ds)) = walk (e, r, a XOR f) ds"
proof (induction ds arbitrary: a r f e)
  case (Cons d ds)
  have "a XOR (rotateLeft (gray_digit e d) r 2 XOR f) = curve_cell (e, r, a XOR f) d"
    by (simp add: ac_simps)
  with Cons show ?case by simp
qed simp

lemma digits_prefix_xor: "digits k w = prefix_xor (drop_bit (k * 2) w AND 3) (digits k (w XOR drop_bit 2 w))"
proof (induction k)
  case (Suc k)
  have "(drop_bit (Suc k * 2) w AND 3) XOR (drop_bit (k * 2) (w XOR drop_bit 2 w) AND 3) = drop_bit (k * 2) w AND 3"
    by (rule bit_word_eqI) (simp only: bit_and_iff bit_xor_iff bit_drop_bit_eq o_def, auto simp: ac_simps)
  with Suc show ?case by simp
qed simp

lemma bit_nthbits: "bit (nthbits 2 64) n \<longleftrightarrow> n < 64 \<and> even n"
proof -
  have "nthbits 2 64 = 0x5555555555555555" by code_simp
  moreover have "\<forall>n<64. bit (0x5555555555555555 :: bitmask) n \<longleftrightarrow> even n"
    unfolding all_below_64 by simp
  moreover have "n < 64" if "bit (nthbits 2 64) n" using bit_imp_le_length [OF that] by simp
  ultimately show ?thesis by metis
qed

lemma digits_gray:
  "k \<le> 32 \<Longrightarrow> digits k (i XOR drop_bit 1 (i XOR nthbits 2 64)) =
     gray (of_bool (bit (i XOR nthbits 2 64) (k * 2))) (digits k i)"
proof (induction k)
  case (Suc k)
  have "drop_bit (k * 2) (i XOR drop_bit 1 (i XOR nthbits 2 64)) AND 3 =
      gray_digit (of_bool (bit (i XOR nthbits 2 64) (Suc k * 2))) (drop_bit (k * 2) i AND 3)"
    (is "?l = ?r")
  proof (rule bit_word_eqI)
    fix n assume "n < LENGTH(64)"
    show "bit ?l n = bit ?r n"
    proof (cases "n = 0 \<or> n = 1")
      case True
      with Suc.prems show ?thesis
        by (auto simp: gray_digit_def bit_and_iff bit_xor_iff bit_drop_bit_eq bit_nthbits bit_3_int bit_push_bit_iff)
    next
      case False
      then show ?thesis
        by (simp only: gray_digit_def bit_and_iff bit_xor_iff bit_drop_bit_eq o_def bit_3 bit_push_bit_iff
            bit_of_bool_iff) auto
    qed
  qed
  moreover have "of_bool (bit (i XOR nthbits 2 64) (k * 2)) = ((drop_bit (k * 2) i AND 3) AND 1) XOR 1"
    using Suc.prems by (intro bit_word_eqI) (auto simp: bit_and_iff bit_xor_iff bit_drop_bit_eq bit_nthbits bit_3_int bit_1_iff)
  ultimately show ?case using Suc by simp
qed simp

section \<open>Consecutive indices are adjacent cells\<close>

definition coord :: "nat \<Rightarrow> bitmask list \<Rightarrow> int" where
  "coord b cs = horner_sum (\<lambda>c. of_bool (bit c b)) 2 (rev cs)"

lemma coord_Nil [simp]: "coord b [] = 0"
  by (simp add: coord_def)

lemma coord_Cons [simp]: "coord b (c # cs) = of_bool (bit c b) * 2 ^ length cs + coord b cs"
  by (simp add: coord_def horner_sum_append)

lemma length_walk [simp]: "length (walk st ds) = length ds"
  by (induction st ds rule: walk.induct) simp_all

definition curve_state :: "curve_state \<Rightarrow> bool" where
  "curve_state = (\<lambda>(e, r, s). e \<in> {0, 1} \<and> r \<in> {0, 1} \<and> s \<in> {0, 1, 2, 3})"

text \<open>
  The facts about single levels are checked on the sixteen states: the first
  and the last curve_cell of a state are kept by the states entered through them, and
  consecutive cells touch where the walk leaves one and enters the next.
\<close>

definition touch :: "curve_state \<Rightarrow> bitmask \<Rightarrow> nat \<Rightarrow> bool" where
  "touch st d b \<longleftrightarrow>
     (let c = curve_cell st d; c' = curve_cell st (d + 1); x = curve_cell (enter st d) 3; y = curve_cell (enter st (d + 1)) 0
      in bit c b \<noteq> bit c' b \<and> bit c (1 - b) = bit c' (1 - b) \<and>
         bit x b = bit c' b \<and> bit y b = bit c b \<and> bit x (1 - b) = bit y (1 - b))"

lemma rotateLeft_table:
  "rotateLeft 0 0 2 = 0" "rotateLeft 1 0 2 = 1" "rotateLeft 2 0 2 = 2" "rotateLeft 3 0 2 = 3"
  "rotateLeft 0 1 2 = 0" "rotateLeft 1 1 2 = 2" "rotateLeft 2 1 2 = 1" "rotateLeft 3 1 2 = 3"
  by (simp_all add: rotateLeft_def)

lemma gray_digit_table:
  "gray_digit 0 0 = 0" "gray_digit 0 1 = 1" "gray_digit 0 2 = 3" "gray_digit 0 3 = 2"
  "gray_digit 1 0 = 2" "gray_digit 1 1 = 3" "gray_digit 1 2 = 1" "gray_digit 1 3 = 0"
  by (simp_all add: gray_digit_def)

lemmas level_table = rotateLeft_table rotateLeft_table(5-8) [unfolded One_nat_def] gray_digit_table

lemma enter_state: "curve_state st \<Longrightarrow> digit d \<Longrightarrow> curve_state (enter st d)"
  using digit_cases [of d] by (cases st) (auto simp: curve_state_def level_table)

lemma enter_first: "curve_state st \<Longrightarrow> curve_cell (enter st 0) 0 = curve_cell st 0"
  by (cases st) (auto simp: curve_state_def level_table)

lemma enter_last: "curve_state st \<Longrightarrow> curve_cell (enter st 3) 3 = curve_cell st 3"
  by (cases st) (auto simp: curve_state_def level_table)

lemma cells_touch: "curve_state st \<Longrightarrow> d \<in> {0, 1, 2} \<Longrightarrow> touch st d 0 \<or> touch st d 1"
  unfolding insert_iff empty_iff
  by (cases st, simp add: curve_state_def, elim disjE conjE; simp add: level_table touch_def Let_def)

primrec number_digits :: "nat \<Rightarrow> nat \<Rightarrow> bitmask list" where
  "number_digits 0 m = []"
| "number_digits (Suc k) m = of_nat (m div 4 ^ k mod 4) # number_digits k m"

lemma length_number_digits [simp]: "length (number_digits k m) = k"
  by (induction k) simp_all

lemma digits_number: "digits k w = number_digits k (unat w)"
proof (induction k)
  case (Suc k)
  have three: "(3 :: bitmask) = mask 2" by (simp add: mask_eq_exp_minus_1)
  have "drop_bit (k * 2) w AND 3 = of_nat (unat (drop_bit (k * 2) w AND 3))" by simp
  also have "unat (drop_bit (k * 2) w AND 3) = take_bit 2 (drop_bit (k * 2) (unat w))"
    by (simp only: three unsigned_take_bit_eq unat_drop_bit_eq flip: take_bit_eq_mask)
  also have "\<dots> = unat w div 4 ^ k mod 4"
    by (simp add: take_bit_eq_mod drop_bit_eq_div power_mult mult.commute [of k])
  finally show ?case using Suc by simp
qed simp

lemma number_digits_zero: "4 ^ k dvd m \<Longrightarrow> number_digits k m = replicate k 0"
proof (induction k)
  case (Suc k)
  then obtain q where "m = 4 ^ k * (4 * q)" by (auto simp: dvd_def)
  with Suc show ?case by simp
qed simp

lemma last_before: "0 < c \<Longrightarrow> m + 1 = c * Suc q \<Longrightarrow> m div c = q" for c m q :: nat
  using div_Suc [of m c] by simp

lemma number_digits_three: "4 ^ k dvd m + 1 \<Longrightarrow> number_digits k m = replicate k 3"
proof (induction k)
  case (Suc k)
  then obtain q where q: "m + 1 = 4 ^ k * (4 * q)" by (auto simp: dvd_def)
  then obtain p where "q = Suc p" by (cases q) auto
  with q have "m div 4 ^ k = 4 * p + 3" by (intro last_before) simp_all
  then have "m div 4 ^ k mod 4 = 3" by simp
  with Suc q show ?case by simp
qed simp

lemma walk_first: "curve_state st \<Longrightarrow> coord b (walk st (replicate n 0)) = of_bool (bit (curve_cell st 0) b) * (2 ^ n - 1)"
proof (induction n arbitrary: st)
  case (Suc n)
  have "curve_state (enter st 0)" using Suc.prems by (rule enter_state) (simp add: digit_def)
  from Suc.IH [OF this] Suc.prems show ?case by (simp add: enter_first algebra_simps)
qed simp

lemma walk_last: "curve_state st \<Longrightarrow> coord b (walk st (replicate n 3)) = of_bool (bit (curve_cell st 3) b) * (2 ^ n - 1)"
proof (induction n arbitrary: st)
  case (Suc n)
  have "curve_state (enter st 3)" using Suc.prems by (rule enter_state) (simp add: digit_def)
  from Suc.IH [OF this] Suc.prems show ?case by (simp add: enter_last algebra_simps)
qed simp

definition neighbours :: "bitmask list \<Rightarrow> bitmask list \<Rightarrow> bool" where
  "neighbours cs cs' \<longleftrightarrow>
     \<bar>coord 0 cs - coord 0 cs'\<bar> + \<bar>coord 1 cs - coord 1 cs'\<bar> = 1"

lemma crossing_neighbours:
  assumes "curve_state st" "d \<in> {0, 1, 2}"
  shows "neighbours (walk st (d # replicate n 3)) (walk st ((d + 1) # replicate n 0))"
proof -
  have "digit d" "digit (d + 1)" using assms(2) by (auto simp: digit_def)
  then have "curve_state (enter st d)" "curve_state (enter st (d + 1))"
    using enter_state [OF assms(1)] by blast+
  moreover from cells_touch [OF assms] have "touch st d 0 \<or> touch st d 1" .
  ultimately show ?thesis
    by (auto simp: neighbours_def touch_def Let_def walk_first walk_last of_bool_def algebra_simps)
qed

lemma walk_neighbours:
  assumes "curve_state st" "\<not> 4 ^ k dvd m + 1"
  shows "neighbours (walk st (number_digits k m)) (walk st (number_digits k (m + 1)))"
  using assms
proof (induction k arbitrary: st)
  case (Suc k)
  let ?d = "of_nat (m div 4 ^ k mod 4) :: bitmask"
  show ?case
  proof (cases "4 ^ k dvd m + 1")
    case False
    then have "(m + 1) div 4 ^ k = m div 4 ^ k" by (simp add: div_Suc dvd_eq_mod_eq_0)
    moreover have "digit ?d"
    proof -
      have "m div 4 ^ k mod 4 \<in> {0, 1, 2, 3}" by auto
      then show ?thesis by (auto simp: digit_def)
    qed
    ultimately show ?thesis
      using Suc.IH [OF enter_state [OF Suc.prems(1)] False, of ?d] by (simp add: neighbours_def)
  next
    case True
    then obtain q where q: "m + 1 = 4 ^ k * q" by (auto simp: dvd_def)
    with Suc.prems(2) have "\<not> 4 dvd q" by auto
    then obtain p where p: "q = Suc p" "\<not> 4 dvd Suc p" by (cases q) auto
    then have "p mod 4 \<noteq> 3" by (auto simp: dvd_eq_mod_eq_0 mod_Suc)
    moreover have "r < 4 \<Longrightarrow> r \<noteq> 3 \<Longrightarrow> r \<in> {0, 1, 2}" for r :: nat by auto
    ultimately have pm: "p mod 4 \<in> {0, 1, 2}" by simp
    have "m div 4 ^ k = p" using last_before q p(1) by simp
    moreover have "(m + 1) div 4 ^ k = Suc p" using q p(1) by simp
    moreover have "(of_nat (Suc p mod 4) :: bitmask) = of_nat (p mod 4) + 1"
      using pm by (auto simp: mod_Suc)
    moreover have "(of_nat (p mod 4) :: bitmask) \<in> {0, 1, 2}" using pm by auto
    ultimately show ?thesis
      using crossing_neighbours [OF Suc.prems(1), of "of_nat (p mod 4)" k] True
      by (simp add: number_digits_zero number_digits_three del: walk.simps)
  qed
qed simp

section \<open>The coordinates as walks\<close>

lemma coord_digits:
  assumes "\<And>j. j < k \<Longrightarrow> bit c (2 * j + b) = bit w j" and "b < 2"
  shows "coord b (digits k c) = take_bit k (uint w)"
  using assms
proof (induction k)
  case (Suc k)
  have "bit (drop_bit (k * 2) c AND 3) b = bit w k"
    using Suc.prems(1) [of k] Suc.prems(2) by (simp add: bit_and_iff bit_drop_bit_eq bit_3_int mult.commute)
  moreover have "coord b (digits k c) = take_bit k (uint w)" using Suc by simp
  ultimately show ?case by (simp add: take_bit_Suc_from_most bit_uint_iff del: bit_and_iff) (metis bit_imp_le_length)
qed simp

lemma digits_curve:
  "digits 32 (xor_shifts 2 64 (i2c_digits 2 32 (i XOR drop_bit 1 (i XOR nthbits 2 64)) 0 0 0)) =
     walk (0, 0, 0) (number_digits 32 (unat i))" (is "digits 32 ?X = _")
proof -
  let ?J = "i XOR drop_bit 1 (i XOR nthbits 2 64)"
  have "digits 32 ?J = gray 0 (digits 32 i)"
  proof -
    have "\<not> bit w 64" for w :: bitmask using bit_imp_le_length [of w 64] by auto
    then show ?thesis using digits_gray [of 32 i] by (simp del: bit_xor_iff One_nat_def)
  qed
  moreover have "?X XOR drop_bit 2 ?X = i2c_digits 2 32 ?J 0 0 0" by (rule xor_shifts_undone) simp_all
  moreover have "digits 32 (i2c_digits 2 32 ?J 0 0 0) = to_cells 0 0 (digits 32 ?J)"
    unfolding i2c_digits_list
    using digits_undigits [of "to_cells 0 0 (digits 32 ?J)" 0]
      cells_digits(1) [of 0 0 "digits 32 ?J"] digit_digits [of 32 ?J]
    by (simp add: list_all_iff cell_state_def)
  ultimately show ?thesis
    using digits_prefix_xor [of 32 ?X] walk_eq [of 0 0 0 0 "digits 32 i"]
    by (simp add: drop_bit_beyond digits_number)
qed

lemma i2c_coords:
  "map uint (hilbert_i2c 2 32 i) =
     [coord 0 (walk (0, 0, 0) (number_digits 32 (unat i))),
      coord 1 (walk (0, 0, 0) (number_digits 32 (unat i)))]"
proof -
  let ?X = "xor_shifts 2 64 (i2c_digits 2 32 (i XOR drop_bit 1 (i XOR nthbits 2 64)) 0 0 0)"
  have c: "curve_word i = bitTranspose 32 2 ?X" by (simp add: curve_word_def)
  have "uint (curve_word i AND mask 32) = take_bit 32 (uint (curve_word i))"
    by (simp only: unsigned_take_bit_eq flip: take_bit_eq_mask)
  also have "\<dots> = coord 0 (digits 32 ?X)"
    by (rule coord_digits [symmetric]) (simp_all add: c bit_transpose_32_2)
  finally have x: "uint (curve_word i AND mask 32) = coord 0 (digits 32 ?X)" .
  have "uint (drop_bit 32 (curve_word i) AND mask 32) = take_bit 32 (uint (drop_bit 32 (curve_word i)))"
    by (simp only: unsigned_take_bit_eq flip: take_bit_eq_mask)
  also have "\<dots> = coord 1 (digits 32 ?X)"
    by (rule coord_digits [symmetric]) (simp_all add: c bit_transpose_32_2 bit_drop_bit_eq)
  finally show ?thesis
    using x by (simp only: hilbert_i2c_word digits_curve list.map)
qed

text \<open>
  C15. The order is a curve: on the 32-bit grid the points of two consecutive
  indices differ by one in exactly one coordinate, for every index but the
  last. This is what makes key ranges of the index spatially coherent.
\<close>

theorem hilbert_adjacent:
  assumes "i + 1 \<noteq> 0"
  shows "(case (hilbert_i2c 2 32 i, hilbert_i2c 2 32 (i + 1)) of
      ([x, y], [x', y']) \<Rightarrow> \<bar>uint x - uint x'\<bar> + \<bar>uint y - uint y'\<bar> = 1
    | _ \<Rightarrow> False)"
proof -
  have u: "unat (i + 1) = unat i + 1" using assms unatSuc [of i] by (simp add: add.commute)
  have "unat (i + 1) < 4 ^ 32" using unsigned_less [of "i + 1"] by simp
  then have "\<not> 4 ^ 32 dvd unat i + 1" using u by (auto dest: dvd_imp_le)
  from walk_neighbours [OF _ this, of "(0, 0, 0)"]
  have "neighbours (walk (0, 0, 0) (number_digits 32 (unat i))) (walk (0, 0, 0) (number_digits 32 (unat (i + 1))))"
    by (simp add: curve_state_def u)
  then show ?thesis
    using i2c_coords [of i] i2c_coords [of "i + 1"]
    by (simp add: neighbours_def hilbert_i2c_word)
qed

theorem hilbert_adjacent_witness:
  "(case (hilbert_i2c 2 32 12345, hilbert_i2c 2 32 (12345 + 1)) of
      ([x, y], [x', y']) \<Rightarrow> \<bar>uint x - uint x'\<bar> + \<bar>uint y - uint y'\<bar> = 1
    | _ \<Rightarrow> False)"
  by (rule hilbert_adjacent) simp

end
