(* ===== verification/HilbertOrder.thy ===== *)
theory HilbertOrder
  imports HilbertCurve "HOL-Library.Monad_Syntax"
begin

text \<open>
  The comparison and the successor of \<open>src/src/hilbert.c\<close>: \<open>hilbert_cmp\<close> reads two
  points bit by bit from memory and decides their order on the curve without computing
  an index, and \<open>hilbert_incr\<close> moves a point one step along it.
\<close>

section \<open>Comparing two points\<close>

definition rdbit :: "bitmask \<Rightarrow> nat \<Rightarrow> bitmask" where
  "rdbit w k = drop_bit k w AND 1"

text \<open>Coordinates in memory: \<open>nBytes\<close> bytes each, the lowest first (\<open>whichByte\<close>).\<close>

definition getIntBits :: "nat \<Rightarrow> nat \<Rightarrow> 8 word list \<Rightarrow> nat \<Rightarrow> bitmask" where
  "getIntBits nDims nBytes c y =
     fold (\<lambda>d bits. bits OR push_bit d (rdbit (ucast (c ! (y div 8 + d * nBytes))) (y mod 8))) [0..<nDims] 0"

fun hilbert_cmp_work ::
  "nat \<Rightarrow> nat \<Rightarrow> nat \<Rightarrow> nat \<Rightarrow> nat \<Rightarrow> 8 word list \<Rightarrow> 8 word list \<Rightarrow> nat \<Rightarrow> bitmask \<Rightarrow> bitmask \<Rightarrow>
   (nat \<Rightarrow> nat \<Rightarrow> 8 word list \<Rightarrow> nat \<Rightarrow> bitmask) \<Rightarrow> int" where
  "hilbert_cmp_work nDims nBytes nBits mx y c1 c2 rotation bits index getBits =
     (if y \<le> mx then 0
      else
        let y = y - 1;
            reflection = getBits nDims nBytes c1 y;
            diff = reflection XOR getBits nDims nBytes c2 y;
            bits = rotateRight (bits XOR reflection) rotation nDims
        in if diff \<noteq> 0 then
             let diff = xor_shifts 1 nDims (rotateRight diff rotation nDims);
                 index = xor_shifts 1 nDims index;
                 bits = xor_shifts 1 nDims bits
             in if ((index XOR of_nat y XOR of_nat nBits) AND 1) = of_bool (bits < (bits XOR diff)) then -1 else 1
           else
             hilbert_cmp_work nDims nBytes nBits mx y c1 c2
               (adjust_rotation rotation nDims (drop_bit 1 (ones nDims)) bits)
               (reflection XOR push_bit rotation 1) (index XOR bits) getBits)"

declare hilbert_cmp_work.simps [simp del]

definition hilbert_cmp :: "nat \<Rightarrow> nat \<Rightarrow> nat \<Rightarrow> 8 word list \<Rightarrow> 8 word list \<Rightarrow> int" where
  "hilbert_cmp nDims nBytes nBits c1 c2 =
     (let bits = push_bit (nDims - 1) 1
      in hilbert_cmp_work nDims nBytes nBits 0 nBits c1 c2 0 bits bits getIntBits)"

section \<open>The successor of a point\<close>

text \<open>\<open>2 << rb\<close> is computed as an \<open>int\<close>, whose value is undefined from 31 bits on.\<close>

definition low_ones :: "nat \<Rightarrow> bitmask option" where
  "low_ones rb = (if rb < 30 then Some (push_bit rb 2 - 1) else None)"

record incr_state =
  is_rotation :: nat
  is_reflection :: bitmask
  is_index :: bitmask
  is_rb :: nat
  is_rd :: bitmask

definition incr_level :: "nat \<Rightarrow> bitmask list \<Rightarrow> nat \<Rightarrow> incr_state \<Rightarrow> incr_state" where
  "incr_level nDims pt b st =
     (let rotation = is_rotation st;
          reflection = fold (\<lambda>d r. r OR push_bit d (rdbit (pt ! d) b)) [0..<nDims] 0;
          bits = rotateRight (is_reflection st XOR reflection) rotation nDims;
          index = xor_shifts 1 nDims (is_index st XOR bits);
          found = index \<noteq> ones nDims;
          index = index + 1
      in \<lparr>is_rotation = adjust_rotation rotation nDims (drop_bit 1 (ones nDims)) bits,
          is_reflection = reflection XOR push_bit rotation 1,
          is_index = push_bit (nDims - 1) (index AND 1),
          is_rb = (if found then b else is_rb st),
          is_rd = (if found then rotateLeft (index AND - index) rotation nDims else is_rd st)\<rparr>)"

primrec incr_levels :: "nat \<Rightarrow> bitmask list \<Rightarrow> nat \<Rightarrow> incr_state \<Rightarrow> incr_state" where
  "incr_levels nDims pt 0 st = st"
| "incr_levels nDims pt (Suc b) st = incr_levels nDims pt b (incr_level nDims pt b st)"

definition hilbert_incr :: "nat \<Rightarrow> nat \<Rightarrow> bitmask list \<Rightarrow> bitmask list option" where
  "hilbert_incr nDims nBits pt =
     (let st = incr_levels nDims pt nBits
          \<lparr>is_rotation = 0, is_reflection = 0, is_index = 0, is_rb = nBits - 1, is_rd = ones nDims\<rparr>
      in do {
        d \<leftarrow> find (\<lambda>d. rdbit (is_rd st) d \<noteq> 0) [0..<64];
        m \<leftarrow> low_ones (is_rb st);
        Some (pt[d := pt ! d XOR m]) })"

section \<open>The bits of a point, level by level\<close>

definition grid_cell :: "bitmask \<Rightarrow> bitmask \<Rightarrow> nat \<Rightarrow> bitmask" where
  "grid_cell x y b = of_bool (bit x b) OR push_bit 1 (of_bool (bit y b))"

definition grid_cells :: "nat \<Rightarrow> bitmask \<Rightarrow> bitmask \<Rightarrow> bitmask list" where
  "grid_cells k x y = map (grid_cell x y) (rev [0..<k])"

lemma grid_cells_simps [simp]:
  "grid_cells 0 x y = []" "grid_cells (Suc k) x y = grid_cell x y k # grid_cells k x y"
  by (simp_all add: grid_cells_def)

lemma upt_2: "[0..<2] = [0, 1]"
  by (simp add: upt_rec)

lemma rdbit_bit: "rdbit w k = of_bool (bit w k)"
  by (rule bit_word_eqI) (auto simp: rdbit_def bit_simps)

lemma bit_grid_cell: "bit (grid_cell x y k) b \<longleftrightarrow> (b = 0 \<and> bit x k) \<or> (b = 1 \<and> bit y k)"
  by (auto simp: grid_cell_def bit_simps)

text \<open>Memory as the program lays it out on a little-endian machine.\<close>

definition le_bytes :: "nat \<Rightarrow> bitmask list \<Rightarrow> 8 word list" where
  "le_bytes nBytes ws = concat (map (\<lambda>w. map (\<lambda>j. ucast (drop_bit (8 * j) w)) [0..<nBytes]) ws)"

lemma le_bytes_bit:
  assumes "y < 8 * nBytes" "y < 64"
  shows "rdbit (ucast (le_bytes nBytes [a, b] ! (y div 8))) (y mod 8) = of_bool (bit a y)"
    "rdbit (ucast (le_bytes nBytes [a, b] ! (y div 8 + nBytes))) (y mod 8) = of_bool (bit b y)"
proof -
  have n: "y div 8 < nBytes" using assms(1) by auto
  have m: "y mod 8 < 64" by (rule less_le_trans [of _ 8]) simp_all
  from n have "le_bytes nBytes [a, b] ! (y div 8) = ucast (drop_bit (8 * (y div 8)) a)"
    "le_bytes nBytes [a, b] ! (y div 8 + nBytes) = ucast (drop_bit (8 * (y div 8)) b)"
    by (simp_all add: le_bytes_def nth_append)
  then show "rdbit (ucast (le_bytes nBytes [a, b] ! (y div 8))) (y mod 8) = of_bool (bit a y)"
    "rdbit (ucast (le_bytes nBytes [a, b] ! (y div 8 + nBytes))) (y mod 8) = of_bool (bit b y)"
    using m by (simp_all add: rdbit_bit bit_simps)
qed

lemma getIntBits_cell:
  "y < 8 * nBytes \<Longrightarrow> y < 64 \<Longrightarrow> getIntBits 2 nBytes (le_bytes nBytes [a, b]) y = grid_cell a b y"
  by (simp add: getIntBits_def upt_2 grid_cell_def le_bytes_bit)

lemma curve_grid:
  assumes "hilbert_i2c 2 32 i = [x, y]"
  shows "grid_cells 32 x y = walk (0, 0, 0) (number_digits 32 (unat i))"
proof -
  let ?X = "xor_shifts 2 64 (i2c_digits 2 32 (i XOR drop_bit 1 (i XOR nthbits 2 64)) 0 0 0)"
  have c: "curve_word i = bitTranspose 32 2 ?X" by (simp add: curve_word_def)
  have "x = curve_word i AND mask 32" "y = drop_bit 32 (curve_word i) AND mask 32" using assms by (simp_all add: hilbert_i2c_word)
  then have xy: "b < 32 \<Longrightarrow> bit x b = bit ?X (2 * b)" "b < 32 \<Longrightarrow> bit y b = bit ?X (2 * b + 1)" for b
    by (simp_all only: bit_and_iff bit_mask_iff bit_drop_bit_eq o_def c bit_transpose_32_2) simp_all
  have "k \<le> 32 \<Longrightarrow> grid_cells k x y = digits k ?X" for k
  proof (induction k)
    case (Suc k)
    have "grid_cell x y k = drop_bit (k * 2) ?X AND 3"
    proof (rule bit_word_eqI)
      fix n assume "n < LENGTH(64)"
      have "n < 2 \<longleftrightarrow> n = 0 \<or> n = 1" by auto
      then show "bit (grid_cell x y k) n = bit (drop_bit (k * 2) ?X AND 3) n"
        using xy [of k] Suc.prems by (auto simp only: bit_grid_cell bit_and_iff bit_3 bit_drop_bit_eq o_def) (auto simp: ac_simps)
    qed
    then show ?case using Suc by simp
  qed simp
  then show ?thesis using digits_curve [of i] by simp
qed


section \<open>The comparison is that of the indices\<close>

fun lex_sign :: "bitmask list \<Rightarrow> bitmask list \<Rightarrow> int" where
  "lex_sign (a # as) (b # bs) = (if a = b then lex_sign as bs else if a < b then -1 else 1)"
| "lex_sign _ _ = 0"

lemma digit_value: "digit d \<Longrightarrow> \<exists>n<4. d = of_nat n"
  using digit_cases [of d] by (auto intro: exI [of _ 0] exI [of _ 1] exI [of _ 2] exI [of _ 3])

lemma of_nat_less_4: "m < 4 \<Longrightarrow> n < 4 \<Longrightarrow> (of_nat m :: bitmask) < of_nat n \<longleftrightarrow> m < n"
  "m < 4 \<Longrightarrow> n < 4 \<Longrightarrow> (of_nat m :: bitmask) = of_nat n \<longleftrightarrow> m = n"
  by (simp_all add: word_less_nat_alt word_unat_eq_iff unat_of_nat)

lemma lex_number_digits:
  "lex_sign (number_digits k m) (number_digits k n) =
     (if m mod 4 ^ k < n mod 4 ^ k then -1 else if m mod 4 ^ k = n mod 4 ^ k then 0 else 1)"
proof (induction k)
  case (Suc k)
  let ?a = "m div 4 ^ k mod 4" and ?b = "n div 4 ^ k mod 4"
  have split: "x mod (4 * 4 ^ k) = 4 ^ k * (x div 4 ^ k mod 4) + x mod 4 ^ k" for x :: nat
    using mod_mult2_eq [of x "4 ^ k" 4] by (simp add: mult.commute)
  have low: "x mod 4 ^ k < 4 ^ k" for x :: nat by simp
  have gap: "a < b \<Longrightarrow> 4 ^ k * a + u mod 4 ^ k < 4 ^ k * b + v mod 4 ^ k" for a b u v :: nat
  proof -
    assume "a < b"
    then have "4 ^ k * Suc a \<le> 4 ^ k * b" by (intro mult_le_mono2) simp
    moreover have "4 ^ k * Suc a = 4 ^ k * a + 4 ^ k" by simp
    ultimately show ?thesis using low [of u] by linarith
  qed
  have ab: "?a < 4" "?b < 4" by simp_all
  consider "?a = ?b" | "?a < ?b" | "?b < ?a" by linarith
  then show ?case
  proof cases
    case 1
    then show ?thesis using Suc by (simp add: split)
  next
    case 2
    then show ?thesis using gap [OF 2, of m n] of_nat_less_4 [OF ab] by (simp add: split)
  next
    case 3
    then show ?thesis using gap [OF 3, of n m] of_nat_less_4 [OF ab] by (simp add: split)
  qed
qed simp

lemma rotate_back:
  assumes "curve_state (e, r, s)" "digit d"
  shows "rotateRight (s XOR curve_cell (e, r, s) d) r 2 = gray_digit e d"
  using assms(1) digit_cases [OF assms(2)]
  by (auto simp: curve_state_def level_table rotateRight_def)

lemma rotate_diff:
  assumes "r = 0 \<or> r = 1" "digit g" "digit g'"
  shows "rotateRight (rotateLeft g r 2 XOR rotateLeft g' r 2) r 2 = g XOR g'"
  using assms(1) digit_cases [OF assms(2)] digit_cases [OF assms(3)]
  by (elim disjE) (simp_all add: level_table rotateRight_def)

lemma fold_gray:
  assumes "e = 0 \<or> e = 1" "digit d"
  shows "xor_shifts (Suc 0) 2 (gray_digit e d) = (if e = 0 then d else 3 - d)"
  using assms(1) digit_cases [OF assms(2)]
  by (elim disjE) (simp_all add: gray_digit_table xor_shifts.simps [of "Suc 0" 2] xor_shifts.simps [of 2 2])

text \<open>Both folded digits decide the order, the one way or the other by the parity \<open>e\<close>.\<close>

lemma digit_order:
  assumes "e = 0 \<or> e = 1" "digit d" "digit d'" "d \<noteq> d'"
  shows "(of_bool (e = 0) = (of_bool (xor_shifts 1 2 (gray_digit e d) < xor_shifts 1 2 (gray_digit e d')) :: bitmask)) \<longleftrightarrow> d < d'"
proof -
  have "3 - d < 3 - d' \<longleftrightarrow> d' < d"
    using digit_cases [OF assms(2)] digit_cases [OF assms(3)] by (elim disjE) simp_all
  then show ?thesis using assms(1,4) by (auto simp: fold_gray [OF _ assms(2)] fold_gray [OF _ assms(3)])
qed

definition parity_ok :: "bitmask \<Rightarrow> bitmask \<Rightarrow> nat \<Rightarrow> nat \<Rightarrow> bool" where
  "parity_ok e index y nBits \<longleftrightarrow>
     ((xor_shifts 1 2 index XOR of_nat y XOR of_nat nBits) AND 1 = of_bool (e = 0))"

lemma bit0_of_nat: "bit (of_nat n :: bitmask) 0 \<longleftrightarrow> odd n"
  by (simp add: bit_0)

lemma and_1_eq: "w AND 1 = of_bool (bit w 0)" for w :: bitmask
  by (rule bit_word_eqI) (auto simp: bit_and_iff bit_1_iff bit_of_bool_iff)

lemma parity_step:
  assumes "curve_state (e, r, s)" "digit d" "parity_ok e index (Suc y) nBits"
  shows "parity_ok ((d AND 1) XOR 1) (index XOR gray_digit e d) y nBits"
proof -
  have i: "bit (xor_shifts 1 2 (index XOR g)) 0 \<longleftrightarrow> bit (xor_shifts 1 2 index) 0 \<noteq> bit (xor_shifts 1 2 g) 0" for g
    by (simp only: xor_shifts_linear bit_xor_iff)
  have e: "e = 0 \<or> e = 1" using assms(1) by (simp add: curve_state_def)
  have b: "bit (3 - d) 0 \<longleftrightarrow> \<not> bit d 0"
    using digit_cases [OF assms(2)] by (elim disjE) simp_all
  have g: "bit (xor_shifts 1 2 (gray_digit e d)) 0 \<longleftrightarrow> bit d 0 \<noteq> (e = 1)"
    using e b by (auto simp: fold_gray [OF e assms(2)])
  have n: "(d AND 1) XOR 1 = 0 \<longleftrightarrow> bit d 0"
    using digit_cases [OF assms(2)] by (elim disjE) simp_all
  have "(bit (xor_shifts 1 2 index) 0 \<noteq> even y) \<noteq> odd nBits \<longleftrightarrow> e = 0"
    using assms(3) unfolding parity_ok_def and_1_eq by (simp only: bit_xor_iff bit0_of_nat even_Suc of_bool_eq_iff) auto
  then show ?thesis
    unfolding parity_ok_def and_1_eq using e g n by (simp only: bit_xor_iff i bit0_of_nat of_bool_eq_iff) auto
qed


lemma xor_zero_eq: "a XOR b = 0 \<Longrightarrow> a = b" for a b :: bitmask
proof -
  assume z: "a XOR b = 0"
  have "a XOR (a XOR b) = b" by (simp only: xor.assoc [symmetric] xor_self_eq xor.left_neutral)
  with z show ?thesis by simp
qed

lemma cmp_loop:
  assumes "\<And>c j. c \<in> {c1, c2} \<Longrightarrow> j < k \<Longrightarrow> getBits 2 nBytes c j = cell c j"
    and "curve_state (e, r, s)" "parity_ok e index (k - 1) nBits"
    and "map (cell c1) (rev [0..<k]) = walk (e, r, s) ds" "map (cell c2) (rev [0..<k]) = walk (e, r, s) ds'"
    and "\<forall>d\<in>set ds. digit d" "\<forall>d\<in>set ds'. digit d"
  shows "hilbert_cmp_work 2 nBytes nBits 0 k c1 c2 r s index getBits = lex_sign ds ds'"
  using assms
proof (induction k arbitrary: e r s index ds ds')
  case 0
  then have "ds = []" by (cases ds) auto
  then show ?case by (simp add: hilbert_cmp_work.simps)
next
  case (Suc k)
  obtain d es where ds: "ds = d # es" using Suc.prems(4) by (cases ds) auto
  obtain d' es' where ds': "ds' = d' # es'" using Suc.prems(5) by (cases ds') auto
  have c: "cell c1 k = curve_cell (e, r, s) d" "map (cell c1) (rev [0..<k]) = walk (enter (e, r, s) d) es"
    using Suc.prems(4) ds by simp_all
  have c': "cell c2 k = curve_cell (e, r, s) d'" "map (cell c2) (rev [0..<k]) = walk (enter (e, r, s) d') es'"
    using Suc.prems(5) ds' by simp_all
  have dg: "digit d" "digit d'" "\<forall>d\<in>set es. digit d" "\<forall>d\<in>set es'. digit d" using Suc.prems(6,7) ds ds' by simp_all
  have e: "e = 0 \<or> e = 1" and r: "r = 0 \<or> r = 1" using Suc.prems(2) by (auto simp: curve_state_def)
  have g: "digit (gray_digit e d)" "digit (gray_digit e d')"
    using e digit_cases [OF dg(1)] digit_cases [OF dg(2)] by (auto simp: digit_def gray_digit_table)
  have bits: "rotateRight (s XOR cell c1 k) r 2 = gray_digit e d" using rotate_back [OF Suc.prems(2) dg(1)] c(1) by simp
  have "cell c1 k XOR cell c2 k = rotateLeft (gray_digit e d) r 2 XOR rotateLeft (gray_digit e d') r 2"
    unfolding c(1) c'(1) by (simp add: ac_simps)
  then have diff: "rotateRight (cell c1 k XOR cell c2 k) r 2 = gray_digit e d XOR gray_digit e d'"
    using rotate_diff [OF r g] by simp
  have get: "getBits 2 nBytes c1 k = cell c1 k" "getBits 2 nBytes c2 k = cell c2 k" using Suc.prems(1) by simp_all
  have same: "cell c1 k XOR cell c2 k = 0 \<longleftrightarrow> d = d'"
  proof
    assume "cell c1 k XOR cell c2 k = 0"
    then have z: "gray_digit e d XOR gray_digit e d' = 0" using diff by (simp add: rotateRight_def)
    have "xor_shifts (Suc 0) 2 (gray_digit e d) = xor_shifts (Suc 0) 2 (gray_digit e d')"
      using xor_zero_eq [OF z] by simp
    then show "d = d'" unfolding fold_gray [OF e dg(1)] fold_gray [OF e dg(2)]
      by (cases "e = 0") (simp_all only: if_True if_False diff_left_imp_eq)
  qed (simp add: c(1) c'(1))
  show ?case
  proof (cases "d = d'")
    case True
    have st: "curve_state (enter (e, r, s) d)" by (rule enter_state [OF Suc.prems(2) dg(1)])
    have nx: "enter (e, r, s) d = ((d AND 1) XOR 1, adjust_rotation r 2 1 (gray_digit e d), cell c1 k XOR push_bit r 1)"
      by (simp add: c(1) next_rotation_def)
    have par: "parity_ok ((d AND 1) XOR 1) (index XOR gray_digit e d) (k - 1) nBits"
      if "k \<noteq> 0" using parity_step [OF Suc.prems(2) dg(1), of index "k - 1" nBits] Suc.prems(3) that by simp
    have "hilbert_cmp_work 2 nBytes nBits 0 k c1 c2 (adjust_rotation r 2 1 (gray_digit e d)) (cell c1 k XOR push_bit r 1)
        (index XOR gray_digit e d) getBits = lex_sign es es'"
    proof (cases "k = 0")
      case True
      then have "es = []" using c(2) by (cases es) auto
      then show ?thesis using True by (simp add: hilbert_cmp_work.simps)
    next
      case False
      show ?thesis
        by (rule Suc.IH [OF _ st [unfolded nx] par [OF False] c(2) [unfolded nx] c'(2) [folded True, unfolded nx] dg(3,4)])
          (use Suc.prems(1) in auto)
    qed
    then show ?thesis
      using True same by (subst hilbert_cmp_work.simps) (simp add: get bits ds ds' Let_def)
  next
    case False
    have "xor_shifts 1 2 (gray_digit e d) XOR xor_shifts 1 2 (gray_digit e d XOR gray_digit e d') = xor_shifts 1 2 (gray_digit e d')"
      by (simp only: xor_shifts_linear) (simp flip: xor.assoc)
    then show ?thesis
      using False same digit_order [OF e dg(1,2) False] Suc.prems(3)
      by (subst hilbert_cmp_work.simps) (simp add: get bits diff ds ds' Let_def parity_ok_def)
  qed
qed


lemma walk_start: "\<forall>d\<in>set ds. digit d \<Longrightarrow> walk (1, 0, 2) ds = walk (0, 0, 0) ds"
proof (cases ds)
  case (Cons d es)
  assume "\<forall>d\<in>set ds. digit d"
  then have "d = 0 \<or> d = 1 \<or> d = 2 \<or> d = 3" using Cons digit_cases by simp
  then show ?thesis unfolding Cons by (elim disjE) (simp_all add: level_table)
qed simp

lemma digits_number_digits: "\<forall>d\<in>set (number_digits k m). digit d"
proof (induction k)
  case (Suc k)
  have "m div 4 ^ k mod 4 \<in> {0, 1, 2, 3}" by auto
  then have "digit (of_nat (m div 4 ^ k mod 4))" by (auto simp: digit_def)
  with Suc show ?case by simp
qed simp

lemma grid_of_index:
  assumes "x < 2 ^ 32" "y < 2 ^ 32"
  shows "hilbert_i2c 2 32 (hilbert_c2i 2 32 [x, y]) = [x, y]"
  by (simp only: hilbert_i2c_word hilbert_c2i_word code_word_inverse split_halves [OF assms])

text \<open>
  C16. Comparing points without indices. For two points of the 32-bit grid, held in memory with at
  least four bytes per coordinate, \<open>hilbert_cmp\<close> gives -1, 0 or 1 as the index of the first,
  computed by \<open>hilbert_c2i\<close>, is below, equal to or above that of the second.
\<close>

theorem hilbert_cmp_decides:
  assumes "x < 2 ^ 32" "y < 2 ^ 32" "x' < 2 ^ 32" "y' < 2 ^ 32" "4 \<le> nBytes"
  shows "hilbert_cmp 2 nBytes 32 (le_bytes nBytes [x, y]) (le_bytes nBytes [x', y']) =
    (if hilbert_c2i 2 32 [x, y] < hilbert_c2i 2 32 [x', y'] then -1
     else if hilbert_c2i 2 32 [x, y] = hilbert_c2i 2 32 [x', y'] then 0 else 1)"
proof -
  let ?i = "hilbert_c2i 2 32 [x, y]" and ?j = "hilbert_c2i 2 32 [x', y']"
  let ?c = "le_bytes nBytes [x, y]" and ?c' = "le_bytes nBytes [x', y']"
  have w: "map (getIntBits 2 nBytes (le_bytes nBytes [u, v])) (rev [0..<32]) = walk (1, 0, 2) (number_digits 32 (unat i))"
    if "hilbert_i2c 2 32 i = [u, v]" for u v i
  proof -
    have "map (getIntBits 2 nBytes (le_bytes nBytes [u, v])) (rev [0..<32]) = grid_cells 32 u v"
      unfolding grid_cells_def using assms(5) by (intro map_cong) (simp_all add: getIntBits_cell)
    then show ?thesis using curve_grid [OF that] walk_start [OF digits_number_digits] by simp
  qed
  have two: "push_bit (2 - 1) (1 :: bitmask) = 2" by simp
  have "hilbert_cmp 2 nBytes 32 ?c ?c' = lex_sign (number_digits 32 (unat ?i)) (number_digits 32 (unat ?j))"
    unfolding hilbert_cmp_def Let_def two
  proof (rule cmp_loop [where cell = "getIntBits 2 nBytes" and e = 1])
    show "curve_state (1, 0, 2)" by (simp add: curve_state_def)
    show "parity_ok 1 2 (32 - 1) 32" by (simp add: parity_ok_def xor_shifts.simps)
  qed (use w grid_of_index [OF assms(1,2)] grid_of_index [OF assms(3,4)] digits_number_digits in auto)
  moreover have "unat i mod 4 ^ 32 = unat i" for i :: bitmask using unsigned_less [of i, where 'a = nat] by simp
  ultimately show ?thesis by (simp add: lex_number_digits word_less_nat_alt word_unat_eq_iff)
qed

theorem hilbert_cmp_decides_witness:
  "hilbert_cmp 2 8 32 (le_bytes 8 [5, 1]) (le_bytes 8 [1, 6]) =
    (if hilbert_c2i 2 32 [5, 1] < hilbert_c2i 2 32 [1, 6] then -1
     else if hilbert_c2i 2 32 [5, 1] = hilbert_c2i 2 32 [1, 6] then 0 else 1)"
  by (rule hilbert_cmp_decides) simp_all


section \<open>The successor is the point of the next index\<close>

text \<open>The last level with a digit below three, and the coordinate it moves.\<close>

fun last_step :: "curve_state \<Rightarrow> bitmask list \<Rightarrow> nat \<times> bitmask \<Rightarrow> nat \<times> bitmask" where
  "last_step st [] acc = acc"
| "last_step (e, r, s) (d # ds) acc =
     last_step (enter (e, r, s) d) ds
       (if d \<noteq> 3 then (length ds, rotateLeft ((d + 1) AND - (d + 1)) r 2) else acc)"

lemma index_digit:
  assumes "e = 0 \<or> e = 1" "digit d"
  shows "xor_shifts (Suc 0) 2 (push_bit 1 e XOR gray_digit e d) = d"
  using assms(1) digit_cases [OF assms(2)]
  by (elim disjE) (simp_all add: gray_digit_table xor_shifts.simps [of "Suc 0" 2] xor_shifts.simps [of 2 2])

lemma next_parity: "digit d \<Longrightarrow> (d + 1) AND 1 = (d AND 1) XOR 1"
  by (drule digit_cases, elim disjE) simp_all

lemma incr_level_walk:
  assumes "curve_state (e, r, s)" "digit d" "grid_cell x y b = curve_cell (e, r, s) d"
  shows "incr_level 2 [x, y] b \<lparr>is_rotation = r, is_reflection = s, is_index = push_bit 1 e, is_rb = rb, is_rd = rd\<rparr> =
    (case enter (e, r, s) d of (e', r', s') \<Rightarrow>
      \<lparr>is_rotation = r', is_reflection = s', is_index = push_bit 1 e',
       is_rb = (if d \<noteq> 3 then b else rb), is_rd = (if d \<noteq> 3 then rotateLeft ((d + 1) AND - (d + 1)) r 2 else rd)\<rparr>)"
proof -
  have e: "e = 0 \<or> e = 1" using assms(1) by (auto simp: curve_state_def)
  have refl: "fold (\<lambda>d r. r OR push_bit d (rdbit ([x, y] ! d) b)) [0..<2] 0 = grid_cell x y b"
    by (simp add: upt_2 grid_cell_def rdbit_bit)
  have bits: "rotateRight (s XOR grid_cell x y b) r 2 = gray_digit e d" using rotate_back [OF assms(1,2)] assms(3) by simp
  have shifted: "d * 2 AND 2 XOR 2 = (d AND 1 XOR 1) * 2"
    using digit_cases [OF assms(2)] by (elim disjE) simp_all
  show ?thesis
    unfolding incr_level_def Let_def incr_state.simps refl bits
    using index_digit [OF e assms(2)] next_parity [OF assms(2)] shifted
    by (simp add: next_rotation_def assms(3) del: curve_cell.simps)
qed

lemma incr_levels_walk:
  assumes "curve_state (e, r, s)" "grid_cells k x y = walk (e, r, s) ds" "\<forall>d\<in>set ds. digit d"
    "st = incr_levels 2 [x, y] k \<lparr>is_rotation = r, is_reflection = s, is_index = push_bit 1 e, is_rb = rb, is_rd = rd\<rparr>"
  shows "(is_rb st, is_rd st) = last_step (e, r, s) ds (rb, rd)"
  using assms
proof (induction k arbitrary: e r s ds rb rd)
  case 0
  then show ?case by (cases ds) auto
next
  case (Suc k)
  obtain d es where ds: "ds = d # es" using Suc.prems(2) by (cases ds) auto
  have c: "grid_cell x y k = curve_cell (e, r, s) d" "grid_cells k x y = walk (enter (e, r, s) d) es"
    using Suc.prems(2) ds by simp_all
  have dg: "digit d" "\<forall>d\<in>set es. digit d" using Suc.prems(3) ds by simp_all
  obtain e' r' s' where n: "enter (e, r, s) d = (e', r', s')" using prod_cases3 by blast
  have "length es = k" using c(2) by (metis length_walk length_map length_rev length_upt diff_zero grid_cells_def)
  moreover note Suc.IH [OF enter_state [OF Suc.prems(1) dg(1), unfolded n] c(2) [unfolded n] dg(2)
      Suc.prems(4) [unfolded incr_levels.simps incr_level_walk [OF Suc.prems(1) dg(1) c(1)] n prod.case]]
  ultimately show ?case unfolding ds last_step.simps n by (simp split: if_splits)
qed

lemma walk_threes: "curve_state st \<Longrightarrow> walk st (replicate n 3) = replicate n (curve_cell st 3)"
proof (induction n arbitrary: st)
  case (Suc n)
  have "curve_state (enter st 3)" by (rule enter_state [OF Suc.prems]) (simp add: digit_def)
  from Suc.IH [OF this] show ?case by (simp add: enter_last [OF Suc.prems])
qed simp

lemma walk_zeros: "curve_state st \<Longrightarrow> walk st (replicate n 0) = replicate n (curve_cell st 0)"
proof (induction n arbitrary: st)
  case (Suc n)
  have "curve_state (enter st 0)" by (rule enter_state [OF Suc.prems]) (simp add: digit_def)
  from Suc.IH [OF this] show ?case by (simp add: enter_first [OF Suc.prems])
qed simp

lemma last_step_threes: "last_step st (replicate n 3) acc = acc"
  by (induction n arbitrary: st) (auto split: prod.split simp: last_step.simps dest: sym)

lemma flip_cells:
  assumes "curve_state (e, r, s)" "d \<in> {0, 1, 2}" "rd = rotateLeft ((d + 1) AND - (d + 1)) r 2"
  shows "curve_cell (e, r, s) (d + 1) = curve_cell (e, r, s) d XOR rd" "rd = 1 \<or> rd = 2"
    "curve_cell (enter (e, r, s) (d + 1)) 0 = curve_cell (enter (e, r, s) d) 3 XOR rd"
proof -
  have e: "e = 0 \<or> e = 1" "r = 0 \<or> r = 1" "s = 0 \<or> s = 1 \<or> s = 2 \<or> s = 3" "d = 0 \<or> d = 1 \<or> d = 2"
    using assms(1,2) by (simp_all add: curve_state_def)
  show "curve_cell (e, r, s) (d + 1) = curve_cell (e, r, s) d XOR rd" "rd = 1 \<or> rd = 2"
    "curve_cell (enter (e, r, s) (d + 1)) 0 = curve_cell (enter (e, r, s) d) 3 XOR rd"
    unfolding assms(3) using e by (elim disjE; simp add: level_table)+
qed


text \<open>Going from one number to the next flips one coordinate from that level down.\<close>

lemma step_flip:
  assumes "curve_state st" "\<not> 4 ^ k dvd m + 1"
  shows "\<exists>rb rd. (\<forall>acc. last_step st (number_digits k m) acc = (rb, rd)) \<and> rb < k \<and> (rd = 1 \<or> rd = 2) \<and>
    4 ^ rb dvd m + 1 \<and> \<not> 4 ^ Suc rb dvd m + 1 \<and>
    (\<forall>j<k. walk st (number_digits k (m + 1)) ! j =
       walk st (number_digits k m) ! j XOR (if j < k - Suc rb then 0 else rd))"
  using assms
proof (induction k arbitrary: st)
  case (Suc k)
  let ?d = "of_nat (m div 4 ^ k mod 4) :: bitmask"
  obtain e r s where st: "st = (e, r, s)" by (cases st) auto
  show ?case
  proof (cases "4 ^ k dvd m + 1")
    case False
    then have same: "(m + 1) div 4 ^ k = m div 4 ^ k" by (simp add: div_Suc dvd_eq_mod_eq_0)
    have "digit ?d" using digits_number_digits [of "Suc k" m] by simp
    from Suc.IH [OF enter_state [OF Suc.prems(1) this] False] obtain rb rd where
      IH: "\<forall>acc. last_step (enter st ?d) (number_digits k m) acc = (rb, rd)" "rb < k" "rd = 1 \<or> rd = 2"
        "4 ^ rb dvd m + 1" "\<not> 4 ^ Suc rb dvd m + 1"
        "\<forall>j<k. walk (enter st ?d) (number_digits k (m + 1)) ! j =
          walk (enter st ?d) (number_digits k m) ! j XOR (if j < k - Suc rb then 0 else rd)" by blast
    have "walk st (number_digits (Suc k) (m + 1)) ! j =
        walk st (number_digits (Suc k) m) ! j XOR (if j < Suc k - Suc rb then 0 else rd)" if "j < Suc k" for j
    proof (cases j)
      case 0
      then show ?thesis using same IH(2) by simp
    next
      case (Suc i)
      then have "i < k" "Suc i < Suc k - Suc rb \<longleftrightarrow> i < k - Suc rb" using that by auto
      then show ?thesis using same IH(6) Suc by simp
    qed
    moreover have "last_step st (number_digits (Suc k) m) acc = (rb, rd)" for acc
      using IH(1) unfolding st number_digits.simps last_step.simps by blast
    ultimately show ?thesis using IH(2-5) less_SucI by blast
  next
    case True
    then obtain q where q: "m + 1 = 4 ^ k * q" by (auto simp: dvd_def)
    with Suc.prems(2) have "\<not> 4 dvd q" by auto
    then obtain p where p: "q = Suc p" "\<not> 4 dvd Suc p" by (cases q) auto
    then have "p mod 4 \<noteq> 3" by (auto simp: dvd_eq_mod_eq_0 mod_Suc)
    moreover have "r < 4 \<Longrightarrow> r \<noteq> 3 \<Longrightarrow> r \<in> {0, 1, 2}" for r :: nat by auto
    ultimately have pm: "p mod 4 \<in> {0, 1, 2}" by simp
    let ?p = "of_nat (p mod 4) :: bitmask"
    have d: "m div 4 ^ k = p" using last_before q p(1) by simp
    have d': "(m + 1) div 4 ^ k = Suc p" using q p(1) by simp
    have up: "(of_nat (Suc p mod 4) :: bitmask) = ?p + 1" using pm by (auto simp: mod_Suc)
    have dg: "?p \<in> {0, 1, 2}" using pm by auto
    then have ne: "?p \<noteq> 3" by auto
    have dig: "digit ?p" "digit (?p + 1)" using dg by (auto simp: digit_def)
    define rd where "rd = rotateLeft ((?p + 1) AND - (?p + 1)) r 2"
    note flip = flip_cells [OF Suc.prems(1) [unfolded st] dg rd_def]
    have W: "walk st (number_digits (Suc k) m) = curve_cell st ?p # replicate k (curve_cell (enter st ?p) 3)"
      using number_digits_three [OF True] walk_threes [OF enter_state [OF Suc.prems(1) dig(1)]] d by simp
    have W': "walk st (number_digits (Suc k) (m + 1)) = curve_cell st (?p + 1) # replicate k (curve_cell (enter st (?p + 1)) 0)"
      using number_digits_zero [OF True] walk_zeros [OF enter_state [OF Suc.prems(1) dig(2)]] d' up by simp
    have "walk st (number_digits (Suc k) (m + 1)) ! j = walk st (number_digits (Suc k) m) ! j XOR rd" if "j < Suc k" for j
      unfolding W W' using flip(1,3) that by (cases j) (simp_all add: st del: curve_cell.simps enter.simps)
    moreover have "last_step st (number_digits (Suc k) m) acc = (k, rd)" for acc
      using number_digits_three [OF True] last_step_threes ne d unfolding st rd_def by simp
    ultimately show ?thesis using True Suc.prems(2) flip(2) by (intro exI [of _ k] exI [of _ rd]) simp
  qed
qed simp

lemma bit_low_ones: "bit (push_bit n 2 - 1 :: bitmask) b \<longleftrightarrow> b \<le> n" if "n < 30" "b < 64"
proof -
  have "push_bit n 2 - 1 = (mask (Suc n) :: bitmask)" by (simp add: mask_eq_exp_minus_1 push_bit_eq_mult)
  then show ?thesis using that by (simp only: bit_mask_iff) auto
qed

lemma first_coordinate:
  "find (\<lambda>d. rdbit 1 d \<noteq> 0) [0..<64] = Some 0" "find (\<lambda>d. rdbit 2 d \<noteq> 0) [0..<64] = Some 1"
  by (simp_all add: upt_conv_Cons rdbit_def)


lemma grid_cells_nth: "j < k \<Longrightarrow> grid_cells k x y ! j = grid_cell x y (k - Suc j)"
  by (simp add: grid_cells_def rev_nth)

lemma below_32: "w < 2 ^ 32 \<Longrightarrow> bit w n \<Longrightarrow> n < 32" for w :: bitmask
proof -
  assume "w < 2 ^ 32" and b: "bit w n"
  then have "uint w < 2 ^ 32" by (simp add: word_less_def)
  then have "take_bit 32 w = w" by (simp only: take_bit_eq_mask mask_eq_iff)
  with b show "n < 32" by (metis bit_take_bit_iff)
qed

lemma i2c_32: "hilbert_i2c 2 32 i = [x, y] \<Longrightarrow> x < 2 ^ 32 \<and> y < 2 ^ 32"
proof -
  have "unat (take_bit 32 w) < 2 ^ 32" for w :: bitmask
    unfolding unsigned_take_bit_eq by (rule take_bit_nat_less_exp)
  then have "w AND mask 32 < 2 ^ 32" for w :: bitmask
    by (simp add: word_less_nat_alt flip: take_bit_eq_mask)
  then show "hilbert_i2c 2 32 i = [x, y] \<Longrightarrow> x < 2 ^ 32 \<and> y < 2 ^ 32" by (auto simp: hilbert_i2c_word)
qed

text \<open>
  C17. One step along the curve. From the point of an index \<open>hilbert_incr\<close> goes to the point of the
  next one, except where four to the power 30 divides the next index: there the code shifts an
  \<open>int\<close> out of its range and the result is undefined, although coordinates have 32 bits.
\<close>

theorem hilbert_incr_successor:
  assumes "i + 1 \<noteq> 0"
  shows "hilbert_incr 2 32 (hilbert_i2c 2 32 i) =
    (if 4 ^ 30 dvd unat (i + 1) then None else Some (hilbert_i2c 2 32 (i + 1)))"
proof -
  obtain x y where xy: "hilbert_i2c 2 32 i = [x, y]" by (simp add: hilbert_i2c_word)
  obtain x' y' where xy': "hilbert_i2c 2 32 (i + 1) = [x', y']" by (simp add: hilbert_i2c_word)
  have u: "unat (i + 1) = unat i + 1" using assms unatSuc [of i] by (simp add: add.commute)
  have "unat (i + 1) < 4 ^ 32" using unsigned_less [of "i + 1", where 'a = nat] by simp
  then have nd: "\<not> 4 ^ 32 dvd unat i + 1" using u by (auto dest: dvd_imp_le)
  have st: "curve_state (0, 0, 0)" by (simp add: curve_state_def)
  from step_flip [OF st nd] obtain rb rd where
    f: "\<forall>acc. last_step (0, 0, 0) (number_digits 32 (unat i)) acc = (rb, rd)" "rb < 32" "rd = 1 \<or> rd = 2"
      "4 ^ rb dvd unat i + 1" "\<not> 4 ^ Suc rb dvd unat i + 1"
      "\<forall>j<32. walk (0, 0, 0) (number_digits 32 (unat i + 1)) ! j =
         walk (0, 0, 0) (number_digits 32 (unat i)) ! j XOR (if j < 32 - Suc rb then 0 else rd)" by blast
  define fin where "fin = incr_levels 2 [x, y] 32 \<lparr>is_rotation = 0, is_reflection = 0, is_index = 0, is_rb = 31, is_rd = 3\<rparr>"
  then have fin: "fin = incr_levels 2 [x, y] 32 \<lparr>is_rotation = 0, is_reflection = 0, is_index = push_bit 1 0, is_rb = 31, is_rd = 3\<rparr>"
    by simp
  have "(is_rb fin, is_rd fin) = (rb, rd)"
    using incr_levels_walk [OF st curve_grid [OF xy] digits_number_digits fin] f(1) by simp
  then have r: "is_rb fin = rb" "is_rd fin = rd" by simp_all
  have incr: "hilbert_incr 2 32 [x, y] =
      (case low_ones rb of None \<Rightarrow> None | Some m \<Rightarrow> Some (if rd = 1 then [x XOR m, y] else [x, y XOR m]))"
    using f(3) r first_coordinate
    by (auto simp: hilbert_incr_def Let_def fin_def [symmetric] split: option.split)
  have cell: "grid_cell x' y' b = grid_cell x y b XOR (if b \<le> rb then rd else 0)" if "b < 32" for b
  proof -
    have j: "32 - Suc b < 32" "32 - Suc (32 - Suc b) = b" "32 - Suc b < 32 - Suc rb \<longleftrightarrow> rb < b" using that f(2) by auto
    have "grid_cells 32 x' y' ! (32 - Suc b) = grid_cells 32 x y ! (32 - Suc b) XOR (if 32 - Suc b < 32 - Suc rb then 0 else rd)"
      using f(6) j(1) unfolding curve_grid [OF xy] curve_grid [OF xy'] u by blast
    then show ?thesis unfolding grid_cells_nth [OF j(1)] j(2,3) by (simp split: if_splits)
  qed
  have small: "x < 2 ^ 32" "y < 2 ^ 32" "x' < 2 ^ 32" "y' < 2 ^ 32" using i2c_32 xy xy' by blast+
  have bits: "bit x' b \<longleftrightarrow> bit x b \<noteq> (b \<le> rb \<and> rd = 1)" "bit y' b \<longleftrightarrow> bit y b \<noteq> (b \<le> rb \<and> rd = 2)" if "b < 32" for b
  proof -
    have "bit (grid_cell x' y' b) c \<longleftrightarrow> bit (grid_cell x y b) c \<noteq> (b \<le> rb \<and> bit rd c)" for c
      unfolding cell [OF that] bit_xor_iff by simp
    from this [of 0] this [of 1] f(3) show "bit x' b \<longleftrightarrow> bit x b \<noteq> (b \<le> rb \<and> rd = 1)" "bit y' b \<longleftrightarrow> bit y b \<noteq> (b \<le> rb \<and> rd = 2)"
      unfolding bit_grid_cell by (elim disjE; simp)+
  qed
  show ?thesis
  proof (cases "rb < 30")
    case True
    have "w' = (if b then w XOR (push_bit rb 2 - 1) else w)"
      if "w < 2 ^ 32" "w' < 2 ^ 32" "\<And>n. n < 32 \<Longrightarrow> bit w' n \<longleftrightarrow> bit w n \<noteq> (n \<le> rb \<and> b)" for w w' :: bitmask and b
    proof (rule bit_word_eqI)
      fix n assume n: "n < LENGTH(64)"
      show "bit w' n = bit (if b then w XOR (push_bit rb 2 - 1) else w) n"
        using that(3) [of n] below_32 [OF that(1), of n] below_32 [OF that(2), of n] bit_low_ones [OF True, of n] n True
        by (cases "n < 32") (auto simp: bit_xor_iff simp del: bit_push_bit_iff)
    qed
    from this [OF small(1,3) bits(1)] this [OF small(2,4) bits(2)]
    have "hilbert_incr 2 32 [x, y] = Some [x', y']"
      using f(3) True unfolding incr by (auto simp: low_ones_def)
    moreover have "\<not> 4 ^ 30 dvd unat (i + 1)"
    proof
      assume "4 ^ 30 dvd unat (i + 1)"
      moreover have "(4 :: nat) ^ Suc rb dvd 4 ^ 30" using True by (intro le_imp_power_dvd) simp
      ultimately show False using f(5) u dvd_trans by metis
    qed
    ultimately show ?thesis using xy xy' by simp
  next
    case False
    then have "(4 :: nat) ^ 30 dvd 4 ^ rb" by (intro le_imp_power_dvd) simp
    then have "4 ^ 30 dvd unat (i + 1)" using f(4) u dvd_trans by metis
    then show ?thesis using False xy incr by (simp add: low_ones_def)
  qed
qed

theorem hilbert_incr_successor_witness:
  "hilbert_incr 2 32 (hilbert_i2c 2 32 12345) = Some (hilbert_i2c 2 32 12346) \<and>
   hilbert_incr 2 32 (hilbert_i2c 2 32 (4 ^ 30 - 1)) = None"
proof -
  have "unat (12345 + 1 :: bitmask) = 12346" "unat (4 ^ 30 - 1 + 1 :: bitmask) = 4 ^ 30" by simp_all
  then show ?thesis
    using hilbert_incr_successor [of 12345] hilbert_incr_successor [of "4 ^ 30 - 1"] by simp
qed

end
