(* ===== verification/DeltaLog.thy ===== *)
theory DeltaLog
  imports KnnQueue "HOL-Library.AList"
begin

text \<open>
  The version logs of the two baselines, \<open>baselines/rlog_tree.hpp\<close> and
  \<open>baselines/pkdlog_tree.hpp\<close>. Both keep a version as a node with the points
  inserted and removed since its parent and, on some versions, a spatial index
  of the whole contents; the node type, \<open>get_query_view\<close>, the candidate heap
  and \<open>map_spatial_diff\<close> are the same text in both files and are modelled once,
  over the type \<open>'b\<close> of the index. A version is not changed after the call that
  creates it, so a shared pointer is the node itself; the address in the node is
  what the pointer comparisons of \<open>map_spatial_diff\<close> see.
\<close>

section \<open>Values, boxes and version nodes\<close>

type_synonym boost_point = "FT \<times> FT"

type_synonym rvalue = "boost_point \<times> 64 word"

type_synonym bg_box = "boost_point \<times> boost_point"

datatype 'b version_node = VersionNode
  (vaddr: nat)
  (vparent: "'b version_node option")
  (vdepth: "64 word")
  (delta_inserts: "rvalue list")
  (delta_removes: "rvalue list")
  (cached_base: "'b option")
  (cumulative_log_size: "64 word")
  (current_base_size: "64 word")

definition boost_box :: "Bounding_Box \<Rightarrow> bg_box" where
  "boost_box q = ((pt_x (fst q), pt_y (fst q)), (pt_x (snd q), pt_y (snd q)))"

section \<open>What a version holds\<close>

text \<open>The walk up to the nearest version with an index; the path is newest first.\<close>

fun view_path :: "'b version_node option \<Rightarrow> 'b option \<times> 'b version_node list" where
  "view_path None = (None, [])"
| "view_path (Some (VersionNode a p d ins rem b l s)) =
     (case b of
        Some base \<Rightarrow> (Some base, [])
      | None \<Rightarrow> (let (base, path) = view_path p in (base, VersionNode a p d ins rem b l s # path)))"

definition get_query_view ::
  "'b version_node option \<Rightarrow> 'b option \<times> 64 word set \<times> rvalue list" where
  "get_query_view node =
     (let (out_base, path) = view_path node;
          removed_ids = set (concat (map (\<lambda>n. map snd (delta_removes n)) (rev path)));
          pending = concat (map (\<lambda>n. filter (\<lambda>ins. snd ins \<notin> removed_ids) (delta_inserts n)) (rev path))
      in (out_base, removed_ids, pending))"

definition is_alive :: "64 word set \<Rightarrow> rvalue \<Rightarrow> bool" where
  "is_alive removed_ids v \<longleftrightarrow> snd v \<notin> removed_ids"

text \<open>\<open>cumulative_log_size >= p * current_base_size\<close>, with both sizes converted to double.\<close>

definition size_double :: "64 word \<Rightarrow> FT" where
  "size_double n = rnd64 (of_int (uint n))"

definition needs_compaction :: "FT \<Rightarrow> 'b version_node \<Rightarrow> bool" where
  "needs_compaction p node \<longleftrightarrow>
     fmul p (size_double (current_base_size node)) \<le> size_double (cumulative_log_size node)"

text \<open>
  The parts of \<open>map_insert\<close> and \<open>map_delete\<close> before the compaction test: the new
  node below its parent, at a fresh address.
\<close>

definition child_node ::
  "nat \<Rightarrow> 'b version_node option \<Rightarrow> rvalue list \<Rightarrow> rvalue list \<Rightarrow> nat \<Rightarrow> 'b version_node" where
  "child_node a parent inserts removes n =
     (case parent of
        None \<Rightarrow> VersionNode a None 0 inserts removes None 0 0
      | Some q \<Rightarrow> VersionNode a parent (vdepth q + 1) inserts removes None
           (cumulative_log_size q + of_nat n) (current_base_size q))"

definition with_base :: "'b version_node \<Rightarrow> 'b \<Rightarrow> nat \<Rightarrow> 'b version_node" where
  "with_base node base n = VersionNode (vaddr node) (vparent node) (vdepth node) (delta_inserts node)
     (delta_removes node) (Some base) 0 (of_nat n)"

text \<open>The contents of a version, given what its index holds.\<close>

definition log_contents :: "('b \<Rightarrow> rvalue list) \<Rightarrow> 'b version_node option \<Rightarrow> rvalue multiset option" where
  "log_contents vals node =
     (case get_query_view node of (base, removed_ids, pending) \<Rightarrow>
        map_option (\<lambda>b. mset (filter (is_alive removed_ids) (vals b)) + mset pending) base)"

definition log_removed :: "'b version_node option \<Rightarrow> 64 word set" where
  "log_removed node = fst (snd (get_query_view node))"

section \<open>The heap of candidates\<close>

definition calc_sqr_dist :: "point \<Rightarrow> boost_point \<Rightarrow> FT" where
  "calc_sqr_dist p1 p2 =
     (let dx = fsub (pt_x p1) (fst p2); dy = fsub (pt_y p1) (snd p2)
      in fadd (fmul dx dx) (fmul dy dy))"

definition max_heap_cmp :: "FT \<times> rvalue \<Rightarrow> FT \<times> rvalue \<Rightarrow> bool" where
  "max_heap_cmp a b = (if fst a \<noteq> fst b then fst a < fst b else snd (snd a) < snd (snd b))"

text \<open>\<open>std::priority_queue\<close> under \<open>MaxHeapCmp\<close>: a list whose head is the top.\<close>

fun heap_push :: "FT \<times> rvalue \<Rightarrow> (FT \<times> rvalue) list \<Rightarrow> (FT \<times> rvalue) list" where
  "heap_push x [] = [x]"
| "heap_push x (y # ys) = (if max_heap_cmp x y then y # heap_push x ys else x # y # ys)"

definition replaces_top :: "FT \<times> rvalue \<Rightarrow> FT \<times> rvalue \<Rightarrow> bool" where
  "replaces_top x t \<longleftrightarrow> fst x < fst t \<or> (fst x = fst t \<and> snd (snd x) > snd (snd t))"

text \<open>
  One candidate; the second component tells whether it was taken. With a full heap
  of size zero the code reads the top of an empty queue, which is \<open>None\<close> here.
\<close>

definition heap_offer ::
  "nat \<Rightarrow> FT \<times> rvalue \<Rightarrow> (FT \<times> rvalue) list \<Rightarrow> ((FT \<times> rvalue) list \<times> bool) option" where
  "heap_offer k x heap =
     (if length heap < k then Some (heap_push x heap, True)
      else case heap of
        [] \<Rightarrow> None
      | t # rest \<Rightarrow> Some (if replaces_top x t then (heap_push x rest, True) else (heap, False)))"

fun scan_pending :: "nat \<Rightarrow> point \<Rightarrow> rvalue list \<Rightarrow> (FT \<times> rvalue) list \<Rightarrow> (FT \<times> rvalue) list option" where
  "scan_pending k q [] heap = Some heap"
| "scan_pending k q (v # vs) heap =
     (case heap_offer k (calc_sqr_dist q (fst v), v) heap of
        None \<Rightarrow> None
      | Some (heap', taken) \<Rightarrow> scan_pending k q vs heap')"

section \<open>Differences from the deltas of two branches\<close>

fun lift_above :: "64 word \<Rightarrow> 'b version_node option \<Rightarrow> 'b version_node option" where
  "lift_above depth None = None"
| "lift_above depth (Some (VersionNode a p d ins rem b l s)) =
     (if d > depth then lift_above depth p else Some (VersionNode a p d ins rem b l s))"

fun meet_up :: "'b version_node option \<Rightarrow> 'b version_node option \<Rightarrow> 'b version_node option" where
  "meet_up (Some (VersionNode a p d ins rem b l s)) (Some (VersionNode a' p' d' ins' rem' b' l' s')) =
     (if a = a' then Some (VersionNode a p d ins rem b l s) else meet_up p p')"
| "meet_up ptr1 ptr2 = ptr1"

definition version_lca :: "'b version_node \<Rightarrow> 'b version_node \<Rightarrow> 'b version_node option" where
  "version_lca v1 v2 =
     (let ptr1 = lift_above (vdepth v2) (Some v1);
          ptr2 = (case ptr1 of None \<Rightarrow> Some v2 | Some n \<Rightarrow> lift_above (vdepth n) (Some v2))
      in meet_up ptr1 ptr2)"

type_synonym trace = "(64 word \<rightharpoonup> int) \<times> (64 word \<times> rvalue) list"

definition trace_remove :: "rvalue \<Rightarrow> trace \<Rightarrow> trace" where
  "trace_remove rm = (\<lambda>(state, values).
     (if state (snd rm) = None then state(snd rm \<mapsto> - 1) else state,
      AList.update (snd rm) rm values))"

definition trace_insert :: "rvalue \<Rightarrow> trace \<Rightarrow> trace" where
  "trace_insert ins = (\<lambda>(state, values).
     (if state (snd ins) = None then state(snd ins \<mapsto> 1)
      else if state (snd ins) = Some (- 1) then state(snd ins \<mapsto> 0) else state,
      AList.update (snd ins) ins values))"

fun trace_branch :: "nat option \<Rightarrow> 'b version_node option \<Rightarrow> trace \<Rightarrow> trace" where
  "trace_branch lca None t = t"
| "trace_branch lca (Some (VersionNode a p d ins rem b l s)) t =
     (if lca = Some a then t
      else trace_branch lca p (fold trace_insert ins (fold trace_remove rem t)))"

definition trace_state :: "(64 word \<rightharpoonup> int) \<Rightarrow> 64 word \<Rightarrow> int" where
  "trace_state state i = (case state i of None \<Rightarrow> 0 | Some s \<Rightarrow> s)"

text \<open>
  \<open>map_spatial_diff\<close>: the pair of the added and the removed values. The code walks
  an unordered map; the model keeps the order of first insertion, so only the
  contents of the two lists are meaningful.
\<close>

definition log_spatial_diff ::
  "(boost_point \<Rightarrow> bg_box \<Rightarrow> bool) \<Rightarrow> 'b version_node \<Rightarrow> 'b version_node \<Rightarrow> Bounding_Box \<Rightarrow>
   rvalue list \<times> rvalue list" where
  "log_spatial_diff bg_intersects v1 v2 q =
     (if vaddr v1 = vaddr v2 then ([], [])
      else
        let lca = map_option vaddr (version_lca v1 v2);
            (state1, values) = trace_branch lca (Some v1) (Map.empty, []);
            (state2, values) = trace_branch lca (Some v2) (Map.empty, values);
            hits = filter (\<lambda>kv. bg_intersects (fst (snd kv)) (boost_box q)) values;
            net = (\<lambda>kv. trace_state state2 (fst kv) - trace_state state1 (fst kv))
        in (map snd (filter (\<lambda>kv. net kv > 0) hits), map snd (filter (\<lambda>kv. net kv < 0) hits)))"

section \<open>Views of new versions\<close>

lemma view_path_Some:
  "view_path (Some n) =
     (case cached_base n of
        Some base \<Rightarrow> (Some base, [])
      | None \<Rightarrow> (let (base, path) = view_path (vparent n) in (base, n # path)))"
  by (cases n) (simp split: option.split)

lemma view_cached: "cached_base n = Some b \<Longrightarrow> get_query_view (Some n) = (Some b, {}, [])"
  by (simp add: get_query_view_def view_path_Some)

lemma view_child:
  assumes "get_query_view (Some q) = (base, removed, pending)"
  shows "get_query_view (Some (child_node a (Some q) ins rem n)) =
     (base, removed \<union> snd ` set rem,
      filter (\<lambda>v. snd v \<notin> snd ` set rem) pending @ filter (\<lambda>v. snd v \<notin> removed \<union> snd ` set rem) ins)"
proof -
  obtain b path where p: "view_path (Some q) = (b, path)" by fastforce
  show ?thesis
    using assms p
    by (auto simp: get_query_view_def view_path_Some [of "child_node a (Some q) ins rem n"] child_node_def
        filter_concat comp_def conj_commute intro!: arg_cong [of _ _ concat])
qed

lemma contents_child:
  assumes "log_contents vals (Some q) = Some M"
  shows "log_contents vals (Some (child_node a (Some q) ins rem n)) =
     Some (filter_mset (\<lambda>v. snd v \<notin> snd ` set rem) M +
       mset (filter (\<lambda>v. snd v \<notin> log_removed (Some q) \<union> snd ` set rem) ins))"
proof -
  obtain base removed pending where v: "get_query_view (Some q) = (base, removed, pending)"
    by (metis prod_cases3)
  then obtain b where "base = Some b"
      and "M = mset (filter (is_alive removed) (vals b)) + mset pending"
    using assms by (cases base) (auto simp: log_contents_def)
  moreover have "filter_mset (\<lambda>v. snd v \<notin> snd ` set rem) (mset (filter (is_alive removed) (vals b))) =
      mset (filter (is_alive (removed \<union> snd ` set rem)) (vals b))" for b
    by (simp add: is_alive_def [abs_def] filter_filter_mset conj_commute flip: mset_filter)
  ultimately show ?thesis
    using v by (simp add: log_contents_def view_child [OF v] log_removed_def)
qed

lemma contents_with_base: "log_contents vals (Some (with_base node b n)) = Some (mset (vals b))"
proof -
  have "get_query_view (Some (with_base node b n)) = (Some b, {}, [])"
    by (rule view_cached) (simp add: with_base_def)
  then show ?thesis by (simp add: log_contents_def is_alive_def)
qed

section \<open>The heap holds the smallest distances\<close>

definition heap_holds :: "nat \<Rightarrow> (FT \<times> rvalue) multiset \<Rightarrow> (FT \<times> rvalue) list \<Rightarrow> bool" where
  "heap_holds k M heap \<longleftrightarrow> rev (map fst heap) = smallest k (image_mset fst M) \<and> mset heap \<subseteq># M"

lemma heap_holds_empty [simp]: "heap_holds k {#} []"
  by (simp add: heap_holds_def)

lemma mset_heap_push [simp]: "mset (heap_push x heap) = add_mset x (mset heap)"
  by (induction heap) simp_all

lemma heap_push_dists:
  assumes "sorted (rev (map fst heap))"
  shows "rev (map fst (heap_push x heap)) = insort (fst x) (rev (map fst heap))"
proof (rule sorted_mset_eqI)
  show "sorted (insort (fst x) (rev (map fst heap)))" using assms by (simp add: sorted_insort)
  have "set (heap_push x heap) = insert x (set heap)" for x heap
    by (metis mset_heap_push set_mset_add_mset_insert set_mset_mset)
  then show "sorted (rev (map fst (heap_push x heap)))"
    using assms by (induction heap) (auto simp: sorted_append max_heap_cmp_def split: if_splits)
  show "mset (rev (map fst (heap_push x heap))) = mset (insort (fst x) (rev (map fst heap)))"
    by (simp add: mset_insort)
qed

lemma heap_offer_holds:
  assumes "heap_holds k M heap" "1 \<le> k"
  shows "\<exists>heap' taken. heap_offer k x heap = Some (heap', taken) \<and> heap_holds k (add_mset x M) heap' \<and>
     (\<not> taken \<longrightarrow> heap' = heap \<and> length heap = k \<and> (\<forall>t\<in>set heap. fst t \<le> fst x))"
proof -
  let ?S = "smallest k (image_mset fst M)"
  have S: "rev (map fst heap) = ?S" and sub: "mset heap \<subseteq># M" using assms by (auto simp: heap_holds_def)
  have len: "length heap = length ?S" by (metis S length_map length_rev)
  have sorted: "sorted (rev (map fst heap))" unfolding S by simp
  show ?thesis
  proof (cases "length heap < k")
    case True
    have "mset (heap_push x heap) \<subseteq># add_mset x M" using sub by simp
    with True show ?thesis
      using heap_push_dists [OF sorted, of x] len
      by (intro exI [of _ "heap_push x heap"] exI [of _ True])
        (simp add: heap_offer_def heap_holds_def S smallest_insert_room)
  next
    case False
    then have k: "length ?S = k" using len length_smallest_le [of k "image_mset fst M"] by simp
    with len assms(2) obtain t rest where h: "heap = t # rest" by (cases heap) auto
    have last: "last ?S = fst t" and but: "butlast ?S = rev (map fst rest)"
      unfolding S [symmetric] h by simp_all
    have new: "smallest k (add_mset (fst x) (image_mset fst M)) =
        (if fst x < fst t then insort (fst x) (rev (map fst rest)) else ?S)"
      using smallest_insert_full [OF k assms(2), of "fst x"] last but by simp
    have srest: "sorted (rev (map fst rest))" using sorted unfolding h by (simp add: sorted_append)
    have le: "\<forall>u\<in>set heap. fst u \<le> fst t" using sorted unfolding h by (auto simp: sorted_append)
    show ?thesis
    proof (cases "replaces_top x t")
      case True
      have "insort (fst x) (rev (map fst rest)) = ?S" if "fst x = fst t"
      proof -
        have "insort (fst t) (rev (map fst rest)) = rev (map fst rest) @ [fst t]"
          using sorted unfolding h by (intro sorted_insort_is_snoc) (auto simp: sorted_append)
        then show ?thesis using that S unfolding h by simp
      qed
      then have "smallest k (add_mset (fst x) (image_mset fst M)) = rev (map fst (heap_push x rest))"
        using True new heap_push_dists [OF srest, of x] by (auto simp: replaces_top_def)
      moreover have "mset (heap_push x rest) \<subseteq># add_mset x M"
        using subset_mset.order_trans [of "mset rest" "mset heap" M] sub h by simp
      ultimately show ?thesis
        using True False
        by (intro exI [of _ "heap_push x rest"] exI [of _ True]) (simp add: heap_offer_def h heap_holds_def)
    next
      case no: False
      then have "\<not> fst x < fst t" by (simp add: replaces_top_def)
      then have "fst t \<le> fst x" by simp
      then have "\<forall>u\<in>set heap. fst u \<le> fst x" using le by (auto intro: order_trans)
      moreover have "heap_offer k x heap = Some (heap, False)"
        using no False by (simp add: heap_offer_def h)
      moreover have "mset heap \<subseteq># add_mset x M"
        using sub by (rule subset_mset.order_trans) simp
      then have "heap_holds k (add_mset x M) heap"
        using new S \<open>\<not> fst x < fst t\<close> by (simp add: heap_holds_def)
      moreover have "length heap = k" using len k by simp
      ultimately show ?thesis by blast
    qed
  qed
qed

lemma scan_pending_holds:
  assumes "heap_holds k M heap" "1 \<le> k"
  shows "\<exists>heap'. scan_pending k q vs heap = Some heap' \<and>
     heap_holds k (M + image_mset (\<lambda>v. (calc_sqr_dist q (fst v), v)) (mset vs)) heap'"
  using assms(1)
proof (induction vs arbitrary: M heap)
  case (Cons v vs)
  from heap_offer_holds [OF Cons.prems assms(2), of "(calc_sqr_dist q (fst v), v)"]
  obtain heap' taken where "heap_offer k (calc_sqr_dist q (fst v), v) heap = Some (heap', taken)"
    and "heap_holds k (add_mset (calc_sqr_dist q (fst v), v) M) heap'" by blast
  with Cons.IH show ?case by fastforce
qed simp

lemma smallest_smallest: "smallest k (A + mset (smallest k B)) = smallest k (A + B)"
proof (induction A)
  case empty
  have "sorted_list_of_multiset (mset (smallest k B)) = smallest k B"
    by (metis sorted_list_of_multiset_mset sorted_smallest sorted_sort_id)
  then show ?case by (simp add: smallest_def)
qed (simp add: smallest_insert)

end
