(* ===== verification/Rlog.thy ===== *)
theory Rlog
  imports DeltaLog
begin

text \<open>
  \<open>baselines/rlog_tree.hpp\<close>: the baseline that keeps versions as logs over Boost
  R-trees. The R-tree is not part of the repository: its operations are the
  fields of a record that every definition takes, and what the code relies on is
  \<open>rtree_ok\<close>. The allocator that counts bytes has no effect on results.
\<close>

section \<open>The R-tree\<close>

record 'rt rtree_ops =
  rt_build :: "rvalue list \<Rightarrow> 'rt"
  rt_values :: "'rt \<Rightarrow> rvalue list"
  rt_query :: "'rt \<Rightarrow> bg_box \<Rightarrow> (rvalue \<Rightarrow> bool) \<Rightarrow> rvalue list"
  rt_nearest :: "'rt \<Rightarrow> boost_point \<Rightarrow> nat \<Rightarrow> (rvalue \<Rightarrow> bool) \<Rightarrow> rvalue list"
  bg_intersects :: "boost_point \<Rightarrow> bg_box \<Rightarrow> bool"

text \<open>
  The documented behaviour: a tree holds the values it is built from, a spatial
  query with a predicate returns the values that satisfy both, and iterating over
  a nearest query yields the \<open>k\<close> nearest of the values that satisfy the
  predicate in the order of their distance.
\<close>

definition rtree_ok :: "'rt rtree_ops \<Rightarrow> bool" where
  "rtree_ok ops \<longleftrightarrow>
     (\<forall>vs. mset (rt_values ops (rt_build ops vs)) = mset vs) \<and>
     (\<forall>t b alive. mset (rt_query ops t b alive) =
        filter_mset (\<lambda>v. bg_intersects ops (fst v) b \<and> alive v) (mset (rt_values ops t))) \<and>
     (\<forall>t q k alive.
        mset (rt_nearest ops t (pt_x q, pt_y q) k alive) \<subseteq># filter_mset alive (mset (rt_values ops t)) \<and>
        map (\<lambda>v. calc_sqr_dist q (fst v)) (rt_nearest ops t (pt_x q, pt_y q) k alive) =
          smallest k (image_mset (\<lambda>v. calc_sqr_dist q (fst v)) (filter_mset alive (mset (rt_values ops t)))))"

section \<open>Versions\<close>

definition rlog_map_init :: "'rt rtree_ops \<Rightarrow> nat \<Rightarrow> rvalue list \<Rightarrow> 'rt version_node" where
  "rlog_map_init ops a base_points =
     VersionNode a None 0 [] [] (Some (rt_build ops base_points)) 0 (of_nat (length base_points))"

text \<open>Without an index on the path the code dereferences a null pointer: \<open>None\<close>.\<close>

definition rlog_check_compact :: "'rt rtree_ops \<Rightarrow> 'rt version_node \<Rightarrow> FT \<Rightarrow> 'rt version_node option" where
  "rlog_check_compact ops node p =
     (if needs_compaction p node then
        (case get_query_view (Some node) of
           (None, removed_ids, pending) \<Rightarrow> None
         | (Some base, removed_ids, pending) \<Rightarrow>
             let next_pts = filter (is_alive removed_ids) (rt_values ops base) @ pending
             in Some (with_base node (rt_build ops next_pts) (length next_pts)))
      else Some node)"

definition rlog_map_insert ::
  "'rt rtree_ops \<Rightarrow> nat \<Rightarrow> 'rt version_node option \<Rightarrow> rvalue list \<Rightarrow> FT \<Rightarrow> 'rt version_node option" where
  "rlog_map_insert ops a parent insert_pts p =
     rlog_check_compact ops (child_node a parent insert_pts [] (length insert_pts)) p"

definition rlog_map_delete ::
  "'rt rtree_ops \<Rightarrow> nat \<Rightarrow> 'rt version_node option \<Rightarrow> rvalue list \<Rightarrow> FT \<Rightarrow> 'rt version_node option" where
  "rlog_map_delete ops a parent delete_pts p =
     rlog_check_compact ops (child_node a parent [] delete_pts (length delete_pts)) p"

section \<open>Queries\<close>

definition rlog_range_report :: "'rt rtree_ops \<Rightarrow> 'rt version_node option \<Rightarrow> Bounding_Box \<Rightarrow> rvalue list" where
  "rlog_range_report ops node q =
     (let (base, removed_ids, pending) = get_query_view node
      in (case base of None \<Rightarrow> [] | Some b \<Rightarrow> rt_query ops b (boost_box q) (is_alive removed_ids)) @
         filter (\<lambda>val. bg_intersects ops (fst val) (boost_box q)) pending)"

text \<open>The scan of the R-tree's nearest values stops at the first one that is not taken.\<close>

fun rlog_scan_base :: "nat \<Rightarrow> point \<Rightarrow> rvalue list \<Rightarrow> (FT \<times> rvalue) list \<Rightarrow> (FT \<times> rvalue) list option" where
  "rlog_scan_base k q [] heap = Some heap"
| "rlog_scan_base k q (v # vs) heap =
     (case heap_offer k (calc_sqr_dist q (fst v), v) heap of
        None \<Rightarrow> None
      | Some (heap', taken) \<Rightarrow> if taken then rlog_scan_base k q vs heap' else Some heap')"

definition rlog_knn_report ::
  "'rt rtree_ops \<Rightarrow> 'rt version_node option \<Rightarrow> point \<Rightarrow> nat \<Rightarrow> rvalue list option" where
  "rlog_knn_report ops node q k =
     (case get_query_view node of (base, removed_ids, pending) \<Rightarrow>
        (case scan_pending k q pending [] of
           None \<Rightarrow> None
         | Some heap \<Rightarrow>
             map_option (map snd)
               (case base of
                  None \<Rightarrow> Some heap
                | Some b \<Rightarrow> rlog_scan_base k q
                    (rt_nearest ops b (pt_x q, pt_y q) (k mod 2 ^ 32) (is_alive removed_ids)) heap)))"

section \<open>Contents\<close>

lemma rtree_okD:
  assumes "rtree_ok ops"
  shows "mset (rt_values ops (rt_build ops vs)) = mset vs"
    and "mset (rt_query ops t b alive) =
        filter_mset (\<lambda>v. bg_intersects ops (fst v) b \<and> alive v) (mset (rt_values ops t))"
    and "mset (rt_nearest ops t (pt_x q, pt_y q) k alive) \<subseteq># filter_mset alive (mset (rt_values ops t))"
    and "map (\<lambda>v. calc_sqr_dist q (fst v)) (rt_nearest ops t (pt_x q, pt_y q) k alive) =
          smallest k (image_mset (\<lambda>v. calc_sqr_dist q (fst v)) (filter_mset alive (mset (rt_values ops t))))"
  using assms unfolding rtree_ok_def by blast+

lemma rlog_compact_contents:
  assumes "rtree_ok ops" "log_contents (rt_values ops) (Some n) = Some M"
  shows "\<exists>n'. rlog_check_compact ops n p = Some n' \<and> log_contents (rt_values ops) (Some n') = Some M"
proof (cases "needs_compaction p n")
  case True
  obtain base removed pending where v: "get_query_view (Some n) = (base, removed, pending)"
    by (metis prod_cases3)
  with assms(2) obtain b where "base = Some b"
      "M = mset (filter (is_alive removed) (rt_values ops b)) + mset pending"
    by (cases base) (auto simp: log_contents_def)
  with True v show ?thesis
    by (simp add: rlog_check_compact_def Let_def contents_with_base rtree_okD(1) [OF assms(1)])
qed (use assms(2) in \<open>simp add: rlog_check_compact_def\<close>)

lemma rlog_init_contents:
  "rtree_ok ops \<Longrightarrow> log_contents (rt_values ops) (Some (rlog_map_init ops a P)) = Some (mset P)"
  by (simp add: rlog_map_init_def log_contents_def view_cached is_alive_def rtree_okD(1))

lemma rlog_scan_base_holds:
  assumes "heap_holds k M heap" "1 \<le> k" "sorted (map (\<lambda>v. calc_sqr_dist q (fst v)) vs)"
  shows "\<exists>heap'. rlog_scan_base k q vs heap = Some heap' \<and>
     heap_holds k (M + image_mset (\<lambda>v. (calc_sqr_dist q (fst v), v)) (mset vs)) heap'"
  using assms(1,3)
proof (induction vs arbitrary: M heap)
  case (Cons v vs)
  let ?x = "(calc_sqr_dist q (fst v), v)"
  from heap_offer_holds [OF Cons.prems(1) assms(2), of ?x]
  obtain heap' taken where o: "heap_offer k ?x heap = Some (heap', taken)"
    and h: "heap_holds k (add_mset ?x M) heap'"
    and stop: "\<not> taken \<Longrightarrow> heap' = heap \<and> length heap = k \<and> (\<forall>t\<in>set heap. fst t \<le> fst ?x)" by blast
  show ?case
  proof (cases taken)
    case True
    with Cons.IH [OF h] Cons.prems(2) o show ?thesis by simp
  next
    case False
    let ?R = "image_mset (\<lambda>v. (calc_sqr_dist q (fst v), v)) (mset vs)"
    from stop [OF False] have hp: "heap' = heap" "length heap = k" "\<forall>t\<in>set heap. fst t \<le> fst ?x" by blast+
    have S: "rev (map fst heap) = smallest k (image_mset fst (add_mset ?x M))"
      and sub: "mset heap \<subseteq># add_mset ?x M" using h hp(1) by (auto simp: heap_holds_def)
    have len: "length (smallest k (image_mset fst (add_mset ?x M))) = k" unfolding S [symmetric] using hp(2) by simp
    have "last (smallest k (image_mset fst (add_mset ?x M))) \<in> fst ` set heap"
      unfolding S [symmetric] using hp(2) assms(2) by (cases heap) auto
    then have "last (smallest k (image_mset fst (add_mset ?x M))) \<le> calc_sqr_dist q (fst v)" using hp(3) by auto
    then have "\<forall>d\<in>#image_mset fst ?R. last (smallest k (image_mset fst (add_mset ?x M))) \<le> d"
      using Cons.prems(2) by (auto intro: order_trans)
    from smallest_prune [OF len assms(2) this]
    have "heap_holds k (add_mset ?x M + ?R) heap"
      using S sub by (auto simp: heap_holds_def intro: subset_mset.order_trans)
    with o False hp(1) show ?thesis by simp
  qed
qed simp


lemma rlog_knn_holds:
  assumes ok: "rtree_ok ops" and c: "log_contents (rt_values ops) node = Some M" and k: "1 \<le> k" "k < 2 ^ 32"
  shows "\<exists>res. rlog_knn_report ops node q k = Some res \<and> mset res \<subseteq># M \<and>
     rev (map (\<lambda>v. calc_sqr_dist q (fst v)) res) = smallest k (image_mset (\<lambda>v. calc_sqr_dist q (fst v)) M)"
proof -
  let ?d = "\<lambda>v. calc_sqr_dist q (fst v)" and ?p = "\<lambda>v. (calc_sqr_dist q (fst v), v)"
  obtain base removed pending where v: "get_query_view node = (base, removed, pending)"
    by (metis prod_cases3)
  then obtain b where b: "base = Some b"
      and M: "M = filter_mset (is_alive removed) (mset (rt_values ops b)) + mset pending"
    using c by (cases base) (auto simp: log_contents_def)
  let ?N = "rt_nearest ops b (pt_x q, pt_y q) k (is_alive removed)"
    and ?A = "filter_mset (is_alive removed) (mset (rt_values ops b))"
  have sub: "mset ?N \<subseteq># ?A" and near: "map ?d ?N = smallest k (image_mset ?d ?A)"
    using rtree_okD(3,4) [OF ok] by blast+
  obtain heap where h: "scan_pending k q pending [] = Some heap" "heap_holds k (image_mset ?p (mset pending)) heap"
    using scan_pending_holds [OF heap_holds_empty k(1), of q pending] by auto
  have "sorted (map ?d ?N)" unfolding near by simp
  from rlog_scan_base_holds [OF h(2) k(1) this] obtain heap' where
    h': "rlog_scan_base k q ?N heap = Some heap'" "heap_holds k (image_mset ?p (mset pending + mset ?N)) heap'"
    by auto
  have km: "k mod 4294967296 = k" using k(2) by simp
  have res: "rlog_knn_report ops node q k = Some (map snd heap')"
    unfolding rlog_knn_report_def v by (simp add: h(1) b km h'(1))
  have hs: "mset heap' \<subseteq># image_mset ?p (mset pending + mset ?N)" using h'(2) by (simp add: heap_holds_def)
  then have "image_mset snd (mset heap') \<subseteq># image_mset snd (image_mset ?p (mset pending + mset ?N))"
    by (rule image_mset_subseteq_mono)
  then have s1: "mset (map snd heap') \<subseteq># mset pending + mset ?N" by (simp add: multiset.map_comp comp_def)
  also have "\<dots> \<subseteq># M" unfolding M using sub by (simp add: add.commute subset_mset.add_mono)
  finally have "mset (map snd heap') \<subseteq># M" .
  moreover
  have "\<forall>x\<in>set heap'. fst x = ?d (snd x)"
    using mset_subset_eqD [OF hs] by fastforce
  then have m: "map ?d (map snd heap') = map fst heap'" by simp
  moreover have "rev (map fst heap') = smallest k (image_mset ?d (mset pending) + mset (map ?d ?N))"
    using h'(2) by (simp add: heap_holds_def multiset.map_comp comp_def)
  then have "rev (map fst heap') = smallest k (image_mset ?d M)"
    unfolding near smallest_smallest M by (simp add: add.commute)
  then have "rev (map ?d (map snd heap')) = smallest k (image_mset ?d M)" unfolding m .
  ultimately show ?thesis using res by blast
qed

section \<open>Versions refine collections of values\<close>

text \<open>
  C18. A version of the log stands for a collection of values, and the operations
  act on that collection: the first version holds the given values, a deletion
  removes the values with the given ids, an insertion adds the given values
  except those whose id was removed since the last version with an index (these
  are lost), range reports are exact, and a nearest-neighbour report has the
  \<open>k\<close> smallest distances. None of this depends on when the log is compacted, and
  no call fails.
\<close>

theorem rlog_versions_refine:
  assumes "rtree_ok ops" and "log_contents (rt_values ops) (Some n) = Some M" and "1 \<le> k" "k < 2 ^ 32"
  shows "log_contents (rt_values ops) (Some (rlog_map_init ops a P)) = Some (mset P) \<and>
    (\<exists>n'. rlog_map_delete ops a (Some n) D p = Some n' \<and>
       log_contents (rt_values ops) (Some n') = Some (filter_mset (\<lambda>v. snd v \<notin> snd ` set D) M)) \<and>
    (\<exists>n'. rlog_map_insert ops a (Some n) I p = Some n' \<and>
       log_contents (rt_values ops) (Some n') =
         Some (M + filter_mset (\<lambda>v. snd v \<notin> log_removed (Some n)) (mset I))) \<and>
    mset (rlog_range_report ops (Some n) q) =
      filter_mset (\<lambda>v. bg_intersects ops (fst v) (boost_box q)) M \<and>
    (\<exists>res. rlog_knn_report ops (Some n) z k = Some res \<and> mset res \<subseteq># M \<and>
       rev (map (\<lambda>v. calc_sqr_dist z (fst v)) res) = smallest k (image_mset (\<lambda>v. calc_sqr_dist z (fst v)) M))"
proof (intro conjI)
  show "log_contents (rt_values ops) (Some (rlog_map_init ops a P)) = Some (mset P)"
    by (rule rlog_init_contents [OF assms(1)])
  show "\<exists>n'. rlog_map_delete ops a (Some n) D p = Some n' \<and>
       log_contents (rt_values ops) (Some n') = Some (filter_mset (\<lambda>v. snd v \<notin> snd ` set D) M)"
    unfolding rlog_map_delete_def
    by (rule rlog_compact_contents [OF assms(1)]) (simp add: contents_child [OF assms(2)])
  show "\<exists>n'. rlog_map_insert ops a (Some n) I p = Some n' \<and>
       log_contents (rt_values ops) (Some n') =
         Some (M + filter_mset (\<lambda>v. snd v \<notin> log_removed (Some n)) (mset I))"
    unfolding rlog_map_insert_def
    by (rule rlog_compact_contents [OF assms(1)]) (simp add: contents_child [OF assms(2)])
  obtain base removed pending where v: "get_query_view (Some n) = (base, removed, pending)"
    by (metis prod_cases3)
  then obtain b where "base = Some b"
      "M = filter_mset (is_alive removed) (mset (rt_values ops b)) + mset pending"
    using assms(2) by (cases base) (auto simp: log_contents_def)
  with v show "mset (rlog_range_report ops (Some n) q) = filter_mset (\<lambda>v. bg_intersects ops (fst v) (boost_box q)) M"
    by (simp add: rlog_range_report_def rtree_okD(2) [OF assms(1)] filter_filter_mset conj_commute)
  show "\<exists>res. rlog_knn_report ops (Some n) z k = Some res \<and> mset res \<subseteq># M \<and>
       rev (map (\<lambda>v. calc_sqr_dist z (fst v)) res) = smallest k (image_mset (\<lambda>v. calc_sqr_dist z (fst v)) M)"
    by (rule rlog_knn_holds [OF assms(1,2,3,4)])
qed

text \<open>The R-tree as a plain list meets the documented behaviour.\<close>

definition list_rtree :: "rvalue list rtree_ops" where
  "list_rtree = \<lparr>rt_build = (\<lambda>vs. vs), rt_values = (\<lambda>t. t),
     rt_query = (\<lambda>t b alive. filter (\<lambda>v. fst (fst b) \<le> fst (fst v) \<and> fst (fst v) \<le> fst (snd b) \<and>
        snd (fst b) \<le> snd (fst v) \<and> snd (fst v) \<le> snd (snd b) \<and> alive v) t),
     rt_nearest = (\<lambda>t q k alive. take k (sort_key (\<lambda>v. calc_sqr_dist (Point2 (fst q) (snd q)) (fst v)) (filter alive t))),
     bg_intersects = (\<lambda>p b. fst (fst b) \<le> fst p \<and> fst p \<le> fst (snd b) \<and> snd (fst b) \<le> snd p \<and> snd p \<le> snd (snd b))\<rparr>"

lemma list_rtree_ok: "rtree_ok list_rtree"
proof -
  have dist: "calc_sqr_dist (Point2 (pt_x q) (pt_y q)) = calc_sqr_dist q" for q
    by (rule ext) (simp add: calc_sqr_dist_def Let_def)
  have 1: "mset (take k (sort_key f xs)) \<subseteq># mset xs" for k and f :: "rvalue \<Rightarrow> FT" and xs
    by (metis append_take_drop_id mset_append mset_sort mset_subset_eq_add_left)
  have 2: "map f (take k (sort_key f xs)) = smallest k (image_mset f (mset xs))" for k and f :: "rvalue \<Rightarrow> FT" and xs
  proof -
    have "map f (sort_key f xs) = sorted_list_of_multiset (image_mset f (mset xs))"
      by (rule sorted_mset_eqI) (simp_all add: image_mset.compositionality)
    then show ?thesis by (simp add: smallest_def take_map [symmetric])
  qed
  show ?thesis
    unfolding rtree_ok_def list_rtree_def by (simp add: dist 2 1 conj_assoc flip: mset_filter)
qed

theorem rlog_versions_refine_witness:
  "\<exists>n'. rlog_map_insert list_rtree 1 (Some (rlog_map_init list_rtree 0 [((1, 2), 5)])) [((3, 4), 6)] 1 = Some n' \<and>
     log_contents (rt_values list_rtree) (Some n') = Some (mset [((1, 2), 5)] +
       filter_mset (\<lambda>v. snd v \<notin> log_removed (Some (rlog_map_init list_rtree 0 [((1, 2), 5)]))) (mset [((3, 4), 6)]))"
proof -
  have "log_contents (rt_values list_rtree) (Some (rlog_map_init list_rtree 0 [((1, 2), 5)])) = Some (mset [((1, 2), 5)])"
    by (rule rlog_init_contents [OF list_rtree_ok])
  from rlog_versions_refine [OF list_rtree_ok this, of 1] show ?thesis
    by (metis one_le_numeral order_refl one_less_numeral_iff one_less_power semiring_norm(76) zero_less_numeral)
qed

end
