(* ===== verification/LogDiff.thy ===== *)
theory LogDiff
  imports Rlog
begin

text \<open>
  Differences between versions of a log, \<open>map_spatial_diff\<close>. Versions are built
  step by step from a first one; on versions whose history inserts an id at most
  once and removes only what is there, the net effect that the code computes
  from the deltas of the two branches is the difference of the contents.
\<close>

section \<open>Histories\<close>

text \<open>
  \<open>log_version a0 P0 n M U\<close>: the node \<open>n\<close> results from the first version by insertions
  and deletions; it holds \<open>M\<close>, and \<open>U\<close> are the ids its history has used. \<open>V\<close>
  is the value of an id, the same in every branch.
\<close>

inductive log_version ::
  "'rt rtree_ops \<Rightarrow> FT \<Rightarrow> (64 word \<Rightarrow> rvalue) \<Rightarrow> nat \<Rightarrow> rvalue list \<Rightarrow>
   'rt version_node \<Rightarrow> rvalue multiset \<Rightarrow> 64 word set \<Rightarrow> bool"
  for ops p V a0 P0 where
  first: "log_version ops p V a0 P0 (rlog_map_init ops a0 P0) (mset P0) (snd ` set P0)"
    if "distinct (map snd P0)" and "\<forall>v\<in>set P0. v = V (snd v)"
| inserted: "log_version ops p V a0 P0 n' (M + mset I) (U \<union> snd ` set I)"
    if "log_version ops p V a0 P0 n M U" and "distinct (map snd I)" and "snd ` set I \<inter> U = {}"
      and "\<forall>v\<in>set I. v = V (snd v)" and "rlog_map_insert ops a (Some n) I p = Some n'"
| deleted: "log_version ops p V a0 P0 n' (filter_mset (\<lambda>v. snd v \<notin> snd ` set D) M) U"
    if "log_version ops p V a0 P0 n M U" and "distinct (map snd D)" and "set D \<subseteq> set_mset M"
      and "rlog_map_delete ops a (Some n) D p = Some n'"

fun ancestors :: "'b version_node option \<Rightarrow> 'b version_node list" where
  "ancestors None = []"
| "ancestors (Some (VersionNode a p d ins rem b l s)) = VersionNode a p d ins rem b l s # ancestors p"

lemma ancestors_Some: "ancestors (Some n) = n # ancestors (vparent n)"
  by (cases n) simp

definition log_depth :: "'b version_node \<Rightarrow> nat" where
  "log_depth n = length (ancestors (vparent n))"

lemma compact_keeps:
  "rlog_check_compact ops n p = Some n' \<Longrightarrow>
     vaddr n' = vaddr n \<and> vparent n' = vparent n \<and> vdepth n' = vdepth n \<and>
     delta_inserts n' = delta_inserts n \<and> delta_removes n' = delta_removes n"
  by (auto simp: rlog_check_compact_def with_base_def Let_def split: if_splits prod.splits option.splits)

lemma insert_keeps:
  "rlog_map_insert ops a (Some n) I p = Some n' \<Longrightarrow>
     vparent n' = Some n \<and> vdepth n' = vdepth n + 1 \<and> delta_inserts n' = I \<and> delta_removes n' = []"
  unfolding rlog_map_insert_def by (drule compact_keeps) (simp add: child_node_def)

lemma delete_keeps:
  "rlog_map_delete ops a (Some n) D p = Some n' \<Longrightarrow>
     vparent n' = Some n \<and> vdepth n' = vdepth n + 1 \<and> delta_inserts n' = [] \<and> delta_removes n' = D"
  unfolding rlog_map_delete_def by (drule compact_keeps) (simp add: child_node_def)

lemma compact_contents:
  "rtree_ok ops \<Longrightarrow> rlog_check_compact ops n p = Some n' \<Longrightarrow>
   log_contents (rt_values ops) (Some n) = Some M \<Longrightarrow> log_contents (rt_values ops) (Some n') = Some M"
  using rlog_compact_contents [of ops n M p] by auto

lemma compact_removed:
  "rlog_check_compact ops n p = Some n' \<Longrightarrow> log_removed (Some n') \<subseteq> log_removed (Some n)"
  by (auto simp: rlog_check_compact_def Let_def log_removed_def view_cached with_base_def
      split: if_splits prod.splits option.splits)

lemma child_removed:
  "log_removed (Some (child_node a (Some n) ins rem k)) = log_removed (Some n) \<union> snd ` set rem"
  by (cases "get_query_view (Some n)") (simp add: log_removed_def view_child)

lemma version_facts:
  assumes "log_version ops p V a0 P0 n M U" and ok: "rtree_ok ops"
  shows "log_contents (rt_values ops) (Some n) = Some M \<and> snd ` set_mset M \<subseteq> U \<and>
     log_removed (Some n) \<subseteq> U \<and> (\<forall>v\<in>#M. v = V (snd v)) \<and> vdepth n = of_nat (log_depth n)"
  using assms(1)
proof induction
  case first
  then show ?case
    by (simp add: rlog_init_contents [OF ok] log_depth_def)
      (simp add: rlog_map_init_def log_removed_def view_cached)
next
  case (inserted n M U I a n')
  have "log_contents (rt_values ops) (Some (child_node a (Some n) I [] (length I))) = Some (M + mset I)"
  proof -
    have "filter (\<lambda>v. snd v \<notin> log_removed (Some n)) I = I"
      using inserted.IH inserted.hyps(3) by (intro filter_True) auto
    then have "filter_mset (\<lambda>v. snd v \<notin> log_removed (Some n)) (mset I) = mset I" by (metis mset_filter)
    with inserted.IH show ?thesis by (simp add: contents_child)
  qed
  from compact_contents [OF ok inserted.hyps(5) [unfolded rlog_map_insert_def] this]
    compact_removed [OF inserted.hyps(5) [unfolded rlog_map_insert_def]]
    insert_keeps [OF inserted.hyps(5)] inserted.hyps(4) inserted.IH
  show ?case
    by (simp add: child_removed ancestors_Some log_depth_def) blast
next
  case (deleted n M U D a n')
  have "log_contents (rt_values ops) (Some (child_node a (Some n) [] D (length D))) =
      Some (filter_mset (\<lambda>v. snd v \<notin> snd ` set D) M)"
    using deleted.IH by (simp add: contents_child)
  from compact_contents [OF ok deleted.hyps(4) [unfolded rlog_map_delete_def] this]
    compact_removed [OF deleted.hyps(4) [unfolded rlog_map_delete_def]]
    delete_keeps [OF deleted.hyps(4)] deleted.hyps(3) deleted.IH
  show ?case
    by (simp add: child_removed ancestors_Some log_depth_def) blast
qed


section \<open>The events of a branch\<close>

text \<open>The deltas of a node, in the order in which a branch is traced: \<open>True\<close> for an insertion.\<close>

definition node_events :: "'b version_node \<Rightarrow> (bool \<times> rvalue) list" where
  "node_events n = map (Pair False) (delta_removes n) @ map (Pair True) (delta_inserts n)"

definition trace_event :: "bool \<times> rvalue \<Rightarrow> trace \<Rightarrow> trace" where
  "trace_event e = (if fst e then trace_insert (snd e) else trace_remove (snd e))"

definition event_id :: "bool \<times> rvalue \<Rightarrow> 64 word" where
  "event_id e = snd (snd e)"

definition state_step :: "bool \<Rightarrow> int option \<Rightarrow> int option" where
  "state_step ins s =
     (if ins then (if s = None then Some 1 else if s = Some (- 1) then Some 0 else s)
      else (if s = None then Some (- 1) else s))"

definition branch_events :: "nat option \<Rightarrow> 'b version_node option \<Rightarrow> (bool \<times> rvalue) list" where
  "branch_events lca v = concat (map node_events (takeWhile (\<lambda>n. lca \<noteq> Some (vaddr n)) (ancestors v)))"

lemma trace_branch_events: "trace_branch lca v t = fold trace_event (branch_events lca v) t"
proof (induction lca v t rule: trace_branch.induct)
  case (2 lca a p d ins rem b l s t)
  have "fold trace_event (node_events (VersionNode a p d ins rem b l s)) t =
      fold trace_insert ins (fold trace_remove rem t)"
    by (simp add: node_events_def fold_map trace_event_def comp_def)
  with 2 show ?case by (simp add: branch_events_def)
qed (simp add: branch_events_def)

lemma trace_event_parts:
  "fst (trace_event e t) i = (if event_id e = i then state_step (fst e) (fst t i) else fst t i)"
  "snd (trace_event e t) = AList.update (event_id e) (snd e) (snd t)"
  by (cases t; auto simp: trace_event_def trace_insert_def trace_remove_def state_step_def event_id_def)+

lemma trace_state_events:
  "fst (fold trace_event es t) i = fold state_step (map fst (filter (\<lambda>e. event_id e = i) es)) (fst t i)"
  by (induction es arbitrary: t) (simp_all add: trace_event_parts)

lemma trace_values_events:
  assumes "\<forall>e\<in>set es. snd e = V (event_id e)"
    and "distinct (map fst (snd t))" and "\<forall>kv\<in>set (snd t). snd kv = V (fst kv)"
  shows "distinct (map fst (snd (fold trace_event es t))) \<and>
    (\<forall>kv\<in>set (snd (fold trace_event es t)). snd kv = V (fst kv)) \<and>
    fst ` set (snd (fold trace_event es t)) = fst ` set (snd t) \<union> event_id ` set es"
  using assms
proof (induction es arbitrary: t)
  case (Cons e es)
  let ?t = "trace_event e t"
  have d: "distinct (map fst (snd ?t))"
    using Cons.prems(2) by (simp add: trace_event_parts distinct_update)
  have v: "\<forall>kv\<in>set (snd ?t). snd kv = V (fst kv)"
  proof
    fix kv assume kv: "kv \<in> set (snd ?t)"
    then have "map_of (snd ?t) (fst kv) = Some (snd kv)" using d by simp
    then have "((map_of (snd t))(event_id e \<mapsto> snd e)) (fst kv) = Some (snd kv)"
      by (simp add: trace_event_parts update_conv')
    then show "snd kv = V (fst kv)"
      using Cons.prems by (auto split: if_splits dest!: map_of_SomeD)
  qed
  have k: "fst ` set (snd ?t) = insert (event_id e) (fst ` set (snd t))"
    by (simp add: trace_event_parts update_conv' flip: dom_map_of_conv_image_fst)
  from Cons.IH [OF _ d v] Cons.prems(1) k show ?case by auto
qed simp


section \<open>Net effect of a branch\<close>

definition net_effect :: "(bool \<times> rvalue) list \<Rightarrow> 64 word \<Rightarrow> int" where
  "net_effect es i =
     (case fold state_step (map fst (filter (\<lambda>e. event_id e = i) es)) None of None \<Rightarrow> 0 | Some s \<Rightarrow> s)"

text \<open>
  What the history allows for one id on a branch, newest first: nothing, one
  insertion of a new id, one removal of a present id, or an insertion followed by
  the removal. \<open>A\<close> and \<open>B\<close> are the ids before and after.
\<close>

definition pattern :: "64 word \<Rightarrow> (bool \<times> rvalue) list \<Rightarrow> bool list" where
  "pattern i es = map fst (filter (\<lambda>e. event_id e = i) es)"

fun allowed :: "bool \<Rightarrow> bool list \<Rightarrow> bool \<Rightarrow> bool" where
  "allowed a [] b \<longleftrightarrow> (a \<longleftrightarrow> b)"
| "allowed a [True] b \<longleftrightarrow> \<not> a \<and> b"
| "allowed a [False] b \<longleftrightarrow> a \<and> \<not> b"
| "allowed a [False, True] b \<longleftrightarrow> \<not> a \<and> \<not> b"
| "allowed a _ b \<longleftrightarrow> False"

definition orderly :: "64 word set \<Rightarrow> (bool \<times> rvalue) list \<Rightarrow> 64 word set \<Rightarrow> bool" where
  "orderly A es B \<longleftrightarrow> (\<forall>i. allowed (i \<in> A) (pattern i es) (i \<in> B))"

lemma allowed_net:
  "allowed a bs b \<Longrightarrow>
   (case fold state_step bs None of None \<Rightarrow> 0 | Some s \<Rightarrow> s) = (of_bool b - of_bool a :: int)"
  by (induction a bs b rule: allowed.induct) (auto simp: state_step_def)

lemma orderly_net: "orderly A es B \<Longrightarrow> net_effect es i = of_bool (i \<in> B) - of_bool (i \<in> A)"
  unfolding net_effect_def orderly_def pattern_def by (rule allowed_net) blast

lemma orderly_Nil [simp]: "orderly A [] A"
  by (simp add: orderly_def pattern_def)

lemma pattern_append [simp]: "pattern i (es @ es') = pattern i es @ pattern i es'"
  by (simp add: pattern_def)

lemma pattern_node:
  assumes "distinct (map snd vs)"
  shows "pattern i (map (Pair b) vs) = (if i \<in> snd ` set vs then [b] else [])"
  using assms by (induction vs) (auto simp: pattern_def event_id_def image_iff)

lemma orderly_insert:
  assumes "orderly A es B" "event_id ` set es \<subseteq> U" "A \<subseteq> U" "distinct (map snd I)" "snd ` set I \<inter> U = {}"
  shows "orderly A (map (Pair True) I @ es) (B \<union> snd ` set I)"
  unfolding orderly_def
proof
  fix i
  have "pattern i es = []" if "i \<in> snd ` set I"
    using that assms(2,5) by (auto simp: pattern_def filter_empty_conv)
  moreover have "i \<notin> A" if "i \<in> snd ` set I" using that assms(3,5) by auto
  ultimately show "allowed (i \<in> A) (pattern i (map (Pair True) I @ es)) (i \<in> B \<union> snd ` set I)"
    using assms(1) unfolding orderly_def pattern_append pattern_node [OF assms(4)]
    by (cases "i \<in> snd ` set I") auto
qed

lemma allowed_remove: "allowed a bs True \<Longrightarrow> allowed a (False # bs) False"
  by (induction a bs True rule: allowed.induct) auto

lemma orderly_delete:
  assumes "orderly A es B" "distinct (map snd D)" "snd ` set D \<subseteq> B"
  shows "orderly A (map (Pair False) D @ es) (B - snd ` set D)"
  unfolding orderly_def
proof
  fix i
  have now: "allowed (i \<in> A) (pattern i es) (i \<in> B)" using assms(1) unfolding orderly_def by blast
  show "allowed (i \<in> A) (pattern i (map (Pair False) D @ es)) (i \<in> B - snd ` set D)"
  proof (cases "i \<in> snd ` set D")
    case True
    then have "i \<in> B" using assms(3) by blast
    with now have "allowed (i \<in> A) (False # pattern i es) False" by (intro allowed_remove) simp
    with True show ?thesis unfolding pattern_append pattern_node [OF assms(2)] by simp
  next
    case False
    with now show ?thesis unfolding pattern_append pattern_node [OF assms(2)] by simp
  qed
qed

definition ids :: "rvalue multiset \<Rightarrow> 64 word set" where
  "ids M = snd ` set_mset M"

text \<open>The branch from an ancestor \<open>m\<close> with contents \<open>Mm\<close> to a version with contents \<open>M\<close>.\<close>

definition branch ::
  "(64 word \<Rightarrow> rvalue) \<Rightarrow> 'b version_node \<Rightarrow> rvalue multiset \<Rightarrow> 'b version_node \<Rightarrow> rvalue multiset \<Rightarrow>
   64 word set \<Rightarrow> 'b version_node list \<Rightarrow> bool" where
  "branch V m Mm v M U path \<longleftrightarrow>
     ancestors (Some v) = path @ ancestors (Some m) \<and> m \<notin> set path \<and> ids Mm \<subseteq> U \<and>
     event_id ` set (concat (map node_events path)) \<subseteq> U \<and>
     (\<forall>e\<in>set (concat (map node_events path)). snd e = V (event_id e)) \<and>
     orderly (ids Mm) (concat (map node_events path)) (ids M)"

lemma branch_start: "ids M \<subseteq> U \<Longrightarrow> branch V m M m M U []"
  by (simp add: branch_def)

lemma branch_step:
  assumes "branch V m Mm n M U path" "vparent n' = Some n" "m \<noteq> n'" "U \<subseteq> U'"
    and "event_id ` set (node_events n') \<subseteq> U'" "\<forall>e\<in>set (node_events n'). snd e = V (event_id e)"
    and "orderly (ids Mm) (node_events n' @ concat (map node_events path)) (ids M')"
  shows "branch V m Mm n' M' U' (n' # path)"
  using assms unfolding branch_def by (simp add: ancestors_Some [of n'] image_Un) blast

lemma branch_exists:
  assumes "log_version ops p V a0 P0 v M U" and ok: "rtree_ok ops" and "m \<in> set (ancestors (Some v))"
  shows "\<exists>path Mm. branch V m Mm v M U path \<and> log_contents (rt_values ops) (Some m) = Some Mm"
  using assms(1,3)
proof induction
  case first
  have "ancestors (Some (rlog_map_init ops a0 P0)) = [rlog_map_init ops a0 P0]"
    by (simp add: rlog_map_init_def)
  with first.prems have "m = rlog_map_init ops a0 P0" by simp
  moreover have "branch V m (mset P0) m (mset P0) (snd ` set P0) []"
    by (rule branch_start) (simp add: ids_def)
  ultimately show ?case using rlog_init_contents [OF ok] by blast
next
  case (inserted n M U I a n')
  note k = insert_keeps [OF inserted.hyps(5)]
  have v: "log_version ops p V a0 P0 n' (M + mset I) (U \<union> snd ` set I)"
    by (rule log_version.inserted [OF inserted.hyps(1-5)])
  show ?case
  proof (cases "m = n'")
    case True
    moreover have "branch V n' (M + mset I) n' (M + mset I) (U \<union> snd ` set I) []"
      by (rule branch_start) (use version_facts [OF v ok] in \<open>simp add: ids_def\<close>)
    ultimately show ?thesis using version_facts [OF v ok] by blast
  next
    case False
    then have "m \<in> set (ancestors (Some n))" using inserted.prems k by (simp add: ancestors_Some [of n'])
    from inserted.IH [OF this] obtain path Mm where
      b: "branch V m Mm n M U path" and Mm: "log_contents (rt_values ops) (Some m) = Some Mm" by blast
    have ne: "node_events n' = map (Pair True) I" using k by (simp add: node_events_def)
    have i: "ids (M + mset I) = ids M \<union> snd ` set I" by (simp add: ids_def image_Un)
    have "orderly (ids Mm) (map (Pair True) I @ concat (map node_events path)) (ids M \<union> snd ` set I)"
      by (rule orderly_insert) (use b inserted.hyps(2,3) in \<open>auto simp: branch_def\<close>)
    then have "branch V m Mm n' (M + mset I) (U \<union> snd ` set I) (n' # path)"
      by (intro branch_step [OF b]) (use k False inserted.hyps(4) in \<open>auto simp: ne i event_id_def\<close>)
    with Mm show ?thesis by blast
  qed
next
  case (deleted n M U D a n')
  note k = delete_keeps [OF deleted.hyps(4)]
  let ?M' = "filter_mset (\<lambda>v. snd v \<notin> snd ` set D) M"
  have v: "log_version ops p V a0 P0 n' ?M' U" by (rule log_version.deleted [OF deleted.hyps(1-4)])
  show ?case
  proof (cases "m = n'")
    case True
    moreover have "branch V n' ?M' n' ?M' U []"
      by (rule branch_start) (use version_facts [OF v ok] in \<open>auto simp add: ids_def\<close>)
    ultimately show ?thesis using version_facts [OF v ok] by blast
  next
    case False
    then have "m \<in> set (ancestors (Some n))" using deleted.prems k by (simp add: ancestors_Some [of n'])
    from deleted.IH [OF this] obtain path Mm where
      b: "branch V m Mm n M U path" and Mm: "log_contents (rt_values ops) (Some m) = Some Mm" by blast
    have ne: "node_events n' = map (Pair False) D" using k by (simp add: node_events_def)
    have sub: "snd ` set D \<subseteq> ids M" using deleted.hyps(3) by (auto simp: ids_def)
    have i: "ids ?M' = ids M - snd ` set D" by (auto simp: ids_def)
    have D: "\<forall>v\<in>set D. v = V (snd v)" "snd ` set D \<subseteq> U"
      using version_facts [OF deleted.hyps(1) ok] deleted.hyps(3) by auto
    have "orderly (ids Mm) (map (Pair False) D @ concat (map node_events path)) (ids M - snd ` set D)"
      by (rule orderly_delete) (use b deleted.hyps(2) sub in \<open>auto simp: branch_def\<close>)
    then have "branch V m Mm n' ?M' U (n' # path)"
      by (intro branch_step [OF b]) (use k False D in \<open>auto simp: ne i event_id_def\<close>)
    with Mm show ?thesis by blast
  qed
qed


section \<open>The common ancestor\<close>

lemma ancestors_trans: "w \<in> set (ancestors v) \<Longrightarrow> m \<in> set (ancestors (Some w)) \<Longrightarrow> m \<in> set (ancestors v)"
proof (induction v rule: ancestors.induct)
  case (2 a p d ins rem b l s)
  then show ?case by (auto simp: ancestors_Some)
qed simp

lemma log_depth_parent: "vparent n' = Some n \<Longrightarrow> log_depth n' = Suc (log_depth n)"
  by (simp add: log_depth_def ancestors_Some)

lemma lift_above_Some:
  "lift_above k (Some n) = (if vdepth n > k then lift_above k (vparent n) else Some n)"
  by (cases n) simp

lemma meet_up_Some:
  "meet_up (Some n) (Some n') = (if vaddr n = vaddr n' then Some n else meet_up (vparent n) (vparent n'))"
  by (cases n; cases n') simp

lemma version_parent:
  assumes "log_version ops p V a0 P0 n' M U"
  shows "(n' = rlog_map_init ops a0 P0 \<and> log_depth n' = 0) \<or>
    (\<exists>n Mn Wn. vparent n' = Some n \<and> log_depth n' = Suc (log_depth n) \<and> log_version ops p V a0 P0 n Mn Wn)"
  using assms
proof cases
  case first
  then show ?thesis by (simp add: rlog_map_init_def log_depth_def)
next
  case (inserted n M U I a)
  with insert_keeps [OF inserted(7)] log_depth_parent show ?thesis by blast
next
  case (deleted n M D a)
  with delete_keeps [OF deleted(5)] log_depth_parent show ?thesis by blast
qed

lemma of_nat_less_64: "i < 2 ^ 64 \<Longrightarrow> j < 2 ^ 64 \<Longrightarrow> (of_nat i < (of_nat j :: 64 word)) \<longleftrightarrow> i < j"
  by (simp add: word_less_nat_alt unat_of_nat take_bit_nat_eq_self)

lemma lift_reaches:
  assumes ok: "rtree_ok ops" and "k < 2 ^ 64"
  shows "log_version ops p V a0 P0 v M U \<Longrightarrow> log_depth v < 2 ^ 64 \<Longrightarrow>
    \<exists>w Mw Uw. lift_above (of_nat k) (Some v) = Some w \<and> w \<in> set (ancestors (Some v)) \<and>
     log_depth w = min k (log_depth v) \<and> log_version ops p V a0 P0 w Mw Uw"
proof (induction "log_depth v" arbitrary: v M U rule: less_induct)
  case less
  have d: "vdepth v = of_nat (log_depth v)" using version_facts [OF less.prems(1) ok] by blast
  show ?case
  proof (cases "k < log_depth v")
    case False
    then have "lift_above (of_nat k) (Some v) = Some v"
      using of_nat_less_64 [OF assms(2) less.prems(2)] by (simp add: lift_above_Some d)
    with False less.prems(1) show ?thesis by (auto simp: ancestors_Some min_def)
  next
    case True
    then obtain n Mn Wn where n: "vparent v = Some n" "log_depth v = Suc (log_depth n)" "log_version ops p V a0 P0 n Mn Wn"
      using version_parent [OF less.prems(1)] by auto
    have "lift_above (of_nat k) (Some v) = lift_above (of_nat k) (Some n)"
      using True of_nat_less_64 [OF assms(2) less.prems(2)] n(1) by (simp add: lift_above_Some [of _ v] d)
    moreover obtain w Mw Uw where "lift_above (of_nat k) (Some n) = Some w" "w \<in> set (ancestors (Some n))"
        "log_depth w = min k (log_depth n)" "log_version ops p V a0 P0 w Mw Uw"
      using less.hyps [OF _ n(3)] n(2) less.prems(2) by auto
    ultimately show ?thesis using True n by (auto simp: ancestors_Some [of v])
  qed
qed

lemma meet_reaches:
  "log_version ops p V a0 P0 v1 M1 U1 \<Longrightarrow> log_version ops p V a0 P0 v2 M2 U2 \<Longrightarrow> log_depth v1 = log_depth v2 \<Longrightarrow>
   \<forall>x\<in>set (ancestors (Some v1)). \<forall>y\<in>set (ancestors (Some v2)). vaddr x = vaddr y \<longrightarrow> x = y \<Longrightarrow>
   \<exists>m. meet_up (Some v1) (Some v2) = Some m \<and> m \<in> set (ancestors (Some v1)) \<and> m \<in> set (ancestors (Some v2))"
proof (induction "log_depth v1" arbitrary: v1 M1 U1 v2 M2 U2 rule: less_induct)
  case less
  show ?case
  proof (cases "vaddr v1 = vaddr v2")
    case True
    then have "v1 = v2" using less.prems(4) by (simp add: ancestors_Some)
    then show ?thesis by (simp add: meet_up_Some ancestors_Some)
  next
    case False
    then have "log_depth v1 \<noteq> 0"
      using version_parent [OF less.prems(1)] version_parent [OF less.prems(2)] less.prems(3) by auto
    then obtain n1 N1 W1 n2 N2 W2 where
      n1: "vparent v1 = Some n1" "log_depth v1 = Suc (log_depth n1)" "log_version ops p V a0 P0 n1 N1 W1" and
      n2: "vparent v2 = Some n2" "log_depth v2 = Suc (log_depth n2)" "log_version ops p V a0 P0 n2 N2 W2"
      using version_parent [OF less.prems(1)] version_parent [OF less.prems(2)] less.prems(3) by auto
    have "\<exists>m. meet_up (Some n1) (Some n2) = Some m \<and> m \<in> set (ancestors (Some n1)) \<and> m \<in> set (ancestors (Some n2))"
      by (rule less.hyps [OF _ n1(3) n2(3)])
        (use n1 n2 less.prems(3,4) in \<open>auto simp: ancestors_Some [of v1] ancestors_Some [of v2]\<close>)
    then show ?thesis
      using False n1(1) n2(1) by (auto simp: meet_up_Some [of v1 v2] ancestors_Some [of v1] ancestors_Some [of v2])
  qed
qed

lemma version_lca_common:
  assumes ok: "rtree_ok ops" and v: "log_version ops p V a0 P0 v1 M1 U1" "log_version ops p V a0 P0 v2 M2 U2"
    and d: "log_depth v1 < 2 ^ 64" "log_depth v2 < 2 ^ 64"
    and u: "\<forall>x\<in>set (ancestors (Some v1)). \<forall>y\<in>set (ancestors (Some v2)). vaddr x = vaddr y \<longrightarrow> x = y"
  shows "\<exists>m. version_lca v1 v2 = Some m \<and> m \<in> set (ancestors (Some v1)) \<and> m \<in> set (ancestors (Some v2))"
proof -
  have v2d: "vdepth v2 = of_nat (log_depth v2)" using version_facts [OF v(2) ok] by blast
  obtain w1 N1 W1 where w1: "lift_above (vdepth v2) (Some v1) = Some w1" "w1 \<in> set (ancestors (Some v1))"
      "log_depth w1 = min (log_depth v2) (log_depth v1)" "log_version ops p V a0 P0 w1 N1 W1"
    unfolding v2d using lift_reaches [OF ok d(2) v(1) d(1)] by blast
  have w1d: "vdepth w1 = of_nat (log_depth w1)" using version_facts [OF w1(4) ok] by blast
  have "log_depth w1 < 2 ^ 64" using w1(3) d by simp
  from lift_reaches [OF ok this v(2) d(2)] obtain w2 N2 W2 where
      w2: "lift_above (vdepth w1) (Some v2) = Some w2" "w2 \<in> set (ancestors (Some v2))"
      "log_depth w2 = min (log_depth w1) (log_depth v2)" "log_version ops p V a0 P0 w2 N2 W2"
    unfolding w1d by blast
  have "log_depth w1 = log_depth w2" using w1(3) w2(3) by simp
  moreover have "\<forall>x\<in>set (ancestors (Some w1)). \<forall>y\<in>set (ancestors (Some w2)). vaddr x = vaddr y \<longrightarrow> x = y"
    using u ancestors_trans [OF w1(2)] ancestors_trans [OF w2(2)] by blast
  ultimately obtain m where "meet_up (Some w1) (Some w2) = Some m"
      "m \<in> set (ancestors (Some w1))" "m \<in> set (ancestors (Some w2))"
    using meet_reaches [OF w1(4) w2(4)] by blast
  then show ?thesis
    using w1(1,2) w2(1,2) ancestors_trans unfolding version_lca_def by (simp add: Let_def) blast
qed

section \<open>The difference of two versions\<close>

lemma branch_events_path:
  assumes "branch V m Mm v M U path" and "\<forall>x\<in>set path. vaddr x \<noteq> vaddr m"
  shows "branch_events (Some (vaddr m)) (Some v) = concat (map node_events path)"
proof -
  have "ancestors (Some v) = path @ m # ancestors (vparent m)"
    using assms(1) by (simp add: branch_def ancestors_Some)
  moreover have "takeWhile (\<lambda>n. Some (vaddr m) \<noteq> Some (vaddr n)) (path @ m # xs) = path" for xs
    using assms(2) by (subst takeWhile_append2) auto
  ultimately have "takeWhile (\<lambda>n. Some (vaddr m) \<noteq> Some (vaddr n)) (ancestors (Some v)) = path" by simp
  then show ?thesis by (simp only: branch_events_def)
qed

lemma net_effect_outside: "i \<notin> event_id ` set es \<Longrightarrow> net_effect es i = 0"
proof -
  assume "i \<notin> event_id ` set es"
  then have "filter (\<lambda>e. event_id e = i) es = []" by (auto simp: filter_empty_conv)
  then show ?thesis by (simp add: net_effect_def)
qed

lemma diff_side:
  fixes kvs :: "(64 word \<times> rvalue) list"
  assumes d: "distinct (map fst kvs)" and v: "\<forall>kv\<in>set kvs. snd kv = V (fst kv)"
    and M: "\<forall>v\<in>#M. v = V (snd v)"
    and keep: "\<And>i. keep i \<longleftrightarrow> i \<in> ids M - ids N" and cover: "ids M - ids N \<subseteq> fst ` set kvs"
  shows "set (map snd (filter (\<lambda>kv. keep (fst kv)) (filter (\<lambda>kv. hit (fst (snd kv))) kvs))) =
      {w. w \<in># M \<and> snd w \<notin> ids N \<and> hit (fst w)} \<and>
    distinct (map snd (filter (\<lambda>kv. keep (fst kv)) (filter (\<lambda>kv. hit (fst (snd kv))) kvs)))"
proof -
  let ?L = "filter (\<lambda>kv. keep (fst kv)) (filter (\<lambda>kv. hit (fst (snd kv))) kvs)"
  have own: "snd (V i) = i" "V i \<in># M" if "i \<in> ids M" for i
  proof -
    from \<open>i \<in> ids M\<close> obtain w where w: "w \<in># M" "i = snd w" unfolding ids_def by blast
    then have "w = V i" using M by blast
    with w show "snd (V i) = i" "V i \<in># M" by metis+
  qed
  have inj: "snd (snd kv) = fst kv" if "kv \<in> set ?L" for kv
    using that v own(1) keep by auto
  have "set (map snd ?L) = {w. w \<in># M \<and> snd w \<notin> ids N \<and> hit (fst w)}" (is "?l = ?r")
  proof
    show "?l \<subseteq> ?r"
    proof
      fix w assume "w \<in> ?l"
      then obtain kv where kv: "kv \<in> set ?L" "w = snd kv" unfolding set_map by blast
      then have k: "fst kv \<in> ids M" "fst kv \<notin> ids N" "hit (fst w)" using keep by simp_all
      have "w = V (fst kv)" using kv v by simp
      with k own [OF k(1)] show "w \<in> ?r" by simp
    qed
    show "?r \<subseteq> ?l"
    proof
      fix w assume w: "w \<in> ?r"
      then have wV: "w = V (snd w)" using M by blast
      have i: "snd w \<notin> ids N" and h: "hit (fst w)" using w by blast+
      have "w \<in># M" using w by (elim CollectE conjE)
      then have "snd w \<in> ids M" unfolding ids_def by (rule imageI)
      then have "snd w \<in> fst ` set kvs" by (intro subsetD [OF cover] DiffI i)
      then obtain kv where kv: "kv \<in> set kvs" "fst kv = snd w" by (elim imageE) simp
      then have "snd kv = V (snd w)" using v by metis
      then have "snd kv = w" by (rule trans [OF _ wV [symmetric]])
      with kv i h \<open>snd w \<in> ids M\<close> have "kv \<in> set ?L" using keep by simp
      with \<open>snd kv = w\<close> show "w \<in> ?l" unfolding set_map by blast
    qed
  qed
  moreover have "distinct (map fst ?L)" using d by (simp add: distinct_map_filter)
  then have "distinct (map (\<lambda>kv. snd (snd kv)) ?L)"
    using inj by (metis (no_types, lifting) map_cong)
  then have "distinct (map snd (map snd ?L))" by (simp only: map_map comp_def)
  then have "distinct (map snd ?L)" by (simp only: distinct_map)
  ultimately show ?thesis by blast
qed

text \<open>
  C19. \<open>map_spatial_diff\<close> is exact on logs without updates and without reuse of ids:
  between two versions of one tree of versions (\<open>log_version\<close>) in which a branch never inserts an id
  that its history has used, a deletion names only values that are present, an id has one value in
  all branches, and addresses of nodes are unique, the added values are those of the second
  version inside the box whose id is not in the first, each once, and the removed ones the
  other way round, although only the deltas above the common ancestor are read.
\<close>

theorem log_diff_exact:
  assumes ok: "rtree_ok ops"
    and v1: "log_version ops p V a0 P0 v1 M1 U1" and v2: "log_version ops p V a0 P0 v2 M2 U2"
    and d: "log_depth v1 < 2 ^ 64" "log_depth v2 < 2 ^ 64"
    and u: "\<forall>x\<in>set (ancestors (Some v1) @ ancestors (Some v2)).
       \<forall>y\<in>set (ancestors (Some v1) @ ancestors (Some v2)). vaddr x = vaddr y \<longrightarrow> x = y"
  shows "set (fst (log_spatial_diff isect v1 v2 q)) =
      {w. w \<in># M2 \<and> snd w \<notin> ids M1 \<and> isect (fst w) (boost_box q)} \<and>
    set (snd (log_spatial_diff isect v1 v2 q)) =
      {w. w \<in># M1 \<and> snd w \<notin> ids M2 \<and> isect (fst w) (boost_box q)} \<and>
    distinct (fst (log_spatial_diff isect v1 v2 q)) \<and> distinct (snd (log_spatial_diff isect v1 v2 q))"
proof (cases "vaddr v1 = vaddr v2")
  case True
  have "v1 = v2" by (rule u [rule_format, OF _ _ True]) (simp_all add: ancestors_Some)
  then have M: "M1 = M2" using version_facts [OF v1 ok] version_facts [OF v2 ok] by simp
  have "log_spatial_diff isect v1 v2 q = ([], [])" using True by (simp add: log_spatial_diff_def)
  moreover have "{w. w \<in># M \<and> snd w \<notin> ids M \<and> isect (fst w) (boost_box q)} = {}" for M
    unfolding ids_def by blast
  ultimately show ?thesis by (simp add: M)
next
  case False
  obtain m where lca: "version_lca v1 v2 = Some m"
    and m: "m \<in> set (ancestors (Some v1))" "m \<in> set (ancestors (Some v2))"
    using version_lca_common [OF ok v1 v2 d] u by auto
  obtain path1 Mm where b1: "branch V m Mm v1 M1 U1 path1" and c: "log_contents (rt_values ops) (Some m) = Some Mm"
    using branch_exists [OF v1 ok m(1)] by blast
  obtain path2 where b2: "branch V m Mm v2 M2 U2 path2"
    using branch_exists [OF v2 ok m(2)] c by auto
  define es1 es2 where es: "es1 = concat (map node_events path1)" "es2 = concat (map node_events path2)"
  have "vaddr x \<noteq> vaddr m" if "x \<in> set path1 \<or> x \<in> set path2" for x
  proof
    assume "vaddr x = vaddr m"
    moreover have "x \<in> set (ancestors (Some v1) @ ancestors (Some v2))"
      using that b1 b2 by (auto simp: branch_def)
    ultimately have "x = m" using u m(1) by auto
    then show False using that b1 b2 by (auto simp: branch_def)
  qed
  then have ev: "branch_events (Some (vaddr m)) (Some v1) = es1" "branch_events (Some (vaddr m)) (Some v2) = es2"
    using branch_events_path [OF b1] branch_events_path [OF b2] es by auto
  define t1 where "t1 = fold trace_event es1 (Map.empty, [])"
  define t2 where "t2 = fold trace_event es2 (Map.empty, snd t1)"
  have vals1: "distinct (map fst (snd t1)) \<and> (\<forall>kv\<in>set (snd t1). snd kv = V (fst kv)) \<and>
      fst ` set (snd t1) = event_id ` set es1"
    using trace_values_events [of es1 V "(Map.empty, [])"] b1 unfolding t1_def es branch_def by auto
  have vals2: "distinct (map fst (snd t2)) \<and> (\<forall>kv\<in>set (snd t2). snd kv = V (fst kv)) \<and>
      fst ` set (snd t2) = event_id ` set es1 \<union> event_id ` set es2"
    using trace_values_events [of es2 V "(Map.empty, snd t1)"] b2 vals1 unfolding t2_def es branch_def by auto
  have net: "trace_state (fst t2) i - trace_state (fst t1) i = of_bool (i \<in> ids M2) - of_bool (i \<in> ids M1)" for i
  proof -
    have "trace_state (fst t1) i = net_effect es1 i" "trace_state (fst t2) i = net_effect es2 i"
      by (simp_all add: t1_def t2_def trace_state_def net_effect_def trace_state_events)
    then show ?thesis
      using orderly_net [of "ids Mm" es1 "ids M1" i] orderly_net [of "ids Mm" es2 "ids M2" i] b1 b2
      by (simp add: branch_def es)
  qed
  have cover: "ids M2 - ids M1 \<subseteq> fst ` set (snd t2)" "ids M1 - ids M2 \<subseteq> fst ` set (snd t2)"
  proof -
    have "i \<in> event_id ` set es1 \<union> event_id ` set es2" if "(i \<in> ids M2) \<noteq> (i \<in> ids M1)" for i
    proof (rule ccontr)
      assume "i \<notin> event_id ` set es1 \<union> event_id ` set es2"
      then have "net_effect es1 i = 0" "net_effect es2 i = 0" by (simp_all add: net_effect_outside)
      then show False
        using orderly_net [of "ids Mm" es1 "ids M1" i] orderly_net [of "ids Mm" es2 "ids M2" i] b1 b2 that
        by (auto simp: branch_def es of_bool_def split: if_splits)
    qed
    then show "ids M2 - ids M1 \<subseteq> fst ` set (snd t2)" "ids M1 - ids M2 \<subseteq> fst ` set (snd t2)"
      using vals2 by auto
  qed
  define hit where "hit = (\<lambda>x. isect x (boost_box q))"
  have diff: "log_spatial_diff isect v1 v2 q =
      (map snd (filter (\<lambda>kv. trace_state (fst t2) (fst kv) - trace_state (fst t1) (fst kv) > 0)
         (filter (\<lambda>kv. hit (fst (snd kv))) (snd t2))),
       map snd (filter (\<lambda>kv. trace_state (fst t2) (fst kv) - trace_state (fst t1) (fst kv) < 0)
         (filter (\<lambda>kv. hit (fst (snd kv))) (snd t2))))"
    using False by (simp add: log_spatial_diff_def lca trace_branch_events ev hit_def Let_def case_prod_unfold
        flip: t1_def t2_def)
  have V1: "\<forall>v\<in>#M1. v = V (snd v)" and V2: "\<forall>v\<in>#M2. v = V (snd v)"
    using version_facts [OF v1 ok] version_facts [OF v2 ok] by blast+
  note d2 = vals2 [THEN conjunct1] and k2 = vals2 [THEN conjunct2, THEN conjunct1]
  have "trace_state (fst t2) i - trace_state (fst t1) i > 0 \<longleftrightarrow> i \<in> ids M2 - ids M1"
    "trace_state (fst t2) i - trace_state (fst t1) i < 0 \<longleftrightarrow> i \<in> ids M1 - ids M2" for i
    unfolding net by auto
  from diff_side [OF d2 k2 V2 this(1) cover(1), of hit] diff_side [OF d2 k2 V1 this(2) cover(2), of hit]
  show ?thesis unfolding diff fst_conv snd_conv by (simp add: hit_def)
qed

theorem log_diff_exact_witness:
  "\<exists>v2. rlog_map_insert list_rtree 1 (Some (rlog_map_init list_rtree 0 [((1, 2), 5)])) [((1, 2), 6)] 1 = Some v2 \<and>
     set (fst (log_spatial_diff (bg_intersects list_rtree) (rlog_map_init list_rtree 0 [((1, 2), 5)]) v2
       (Point2 0 0, Point2 3 3))) = {((1, 2), 6)}"
proof -
  let ?v1 = "rlog_map_init list_rtree 0 [((1, 2), 5)]" and ?V = "\<lambda>i :: 64 word. ((1 :: FT, 2 :: FT), i)"
  have first: "log_version list_rtree 1 ?V 0 [((1, 2), 5)] ?v1 (mset [((1, 2), 5)]) (snd ` set ([((1, 2), 5)] :: rvalue list))"
    by (rule log_version.first) simp_all
  have "\<exists>v2. rlog_map_insert list_rtree 1 (Some ?v1) [((1, 2), 6)] 1 = Some v2"
    unfolding rlog_map_insert_def
    using rlog_compact_contents [OF list_rtree_ok contents_child [OF rlog_init_contents [OF list_rtree_ok]]] by blast
  then obtain v2 where v2: "rlog_map_insert list_rtree 1 (Some ?v1) [((1, 2), 6)] 1 = Some v2" by blast
  have second: "log_version list_rtree 1 ?V 0 [((1, 2), 5)] v2 (mset [((1, 2), 5)] + mset [((1, 2), 6)])
      (snd ` set ([((1, 2), 5)] :: rvalue list) \<union> snd ` set ([((1, 2), 6)] :: rvalue list))"
    by (rule log_version.inserted [OF first _ _ _ v2]) simp_all
  have "vaddr v2 = 1"
    using compact_keeps [OF v2 [unfolded rlog_map_insert_def]] by (simp add: child_node_def)
  moreover have "vaddr ?v1 = 0" "ancestors (Some ?v1) = [?v1]" by (simp_all add: rlog_map_init_def)
  moreover have "ancestors (Some v2) = [v2, ?v1]"
    using insert_keeps [OF v2] calculation(3) by (simp add: ancestors_Some [of v2])
  moreover have "log_depth ?v1 = 0" "log_depth v2 = 1"
    using insert_keeps [OF v2] calculation(3) by (simp_all add: log_depth_def rlog_map_init_def)
  ultimately have "set (fst (log_spatial_diff (bg_intersects list_rtree) ?v1 v2 (Point2 0 0, Point2 3 3))) =
      {w. w \<in># mset [((1, 2), 5)] + mset [((1, 2), 6)] \<and> snd w \<notin> ids (mset [((1, 2), 5)]) \<and>
         bg_intersects list_rtree (fst w) (boost_box (Point2 0 0, Point2 3 3))}"
    by (intro conjunct1 [OF log_diff_exact [OF list_rtree_ok first second]]) auto
  also have "\<dots> = {((1, 2), 6)}"
    by (auto simp: ids_def list_rtree_def boost_box_def)
  finally show ?thesis using v2 by blast
qed

end
