(* ===== verification/PkdLog.thy ===== *)
theory PkdLog
  imports DeltaLog
begin

text \<open>
  \<open>baselines/pkdlog_tree.hpp\<close>: the version log over the kd-tree of a vendored
  library (\<open>baselines/spacetreelib\<close>, with a licence of its own). The log uses of it
  what a record of operations offers and \<open>kd_ok\<close> promises. The points of the tree
  carry a 32-bit id, so ids are narrowed on the way in and sign-extended on the
  way out. The buffer that a compaction allocates is uninitialised; what its cells
  contain is the parameter \<open>junk\<close>.
\<close>

record kd_point =
  kd_pt :: boost_point
  kd_id :: "32 word"

record 'kd kd_ops =
  kd_build :: "kd_point list \<Rightarrow> 'kd"
  kd_flatten :: "'kd \<Rightarrow> kd_point list"
  kd_range :: "'kd \<Rightarrow> bg_box \<Rightarrow> kd_point list"
  kd_knn :: "'kd \<Rightarrow> boost_point \<Rightarrow> nat \<Rightarrow> (kd_point \<Rightarrow> bool) \<Rightarrow> (kd_point \<times> FT) list"
  kd_intersects :: "boost_point \<Rightarrow> bg_box \<Rightarrow> bool"

definition to_kd :: "rvalue \<Rightarrow> kd_point" where
  "to_kd v = \<lparr>kd_pt = fst v, kd_id = ucast (snd v)\<rparr>"

definition of_kd :: "kd_point \<Rightarrow> rvalue" where
  "of_kd p = (kd_pt p, scast (kd_id p))"

definition kd_alive :: "64 word set \<Rightarrow> kd_point \<Rightarrow> bool" where
  "kd_alive removed_ids p \<longleftrightarrow> scast (kd_id p) \<notin> removed_ids"


text \<open>
  \<open>next_pts\<close> is allocated uninitialised with room for the live points and the
  logged ones, and only the logged ones are written, behind the room of the
  others, which is left with what the cells contain.
\<close>

definition pkd_check_compact ::
  "'kd kd_ops \<Rightarrow> (nat \<Rightarrow> kd_point) \<Rightarrow> 'kd version_node \<Rightarrow> FT \<Rightarrow> 'kd version_node" where
  "pkd_check_compact ops junk node p =
     (if needs_compaction p node then
        let (base, removed_ids, pending) = get_query_view (Some node);
            tree_pts = (case base of None \<Rightarrow> [] | Some b \<Rightarrow> kd_flatten ops b);
            live_tree_pts = filter (kd_alive removed_ids) tree_pts;
            log_pts = map to_kd pending;
            next_pts = map junk [0..<length live_tree_pts] @ log_pts
        in with_base node (kd_build ops next_pts) (length live_tree_pts + length log_pts)
      else node)"


definition pkd_map_delete ::
  "'kd kd_ops \<Rightarrow> (nat \<Rightarrow> kd_point) \<Rightarrow> nat \<Rightarrow> 'kd version_node option \<Rightarrow> rvalue list \<Rightarrow> FT \<Rightarrow>
   'kd version_node" where
  "pkd_map_delete ops junk a parent delete_pts p =
     pkd_check_compact ops junk (child_node a parent [] delete_pts (length delete_pts)) p"


text \<open>All candidates of the tree's bounded queue are offered to the heap.\<close>

fun pkd_scan_base :: "nat \<Rightarrow> (kd_point \<times> FT) list \<Rightarrow> (FT \<times> rvalue) list \<Rightarrow> (FT \<times> rvalue) list option" where
  "pkd_scan_base k [] heap = Some heap"
| "pkd_scan_base k (item # items) heap =
     (case heap_offer k (snd item, of_kd (fst item)) heap of
        None \<Rightarrow> None
      | Some (heap', taken) \<Rightarrow> pkd_scan_base k items heap')"

definition pkd_knn_report ::
  "'kd kd_ops \<Rightarrow> 'kd version_node option \<Rightarrow> point \<Rightarrow> nat \<Rightarrow> rvalue list option" where
  "pkd_knn_report ops node q k =
     (case get_query_view node of (base, removed_ids, pending) \<Rightarrow>
        (case scan_pending k q pending [] of
           None \<Rightarrow> None
         | Some heap \<Rightarrow>
             map_option (map snd)
               (case base of
                  None \<Rightarrow> Some heap
                | Some b \<Rightarrow> pkd_scan_base k (kd_knn ops b (pt_x q, pt_y q) k (kd_alive removed_ids)) heap)))"

section \<open>What an insertion does to reports\<close>


lemma fst_of_kd [simp]: "fst (of_kd x) = kd_pt x"
  by (simp add: of_kd_def)

lemma kd_pt_to_kd [simp]: "kd_pt (to_kd v) = fst v"
  by (simp add: to_kd_def)








end
