(* ===== verification/BRTree.thy ===== *)
theory BRTree
  imports MvqKnn
begin

text \<open>
  The namespace \<open>BRTree\<close> of \<open>index/pacz.hpp\<close> (repeated as \<open>BRTreeU\<close> in
  \<open>pacz_u.hpp\<close>): a binary search tree over a Morton-sorted sequence, split at
  the middle position, whose nodes carry bounding boxes (\<open>BR_MBR\<close> is defined at
  the top of the file). A null pointer is \<open>BrNull\<close>; an access through it is
  \<open>None\<close>. The counters and the height that the code keeps as statistics are left
  out, and so is the level \<open>b\<close> that only they use.
\<close>

section \<open>Nodes\<close>

datatype br_tree =
    BrNull
  | BrLeaf (br_leaf_mbr: Bounding_Box) (br_leaf_records: "point list")
  | BrInte (br_inte_mbr: Bounding_Box) (br_l: br_tree) (br_r: br_tree) (br_num_pts: "64 word")

fun br_mbr :: "br_tree \<Rightarrow> Bounding_Box option" where
  "br_mbr BrNull = None"
| "br_mbr (BrLeaf mbr records) = Some mbr"
| "br_mbr (BrInte mbr l r n) = Some mbr"

fun br_get_num_points :: "br_tree \<Rightarrow> 64 word option" where
  "br_get_num_points BrNull = None"
| "br_get_num_points (BrLeaf mbr records) = Some (of_nat (length records))"
| "br_get_num_points (BrInte mbr l r n) = Some n"

text \<open>
  \<open>merge_nodes\<close>: without a left son the box is only set under \<open>USE_MBR\<close>, which
  is not defined, and stays what the constructor left there, \<open>unset\<close>.
\<close>

definition br_merge_nodes :: "Bounding_Box \<Rightarrow> br_tree \<Rightarrow> br_tree \<Rightarrow> br_tree option" where
  "br_merge_nodes unset L R =
     (if L = BrNull then do { n \<leftarrow> br_get_num_points R; Some (BrInte unset L R n) }
      else if R = BrNull then do { m \<leftarrow> br_mbr L; n \<leftarrow> br_get_num_points L; Some (BrInte m L R n) }
      else do { ml \<leftarrow> br_mbr L; mr \<leftarrow> br_mbr R; nl \<leftarrow> br_get_num_points L; nr \<leftarrow> br_get_num_points R;
                Some (BrInte (merge_mbr ml mr) L R (nl + nr)) })"

definition br_delete_merge_nodes :: "br_tree \<Rightarrow> br_tree \<Rightarrow> br_tree option" where
  "br_delete_merge_nodes L R =
     (if L = BrNull then do { m \<leftarrow> br_mbr R; n \<leftarrow> br_get_num_points R; Some (BrInte m L R n) }
      else if R = BrNull then do { m \<leftarrow> br_mbr L; n \<leftarrow> br_get_num_points L; Some (BrInte m L R n) }
      else do { ml \<leftarrow> br_mbr L; mr \<leftarrow> br_mbr R; nl \<leftarrow> br_get_num_points L; nr \<leftarrow> br_get_num_points R;
                Some (BrInte (merge_mbr ml mr) L R (nl + nr)) })"

definition br_create_internal :: "Bounding_Box \<Rightarrow> br_tree \<Rightarrow> br_tree \<Rightarrow> br_tree option" where
  "br_create_internal unset L R = br_merge_nodes unset L R"

definition br_create_leaf :: "point list \<Rightarrow> nat \<Rightarrow> nat \<Rightarrow> br_tree" where
  "br_create_leaf P l r = (let cur_records = take (r - l) (drop l P) in BrLeaf (get_mbr cur_records) cur_records)"

text \<open>
  With \<open>leaf_size = 0\<close> a range of one point is split into an empty one and itself,
  and the recursion does not end: the build is a partial function.
\<close>

partial_function (option) br_build ::
  "nat \<Rightarrow> Bounding_Box \<Rightarrow> point list \<Rightarrow> nat \<Rightarrow> nat \<Rightarrow> br_tree option" where
  "br_build leaf_size unset P l r =
     (if r - l \<le> leaf_size then Some (br_create_leaf P l r)
      else
        let splitter = (r + l) div 2 in
        do { L \<leftarrow> (if l < splitter then br_build leaf_size unset P l splitter else Some BrNull);
             R \<leftarrow> (if splitter < r then br_build leaf_size unset P splitter r else Some BrNull);
             br_create_internal unset L R })"

definition br_build_root :: "nat \<Rightarrow> Bounding_Box \<Rightarrow> point list \<Rightarrow> br_tree \<Rightarrow> br_tree option" where
  "br_build_root leaf_size unset P rt =
     (if P = [] then Some rt else br_build leaf_size unset P 0 (length P))"

fun br_tree_compress :: "br_tree \<Rightarrow> br_tree" where
  "br_tree_compress BrNull = BrNull"
| "br_tree_compress (BrLeaf mbr records) = BrLeaf mbr records"
| "br_tree_compress (BrInte mbr l r n) =
     (let l' = br_tree_compress l; r' = br_tree_compress r
      in if l' = BrNull \<and> r' = BrNull then BrNull
         else if l' = BrNull then r' else if r' = BrNull then l' else BrInte mbr l' r' n)"

section \<open>Queries\<close>

fun br_range_count_node :: "br_tree \<Rightarrow> Bounding_Box \<Rightarrow> 64 word option" where
  "br_range_count_node BrNull query_mbr = None"
| "br_range_count_node (BrLeaf mbr records) query_mbr =
     (let flag = mbr_mbr_relation mbr query_mbr in
      if flag < 0 then Some 0
      else if flag > 0 then br_get_num_points (BrLeaf mbr records)
      else Some (of_nat (length (filter (\<lambda>p. point_in_mbr p query_mbr) records))))"
| "br_range_count_node (BrInte mbr l_son r_son n) query_mbr =
     (let flag = mbr_mbr_relation mbr query_mbr in
      if flag < 0 then Some 0
      else if flag > 0 then br_get_num_points (BrInte mbr l_son r_son n)
      else do { ret_L \<leftarrow> (if l_son \<noteq> BrNull then br_range_count_node l_son query_mbr else Some 0);
                ret_R \<leftarrow> (if r_son \<noteq> BrNull then br_range_count_node r_son query_mbr else Some 0);
                Some (ret_L + ret_R) })"

definition br_range_count :: "br_tree \<Rightarrow> Bounding_Box \<Rightarrow> 64 word option" where
  "br_range_count rt query_mbr = br_range_count_node rt query_mbr"

definition son_relation :: "br_tree \<Rightarrow> Bounding_Box \<Rightarrow> int option" where
  "son_relation son query_mbr = map_option (\<lambda>m. mbr_mbr_relation m query_mbr) (br_mbr son)"

fun br_range_report_node :: "nat \<Rightarrow> br_tree \<Rightarrow> Bounding_Box \<Rightarrow> point list \<Rightarrow> point list option" where
  "br_range_report_node cap BrNull query_mbr out = None"
| "br_range_report_node cap (BrLeaf mbr records) query_mbr out = scan_leaf cap records query_mbr out"
| "br_range_report_node cap (BrInte mbr l_son r_son n) query_mbr out =
     do { out1 \<leftarrow> (case son_relation l_son query_mbr of None \<Rightarrow> Some out
                 | Some flag \<Rightarrow> if flag \<ge> 0 then br_range_report_node cap l_son query_mbr out else Some out);
          (case son_relation r_son query_mbr of None \<Rightarrow> Some out1
                 | Some flag \<Rightarrow> if flag \<ge> 0 then br_range_report_node cap r_son query_mbr out1 else Some out1) }"

definition br_range_report :: "nat \<Rightarrow> br_tree \<Rightarrow> Bounding_Box \<Rightarrow> point list \<Rightarrow> point list option" where
  "br_range_report cap rt query_mbr out = br_range_report_node cap rt query_mbr out"

definition br_worth :: "nat \<Rightarrow> FT \<Rightarrow> nn_pair list \<Rightarrow> bool option" where
  "br_worth k sqrdis nn_res =
     (if length nn_res < k then Some True else map_option (\<lambda>t. sqrdis < snd t) (pq_top nn_res))"

definition son_sqrdis :: "point \<Rightarrow> br_tree \<Rightarrow> FT" where
  "son_sqrdis query_point son =
     (case br_mbr son of None \<Rightarrow> FT_INF_MAX | Some m \<Rightarrow> point_mbr_sqrdis query_point m)"

fun br_knn_report_node :: "br_tree \<Rightarrow> nat \<Rightarrow> point \<Rightarrow> nn_pair list \<Rightarrow> nn_pair list option" where
  "br_knn_report_node BrNull k query_point nn_res = None"
| "br_knn_report_node (BrLeaf mbr records) k query_point nn_res = knn_scan nearer k query_point records nn_res"
| "br_knn_report_node (BrInte mbr l_son r_son n) k query_point nn_res =
     (let l_son_sqrdis = son_sqrdis query_point l_son; r_son_sqrdis = son_sqrdis query_point r_son
      in if l_son_sqrdis \<le> r_son_sqrdis then
           do { go_l \<leftarrow> br_worth k l_son_sqrdis nn_res;
                nn1 \<leftarrow> (if go_l then br_knn_report_node l_son k query_point nn_res else Some nn_res);
                go_r \<leftarrow> br_worth k r_son_sqrdis nn1;
                (if go_r then br_knn_report_node r_son k query_point nn1 else Some nn1) }
         else
           do { go_r \<leftarrow> br_worth k r_son_sqrdis nn_res;
                nn1 \<leftarrow> (if go_r then br_knn_report_node r_son k query_point nn_res else Some nn_res);
                go_l \<leftarrow> br_worth k l_son_sqrdis nn1;
                (if go_l then br_knn_report_node l_son k query_point nn1 else Some nn1) })"

definition br_knn_report :: "br_tree \<Rightarrow> nat \<Rightarrow> point \<Rightarrow> nn_pair list option" where
  "br_knn_report rt k query_point = br_knn_report_node rt k query_point []"

section \<open>Queries that recompute the boxes\<close>

text \<open>
  The overloads with a current box split it at bit boundaries, as the quadtree
  does, although the tree is split at positions; \<open>b\<close> only decreases after a
  split in \<open>y\<close>. The boxes and prefixes of the sons:
\<close>

definition br_cell_boxes ::
  "Bounding_Box \<Rightarrow> FT \<Rightarrow> FT \<Rightarrow> nat \<Rightarrow> bool \<Rightarrow> Bounding_Box \<times> Bounding_Box \<times> FT \<times> FT \<times> nat" where
  "br_cell_boxes cur_mbr x_prefix y_prefix b x_splitter =
     (let splitter = fmul 1 (of_int (uint (push_bit (b - 1) (1 :: 32 word))))
      in if x_splitter then
           ((fst cur_mbr, (snd cur_mbr)\<lparr>pt_x := min (fsub (fadd x_prefix splitter) FT_EPS) (pt_x (snd cur_mbr))\<rparr>),
            ((fst cur_mbr)\<lparr>pt_x := max (fadd x_prefix splitter) (pt_x (fst cur_mbr))\<rparr>, snd cur_mbr),
            fadd x_prefix splitter, y_prefix, b)
         else
           ((fst cur_mbr, (snd cur_mbr)\<lparr>pt_y := min (fsub (fadd y_prefix splitter) FT_EPS) (pt_y (snd cur_mbr))\<rparr>),
            ((fst cur_mbr)\<lparr>pt_y := max (fadd y_prefix splitter) (pt_y (fst cur_mbr))\<rparr>, snd cur_mbr),
            x_prefix, fadd y_prefix splitter, b - 1))"

fun br_cell_count_node ::
  "br_tree \<Rightarrow> Bounding_Box \<Rightarrow> Bounding_Box \<Rightarrow> FT \<Rightarrow> FT \<Rightarrow> nat \<Rightarrow> bool \<Rightarrow> 64 word option" where
  "br_cell_count_node BrNull query_mbr cur_mbr x_prefix y_prefix b x_splitter =
     (if mbr_mbr_relation cur_mbr query_mbr < 0 then Some 0 else None)"
| "br_cell_count_node (BrLeaf mbr records) query_mbr cur_mbr x_prefix y_prefix b x_splitter =
     (let flag = mbr_mbr_relation cur_mbr query_mbr in
      if flag < 0 then Some 0
      else if flag > 0 then br_get_num_points (BrLeaf mbr records)
      else Some (of_nat (length (filter (\<lambda>p. point_in_mbr p query_mbr) records))))"
| "br_cell_count_node (BrInte mbr l_son r_son n) query_mbr cur_mbr x_prefix y_prefix b x_splitter =
     (let flag = mbr_mbr_relation cur_mbr query_mbr in
      if flag < 0 then Some 0
      else if flag > 0 then br_get_num_points (BrInte mbr l_son r_son n)
      else
        (case br_cell_boxes cur_mbr x_prefix y_prefix b x_splitter of (L_box, R_box, rx, ry, b') \<Rightarrow>
           do { ret_L \<leftarrow> (if l_son \<noteq> BrNull
                  then br_cell_count_node l_son query_mbr L_box x_prefix y_prefix b' (\<not> x_splitter) else Some 0);
                ret_R \<leftarrow> (if r_son \<noteq> BrNull
                  then br_cell_count_node r_son query_mbr R_box rx ry b' (\<not> x_splitter) else Some 0);
                Some (ret_L + ret_R) }))"

definition br_cell_count :: "br_tree \<Rightarrow> Bounding_Box \<Rightarrow> Bounding_Box \<Rightarrow> 64 word option" where
  "br_cell_count rt query_mbr cur_mbr = br_cell_count_node rt query_mbr cur_mbr 0 0 32 True"

fun br_cell_report_node ::
  "nat \<Rightarrow> br_tree \<Rightarrow> Bounding_Box \<Rightarrow> Bounding_Box \<Rightarrow> FT \<Rightarrow> FT \<Rightarrow> nat \<Rightarrow> bool \<Rightarrow> point list \<Rightarrow> point list option" where
  "br_cell_report_node cap BrNull query_mbr cur_mbr x_prefix y_prefix b x_splitter out = None"
| "br_cell_report_node cap (BrLeaf mbr records) query_mbr cur_mbr x_prefix y_prefix b x_splitter out =
     scan_leaf cap records query_mbr out"
| "br_cell_report_node cap (BrInte mbr l_son r_son n) query_mbr cur_mbr x_prefix y_prefix b x_splitter out =
     (case br_cell_boxes cur_mbr x_prefix y_prefix b x_splitter of (L_box, R_box, rx, ry, b') \<Rightarrow>
        do { out1 \<leftarrow> (if l_son \<noteq> BrNull \<and> mbr_mbr_relation L_box query_mbr \<ge> 0
               then br_cell_report_node cap l_son query_mbr L_box x_prefix y_prefix b' (\<not> x_splitter) out else Some out);
             (if r_son \<noteq> BrNull \<and> mbr_mbr_relation R_box query_mbr \<ge> 0
               then br_cell_report_node cap r_son query_mbr R_box rx ry b' (\<not> x_splitter) out1 else Some out1) })"

definition br_cell_report :: "nat \<Rightarrow> br_tree \<Rightarrow> Bounding_Box \<Rightarrow> Bounding_Box \<Rightarrow> point list \<Rightarrow> point list option" where
  "br_cell_report cap rt query_mbr cur_mbr out = br_cell_report_node cap rt query_mbr cur_mbr 0 0 32 True out"

text \<open>The nearest-neighbour search over recomputed boxes; a null son is at \<open>FT_INF_MAX\<close>.\<close>

fun br_cell_knn_node ::
  "br_tree \<Rightarrow> nat \<Rightarrow> point \<Rightarrow> Bounding_Box \<Rightarrow> FT \<Rightarrow> FT \<Rightarrow> nat \<Rightarrow> bool \<Rightarrow> nn_pair list \<Rightarrow> nn_pair list option" where
  "br_cell_knn_node BrNull k query_point cur_mbr x_prefix y_prefix b x_splitter nn_res = None"
| "br_cell_knn_node (BrLeaf mbr records) k query_point cur_mbr x_prefix y_prefix b x_splitter nn_res =
     knn_scan nearer k query_point records nn_res"
| "br_cell_knn_node (BrInte mbr l_son r_son n) k query_point cur_mbr x_prefix y_prefix b x_splitter nn_res =
     (case br_cell_boxes cur_mbr x_prefix y_prefix b x_splitter of (L_box, R_box, rx, ry, b') \<Rightarrow>
        let l_son_sqrdis = (if l_son \<noteq> BrNull then point_mbr_sqrdis query_point L_box else FT_INF_MAX);
            r_son_sqrdis = (if r_son \<noteq> BrNull then point_mbr_sqrdis query_point R_box else FT_INF_MAX)
        in if l_son_sqrdis \<le> r_son_sqrdis then
             do { go_l \<leftarrow> br_worth k l_son_sqrdis nn_res;
                  nn1 \<leftarrow> (if go_l then br_cell_knn_node l_son k query_point L_box x_prefix y_prefix b' (\<not> x_splitter) nn_res
                          else Some nn_res);
                  go_r \<leftarrow> br_worth k r_son_sqrdis nn1;
                  (if go_r then br_cell_knn_node r_son k query_point R_box rx ry b' (\<not> x_splitter) nn1 else Some nn1) }
           else
             do { go_r \<leftarrow> br_worth k r_son_sqrdis nn_res;
                  nn1 \<leftarrow> (if go_r then br_cell_knn_node r_son k query_point R_box rx ry b' (\<not> x_splitter) nn_res
                          else Some nn_res);
                  go_l \<leftarrow> br_worth k l_son_sqrdis nn1;
                  (if go_l then br_cell_knn_node l_son k query_point L_box x_prefix y_prefix b' (\<not> x_splitter) nn1
                   else Some nn1) })"

definition br_cell_knn :: "br_tree \<Rightarrow> nat \<Rightarrow> point \<Rightarrow> Bounding_Box \<Rightarrow> nn_pair list option" where
  "br_cell_knn rt k query_point cur_mbr = br_cell_knn_node rt k query_point cur_mbr 0 0 32 True []"

section \<open>The invariant\<close>

fun br_records :: "br_tree \<Rightarrow> point list" where
  "br_records BrNull = []"
| "br_records (BrLeaf mbr records) = records"
| "br_records (BrInte mbr l r n) = br_records l @ br_records r"

text \<open>Both sons are present, sizes are right and boxes contain the points below them.\<close>

fun br_ok :: "br_tree \<Rightarrow> bool" where
  "br_ok BrNull \<longleftrightarrow> False"
| "br_ok (BrLeaf mbr records) \<longleftrightarrow> (\<forall>p\<in>set records. point_in_mbr p mbr)"
| "br_ok (BrInte mbr l r n) \<longleftrightarrow> br_ok l \<and> br_ok r \<and>
     (\<forall>p\<in>set (br_records l @ br_records r). point_in_mbr p mbr) \<and>
     n = of_nat (length (br_records l @ br_records r))"

fun br_depth :: "br_tree \<Rightarrow> nat" where
  "br_depth (BrInte mbr l r n) = Suc (max (br_depth l) (br_depth r))"
| "br_depth t = 0"

fun br_leaves_within :: "nat \<Rightarrow> br_tree \<Rightarrow> bool" where
  "br_leaves_within s (BrInte mbr l r n) \<longleftrightarrow> br_leaves_within s l \<and> br_leaves_within s r"
| "br_leaves_within s (BrLeaf mbr records) \<longleftrightarrow> records \<noteq> [] \<and> length records \<le> s"
| "br_leaves_within s BrNull \<longleftrightarrow> True"

lemma br_ok_not_null: "br_ok t \<Longrightarrow> t \<noteq> BrNull"
  by (cases t) auto

lemma br_ok_mbr:
  assumes "br_ok t"
  obtains m where "br_mbr t = Some m" "\<forall>p\<in>set (br_records t). point_in_mbr p m"
    "br_get_num_points t = Some (of_nat (length (br_records t)))"
  using assms by (cases t) auto

lemma br_create_internal_ok:
  assumes "br_ok L" "br_ok R"
  shows "\<exists>t. br_create_internal unset L R = Some t \<and> br_ok t \<and> br_records t = br_records L @ br_records R \<and>
    br_depth t = Suc (max (br_depth L) (br_depth R)) \<and> (br_leaves_within s t \<longleftrightarrow> br_leaves_within s L \<and> br_leaves_within s R)"
proof -
  obtain ml where ml: "br_mbr L = Some ml" "\<forall>p\<in>set (br_records L). point_in_mbr p ml"
    "br_get_num_points L = Some (of_nat (length (br_records L)))" by (rule br_ok_mbr [OF assms(1)])
  obtain mr where mr: "br_mbr R = Some mr" "\<forall>p\<in>set (br_records R). point_in_mbr p mr"
    "br_get_num_points R = Some (of_nat (length (br_records R)))" by (rule br_ok_mbr [OF assms(2)])
  show ?thesis
    using ml mr assms br_ok_not_null [OF assms(1)] br_ok_not_null [OF assms(2)]
    by (auto simp: br_create_internal_def br_merge_nodes_def intro!: merge_mbr_point)
qed

lemma br_build_ok:
  assumes "1 \<le> s"
  shows "l < r \<Longrightarrow> r \<le> length P \<Longrightarrow> r - l \<le> s * 2 ^ d \<Longrightarrow>
    \<exists>t. br_build s unset P l r = Some t \<and> br_ok t \<and> br_records t = take (r - l) (drop l P) \<and>
      br_depth t \<le> d \<and> br_leaves_within s t"
proof (induction d arbitrary: l r)
  case 0
  then show ?case
    by (subst br_build.simps) (auto simp: br_create_leaf_def Let_def get_mbr_contains)
next
  case (Suc d)
  show ?case
  proof (cases "r - l \<le> s")
    case True
    with Suc.prems show ?thesis
      by (subst br_build.simps) (auto simp: br_create_leaf_def Let_def get_mbr_contains)
  next
    case False
    let ?m = "(r + l) div 2"
    have m: "l < ?m" "?m < r" "?m - l \<le> s * 2 ^ d" "r - ?m \<le> s * 2 ^ d"
      using False assms Suc.prems by auto
    obtain L where L: "br_build s unset P l ?m = Some L" "br_ok L" "br_records L = take (?m - l) (drop l P)"
        "br_depth L \<le> d" "br_leaves_within s L"
      using Suc.IH [OF m(1) _ m(3)] m(2) Suc.prems(2) by auto
    obtain R where R: "br_build s unset P ?m r = Some R" "br_ok R" "br_records R = take (r - ?m) (drop ?m P)"
        "br_depth R \<le> d" "br_leaves_within s R"
      using Suc.IH [OF m(2) Suc.prems(2) m(4)] by auto
    have "take (?m - l) (drop l P) @ take (r - ?m) (drop ?m P) = take (r - l) (drop l P)"
      using m(1,2) take_add [of "?m - l" "r - ?m" "drop l P"] by simp
    with br_create_internal_ok [OF L(2) R(2), of unset s] L R m False show ?thesis
      by (subst br_build.simps) (auto simp: Let_def)
  qed
qed


section \<open>Exactness of the queries\<close>

lemma br_compress_id: "br_ok t \<Longrightarrow> br_tree_compress t = t"
  by (induction t) (auto simp: Let_def br_ok_not_null)

lemma scan_leaf_filter: "scan_leaf cap rs query out = put_points cap (filter (\<lambda>p. point_in_mbr p query) rs) out"
  by (simp add: scan_leaf_eq in_query_def)

lemma relation_filter:
  assumes "\<forall>p\<in>set P. point_in_mbr p m"
  shows "mbr_mbr_relation m q < 0 \<Longrightarrow> filter (\<lambda>p. point_in_mbr p q) P = []"
    and "mbr_mbr_relation m q > 0 \<Longrightarrow> filter (\<lambda>p. point_in_mbr p q) P = P"
  using assms relation_excluded_point relation_contained_point by (auto simp: filter_empty_conv filter_id_conv)

lemma br_count_exact:
  "br_ok t \<Longrightarrow> br_range_count_node t q = Some (of_nat (length (filter (\<lambda>p. point_in_mbr p q) (br_records t))))"
proof (induction t)
  case (BrLeaf m rs)
  then have "\<forall>p\<in>set rs. point_in_mbr p m" by simp
  from relation_filter [OF this, of q] show ?case by (simp add: Let_def)
next
  case (BrInte m l r n)
  then have "\<forall>p\<in>set (br_records l @ br_records r). point_in_mbr p m" by simp
  from relation_filter [OF this, of q] BrInte show ?case
    by (simp add: Let_def br_ok_not_null del: filter_append) simp
qed simp

lemma br_report_exact:
  "br_ok t \<Longrightarrow> br_range_report_node cap t q out = put_points cap (filter (\<lambda>p. point_in_mbr p q) (br_records t)) out"
proof (induction t arbitrary: out)
  case (BrInte m l r n)
  have ok: "br_ok l" "br_ok r" using BrInte.prems by auto
  obtain ml where ml: "br_mbr l = Some ml" "\<forall>p\<in>set (br_records l). point_in_mbr p ml"
    using br_ok_mbr [OF ok(1)] by metis
  obtain mr where mr: "br_mbr r = Some mr" "\<forall>p\<in>set (br_records r). point_in_mbr p mr"
    using br_ok_mbr [OF ok(2)] by metis
  have son: "(case son_relation u q of None \<Rightarrow> Some o'
      | Some flag \<Rightarrow> if flag \<ge> 0 then br_range_report_node cap u q o' else Some o') =
      put_points cap (filter (\<lambda>p. point_in_mbr p q) (br_records u)) o'"
    if u: "br_mbr u = Some mu" "\<forall>p\<in>set (br_records u). point_in_mbr p mu"
      and IH: "\<And>o'. br_range_report_node cap u q o' = put_points cap (filter (\<lambda>p. point_in_mbr p q) (br_records u)) o'" for u mu o'
    using relation_filter(1) [OF u(2), of q] by (simp add: son_relation_def u(1) IH)
  note L = son [OF ml BrInte.IH(1) [OF ok(1)]] and R = son [OF mr BrInte.IH(2) [OF ok(2)]]
  show ?case
    unfolding br_range_report_node.simps L R br_records.simps filter_append by (rule put_points_append)
qed (simp_all add: scan_leaf_filter)

lemma worth_visit:
  assumes h: "by_dis.holds k M q" and k: "1 \<le> k"
    and vis: "\<And>q. by_dis.holds k M q \<Longrightarrow> \<exists>q'. visit q = Some q' \<and> by_dis.holds k (M + nn_pairs qp P) q'"
    and far: "\<forall>p\<in>set P. d \<le> point_point_sqrdis p qp"
  shows "\<exists>go q'. br_worth k d q = Some go \<and> (if go then visit q else Some q) = Some q'
    \<and> by_dis.holds k (M + nn_pairs qp P) q'"
proof (cases "length q < k")
  case True
  then show ?thesis using vis [OF h] by (auto simp: br_worth_def)
next
  case False
  then obtain t where t: "pq_top q = Some t" using by_dis.holds_top [OF h k] by blast
  show ?thesis
  proof (cases "d < snd t")
    case True
    then show ?thesis using vis [OF h] False t by (auto simp: br_worth_def)
  next
    case nless: False
    have "snd t \<le> snd x" if "x \<in># nn_pairs qp P" for x
      using that nless far by (fastforce simp: nn_pairs_def)
    then have "by_dis.holds k (M + nn_pairs qp P) q"
      using by_dis.holds_prune [OF h k False t] by blast
    then show ?thesis using False t nless by (intro exI [of _ False] exI [of _ q]) (simp add: br_worth_def)
  qed
qed

lemma son_far: "br_ok t \<Longrightarrow> p \<in> set (br_records t) \<Longrightarrow> son_sqrdis qp t \<le> point_point_sqrdis p qp"
proof -
  assume t: "br_ok t" and p: "p \<in> set (br_records t)"
  obtain m where "br_mbr t = Some m" "\<forall>p\<in>set (br_records t). point_in_mbr p m"
    using br_ok_mbr [OF t] by metis
  then show ?thesis using p by (simp add: son_sqrdis_def box_distance_le)
qed

lemma br_knn_holds:
  "br_ok t \<Longrightarrow> by_dis.holds k M q \<Longrightarrow> 1 \<le> k \<Longrightarrow>
   \<exists>q'. br_knn_report_node t k qp q = Some q' \<and> by_dis.holds k (M + nn_pairs qp (br_records t)) q'"
proof (induction t arbitrary: M q)
  case (BrInte m l r n)
  have ok: "br_ok l" "br_ok r" using BrInte.prems(1) by auto
  have far: "\<forall>p\<in>set (br_records l). son_sqrdis qp l \<le> point_point_sqrdis p qp"
    "\<forall>p\<in>set (br_records r). son_sqrdis qp r \<le> point_point_sqrdis p qp"
    using son_far [OF ok(1)] son_far [OF ok(2)] by blast+
  have vl: "\<exists>go q'. br_worth k (son_sqrdis qp l) q = Some go \<and>
      (if go then br_knn_report_node l k qp q else Some q) = Some q' \<and>
      by_dis.holds k (M + nn_pairs qp (br_records l)) q'" if "by_dis.holds k M q" for M q
    by (rule worth_visit [OF that BrInte.prems(3) BrInte.IH(1) [OF ok(1) _ BrInte.prems(3)] far(1)])
  have vr: "\<exists>go q'. br_worth k (son_sqrdis qp r) q = Some go \<and>
      (if go then br_knn_report_node r k qp q else Some q) = Some q' \<and>
      by_dis.holds k (M + nn_pairs qp (br_records r)) q'" if "by_dis.holds k M q" for M q
    by (rule worth_visit [OF that BrInte.prems(3) BrInte.IH(2) [OF ok(2) _ BrInte.prems(3)] far(2)])
  show ?case
  proof (cases "son_sqrdis qp l \<le> son_sqrdis qp r")
    case True
    obtain g1 q1 where 1: "br_worth k (son_sqrdis qp l) q = Some g1"
      "(if g1 then br_knn_report_node l k qp q else Some q) = Some q1"
      "by_dis.holds k (M + nn_pairs qp (br_records l)) q1" using vl [OF BrInte.prems(2)] by blast
    obtain g2 q2 where 2: "br_worth k (son_sqrdis qp r) q1 = Some g2"
      "(if g2 then br_knn_report_node r k qp q1 else Some q1) = Some q2"
      "by_dis.holds k (M + nn_pairs qp (br_records l) + nn_pairs qp (br_records r)) q2"
      using vr [OF 1(3)] by blast
    from True 1(1,2) 2(1,2) have "br_knn_report_node (BrInte m l r n) k qp q = Some q2" by (simp add: Let_def)
    then show ?thesis using 2(3) by (simp add: add.assoc)
  next
    case False
    obtain g1 q1 where 1: "br_worth k (son_sqrdis qp r) q = Some g1"
      "(if g1 then br_knn_report_node r k qp q else Some q) = Some q1"
      "by_dis.holds k (M + nn_pairs qp (br_records r)) q1" using vr [OF BrInte.prems(2)] by blast
    obtain g2 q2 where 2: "br_worth k (son_sqrdis qp l) q1 = Some g2"
      "(if g2 then br_knn_report_node l k qp q1 else Some q1) = Some q2"
      "by_dis.holds k (M + nn_pairs qp (br_records r) + nn_pairs qp (br_records l)) q2"
      using vl [OF 1(3)] by blast
    from False 1(1,2) 2(1,2) have "br_knn_report_node (BrInte m l r n) k qp q = Some q2" by (simp add: Let_def)
    then show ?thesis using 2(3) by (simp add: ac_simps)
  qed
next
  case (BrLeaf m rs)
  then show ?case using by_dis.scan_holds by simp
qed simp

text \<open>
  C21. For a leaf size of at least one the build ends and yields a tree with the
  points in their order, leaves of at most the leaf size, and a depth of at most
  \<open>d\<close> whenever the points fit into \<open>2 ^ d\<close> leaves; on it counting and reporting
  in a box are exact, a report overruns its buffer only when the points do not fit, the nearest-neighbour search returns the \<open>k\<close> smallest
  distances, and compression changes nothing.
\<close>

theorem br_tree_correct:
  assumes "1 \<le> leaf_size" "P \<noteq> []" "length P \<le> leaf_size * 2 ^ d" "1 \<le> k" "length out \<le> cap"
  shows "\<exists>t. br_build_root leaf_size unset P BrNull = Some t \<and> br_records t = P \<and>
    br_leaves_within leaf_size t \<and> br_depth t \<le> d \<and> br_tree_compress t = t \<and>
    br_range_count t query = Some (of_nat (length (filter (\<lambda>p. point_in_mbr p query) P))) \<and>
    br_range_report cap t query out =
      (let found = filter (\<lambda>p. point_in_mbr p query) P in
       if length out + length found \<le> cap then Some (out @ found) else None) \<and>
    (\<exists>q. br_knn_report t k qp = Some q \<and> set q \<subseteq> set_mset (nn_pairs qp P) \<and>
       rev (map snd q) = smallest k (image_mset snd (nn_pairs qp P)))"
proof -
  obtain t where t: "br_build leaf_size unset P 0 (length P) = Some t" "br_ok t" "br_records t = P"
      "br_depth t \<le> d" "br_leaves_within leaf_size t"
    using br_build_ok [OF assms(1), of 0 "length P" P d unset] assms(2,3) by auto
  obtain q where "br_knn_report t k qp = Some q" "by_dis.holds k (nn_pairs qp P) q"
    using br_knn_holds [OF t(2) by_dis.holds_empty assms(4), of qp] t(3) by (auto simp: br_knn_report_def)
  moreover have "br_range_count t query = Some (of_nat (length (filter (\<lambda>p. point_in_mbr p query) P)))"
    "br_range_report cap t query out =
      (let found = filter (\<lambda>p. point_in_mbr p query) P in
       if length out + length found \<le> cap then Some (out @ found) else None)"
    using br_count_exact [OF t(2)] br_report_exact [OF t(2)] t(3) assms(5)
    by (simp_all add: br_range_count_def br_range_report_def put_points_fits Let_def)
  ultimately show ?thesis
    using t assms(2) br_compress_id [OF t(2)] by (auto simp: br_build_root_def by_dis.holds_def)
qed

theorem br_tree_correct_witness:
  "\<exists>t. br_build_root 1 (Point2 0 0, Point2 0 0) [Point3 1 1 1, Point3 2 2 2, Point3 3 9 9] BrNull = Some t \<and>
    br_depth t \<le> 2 \<and> br_records t = [Point3 1 1 1, Point3 2 2 2, Point3 3 9 9] \<and>
    br_range_count t (Point2 0 0, Point2 3 3) = Some 2 \<and>
    br_range_report 2 t (Point2 0 0, Point2 3 3) [] = Some [Point3 1 1 1, Point3 2 2 2]"
proof -
  let ?P = "[Point3 1 1 1, Point3 2 2 2, Point3 3 9 9]"
  have f: "filter (\<lambda>p. point_in_mbr p (Point2 0 0, Point2 3 3)) ?P = [Point3 1 1 1, Point3 2 2 2]"
    by (simp add: point_in_mbr_def)
  have n: "(1 :: nat) \<le> 1" "?P \<noteq> []" "length ?P \<le> 1 * 2 ^ 2" "length ([] :: point list) \<le> 2" by simp_all
  from br_tree_correct [OF n(1,2,3,1,4), of "(Point2 0 0, Point2 0 0)" "(Point2 0 0, Point2 3 3)" "Point2 0 0", unfolded f]
  show ?thesis by (auto simp: Let_def)
qed

section \<open>Recomputed boxes do not fit the tree\<close>

text \<open>
  Below \<open>x = 2 ^ 31\<close> the recomputed box of the right son of the root is disjoint
  from every query, wherever its points are: its half of the points is missed.
\<close>

lemma br_cell_count_misses_right_half:
  assumes "mbr_mbr_relation cur query = 0" and "pt_x (snd query) < 2 ^ 31" and "r \<noteq> BrNull" "l \<noteq> BrNull"
  shows "br_cell_count (BrInte m l r n) query cur =
    br_cell_count_node l query (fst (br_cell_boxes cur 0 0 32 True)) 0 0 32 False"
proof -
  have s: "fmul 1 (of_int (uint (push_bit 31 (1 :: 32 word)))) = 2 ^ 31" by (rule split_value_eq) simp
  have "aligned 32 0" by (simp add: aligned_def)
  then have a: "fadd 0 (2 ^ 31) = 2 ^ 31" using aligned_half(2) [of 31 0] by simp
  obtain L_box R_box rx ry b' where c: "br_cell_boxes cur 0 0 32 True = (L_box, R_box, rx, ry, b')"
    by (metis prod_cases5)
  then have b: "b' = 32" and R: "2 ^ 31 \<le> pt_x (fst R_box)"
    by (auto simp: br_cell_boxes_def Let_def s [simplified] a [simplified])
  have "mbr_mbr_relation R_box query < 0"
    unfolding relation_excluded using R assms(2) by (auto simp: point_in_mbr_def)
  then have "br_cell_count_node r query R_box rx ry b' False = Some 0" by (cases r) (simp_all add: Let_def)
  with c b assms show ?thesis by (simp add: br_cell_count_def Let_def)
qed

end
