(* ===== verification/BRStats.thy ===== *)
theory BRStats
  imports BRTree MvqStats
begin

text \<open>
  The remaining routines of the namespace \<open>BRTree\<close> of \<open>index/pacz.hpp\<close>: the
  hash, the number of nodes of all versions, the traversals that print, and the count that
  also passes a current box.
\<close>

unbundle bit_operations_syntax

section \<open>Hash and traversals\<close>

fun br_tree_hash :: "(64 word \<Rightarrow> 64 word) \<Rightarrow> br_tree \<Rightarrow> hash_counts \<Rightarrow> (32 word \<times> hash_counts) option" where
  "br_tree_hash hash64 BrNull c = None"
| "br_tree_hash hash64 (BrLeaf mbr records) c =
     Some (hash_int hash64 (leaf_hash hash64 records), count_leaf_visit records c)"
| "br_tree_hash hash64 (BrInte mbr l r n) c =
     do {
       let c = c\<lparr>node_cnt := node_cnt c + 1\<rparr>;
       (L, c) \<leftarrow> (if l \<noteq> BrNull then br_tree_hash hash64 l c else Some (0, c));
       (R, c) \<leftarrow> (if r \<noteq> BrNull then br_tree_hash hash64 r c else Some (0, c));
       Some (hash_int hash64 (L XOR R), c) }"

text \<open>What is printed: the boxes of the first traversal, the leaves of the second.\<close>

fun in_order_boxes :: "br_tree \<Rightarrow> Bounding_Box list option" where
  "in_order_boxes BrNull = None"
| "in_order_boxes (BrLeaf mbr records) = Some [mbr]"
| "in_order_boxes (BrInte mbr l r n) =
     do {
       L \<leftarrow> (if l \<noteq> BrNull then in_order_boxes l else Some []);
       R \<leftarrow> (if r \<noteq> BrNull then in_order_boxes r else Some []);
       Some (mbr # L @ R) }"

fun in_order_leaves :: "br_tree \<Rightarrow> 32 word \<Rightarrow> 32 word \<Rightarrow> nat \<Rightarrow> bool \<Rightarrow> point list list option" where
  "in_order_leaves BrNull x_prefix y_prefix b x_splitter = None"
| "in_order_leaves (BrLeaf mbr records) x_prefix y_prefix b x_splitter = Some [records]"
| "in_order_leaves (BrInte mbr l r n) x_prefix y_prefix b x_splitter =
     (if x_splitter
      then do {
        L \<leftarrow> (if l \<noteq> BrNull then in_order_leaves l x_prefix y_prefix b (\<not> x_splitter) else Some []);
        R \<leftarrow> (if r \<noteq> BrNull
               then in_order_leaves r (x_prefix + push_bit (b - 1) 1) y_prefix b (\<not> x_splitter) else Some []);
        Some (L @ R) }
      else do {
        L \<leftarrow> (if l \<noteq> BrNull then in_order_leaves l x_prefix y_prefix (b - 1) (\<not> x_splitter) else Some []);
        R \<leftarrow> (if r \<noteq> BrNull
               then in_order_leaves r x_prefix (y_prefix + push_bit (b - 1) 1) (b - 1) (\<not> x_splitter) else Some []);
        Some (L @ R) })"

text \<open>Whatever the prefixes, the second traversal prints the records in order.\<close>

lemma in_order_leaves_records:
  "t \<noteq> BrNull \<Longrightarrow> \<exists>ls. in_order_leaves t xp yp b s = Some ls \<and> concat ls = br_records t"
proof (induction t arbitrary: xp yp b s)
  case (BrInte m l r n)
  have sub: "\<exists>ls. (if t \<noteq> BrNull then in_order_leaves t xp yp b s else Some []) = Some ls \<and> concat ls = br_records t"
    if "\<And>xp yp b s. t \<noteq> BrNull \<Longrightarrow> \<exists>ls. in_order_leaves t xp yp b s = Some ls \<and> concat ls = br_records t"
    for t xp yp b s using that by (cases "t = BrNull") auto
  note L = sub [OF BrInte.IH(1)] and R = sub [OF BrInte.IH(2)]
  show ?case
  proof (cases s)
    case True
    obtain ll where ll: "(if l \<noteq> BrNull then in_order_leaves l xp yp b (\<not> s) else Some []) = Some ll" "concat ll = br_records l"
      using L by blast
    obtain lr where lr: "(if r \<noteq> BrNull then in_order_leaves r (xp + push_bit (b - 1) 1) yp b (\<not> s) else Some []) = Some lr"
      "concat lr = br_records r" using R by blast
    show ?thesis
      unfolding in_order_leaves.simps if_P [OF True] ll(1) lr(1) Option.bind.simps using ll(2) lr(2) by simp
  next
    case False
    obtain ll where ll: "(if l \<noteq> BrNull then in_order_leaves l xp yp (b - 1) (\<not> s) else Some []) = Some ll" "concat ll = br_records l"
      using L by blast
    obtain lr where lr: "(if r \<noteq> BrNull then in_order_leaves r xp (yp + push_bit (b - 1) 1) (b - 1) (\<not> s) else Some []) = Some lr"
      "concat lr = br_records r" using R by blast
    show ?thesis
      unfolding in_order_leaves.simps if_not_P [OF False] ll(1) lr(1) Option.bind.simps using ll(2) lr(2) by simp
  qed
qed simp_all

section \<open>Counting with a current box\<close>

text \<open>
  The overload carries a box, cut back to the far side of the son's box, that no test
  reads: it counts what the plain overload counts.
\<close>

definition br_cut :: "Bounding_Box \<Rightarrow> Bounding_Box \<Rightarrow> bool \<Rightarrow> bool \<Rightarrow> Bounding_Box" where
  "br_cut cur_mbr son_mbr is_left x_splitter =
     (if is_left
      then (fst cur_mbr, if x_splitter then (snd cur_mbr)\<lparr>pt_x := pt_x (snd son_mbr)\<rparr>
                         else (snd cur_mbr)\<lparr>pt_y := pt_y (snd son_mbr)\<rparr>)
      else (if x_splitter then (fst cur_mbr)\<lparr>pt_x := pt_x (fst son_mbr)\<rparr>
            else (fst cur_mbr)\<lparr>pt_y := pt_y (fst son_mbr)\<rparr>, snd cur_mbr))"

fun br_count_cur_node :: "br_tree \<Rightarrow> Bounding_Box \<Rightarrow> Bounding_Box \<Rightarrow> bool \<Rightarrow> 64 word option" where
  "br_count_cur_node BrNull query_mbr cur_mbr x_splitter = None"
| "br_count_cur_node (BrLeaf mbr records) query_mbr cur_mbr x_splitter =
     (let flag = mbr_mbr_relation mbr query_mbr in
      if flag < 0 then Some 0
      else if flag > 0 then br_get_num_points (BrLeaf mbr records)
      else Some (of_nat (length (filter (\<lambda>p. point_in_mbr p query_mbr) records))))"
| "br_count_cur_node (BrInte mbr l_son r_son n) query_mbr cur_mbr x_splitter =
     (let flag = mbr_mbr_relation mbr query_mbr in
      if flag < 0 then Some 0
      else if flag > 0 then br_get_num_points (BrInte mbr l_son r_son n)
      else do {
        ret_L \<leftarrow> (case br_mbr l_son of None \<Rightarrow> Some 0
                   | Some m \<Rightarrow> br_count_cur_node l_son query_mbr (br_cut cur_mbr m True x_splitter) (\<not> x_splitter));
        ret_R \<leftarrow> (case br_mbr r_son of None \<Rightarrow> Some 0
                   | Some m \<Rightarrow> br_count_cur_node r_son query_mbr (br_cut cur_mbr m False x_splitter) (\<not> x_splitter));
        Some (ret_L + ret_R) })"

lemma br_mbr_None [simp]: "br_mbr t = None \<longleftrightarrow> t = BrNull"
  by (cases t) simp_all

lemma br_count_cur_eq: "br_count_cur_node t q cur s = br_range_count_node t q"
proof (induction t arbitrary: cur s)
  case (BrInte m l r n)
  then show ?case by (cases "br_mbr l"; cases "br_mbr r") (auto simp: Let_def)
qed simp_all

section \<open>The number of nodes\<close>

text \<open>
  \<open>tree_node_count\<close> collects addresses and stops at a node it has seen, so here the
  nodes are on a store; only the sons matter. \<open>fuel\<close> bounds the depth.
\<close>

datatype br_node = BrNLeaf | BrNInte "addr option" "addr option"

type_synonym br_store = "addr \<Rightarrow> br_node option"

fun tree_node_count :: "br_store \<Rightarrow> addr option \<Rightarrow> addr list \<Rightarrow> nat \<Rightarrow> addr list option" where
  "tree_node_count st None s fuel = Some s"
| "tree_node_count st (Some a) s fuel =
     (case st a of
        None \<Rightarrow> None
      | Some BrNLeaf \<Rightarrow> Some (if a \<in> set s then s else a # s)
      | Some (BrNInte l_son r_son) \<Rightarrow>
          (if a \<in> set s then Some s
           else (case fuel of 0 \<Rightarrow> None
                 | Suc fuel' \<Rightarrow> do {
                     s \<leftarrow> tree_node_count st l_son (a # s) fuel';
                     tree_node_count st r_son s fuel' })))"

fun count_roots :: "br_store \<Rightarrow> addr option list \<Rightarrow> addr list \<Rightarrow> nat \<Rightarrow> addr list option" where
  "count_roots st [] s fuel = Some s"
| "count_roots st (rt # roots) s fuel = Option.bind (tree_node_count st rt s fuel) (\<lambda>s. count_roots st roots s fuel)"

definition node_count :: "br_store \<Rightarrow> addr option list \<Rightarrow> nat \<Rightarrow> nat option" where
  "node_count st roots fuel = map_option length (count_roots st roots [] fuel)"

fun fits :: "br_store \<Rightarrow> addr option \<Rightarrow> nat \<Rightarrow> bool" where
  "fits st None fuel \<longleftrightarrow> True"
| "fits st (Some a) fuel \<longleftrightarrow>
     (case st a of
        None \<Rightarrow> False
      | Some BrNLeaf \<Rightarrow> True
      | Some (BrNInte l r) \<Rightarrow> (case fuel of 0 \<Rightarrow> False | Suc f \<Rightarrow> fits st l f \<and> fits st r f))"

inductive br_reaches :: "br_store \<Rightarrow> addr option \<Rightarrow> addr \<Rightarrow> bool" for st where
  br_here: "st a = Some nd \<Longrightarrow> br_reaches st (Some a) a"
| br_left: "st c = Some (BrNInte l r) \<Longrightarrow> br_reaches st l a \<Longrightarrow> br_reaches st (Some c) a"
| br_right: "st c = Some (BrNInte l r) \<Longrightarrow> br_reaches st r a \<Longrightarrow> br_reaches st (Some c) a"

inductive_cases br_reachesE: "br_reaches st p a"

definition br_nodes :: "br_store \<Rightarrow> addr option \<Rightarrow> addr set" where
  "br_nodes st p = {a. br_reaches st p a}"

lemma br_nodes_None [simp]: "br_nodes st None = {}"
  by (auto simp: br_nodes_def elim: br_reachesE)

lemma br_nodes_leaf: "st a = Some BrNLeaf \<Longrightarrow> br_nodes st (Some a) = {a}"
  by (auto simp: br_nodes_def elim: br_reachesE intro: br_here)

lemma br_nodes_inte:
  "st a = Some (BrNInte l r) \<Longrightarrow> br_nodes st (Some a) = insert a (br_nodes st l \<union> br_nodes st r)"
  by (auto simp: br_nodes_def elim: br_reachesE intro: br_reaches.intros)

lemma fits_Suc: "fits st p fuel \<Longrightarrow> fits st p (Suc fuel)"
  by (induction st p fuel rule: fits.induct) (auto split: option.splits br_node.splits nat.splits)

lemma fits_reached: "br_reaches st p a \<Longrightarrow> fits st p fuel \<Longrightarrow> fits st (Some a) fuel"
proof (induction arbitrary: fuel rule: br_reaches.induct)
  case (br_left c l r a)
  then show ?case by (cases fuel) (auto simp del: fits.simps(2) intro: fits_Suc simp: fits.simps(2) [of _ c])
next
  case (br_right c l r a)
  then show ?case by (cases fuel) (auto simp del: fits.simps(2) intro: fits_Suc simp: fits.simps(2) [of _ c])
qed

lemma no_cycle:
  assumes "st a = Some (BrNInte l r)" "fits st (Some a) fuel"
  shows "a \<notin> br_nodes st l" "a \<notin> br_nodes st r"
proof -
  define m where "m = (LEAST m. fits st (Some a) m)"
  have m: "fits st (Some a) m" unfolding m_def using assms(2) by (rule LeastI)
  then obtain m' where m': "m = Suc m'" "fits st l m'" "fits st r m'"
    using assms(1) by (cases m) auto
  have "\<not> fits st (Some a) m'" using not_less_Least [of m' "fits st (Some a)"] m'(1) by (simp add: m_def del: fits.simps)
  then show "a \<notin> br_nodes st l" "a \<notin> br_nodes st r"
    using fits_reached m' unfolding br_nodes_def by blast+
qed

text \<open>Every collected node off the path to the root has its descendants collected.\<close>

definition collected :: "br_store \<Rightarrow> addr set \<Rightarrow> addr list \<Rightarrow> bool" where
  "collected st path s \<longleftrightarrow> distinct s \<and> (\<forall>a\<in>set s - path. br_nodes st (Some a) \<subseteq> set s)"

lemma tree_node_count_collects:
  "fits st p fuel \<Longrightarrow> collected st path s \<Longrightarrow> br_nodes st p \<inter> path = {} \<Longrightarrow>
   \<exists>s'. tree_node_count st p s fuel = Some s' \<and> set s' = set s \<union> br_nodes st p \<and> collected st path s'"
proof (induction st p s fuel arbitrary: path rule: tree_node_count.induct)
  case (2 st a s fuel)
  show ?case
  proof (cases "st a")
    case (Some nd)
    show ?thesis
    proof (cases nd)
      case BrNLeaf
      then show ?thesis using Some 2 by (auto simp: collected_def br_nodes_leaf)
    next
      case (BrNInte l r)
      with Some have c: "st a = Some (BrNInte l r)" by simp
      have n: "br_nodes st (Some a) = insert a (br_nodes st l \<union> br_nodes st r)" by (rule br_nodes_inte) (rule c)
      show ?thesis
      proof (cases "a \<in> set s")
        case True
        have "a \<notin> path" using 2(5) n by auto
        then have "br_nodes st (Some a) \<subseteq> set s" using True 2(4) by (auto simp: collected_def)
        then show ?thesis using True c 2(4) by auto
      next
        case False
        obtain f where f: "fuel = Suc f" "fits st l f" "fits st r f"
          using 2(3) c by (cases fuel) auto
        note nc = no_cycle [OF c 2(3)]
        have "collected st (insert a path) (a # s)" using 2(4) False by (auto simp: collected_def)
        then obtain s1 where s1: "tree_node_count st l (a # s) f = Some s1"
            "set s1 = set (a # s) \<union> br_nodes st l" "collected st (insert a path) s1"
          using 2(1) [OF c refl False f(1) f(2), of "insert a path"] 2(5) n nc by auto
        obtain s2 where s2: "tree_node_count st r s1 f = Some s2"
            "set s2 = set s1 \<union> br_nodes st r" "collected st (insert a path) s2"
          using 2(2) [OF c refl False f(1) s1(1) f(3) s1(3)] 2(5) n nc by auto
        have "collected st path s2" using s2 s1(2) n unfolding collected_def by auto
        then show ?thesis using s1 s2 c False f(1) n by auto
      qed
    qed
  qed (use 2 in simp)
qed simp

lemma node_count_exact:
  assumes "\<forall>p\<in>set roots. fits st p fuel"
  shows "node_count st roots fuel = Some (card (\<Union>p\<in>set roots. br_nodes st p))"
proof -
  have "\<exists>s'. count_roots st roots s fuel = Some s' \<and> set s' = set s \<union> (\<Union>p\<in>set roots. br_nodes st p) \<and> distinct s'"
    if "collected st {} s" "\<forall>p\<in>set roots. fits st p fuel" for s
    using that
  proof (induction roots arbitrary: s)
    case Nil then show ?case by (simp add: collected_def)
  next
    case (Cons p roots)
    then obtain s1 where "tree_node_count st p s fuel = Some s1" "set s1 = set s \<union> br_nodes st p" "collected st {} s1"
      using tree_node_count_collects [of st p fuel "{}" s] by auto
    with Cons.IH [of s1] Cons.prems show ?case by (auto simp: Un_assoc)
  qed
  from this [of "[]"] assms obtain s where s: "count_roots st roots [] fuel = Some s"
    "set s = (\<Union>p\<in>set roots. br_nodes st p)" "distinct s" by (auto simp: collected_def)
  then show ?thesis using distinct_card [OF s(3)] by (simp add: node_count_def)
qed

end
