(* ===== verification/Dataset.thy ===== *)
theory Dataset
  imports GeoBox "HOL-Library.Monad_Syntax"
begin

text \<open>
  Where point sets and edits come from: the loader of \<open>core/dataset_loader.hpp\<close>, which
  turns the rows of a snapshot and of yearly commit files into a base point set, a sequence
  of events and the box of everything, and the readers and query boxes of \<open>geo/io.hpp\<close>.
  A file is the list of its lines, \<open>None\<close> when it does not open; \<open>std::stod\<close> and
  \<open>std::stoull\<close> are parameters that are \<open>None\<close> where they throw.
\<close>

section \<open>Rows\<close>

record operation =
  op_type :: char
  node_id :: "64 word"
  op_lon :: FT
  op_lat :: FT

text \<open>\<open>type\<close> and \<open>timestamp\<close> of an event are never set.\<close>

record event =
  changeset_id :: "64 word"
  ops :: "operation list"
  event_year :: int

text \<open>\<open>getline(ss, field, ',')\<close> repeated; beyond the last field the string stays empty.\<close>

fun next_field :: "string \<Rightarrow> string \<times> string" where
  "next_field [] = ([], [])"
| "next_field (c # cs) = (if c = CHR '','' then ([], cs) else (let (f, rest) = next_field cs in (c # f, rest)))"

fun split_fields :: "nat \<Rightarrow> string \<Rightarrow> string list" where
  "split_fields 0 line = []"
| "split_fields (Suc n) line = (let (f, rest) = next_field line in f # split_fields n rest)"

record parsers =
  stod :: "string \<Rightarrow> FT option"
  stoull :: "string \<Rightarrow> 64 word option"

definition scaled :: "parsers \<Rightarrow> string \<Rightarrow> FT option" where
  "scaled ps s = map_option (\<lambda>v. fmul v 1000000) (stod ps s)"

definition base_row :: "parsers \<Rightarrow> string \<Rightarrow> point option" where
  "base_row ps line =
     (let f = split_fields 4 line in
      do { lon \<leftarrow> scaled ps (f ! 2); lat \<leftarrow> scaled ps (f ! 3); nid \<leftarrow> stoull ps (f ! 0);
           Some (Point3 nid lon lat) })"

definition first_char :: "string \<Rightarrow> char" where
  "first_char s = (case s of [] \<Rightarrow> CHR 0x00 | c # _ \<Rightarrow> c)"

definition commit_row :: "parsers \<Rightarrow> string \<Rightarrow> (64 word \<times> operation) option" where
  "commit_row ps line =
     (let f = split_fields 8 line in
      do { cs \<leftarrow> stoull ps (f ! 0); nid \<leftarrow> stoull ps (f ! 4);
           if first_char (f ! 3) \<noteq> CHR ''D''
           then do { lon \<leftarrow> scaled ps (f ! 6); lat \<leftarrow> scaled ps (f ! 7);
                     Some (cs, \<lparr>op_type = first_char (f ! 3), node_id = nid, op_lon = lon, op_lat = lat\<rparr>) }
           else Some (cs, \<lparr>op_type = first_char (f ! 3), node_id = nid, op_lon = 0, op_lat = 0\<rparr>) })"

section \<open>Loading\<close>

text \<open>\<open>min_x\<close>, \<open>min_y\<close>, \<open>max_x\<close>, \<open>max_y\<close> as the two corners of a box.\<close>

definition start_mbr :: Bounding_Box where
  "start_mbr = (Point2 (10 ^ 18) (10 ^ 18), Point2 (- (10 ^ 18)) (- (10 ^ 18)))"

definition update_mbr :: "Bounding_Box \<Rightarrow> FT \<Rightarrow> FT \<Rightarrow> Bounding_Box" where
  "update_mbr m lon lat =
     (Point2 (if lon < pt_x (fst m) then lon else pt_x (fst m)) (if lat < pt_y (fst m) then lat else pt_y (fst m)),
      Point2 (if lon > pt_x (snd m) then lon else pt_x (snd m)) (if lat > pt_y (snd m) then lat else pt_y (snd m)))"

fun load_base :: "parsers \<Rightarrow> string list \<Rightarrow> point list \<times> Bounding_Box \<Rightarrow> (point list \<times> Bounding_Box) option" where
  "load_base ps [] st = Some st"
| "load_base ps (line # lines) st =
     (case base_row ps line of
        None \<Rightarrow> None
      | Some p \<Rightarrow> load_base ps lines (fst st @ [p], update_mbr (snd st) (pt_x p) (pt_y p)))"

record group_state =
  all_events :: "event list"
  current_event :: event
  first_row :: bool
  seen_mbr :: Bounding_Box

text \<open>One row: a new changeset closes the current event.\<close>

definition group_row :: "64 word \<times> operation \<Rightarrow> group_state \<Rightarrow> group_state" where
  "group_row row g =
     (case row of (cs, op) \<Rightarrow>
        let g = (if op_type op \<noteq> CHR ''D'' then g\<lparr>seen_mbr := update_mbr (seen_mbr g) (op_lon op) (op_lat op)\<rparr> else g);
            g = (if first_row g then g\<lparr>current_event := (current_event g)\<lparr>changeset_id := cs\<rparr>, first_row := False\<rparr> else g);
            g = (if changeset_id (current_event g) \<noteq> cs
                 then g\<lparr>all_events := all_events g @ [current_event g],
                        current_event := (current_event g)\<lparr>ops := [], changeset_id := cs\<rparr>\<rparr>
                 else g)
         in g\<lparr>current_event := (current_event g)\<lparr>ops := ops (current_event g) @ [op]\<rparr>\<rparr>)"

fun load_rows :: "parsers \<Rightarrow> string list \<Rightarrow> group_state \<Rightarrow> group_state option" where
  "load_rows ps [] g = Some g"
| "load_rows ps (line # lines) g =
     (case commit_row ps line of None \<Rightarrow> None | Some row \<Rightarrow> load_rows ps lines (group_row row g))"

definition load_year ::
  "parsers \<Rightarrow> int \<Rightarrow> string list option \<Rightarrow> event list \<times> Bounding_Box \<Rightarrow> (event list \<times> Bounding_Box) option" where
  "load_year ps year file st =
     (case file of
        None \<Rightarrow> Some st
      | Some lines \<Rightarrow>
          map_option
            (\<lambda>g. (if ops (current_event g) \<noteq> [] then all_events g @ [current_event g] else all_events g, seen_mbr g))
            (load_rows ps (tl lines)
              \<lparr>all_events = fst st, current_event = \<lparr>changeset_id = 0, ops = [], event_year = year\<rparr>,
               first_row = True, seen_mbr = snd st\<rparr>))"

fun load_years ::
  "parsers \<Rightarrow> (int \<Rightarrow> string list option) \<Rightarrow> int list \<Rightarrow> event list \<times> Bounding_Box \<Rightarrow> (event list \<times> Bounding_Box) option" where
  "load_years ps files [] st = Some st"
| "load_years ps files (year # years) st = Option.bind (load_year ps year (files year) st) (load_years ps files years)"

definition pad_mbr :: "Bounding_Box \<Rightarrow> Bounding_Box" where
  "pad_mbr m =
     (let dx = fmul (fsub (pt_x (snd m)) (pt_x (fst m))) (rnd64 (1 / 100));
          dy = fmul (fsub (pt_y (snd m)) (pt_y (fst m))) (rnd64 (1 / 100))
       in (Point2 (fsub (pt_x (fst m)) dx) (fsub (pt_y (fst m)) dy),
           Point2 (fadd (pt_x (snd m)) dx) (fadd (pt_y (snd m)) dy)))"

record dataset =
  base_data :: "point list"
  events :: "event list"
  largest_mbr :: Bounding_Box

text \<open>Without a base snapshot the loader returns with everything as it was.\<close>

definition load ::
  "parsers \<Rightarrow> string list option \<Rightarrow> (int \<Rightarrow> string list option) \<Rightarrow> int \<Rightarrow> int \<Rightarrow> dataset \<Rightarrow> dataset option" where
  "load ps base files start_year end_year d =
     (case base of
        None \<Rightarrow> Some d
      | Some lines \<Rightarrow> do {
          (pts, m) \<leftarrow> load_base ps (tl lines) (base_data d, start_mbr);
          (evs, m) \<leftarrow> load_years ps files [start_year..end_year] (events d, m);
          Some \<lparr>base_data = pts, events = evs, largest_mbr = pad_mbr m\<rparr> })"

section \<open>What is loaded\<close>

definition tagged :: "event \<Rightarrow> (64 word \<times> operation) list" where
  "tagged e = map (Pair (changeset_id e)) (ops e)"

definition rows_of :: "event list \<Rightarrow> (64 word \<times> operation) list" where
  "rows_of es = concat (map tagged es)"

text \<open>The events of a year, from the state of the loop.\<close>

definition year_events :: "group_state \<Rightarrow> event list" where
  "year_events g = (if ops (current_event g) \<noteq> [] then all_events g @ [current_event g] else all_events g)"

definition well_grouped :: "int \<Rightarrow> event list \<Rightarrow> bool" where
  "well_grouped year es \<longleftrightarrow> (\<forall>e\<in>set es. ops e \<noteq> [] \<and> event_year e = year) \<and>
     (\<forall>i. Suc i < length es \<longrightarrow> changeset_id (es ! i) \<noteq> changeset_id (es ! Suc i))"

lemma well_grouped_snoc:
  assumes "well_grouped year es" "ops e \<noteq> []" "event_year e = year"
    "es \<noteq> [] \<Longrightarrow> changeset_id (last es) \<noteq> changeset_id e"
  shows "well_grouped year (es @ [e])"
proof -
  have "changeset_id ((es @ [e]) ! i) \<noteq> changeset_id ((es @ [e]) ! Suc i)" if "Suc i < length (es @ [e])" for i
  proof (cases "Suc i < length es")
    case True
    then show ?thesis using assms(1) by (simp add: well_grouped_def nth_append)
  next
    case False
    then have "length es = Suc i" using that by simp
    moreover from this have "es \<noteq> []" by auto
    ultimately show ?thesis using assms(4) by (simp add: nth_append last_conv_nth)
  qed
  then show ?thesis using assms by (auto simp: well_grouped_def)
qed

definition group_inv :: "int \<Rightarrow> event list \<Rightarrow> (64 word \<times> operation) list \<Rightarrow> group_state \<Rightarrow> bool" where
  "group_inv year old rows g \<longleftrightarrow> (\<exists>es. all_events g = old @ es \<and> well_grouped year es \<and>
     rows = rows_of es @ tagged (current_event g) \<and> event_year (current_event g) = year \<and>
     (first_row g \<longleftrightarrow> rows = []) \<and> (first_row g \<longrightarrow> es = []) \<and> (\<not> first_row g \<longrightarrow> ops (current_event g) \<noteq> []) \<and>
     (es \<noteq> [] \<longrightarrow> changeset_id (last es) \<noteq> changeset_id (current_event g)))"

lemma group_row_sel:
  "first_row (group_row (cs, op) g) = False"
  "first_row g \<Longrightarrow> all_events (group_row (cs, op) g) = all_events g"
  "first_row g \<Longrightarrow> current_event (group_row (cs, op) g) =
     (current_event g)\<lparr>changeset_id := cs, ops := ops (current_event g) @ [op]\<rparr>"
  "\<not> first_row g \<Longrightarrow> changeset_id (current_event g) = cs \<Longrightarrow> all_events (group_row (cs, op) g) = all_events g"
  "\<not> first_row g \<Longrightarrow> changeset_id (current_event g) = cs \<Longrightarrow> current_event (group_row (cs, op) g) =
     (current_event g)\<lparr>ops := ops (current_event g) @ [op]\<rparr>"
  "\<not> first_row g \<Longrightarrow> changeset_id (current_event g) \<noteq> cs \<Longrightarrow>
     all_events (group_row (cs, op) g) = all_events g @ [current_event g]"
  "\<not> first_row g \<Longrightarrow> changeset_id (current_event g) \<noteq> cs \<Longrightarrow> current_event (group_row (cs, op) g) =
     (current_event g)\<lparr>changeset_id := cs, ops := [op]\<rparr>"
  by (simp_all add: group_row_def Let_def)

lemma rows_of_snoc: "rows_of (es @ [e]) = rows_of es @ tagged e"
  by (simp add: rows_of_def)

lemma group_invI:
  assumes "all_events g = old @ es" "well_grouped year es" "rows = rows_of es @ tagged (current_event g)"
    "event_year (current_event g) = year" "first_row g \<longleftrightarrow> rows = []" "first_row g \<longrightarrow> es = []"
    "\<not> first_row g \<longrightarrow> ops (current_event g) \<noteq> []"
    "es \<noteq> [] \<longrightarrow> changeset_id (last es) \<noteq> changeset_id (current_event g)"
  shows "group_inv year old rows g"
  unfolding group_inv_def using assms by blast

lemma group_row_inv:
  assumes "group_inv year old rows g" shows "group_inv year old (rows @ [(cs, op)]) (group_row (cs, op) g)"
proof -
  obtain es where es: "all_events g = old @ es" "well_grouped year es"
      "rows = rows_of es @ tagged (current_event g)" "event_year (current_event g) = year"
      "first_row g \<longleftrightarrow> rows = []" "first_row g \<longrightarrow> es = []" "\<not> first_row g \<longrightarrow> ops (current_event g) \<noteq> []"
      "es \<noteq> [] \<longrightarrow> changeset_id (last es) \<noteq> changeset_id (current_event g)"
    using assms unfolding group_inv_def by blast
  consider (first) "first_row g" | (same) "\<not> first_row g" "changeset_id (current_event g) = cs"
    | (new) "\<not> first_row g" "changeset_id (current_event g) \<noteq> cs" by blast
  then show ?thesis
  proof cases
    case first
    then have e: "es = []" "rows = []" using es(5,6) by simp_all
    then have "ops (current_event g) = []" using es(3) by (simp add: tagged_def)
    then show ?thesis using e(2) es(1,4) unfolding e(1)
      by (intro group_invI [of _ _ "[]"])
        (simp_all add: group_row_sel(1) group_row_sel(2,3) [OF first] tagged_def rows_of_def well_grouped_def)
  next
    case same
    have "rows @ [(cs, op)] = rows_of es @ (tagged (current_event g) @ [(cs, op)])" using es(3) by simp
    then show ?thesis using es(1,2,4,8) same(2)
      by (intro group_invI [of _ _ es])
        (simp_all add: group_row_sel(1) group_row_sel(4,5) [OF same] tagged_def)
  next
    case new
    have wg: "well_grouped year (es @ [current_event g])"
      by (rule well_grouped_snoc [OF es(2) _ es(4)]) (use es(7,8) new in blast)+
    have "rows @ [(cs, op)] = rows_of (es @ [current_event g]) @ [(cs, op)]" using es(3) by (simp add: rows_of_snoc)
    then show ?thesis using es(1,4) wg new(2)
      by (intro group_invI [of _ _ "es @ [current_event g]"])
        (simp_all add: group_row_sel(1) group_row_sel(6,7) [OF new] tagged_def)
  qed
qed

lemma mbr_grows:
  "mbr_in_mbr m (update_mbr m lon lat)" "point_in_mbr (Point2 lon lat) (update_mbr m lon lat)"
  by (auto simp: update_mbr_def mbr_in_mbr_def point_in_mbr_def)

lemma mbr_in_mbr_trans: "mbr_in_mbr a b \<Longrightarrow> mbr_in_mbr b c \<Longrightarrow> mbr_in_mbr a c"
  by (auto simp: mbr_in_mbr_def)

lemma mbr_in_mbr_refl [simp]: "mbr_in_mbr a a"
  by (simp add: mbr_in_mbr_def)

definition op_covered :: "Bounding_Box \<Rightarrow> operation \<Rightarrow> bool" where
  "op_covered m op \<longleftrightarrow> (op_type op \<noteq> CHR ''D'' \<longrightarrow> point_in_mbr (Point2 (op_lon op) (op_lat op)) m)"

lemma op_covered_mono: "op_covered a op \<Longrightarrow> mbr_in_mbr a b \<Longrightarrow> op_covered b op"
  by (auto simp: op_covered_def mbr_in_mbr_def point_in_mbr_def)

lemma group_row_mbr:
  "mbr_in_mbr (seen_mbr g) (seen_mbr (group_row (cs, op) g)) \<and> op_covered (seen_mbr (group_row (cs, op) g)) op"
  using mbr_grows by (auto simp: group_row_def Let_def op_covered_def)

lemma load_rows_groups:
  assumes "group_inv year old done g" "\<forall>x\<in>set done. op_covered (seen_mbr g) (snd x)"
    "those (map (commit_row ps) lines) = Some rows"
  shows "\<exists>g'. load_rows ps lines g = Some g' \<and> group_inv year old (done @ rows) g' \<and>
    mbr_in_mbr (seen_mbr g) (seen_mbr g') \<and> (\<forall>x\<in>set (done @ rows). op_covered (seen_mbr g') (snd x))"
  using assms
proof (induction lines arbitrary: g rows "done")
  case (Cons line lines)
  obtain row rows' where r: "commit_row ps line = Some row" "those (map (commit_row ps) lines) = Some rows'" "rows = row # rows'"
    using Cons.prems(3) by (auto split: option.splits)
  obtain cs op where row: "row = (cs, op)" by (cases row)
  note m = group_row_mbr [of g cs op, folded row]
  have "\<forall>x\<in>set (done @ [row]). op_covered (seen_mbr (group_row row g)) (snd x)"
    using Cons.prems(2) op_covered_mono [OF _ conjunct1 [OF m]] conjunct2 [OF m] row by (simp add: ball_Un)
  from Cons.IH [OF group_row_inv [OF Cons.prems(1), of cs op, folded row] this r(2)]
  obtain g' where "load_rows ps lines (group_row row g) = Some g'" "group_inv year old (done @ row # rows') g'"
    "mbr_in_mbr (seen_mbr (group_row row g)) (seen_mbr g')"
    "\<forall>x\<in>set (done @ row # rows'). op_covered (seen_mbr g') (snd x)" by auto
  moreover have "mbr_in_mbr (seen_mbr g) (seen_mbr g')"
    by (rule mbr_in_mbr_trans [OF conjunct1 [OF m] calculation(3)])
  ultimately show ?case using r by auto
qed auto

lemma load_year_groups:
  assumes "those (map (commit_row ps) (tl lines)) = Some rows"
  shows "\<exists>es m'. load_year ps year (Some lines) (old, m) = Some (old @ es, m') \<and> rows_of es = rows \<and>
    well_grouped year es \<and> mbr_in_mbr m m' \<and> (\<forall>x\<in>set rows. op_covered m' (snd x))"
proof -
  let ?g = "\<lparr>all_events = old, current_event = \<lparr>changeset_id = 0, ops = [], event_year = year\<rparr>,
      first_row = True, seen_mbr = m\<rparr>"
  have "group_inv year old [] ?g" by (auto simp: group_inv_def well_grouped_def rows_of_def tagged_def)
  from load_rows_groups [OF this _ assms] obtain g where
    g: "load_rows ps (tl lines) ?g = Some g" "group_inv year old rows g" "mbr_in_mbr m (seen_mbr g)"
      "\<forall>x\<in>set rows. op_covered (seen_mbr g) (snd x)" by auto
  from g(2) obtain es where es: "all_events g = old @ es" "well_grouped year es"
      "rows = rows_of es @ tagged (current_event g)" "event_year (current_event g) = year"
      "es \<noteq> [] \<longrightarrow> changeset_id (last es) \<noteq> changeset_id (current_event g)"
    by (auto simp: group_inv_def)
  show ?thesis
  proof (cases "ops (current_event g) = []")
    case True
    then show ?thesis using g es by (intro exI [of _ es]) (auto simp: load_year_def tagged_def)
  next
    case False
    have "well_grouped year (es @ [current_event g])" using well_grouped_snoc [OF es(2) False es(4)] es(5) by blast
    then show ?thesis using g es False
      by (intro exI [of _ "es @ [current_event g]"]) (auto simp: load_year_def rows_of_def)
  qed
qed

fun year_rows :: "parsers \<Rightarrow> (int \<Rightarrow> string list option) \<Rightarrow> int list \<Rightarrow> (64 word \<times> operation) list option" where
  "year_rows ps files [] = Some []"
| "year_rows ps files (year # years) =
     do { rows \<leftarrow> (case files year of None \<Rightarrow> Some [] | Some lines \<Rightarrow> those (map (commit_row ps) (tl lines)));
          rest \<leftarrow> year_rows ps files years;
          Some (rows @ rest) }"

lemma rows_of_append: "rows_of (a @ b) = rows_of a @ rows_of b"
  by (simp add: rows_of_def)

lemma load_years_groups:
  "year_rows ps files years = Some rows \<Longrightarrow>
   \<exists>es m'. load_years ps files years (old, m) = Some (old @ es, m') \<and> rows_of es = rows \<and>
    (\<forall>e\<in>set es. ops e \<noteq> [] \<and> event_year e \<in> set years) \<and> mbr_in_mbr m m' \<and> (\<forall>x\<in>set rows. op_covered m' (snd x))"
proof (induction years arbitrary: old m rows)
  case Nil
  then show ?case by (intro exI [of _ "[]"]) (auto simp: rows_of_def)
next
  case (Cons year years)
  obtain r1 r2 where r: "(case files year of None \<Rightarrow> Some [] | Some lines \<Rightarrow> those (map (commit_row ps) (tl lines))) = Some r1"
      "year_rows ps files years = Some r2" "rows = r1 @ r2"
    using Cons.prems by (auto split: Option.bind_splits)
  have "\<exists>es m1. load_year ps year (files year) (old, m) = Some (old @ es, m1) \<and> rows_of es = r1 \<and>
      (\<forall>e\<in>set es. ops e \<noteq> [] \<and> event_year e = year) \<and> mbr_in_mbr m m1 \<and> (\<forall>x\<in>set r1. op_covered m1 (snd x))"
  proof (cases "files year")
    case None
    then show ?thesis using r(1) by (intro exI [of _ "[]"]) (auto simp: load_year_def rows_of_def)
  next
    case (Some lines)
    then show ?thesis using load_year_groups [of ps lines r1 year old m] r(1) by (auto simp: well_grouped_def)
  qed
  then obtain es1 m1 where 1: "load_year ps year (files year) (old, m) = Some (old @ es1, m1)" "rows_of es1 = r1"
      "\<forall>e\<in>set es1. ops e \<noteq> [] \<and> event_year e = year" "mbr_in_mbr m m1" "\<forall>x\<in>set r1. op_covered m1 (snd x)" by blast
  from Cons.IH [OF r(2), of "old @ es1" m1] obtain es2 m2 where
    2: "load_years ps files years (old @ es1, m1) = Some ((old @ es1) @ es2, m2)" "rows_of es2 = r2"
      "\<forall>e\<in>set es2. ops e \<noteq> [] \<and> event_year e \<in> set years" "mbr_in_mbr m1 m2" "\<forall>x\<in>set r2. op_covered m2 (snd x)" by blast
  have "mbr_in_mbr m m2" by (rule mbr_in_mbr_trans [OF 1(4) 2(4)])
  moreover have "\<forall>x\<in>set rows. op_covered m2 (snd x)" using 1(5) 2(4,5) r(3) op_covered_mono by fastforce
  ultimately show ?case using 1(1-3) 2(1-3) r(3)
    by (intro exI [of _ "es1 @ es2"] exI [of _ m2]) (auto simp: rows_of_append)
qed

lemma load_base_points:
  "those (map (base_row ps) lines) = Some pts \<Longrightarrow>
   \<exists>m'. load_base ps lines (old, m) = Some (old @ pts, m') \<and> mbr_in_mbr m m' \<and> (\<forall>p\<in>set pts. point_in_mbr p m')"
proof (induction lines arbitrary: old m pts)
  case (Cons line lines)
  obtain p ps' where r: "base_row ps line = Some p" "those (map (base_row ps) lines) = Some ps'" "pts = p # ps'"
    using Cons.prems by (auto split: option.splits)
  let ?m = "update_mbr m (pt_x p) (pt_y p)"
  from Cons.IH [OF r(2), of "old @ [p]" ?m] obtain m' where
    m': "load_base ps lines (old @ [p], ?m) = Some ((old @ [p]) @ ps', m')" "mbr_in_mbr ?m m'" "\<forall>p\<in>set ps'. point_in_mbr p m'"
    by blast
  have "point_in_mbr p ?m" using mbr_grows(2) [of "pt_x p" "pt_y p" m] by (simp add: point_in_mbr_def)
  then have "point_in_mbr p m'" using point_in_mbr_trans m'(2) by blast
  moreover have "mbr_in_mbr m m'" by (rule mbr_in_mbr_trans [OF mbr_grows(1) m'(2)])
  ultimately show ?case using m' r by auto
qed simp

text \<open>The padding only widens the box, as soon as it holds one point and its sides are doubles.\<close>

lemma pad_mbr_widens:
  assumes "point_in_mbr p m" "is_double (pt_x (fst m))" "is_double (pt_y (fst m))"
    "is_double (pt_x (snd m))" "is_double (pt_y (snd m))"
  shows "mbr_in_mbr m (pad_mbr m)"
proof -
  have d: "0 \<le> fmul (fsub b a) (rnd64 (1 / 100))" if "a \<le> b" for a b
    using that by (simp add: fmul_def fsub_def b64.nonneg)
  have "fsub a dx \<le> a" if "is_double a" "0 \<le> dx" for a dx
    using that b64.le_exact [of a "a - dx"] by (simp add: fsub_def is_double_def)
  moreover have "b \<le> fadd b dx" if "is_double b" "0 \<le> dx" for b dx
    using that b64.ge_exact [of b "b + dx"] by (simp add: fadd_def is_double_def)
  ultimately show ?thesis
    using d assms by (auto simp: mbr_in_mbr_def pad_mbr_def Let_def point_in_mbr_def)
qed

definition mbr_doubles :: "Bounding_Box \<Rightarrow> bool" where
  "mbr_doubles m \<longleftrightarrow> is_double (pt_x (fst m)) \<and> is_double (pt_y (fst m)) \<and> is_double (pt_x (snd m)) \<and> is_double (pt_y (snd m))"

lemma mbr_doubles_update: "mbr_doubles m \<Longrightarrow> is_double x \<Longrightarrow> is_double y \<Longrightarrow> mbr_doubles (update_mbr m x y)"
  by (auto simp: mbr_doubles_def update_mbr_def)

lemma mbr_doubles_start: "mbr_doubles start_mbr"
proof -
  have "is_double (of_int (5 ^ 18) * pow2 18)" by (rule is_double_pow2_mult) simp_all
  moreover have "of_int (5 ^ 18) * pow2 18 = (10 ^ 18 :: rat)" using pow2_of_nat [of 18] by simp
  ultimately have "is_double (10 ^ 18)" by metis
  then show ?thesis by (simp add: mbr_doubles_def start_mbr_def del: power_numeral)
qed

lemma scaled_double: "scaled ps f = Some v \<Longrightarrow> is_double v"
  by (auto simp: scaled_def fmul_def is_double_rnd64)

lemma load_base_doubles: "load_base ps lines (old, m) = Some (pts, m') \<Longrightarrow> mbr_doubles m \<Longrightarrow> mbr_doubles m'"
proof (induction lines arbitrary: old m)
  case (Cons line lines)
  then obtain p where p: "base_row ps line = Some p"
    "load_base ps lines (old @ [p], update_mbr m (pt_x p) (pt_y p)) = Some (pts, m')" by (auto split: option.splits)
  have "is_double (pt_x p)" "is_double (pt_y p)"
    using p(1) by (auto simp: base_row_def Let_def split: Option.bind_splits intro: scaled_double)
  with Cons p(2) show ?case using mbr_doubles_update by blast
qed simp

lemma group_row_doubles:
  assumes "commit_row ps line = Some row" "mbr_doubles (seen_mbr g)" shows "mbr_doubles (seen_mbr (group_row row g))"
proof -
  obtain cs op where row: "row = (cs, op)" by (cases row)
  have "op_type op \<noteq> CHR ''D'' \<longrightarrow> is_double (op_lon op) \<and> is_double (op_lat op)"
    using assms(1) unfolding row
    by (auto simp: commit_row_def Let_def split: Option.bind_splits if_splits intro: scaled_double)
  then show ?thesis using assms(2) by (auto simp: row group_row_def Let_def intro: mbr_doubles_update)
qed

lemma load_rows_doubles: "load_rows ps lines g = Some g' \<Longrightarrow> mbr_doubles (seen_mbr g) \<Longrightarrow> mbr_doubles (seen_mbr g')"
  by (induction lines arbitrary: g) (auto split: option.splits intro: group_row_doubles)

lemma load_years_doubles:
  "load_years ps files years (old, m) = Some (es, m') \<Longrightarrow> mbr_doubles m \<Longrightarrow> mbr_doubles m'"
proof (induction years arbitrary: old m)
  case (Cons year years)
  then obtain e1 m1 where 1: "load_year ps year (files year) (old, m) = Some (e1, m1)"
      "load_years ps files years (e1, m1) = Some (es, m')" by (auto split: Option.bind_splits)
  have "mbr_doubles m1"
    using 1(1) Cons.prems(2) by (auto simp: load_year_def split: option.splits dest!: load_rows_doubles)
  with Cons.IH 1(2) show ?case by blast
qed simp

text \<open>
  C39. Loading loses nothing. When every row parses, the base points are those of the snapshot
  in order; the events of all years, each with at least one operation and the year of its
  file, spell out exactly the rows of the commit files in order; and the padded box contains every
  base point and every operation that is not a deletion.
\<close>

theorem dataset_loaded:
  assumes "those (map (base_row ps) (tl lines)) = Some pts"
    and "year_rows ps files [start_year..end_year] = Some rows"
  shows "\<exists>d' es. load ps (Some lines) files start_year end_year d = Some d' \<and>
    base_data d' = base_data d @ pts \<and> events d' = events d @ es \<and> rows_of es = rows \<and>
    (\<forall>e\<in>set es. ops e \<noteq> [] \<and> event_year e \<in> {start_year..end_year}) \<and>
    (\<forall>p\<in>set pts. point_in_mbr p (largest_mbr d')) \<and>
    (\<forall>x\<in>set rows. op_covered (largest_mbr d') (snd x))"
proof -
  obtain m1 where 1: "load_base ps (tl lines) (base_data d, start_mbr) = Some (base_data d @ pts, m1)"
      "\<forall>p\<in>set pts. point_in_mbr p m1"
    using load_base_points [OF assms(1)] by blast
  obtain es m2 where 2: "load_years ps files [start_year..end_year] (events d, m1) = Some (events d @ es, m2)"
      "rows_of es = rows" "\<forall>e\<in>set es. ops e \<noteq> [] \<and> event_year e \<in> set [start_year..end_year]"
      "mbr_in_mbr m1 m2" "\<forall>x\<in>set rows. op_covered m2 (snd x)"
    using load_years_groups [OF assms(2)] by blast
  have dd: "mbr_doubles m2"
    using load_years_doubles [OF 2(1)] load_base_doubles [OF 1(1)] mbr_doubles_start by blast
  have wide: "point_in_mbr p (pad_mbr m2)" if "point_in_mbr p m2" for p
    using point_in_mbr_trans [OF that pad_mbr_widens [OF that]] dd by (simp add: mbr_doubles_def)
  have "\<forall>p\<in>set pts. point_in_mbr p (pad_mbr m2)" using 1(2) 2(4) point_in_mbr_trans wide by blast
  moreover have "\<forall>x\<in>set rows. op_covered (pad_mbr m2) (snd x)" using 2(5) wide unfolding op_covered_def by blast
  ultimately show ?thesis
    using 1(1) 2(1-3)
    by (intro exI [of _ "\<lparr>base_data = base_data d @ pts, events = events d @ es, largest_mbr = pad_mbr m2\<rparr>"] exI [of _ es])
      (simp add: load_def)
qed

definition toy_parsers :: parsers where
  "toy_parsers = \<lparr>stod = (\<lambda>s. Some (of_nat (length s))), stoull = (\<lambda>s. Some (of_nat (length s)))\<rparr>"

theorem dataset_loaded_witness:
  "\<exists>d' es. load toy_parsers (Some [''header'', ''n,v,oo,aaa'']) (\<lambda>y. if y = 2020 then Some [''h'', ''c,s,e,C,n,v,o,a''] else None)
       2020 2020 \<lparr>base_data = [], events = [], largest_mbr = start_mbr\<rparr> = Some d' \<and>
     base_data d' = [Point3 1 2000000 3000000] \<and> events d' = es \<and>
     rows_of es = [(1, \<lparr>op_type = CHR ''C'', node_id = 1, op_lon = 1000000, op_lat = 1000000\<rparr>)]"
proof -
  have f: "split_fields 4 ''n,v,oo,aaa'' = [''n'', ''v'', ''oo'', ''aaa'']"
    "split_fields 8 ''c,s,e,C,n,v,o,a'' = [''c'', ''s'', ''e'', ''C'', ''n'', ''v'', ''o'', ''a'']"
    by code_simp+
  have b: "those (map (base_row toy_parsers) (tl [''header'', ''n,v,oo,aaa''])) = Some [Point3 1 2000000 3000000]"
    by (simp add: base_row_def Let_def scaled_def toy_parsers_def f fmul_def fl_simps)
  have "year_rows toy_parsers (\<lambda>y. if y = 2020 then Some [''h'', ''c,s,e,C,n,v,o,a''] else None) [2020..2020] =
      Some [(1, \<lparr>op_type = CHR ''C'', node_id = 1, op_lon = 1000000, op_lat = 1000000\<rparr>)]"
    by (simp add: commit_row_def Let_def scaled_def toy_parsers_def first_char_def f fmul_def fl_simps)
  from dataset_loaded [OF b this, of "\<lparr>base_data = [], events = [], largest_mbr = start_mbr\<rparr>"] show ?thesis by fastforce
qed

section \<open>Reading point files and query boxes\<close>

text \<open>
  The text readers, from the values the stream yields. Synthetic points are numbered;
  real ones are scaled, and those with a negative coordinate skipped.
\<close>

definition read_pts_synthetic :: "(FT \<times> FT) list \<Rightarrow> point list \<times> Bounding_Box" where
  "read_pts_synthetic vals =
     (let P = map (\<lambda>(i, x, y). Point3 (of_nat i) x y) (zip [0..<length vals] vals)
       in (P, foldl mbr_step (Point2 FT_INF_MAX FT_INF_MAX, Point2 FT_INF_MIN FT_INF_MIN) P))"

definition read_real_step ::
  "point list \<times> Bounding_Box \<Rightarrow> 64 word \<times> FT \<times> FT \<Rightarrow> point list \<times> Bounding_Box" where
  "read_real_step st val =
     (case val of (i, x, y) \<Rightarrow>
        let x = fmul x 1000000; y = fmul y 1000000
         in if x < 0 \<or> y < 0 then st else (fst st @ [Point3 i x y], mbr_step (snd st) (Point3 i x y)))"

definition read_pts_real :: "(64 word \<times> FT \<times> FT) list \<Rightarrow> point list \<times> Bounding_Box" where
  "read_pts_real vals =
     foldl read_real_step ([], (Point2 FT_INF_MAX FT_INF_MAX, Point2 FT_INF_MIN FT_INF_MIN)) vals"

text \<open>\<open>rand() % n\<close> is a parameter pair of positions.\<close>

definition generate_range_query :: "point list \<Rightarrow> nat \<Rightarrow> nat \<Rightarrow> Bounding_Box" where
  "generate_range_query P id1 id2 =
     (Point2 (min (pt_x (P ! id1)) (pt_x (P ! id2))) (min (pt_y (P ! id1)) (pt_y (P ! id2))),
      Point2 (max (pt_x (P ! id1)) (pt_x (P ! id2))) (max (pt_y (P ! id1)) (pt_y (P ! id2))))"

lemma read_pts_synthetic_box:
  "read_pts_synthetic vals = (P, m) \<Longrightarrow> m = get_mbr P \<and> map (\<lambda>p. (pt_x p, pt_y p)) P = vals \<and> length P = length vals"
  by (auto simp: read_pts_synthetic_def get_mbr_def Let_def intro!: nth_equalityI split: prod.split)

lemma read_pts_real_box:
  "read_pts_real vals = (P, m) \<Longrightarrow> m = get_mbr P \<and> (\<forall>p\<in>set P. 0 \<le> pt_x p \<and> 0 \<le> pt_y p)"
proof -
  have "foldl read_real_step (Q, foldl mbr_step s Q) vals = (P, m) \<Longrightarrow> \<forall>p\<in>set Q. 0 \<le> pt_x p \<and> 0 \<le> pt_y p \<Longrightarrow>
      m = foldl mbr_step s P \<and> (\<forall>p\<in>set P. 0 \<le> pt_x p \<and> 0 \<le> pt_y p)" for Q s
  proof (induction vals arbitrary: Q)
    case (Cons v vals)
    obtain i x y where v: "v = (i, x, y)" by (cases v)
    show ?case
    proof (cases "fmul x 1000000 < 0 \<or> fmul y 1000000 < 0")
      case True
      then have "read_real_step (Q, foldl mbr_step s Q) v = (Q, foldl mbr_step s Q)"
        by (auto simp: read_real_step_def v Let_def)
      with Cons.prems(1) have "foldl read_real_step (Q, foldl mbr_step s Q) vals = (P, m)" by (simp only: foldl_Cons)
      then show ?thesis by (rule Cons.IH) (rule Cons.prems(2))
    next
      case False
      let ?p = "Point3 i (fmul x 1000000) (fmul y 1000000)"
      have "read_real_step (Q, foldl mbr_step s Q) v = (Q @ [?p], foldl mbr_step s (Q @ [?p]))"
        using False by (simp add: read_real_step_def v Let_def)
      with Cons.prems(1) have "foldl read_real_step (Q @ [?p], foldl mbr_step s (Q @ [?p])) vals = (P, m)"
        by (simp only: foldl_Cons)
      then show ?thesis by (rule Cons.IH) (use Cons.prems(2) False in \<open>auto simp: not_less\<close>)
    qed
  qed simp
  from this [of "[]" "(Point2 FT_INF_MAX FT_INF_MAX, Point2 FT_INF_MIN FT_INF_MIN)"] show "read_pts_real vals = (P, m) \<Longrightarrow> ?thesis" by (simp add: read_pts_real_def get_mbr_def)
qed

lemma generate_range_query_valid:
  "valid_mbr (generate_range_query P id1 id2) \<and> point_in_mbr (P ! id1) (generate_range_query P id1 id2) \<and>
   point_in_mbr (P ! id2) (generate_range_query P id1 id2)"
  by (auto simp: generate_range_query_def valid_mbr_def point_in_mbr_def)

end
